(* ===== verification/Prelude.thy ===== *)
theory Prelude
  imports Main "HOL-Library.Word" "HOL-Library.AList" "HOL-Library.Multiset"
begin

text \<open>
  Shared base of the development: machine integers, panics as values, the Rust standard
  containers as lists, comparator-based sorting, and the lemmas about them that the component
  theories use.

  Conventions. A Rust \<open>HashMap\<close> or \<open>BTreeMap\<close> is an association list with distinct keys
  (\<open>map_of\<close>, \<open>AList.update\<close>, \<open>AList.delete\<close>). A \<open>BTreeMap\<close> or \<open>BTreeSet\<close> that is iterated in
  key order is a list in that order. A \<open>HashSet\<close> is a set where the code only inserts, tests and
  counts, and a duplicate-free list where the code iterates over it. Where the iteration order of
  a hash container could matter, the order is an explicit parameter of the model.
\<close>

section \<open>Collections of facts\<close>

named_theorems res_simps \<open>equations of the result monad\<close>
named_theorems hm_simps \<open>lookup-after-update equations of the hash-map model\<close>

section \<open>Machine integers\<close>

type_synonym u8 = "8 word"
type_synonym u32 = "32 word"
type_synonym u64 = "64 word"

text \<open>\<open>u64::saturating_add\<close>.\<close>

definition saturating_add_u64 :: "u64 \<Rightarrow> u64 \<Rightarrow> u64" where
  "saturating_add_u64 a b = (if unat a + unat b < 2 ^ 64 then a + b else - 1)"

text \<open>The inclusive range \<open>a..=b\<close> over \<open>u64\<close>, in increasing order; empty when \<open>b < a\<close>.\<close>

definition u64_range :: "u64 \<Rightarrow> u64 \<Rightarrow> u64 list" where
  "u64_range a b = map of_nat [unat a ..< Suc (unat b)]"

text \<open>\<open>Iterator::step_by(2)\<close>.\<close>

fun step_by2 :: "'a list \<Rightarrow> 'a list" where
  "step_by2 [] = []"
| "step_by2 [x] = [x]"
| "step_by2 (x # y # xs) = x # step_by2 xs"

lemma set_step_by2: "set (step_by2 xs) \<subseteq> set xs"
  by (induction xs rule: step_by2.induct) auto

lemma saturating_add_ge: "a \<le> saturating_add_u64 a b"
proof (cases "unat a + unat b < 2 ^ 64")
  case True
  then have "unat (a + b) = unat a + unat b"
    by (simp add: unat_word_ariths)
  with True show ?thesis
    by (simp add: saturating_add_u64_def word_le_nat_alt)
next
  case False
  then show ?thesis by (simp add: saturating_add_u64_def)
qed

lemma saturating_add_unat: "unat (saturating_add_u64 a b) = min (unat a + unat b) (2 ^ 64 - 1)"
proof (cases "unat a + unat b < 2 ^ 64")
  case True
  then show ?thesis
    by (simp add: saturating_add_u64_def unat_word_ariths)
next
  case False
  then show ?thesis
    by (simp add: saturating_add_u64_def unsigned_minus_1_eq_mask mask_eq_exp_minus_1)
qed

lemma set_u64_range [simp]: "set (u64_range a b) = {a..b}"
proof (intro set_eqI iffI)
  fix x assume "x \<in> set (u64_range a b)"
  then obtain n where n: "unat a \<le> n" "n \<le> unat b" "x = of_nat n"
    by (auto simp: u64_range_def)
  have "unat b < 2 ^ LENGTH(64)" by (rule unsigned_less)
  then have "n < 2 ^ 64" using n(2) by simp
  then have "unat x = n" using n(3) by (simp add: unat_of_nat)
  then show "x \<in> {a..b}" using n by (simp add: word_le_nat_alt)
next
  fix x assume "x \<in> {a..b}"
  then have "unat x \<in> set [unat a ..< Suc (unat b)]"
    by (auto simp: word_le_nat_alt simp del: upt_Suc)
  moreover have "x = of_nat (unat x)" by simp
  ultimately show "x \<in> set (u64_range a b)" unfolding u64_range_def
    by (metis image_eqI list.set_map)
qed

subsection \<open>Bytes\<close>

text \<open>\<open>to_le_bytes\<close>, for a word of \<open>n\<close> bytes, and its big-endian counterpart.\<close>

definition le_bytes :: "nat \<Rightarrow> 'w::len word \<Rightarrow> u8 list" where
  "le_bytes n w = map (\<lambda>i. ucast (drop_bit (8 * i) w)) [0..<n]"

definition be_bytes :: "nat \<Rightarrow> 'w::len word \<Rightarrow> u8 list" where
  "be_bytes n w = rev (le_bytes n w)"

lemma length_le_bytes [simp]: "length (le_bytes n w) = n"
  by (simp add: le_bytes_def)

lemma length_be_bytes [simp]: "length (be_bytes n w) = n"
  by (simp add: be_bytes_def)

lemma le_bytes_inj:
  fixes v w :: "'w::len word"
  assumes eq: "le_bytes n v = le_bytes n w" and len: "LENGTH('w) \<le> 8 * n"
  shows "v = w"
proof (rule bit_word_eqI)
  fix k assume k: "k < LENGTH('w)"
  let ?i = "k div 8" and ?j = "k mod 8"
  have i: "?i < n" using k len by (simp add: less_mult_imp_div_less)
  have "le_bytes n v ! ?i = le_bytes n w ! ?i" using eq by simp
  with i have "(ucast (drop_bit (8 * ?i) v) :: u8) = ucast (drop_bit (8 * ?i) w)"
    by (simp add: le_bytes_def)
  then have "bit (ucast (drop_bit (8 * ?i) v) :: u8) ?j = bit (ucast (drop_bit (8 * ?i) w) :: u8) ?j"
    by simp
  then show "bit v k = bit w k"
    by (simp add: bit_ucast_iff bit_drop_bit_eq)
qed

lemma be_bytes_inj:
  fixes v w :: "'w::len word"
  assumes "be_bytes n v = be_bytes n w" "LENGTH('w) \<le> 8 * n"
  shows "v = w"
  using assms by (auto simp: be_bytes_def intro: le_bytes_inj)


section \<open>Association lists\<close>

lemma map_of_Some_iff: "(\<exists>v. map_of m k = Some v) \<longleftrightarrow> k \<in> set (map fst m)"
  by (metis domIff dom_map_of_conv_image_fst image_set not_None_eq)

lemma update_keys: "k \<in> set (map fst m) \<Longrightarrow> map fst (AList.update k v m) = map fst m"
  by (induction m) auto

lemma set_update_subset: "set (AList.update k v m) \<subseteq> insert (k, v) (set m)"
  by (induction m) auto

lemma update_fresh: "k \<notin> fst ` set m \<Longrightarrow> AList.update k v m = m @ [(k, v)]"
  by (induction m) auto

lemma find_SomeD: "List.find P xs = Some y \<Longrightarrow> y \<in> set xs \<and> P y"
  by (induction xs) (auto split: if_splits)

lemma sorted_step_by2: "sorted_wrt P xs \<Longrightarrow> sorted_wrt P (step_by2 xs)"
proof (induction xs rule: step_by2.induct)
  case (3 x y xs)
  then show ?case using set_step_by2 [of xs] by auto
qed simp_all

text \<open>\<open>map.entry(k).or_insert(d)\<close>, then \<open>f\<close> on the entry.\<close>

definition entry_update :: "'k \<Rightarrow> 'v \<Rightarrow> ('v \<Rightarrow> 'v) \<Rightarrow> ('k \<times> 'v) list \<Rightarrow> ('k \<times> 'v) list" where
  "entry_update k d f m = AList.update k (f (case map_of m k of None \<Rightarrow> d | Some v \<Rightarrow> v)) m"

lemma map_of_entry_update:
  "map_of (entry_update k d f m) j =
     (if j = k then Some (f (case map_of m k of None \<Rightarrow> d | Some v \<Rightarrow> v)) else map_of m j)"
  by (simp add: entry_update_def update_conv')

section \<open>Panics\<close>

text \<open>
  A Rust panic (\<open>expect\<close>, an out-of-range index, an empty modulus, an arithmetic underflow of the
  debug profile) is a value: a computation that may panic returns a sum with the panic on the left.
  \<open>OutOfFuel\<close> is the bound on the call depth of a recursive model; it is proved not to be reached.
\<close>

datatype panic =
    Expect string
  | IndexMissing
  | RemByZero
  | Underflow
  | OutOfFuel

type_synonym 'a res = "panic + 'a"

definition bindR :: "'e + 'a \<Rightarrow> ('a \<Rightarrow> 'e + 'b) \<Rightarrow> 'e + 'b" where
  "bindR m f = (case m of Inl e \<Rightarrow> Inl e | Inr x \<Rightarrow> f x)"

lemma bindR_simps [simp, res_simps]:
  "bindR (Inl e) f = Inl e"
  "bindR (Inr x) f = f x"
  by (simp_all add: bindR_def)

lemma bindR_cong [fundef_cong]:
  "m = m' \<Longrightarrow> (\<And>x. m' = Inr x \<Longrightarrow> f x = g x) \<Longrightarrow> bindR m f = bindR m' g"
  by (cases m') auto

lemma bindR_Inr_iff: "bindR m f = Inr y \<longleftrightarrow> (\<exists>x. m = Inr x \<and> f x = Inr y)"
  by (cases m) auto

text \<open>A lookup that panics when the key is missing: \<open>map.get(k).expect(msg)\<close>.\<close>

definition expect :: "string \<Rightarrow> 'a option \<Rightarrow> 'a res" where
  "expect msg v = (case v of None \<Rightarrow> Inl (Expect msg) | Some x \<Rightarrow> Inr x)"

lemma expect_simps [simp, res_simps]:
  "expect msg None = Inl (Expect msg)"
  "expect msg (Some x) = Inr x"
  by (simp_all add: expect_def)

text \<open>A \<open>for\<close> loop over a list whose body may panic or return early.\<close>

primrec foldR :: "('a \<Rightarrow> 's \<Rightarrow> 'e + 's) \<Rightarrow> 'a list \<Rightarrow> 's \<Rightarrow> 'e + 's" where
  "foldR f [] s = Inr s"
| "foldR f (x # xs) s = bindR (f x s) (foldR f xs)"

lemma foldR_total:
  assumes "\<And>x s. x \<in> set xs \<Longrightarrow> P s \<Longrightarrow> f x s = Inr (g x s)"
    and "\<And>x s. x \<in> set xs \<Longrightarrow> P s \<Longrightarrow> P (g x s)" and "P s"
  shows "foldR f xs s = Inr (fold g xs s) \<and> P (fold g xs s)"
  using assms by (induction xs arbitrary: s) auto

lemma foldR_append: "foldR f (xs @ ys) s = bindR (foldR f xs s) (foldR f ys)"
proof (induction xs arbitrary: s)
  case (Cons x xs)
  then show ?case by (cases "f x s") auto
qed simp

section \<open>Comparators and sorting\<close>

datatype ordering = Less | Equal | Greater

fun then_with :: "ordering \<Rightarrow> ordering \<Rightarrow> ordering" where
  "then_with Equal o2 = o2"
| "then_with o1 o2 = o1"

fun reverse_ordering :: "ordering \<Rightarrow> ordering" where
  "reverse_ordering Less = Greater"
| "reverse_ordering Equal = Equal"
| "reverse_ordering Greater = Less"

definition ord_cmp :: "'a::linorder \<Rightarrow> 'a \<Rightarrow> ordering" where
  "ord_cmp a b = (if a < b then Less else if a = b then Equal else Greater)"

text \<open>\<open>slice::sort_by\<close> (stable): elements that compare \<open>Equal\<close> keep their order.\<close>

primrec insert_by :: "('a \<Rightarrow> 'a \<Rightarrow> ordering) \<Rightarrow> 'a \<Rightarrow> 'a list \<Rightarrow> 'a list" where
  "insert_by cmp x [] = [x]"
| "insert_by cmp x (y # ys) = (if cmp x y = Greater then y # insert_by cmp x ys else x # y # ys)"

primrec sort_by :: "('a \<Rightarrow> 'a \<Rightarrow> ordering) \<Rightarrow> 'a list \<Rightarrow> 'a list" where
  "sort_by cmp [] = []"
| "sort_by cmp (x # xs) = insert_by cmp x (sort_by cmp xs)"

text \<open>The same with a comparator that may panic.\<close>

primrec insert_byR :: "('a \<Rightarrow> 'a \<Rightarrow> ordering res) \<Rightarrow> 'a \<Rightarrow> 'a list \<Rightarrow> 'a list res" where
  "insert_byR cmp x [] = Inr [x]"
| "insert_byR cmp x (y # ys) =
     bindR (cmp x y) (\<lambda>c. if c = Greater
       then bindR (insert_byR cmp x ys) (\<lambda>zs. Inr (y # zs)) else Inr (x # y # ys))"

primrec sort_byR :: "('a \<Rightarrow> 'a \<Rightarrow> ordering res) \<Rightarrow> 'a list \<Rightarrow> 'a list res" where
  "sort_byR cmp [] = Inr []"
| "sort_byR cmp (x # xs) = bindR (sort_byR cmp xs) (insert_byR cmp x)"

text \<open>\<open>Iterator::min_by\<close>: the first of the minimal elements.\<close>

fun min_by :: "('a \<Rightarrow> 'a \<Rightarrow> ordering) \<Rightarrow> 'a list \<Rightarrow> 'a option" where
  "min_by cmp [] = None"
| "min_by cmp (x # xs) = Some (foldl (\<lambda>m y. if cmp m y = Greater then y else m) x xs)"

lemma mset_insert_by [simp]: "mset (insert_by cmp x ys) = add_mset x (mset ys)"
  by (induction ys) auto

lemma mset_sort_by [simp]: "mset (sort_by cmp xs) = mset xs"
  by (induction xs) auto

lemma set_sort_by [simp]: "set (sort_by cmp xs) = set xs"
  by (metis mset_sort_by set_mset_mset)

lemma length_sort_by [simp]: "length (sort_by cmp xs) = length xs"
  by (metis mset_sort_by size_mset)

lemma distinct_sort_by [simp]: "distinct (sort_by cmp xs) = distinct xs"
  by (metis mset_sort_by mset_eq_imp_distinct_iff)

lemma sort_byR_total:
  assumes "\<And>x y. x \<in> set xs \<Longrightarrow> y \<in> set xs \<Longrightarrow> cmpR x y = Inr (cmp x y)"
  shows "sort_byR cmpR xs = Inr (sort_by cmp xs)"
  using assms
proof (induction xs)
  case Nil
  then show ?case by simp
next
  case (Cons x xs)
  have ins: "insert_byR cmpR x ys = Inr (insert_by cmp x ys)"
    if "set ys \<subseteq> set xs" for ys
    using that Cons.prems by (induction ys) auto
  from Cons.prems have "sort_byR cmpR xs = Inr (sort_by cmp xs)"
    by (intro Cons.IH) auto
  with ins [of "sort_by cmp xs"] show ?case by simp
qed

subsection \<open>The contract of a comparator\<close>

text \<open>
  What \<open>sort_by\<close> asks of its comparator: a total order on the elements that are compared. Under
  this contract the sorted list depends on the multiset of the elements only, so a container's
  iteration order does not reach the result.
\<close>

locale total_cmp =
  fixes cmp :: "'a \<Rightarrow> 'a \<Rightarrow> ordering" and S :: "'a set"
  assumes cmp_eq: "x \<in> S \<Longrightarrow> y \<in> S \<Longrightarrow> cmp x y = Equal \<longleftrightarrow> x = y"
    and cmp_rev: "x \<in> S \<Longrightarrow> y \<in> S \<Longrightarrow> cmp y x = reverse_ordering (cmp x y)"
    and cmp_trans: "x \<in> S \<Longrightarrow> y \<in> S \<Longrightarrow> z \<in> S \<Longrightarrow>
      cmp x y = Less \<Longrightarrow> cmp y z = Less \<Longrightarrow> cmp x z = Less"
begin

lemma cmp_greater: "x \<in> S \<Longrightarrow> y \<in> S \<Longrightarrow> cmp x y = Greater \<longleftrightarrow> cmp y x = Less"
  using cmp_rev [of x y] by (cases "cmp x y") auto

lemma cmp_not_greater: "x \<in> S \<Longrightarrow> y \<in> S \<Longrightarrow> cmp x y \<noteq> Greater \<longleftrightarrow> x = y \<or> cmp x y = Less"
  using cmp_eq [of x y] by (cases "cmp x y") auto

lemma cmp_le_trans:
  assumes "x \<in> S" "y \<in> S" "z \<in> S" "cmp x y \<noteq> Greater" "cmp y z \<noteq> Greater"
  shows "cmp x z \<noteq> Greater"
  using cmp_not_greater [of x y] cmp_not_greater [of y z] cmp_not_greater [of x z]
    cmp_trans [of x y z] assms by metis

lemma cmp_refl_le: "x \<in> S \<Longrightarrow> cmp x x \<noteq> Greater"
  using cmp_eq [of x x] by simp

lemma cmp_total: "x \<in> S \<Longrightarrow> y \<in> S \<Longrightarrow> cmp x y = Greater \<Longrightarrow> cmp y x \<noteq> Greater"
  using cmp_rev [of x y] by simp

lemma cmp_antisym:
  "x \<in> S \<Longrightarrow> y \<in> S \<Longrightarrow> cmp x y \<noteq> Greater \<Longrightarrow> cmp y x \<noteq> Greater \<Longrightarrow> x = y"
  using cmp_rev [of x y] cmp_eq [of x y] by (cases "cmp x y") auto

lemma sorted_insert_by:
  assumes "set (x # ys) \<subseteq> S" "sorted_wrt (\<lambda>a b. cmp a b \<noteq> Greater) ys"
  shows "sorted_wrt (\<lambda>a b. cmp a b \<noteq> Greater) (insert_by cmp x ys)"
  using assms
proof (induction ys)
  case Nil
  then show ?case by simp
next
  case (Cons y ys)
  have set: "set (insert_by cmp x ys) = insert x (set ys)"
    by (metis mset_insert_by set_mset_add_mset_insert set_mset_mset)
  show ?case
  proof (cases "cmp x y = Greater")
    case True
    have "cmp y x \<noteq> Greater" using Cons.prems True by (intro cmp_total [of x y]) auto
    with True Cons show ?thesis by (auto simp: set)
  next
    case False
    have "cmp x z \<noteq> Greater" if "z \<in> set ys" for z
      using that False Cons.prems by (intro cmp_le_trans [of x y z]) auto
    with False Cons.prems show ?thesis by simp
  qed
qed

lemma sorted_sort_by:
  "set xs \<subseteq> S \<Longrightarrow> sorted_wrt (\<lambda>a b. cmp a b \<noteq> Greater) (sort_by cmp xs)"
  by (induction xs) (auto intro!: sorted_insert_by)

lemma sorted_unique:
  assumes "mset xs = mset ys" "set xs \<subseteq> S"
    and "sorted_wrt (\<lambda>a b. cmp a b \<noteq> Greater) xs" "sorted_wrt (\<lambda>a b. cmp a b \<noteq> Greater) ys"
  shows "xs = ys"
  using assms
proof (induction xs arbitrary: ys)
  case Nil
  then show ?case by simp
next
  case (Cons x xs)
  then obtain y zs where ys: "ys = y # zs" by (cases ys) auto
  have sets: "set (x # xs) = set ys" using Cons.prems(1) by (metis mset_eq_setD)
  have "x = y"
  proof (rule ccontr)
    assume ne: "x \<noteq> y"
    have "x \<in> set zs" "y \<in> set xs" using sets ne ys by auto
    then have "cmp x y \<noteq> Greater" "cmp y x \<noteq> Greater" using Cons.prems ys by auto
    moreover have "x \<in> S" "y \<in> S" using Cons.prems(2) \<open>y \<in> set xs\<close> by auto
    ultimately show False using ne cmp_antisym by blast
  qed
  with Cons.prems ys have "xs = zs" by (intro Cons.IH) auto
  with \<open>x = y\<close> ys show ?case by simp
qed

lemma sort_by_perm:
  assumes "mset xs = mset ys" "set xs \<subseteq> S"
  shows "sort_by cmp xs = sort_by cmp ys"
proof (rule sorted_unique)
  show "mset (sort_by cmp xs) = mset (sort_by cmp ys)" using assms(1) by simp
  show "set (sort_by cmp xs) \<subseteq> S" using assms(2) by simp
  show "sorted_wrt (\<lambda>a b. cmp a b \<noteq> Greater) (sort_by cmp xs)"
    by (rule sorted_sort_by [OF assms(2)])
  have "set ys \<subseteq> S" using assms by (metis mset_eq_setD)
  then show "sorted_wrt (\<lambda>a b. cmp a b \<noteq> Greater) (sort_by cmp ys)" by (rule sorted_sort_by)
qed

lemma fold_min_in: "foldl (\<lambda>m y. if cmp m y = Greater then y else m) x xs \<in> set (x # xs)"
  by (induction xs arbitrary: x) auto

lemma fold_min_le:
  assumes "set (x # xs) \<subseteq> S" "y \<in> set (x # xs)"
  shows "cmp (foldl (\<lambda>m y. if cmp m y = Greater then y else m) x xs) y \<noteq> Greater"
  using assms
proof (induction xs arbitrary: x y)
  case Nil
  then show ?case by (simp add: cmp_refl_le)
next
  case (Cons z zs)
  let ?m = "if cmp x z = Greater then z else x"
  let ?r = "foldl (\<lambda>m y. if cmp m y = Greater then y else m) ?m zs"
  have m: "set (?m # zs) \<subseteq> S" using Cons.prems by auto
  have r: "?r \<in> S" using fold_min_in [of ?m zs] m by blast
  have le: "cmp ?r w \<noteq> Greater" if "w \<in> set (?m # zs)" for w
    using Cons.IH [OF m that] .
  have xz: "x \<in> S" "z \<in> S" "?m \<in> S" using Cons.prems by auto
  have "cmp ?m x \<noteq> Greater" "cmp ?m z \<noteq> Greater"
    using xz cmp_refl_le [of x] cmp_refl_le [of z] cmp_total [of x z] by auto
  moreover have "cmp ?r ?m \<noteq> Greater" by (rule le) simp
  ultimately have "cmp ?r x \<noteq> Greater" "cmp ?r z \<noteq> Greater"
    using cmp_le_trans [OF r xz(3,1)] cmp_le_trans [OF r xz(3,2)] by blast+
  moreover have "cmp ?r y \<noteq> Greater" if "y \<in> set zs" using le [of y] that by simp
  moreover have "y = x \<or> y = z \<or> y \<in> set zs" using Cons.prems(2) by auto
  ultimately show ?case by auto
qed

lemma min_by_least:
  assumes "set xs \<subseteq> S" "min_by cmp xs = Some m"
  shows "m \<in> set xs \<and> (\<forall>y \<in> set xs. cmp m y \<noteq> Greater)"
  using assms fold_min_in fold_min_le by (cases xs) auto

end

lemma ord_cmp_simps [simp]:
  "ord_cmp a b = Less \<longleftrightarrow> a < b" "ord_cmp a b = Equal \<longleftrightarrow> a = b" "ord_cmp a b = Greater \<longleftrightarrow> b < a"
  by (simp_all add: ord_cmp_def not_less le_less)

lemma total_cmp_inj:
  assumes "total_cmp cmp S" "inj_on f A" "f ` A \<subseteq> S"
  shows "total_cmp (\<lambda>a b. cmp (f a) (f b)) A"
proof (unfold_locales, goal_cases)
  case (1 x y)
  then have "f x \<in> S" "f y \<in> S" using assms(3) by auto
  then show ?case using total_cmp.cmp_eq [OF assms(1)] inj_on_eq_iff [OF assms(2)] 1 by blast
next
  case (2 x y)
  then have "f x \<in> S" "f y \<in> S" using assms(3) by auto
  then show ?case by (rule total_cmp.cmp_rev [OF assms(1)])
next
  case (3 x y z)
  then have "f x \<in> S" "f y \<in> S" "f z \<in> S" using assms(3) by auto
  then show ?case using total_cmp.cmp_trans [OF assms(1)] 3 by blast
qed

lemma then_with_iff:
  "then_with a b = Less \<longleftrightarrow> a = Less \<or> a = Equal \<and> b = Less"
  "then_with a b = Equal \<longleftrightarrow> a = Equal \<and> b = Equal"
  "then_with a b = Greater \<longleftrightarrow> a = Greater \<or> a = Equal \<and> b = Greater"
  by (cases a; simp)+

lemma reverse_then_with:
  "reverse_ordering (then_with a b) = then_with (reverse_ordering a) (reverse_ordering b)"
  by (cases a) auto

lemma ord_cmp_rev: "reverse_ordering (ord_cmp a b) = ord_cmp b a"
  by (auto simp: ord_cmp_def)

interpretation ord_cmp: total_cmp "ord_cmp :: 'a::linorder \<Rightarrow> _" "UNIV :: 'a set"
  by unfold_locales (auto simp: ord_cmp_def split: if_splits)

end
