(* ===== verification/Crypto.thy ===== *)
theory Crypto
  imports Prelude
begin

unbundle bit_operations_syntax

text \<open>
  The types of \<open>crypto/src/lib.rs\<close>: digests, public keys, signatures, the key decoders and the
  signature checks. A \<open>[u8; 32]\<close> is a 256-bit word read big-endian, so that the derived
  lexicographic \<open>Ord\<close> of the byte array is the numeric order of the word.

  The ed25519-dalek, SHA-512 and base64 packages are not in the repository. What the code calls of
  them is the record \<open>crypto_lib\<close>, an argument of every definition that uses it.
\<close>

section \<open>Digests and public keys\<close>

datatype digest = Digest (digest_word: "256 word")
datatype public_key = PublicKey (key_word: "256 word")

instantiation digest :: linorder
begin
definition less_eq_digest :: "digest \<Rightarrow> digest \<Rightarrow> bool" where
  "less_eq_digest a b \<longleftrightarrow> digest_word a \<le> digest_word b"
definition less_digest :: "digest \<Rightarrow> digest \<Rightarrow> bool" where
  "less_digest a b \<longleftrightarrow> digest_word a < digest_word b"
instance
  by standard (auto simp: less_eq_digest_def less_digest_def intro: digest.expand)
end

instantiation public_key :: linorder
begin
definition less_eq_public_key :: "public_key \<Rightarrow> public_key \<Rightarrow> bool" where
  "less_eq_public_key a b \<longleftrightarrow> key_word a \<le> key_word b"
definition less_public_key :: "public_key \<Rightarrow> public_key \<Rightarrow> bool" where
  "less_public_key a b \<longleftrightarrow> key_word a < key_word b"
instance
  by standard (auto simp: less_eq_public_key_def less_public_key_def intro: public_key.expand)
end

text \<open>\<open>Default\<close> of both types is the all-zero array.\<close>

definition digest_default :: digest where
  "digest_default = Digest 0"

definition key_default :: public_key where
  "key_default = PublicKey 0"

definition digest_to_vec :: "digest \<Rightarrow> u8 list" where
  "digest_to_vec d = be_bytes 32 (digest_word d)"

definition digest_size :: "digest \<Rightarrow> nat" where
  "digest_size d = length (digest_to_vec d)"

definition key_bytes :: "public_key \<Rightarrow> u8 list" where
  "key_bytes k = be_bytes 32 (key_word k)"

text \<open>Reading a big-endian byte array back into a word.\<close>

primrec from_le_bytes :: "u8 list \<Rightarrow> 'w::len word" where
  "from_le_bytes [] = 0"
| "from_le_bytes (b # bs) = ucast b OR push_bit 8 (from_le_bytes bs)"

definition from_be_bytes :: "u8 list \<Rightarrow> 'w::len word" where
  "from_be_bytes bs = from_le_bytes (rev bs)"

datatype slice_error = TryFromSliceError

definition digest_try_from :: "u8 list \<Rightarrow> slice_error + digest" where
  "digest_try_from item =
     (if length item = 32 then Inr (Digest (from_be_bytes item)) else Inl TryFromSliceError)"

lemma le_bytes_Suc: "le_bytes (Suc n) w = ucast w # le_bytes n (drop_bit 8 w)"
proof -
  have "map (\<lambda>i. ucast (drop_bit (8 * i) w) :: u8) [Suc 0..<Suc n]
      = map (\<lambda>i. ucast (drop_bit (8 * i) (drop_bit 8 w))) [0..<n]"
    by (simp add: map_Suc_upt [symmetric] add.commute del: upt_Suc)
  then show ?thesis by (simp add: le_bytes_def upt_conv_Cons del: upt_Suc)
qed

lemma from_le_bytes_le_bytes: "from_le_bytes (le_bytes n w) = take_bit (8 * n) w"
proof (induction n arbitrary: w)
  case 0
  then show ?case by (simp add: le_bytes_def)
next
  case (Suc n)
  show ?case
    by (rule bit_word_eqI) (auto simp: le_bytes_Suc Suc bit_simps)
qed

lemma from_be_bytes_be_bytes:
  "LENGTH('w) \<le> 8 * n \<Longrightarrow> from_be_bytes (be_bytes n (w :: 'w::len word)) = w"
  by (simp add: from_be_bytes_def be_bytes_def from_le_bytes_le_bytes take_bit_word_eq_self)

lemma digest_to_vec_inj [simp]: "digest_to_vec a = digest_to_vec b \<longleftrightarrow> a = b"
  by (auto simp: digest_to_vec_def intro!: digest.expand elim!: be_bytes_inj)

lemma length_digest_to_vec [simp]: "length (digest_to_vec d) = 32"
  by (simp add: digest_to_vec_def)

lemma key_bytes_inj [simp]: "key_bytes a = key_bytes b \<longleftrightarrow> a = b"
  by (auto simp: key_bytes_def intro!: public_key.expand elim!: be_bytes_inj)

lemma length_key_bytes [simp]: "length (key_bytes k) = 32"
  by (simp add: key_bytes_def)

lemma digest_try_from_to_vec: "digest_try_from (digest_to_vec d) = Inr d"
  by (simp add: digest_try_from_def) (simp add: digest_to_vec_def from_be_bytes_be_bytes)

section \<open>What the code calls of the cryptographic packages\<close>

record crypto_lib =
  sha512 :: "u8 list \<Rightarrow> u8 list"
  sig_ok :: "u8 list \<Rightarrow> bool"
  key_ok :: "u8 list \<Rightarrow> bool"
  verify_strict :: "u8 list \<Rightarrow> u8 list \<Rightarrow> u8 list \<Rightarrow> bool"
  dalek_verify_batch :: "u8 list list \<Rightarrow> u8 list list \<Rightarrow> u8 list list \<Rightarrow> bool"
  dalek_sign :: "u8 list \<Rightarrow> u8 list \<Rightarrow> u8 list"
  base64_decode :: "string \<Rightarrow> u8 list option"
  base64_encode :: "u8 list \<Rightarrow> string"
  dalek_generate :: "nat \<Rightarrow> u8 list \<times> u8 list"

datatype crypto_error = SignatureError
datatype decode_error = InvalidBase64 | InvalidLength

text \<open>\<open>Digest(Sha512::digest(bytes)[..32])\<close>, as every hashed message computes it.\<close>

definition hash_digest :: "crypto_lib \<Rightarrow> u8 list \<Rightarrow> digest" where
  "hash_digest L bs = Digest (from_be_bytes (take 32 (sha512 L bs)))"

section \<open>Key decoding\<close>

text \<open>
  \<open>bytes[..32]\<close> panics when fewer than 32 bytes were decoded, so the \<open>InvalidLength\<close> branch is
  never taken; bytes after the first 32 are dropped.
\<close>

definition key_decode_base64 :: "crypto_lib \<Rightarrow> string \<Rightarrow> (decode_error + public_key) res" where
  "key_decode_base64 L s =
     (case base64_decode L s of
        None \<Rightarrow> Inr (Inl InvalidBase64)
      | Some bytes \<Rightarrow>
          if length bytes < 32 then Inl IndexMissing
          else Inr (case digest_try_from (take 32 bytes) of
                      Inl e \<Rightarrow> Inl InvalidLength
                    | Inr d \<Rightarrow> Inr (PublicKey (digest_word d))))"

definition secret_decode_base64 :: "crypto_lib \<Rightarrow> string \<Rightarrow> (decode_error + u8 list) res" where
  "secret_decode_base64 L s =
     (case base64_decode L s of
        None \<Rightarrow> Inr (Inl InvalidBase64)
      | Some bytes \<Rightarrow>
          if length bytes < 64 then Inl IndexMissing
          else Inr (let array = take 64 bytes
                    in if length array = 64 then Inr array else Inl InvalidLength))"

section \<open>Keys and digests as text\<close>

text \<open>\<open>get(0..16).unwrap()\<close> on what base64 wrote, which is ASCII.\<close>

definition first16 :: "string \<Rightarrow> string res" where
  "first16 s = (if length s < 16 then Inl (Expect ''unwrap'') else Inr (take 16 s))"

definition digest_debug :: "crypto_lib \<Rightarrow> digest \<Rightarrow> string" where
  "digest_debug L d = base64_encode L (digest_to_vec d)"

definition digest_display :: "crypto_lib \<Rightarrow> digest \<Rightarrow> string res" where
  "digest_display L d = first16 (base64_encode L (digest_to_vec d))"

definition key_encode_base64 :: "crypto_lib \<Rightarrow> public_key \<Rightarrow> string" where
  "key_encode_base64 L k = base64_encode L (key_bytes k)"

definition key_display :: "crypto_lib \<Rightarrow> public_key \<Rightarrow> string res" where
  "key_display L k = first16 (key_encode_base64 L k)"

definition secret_encode_base64 :: "crypto_lib \<Rightarrow> u8 list \<Rightarrow> string" where
  "secret_encode_base64 L secret = base64_encode L secret"

text \<open>The serde implementations go through the text; a decoding error becomes a custom error of the deserializer.\<close>

datatype de_error = Custom decode_error

definition key_serialize :: "crypto_lib \<Rightarrow> public_key \<Rightarrow> string" where
  "key_serialize L k = key_encode_base64 L k"

definition key_deserialize :: "crypto_lib \<Rightarrow> string \<Rightarrow> (de_error + public_key) res" where
  "key_deserialize L s = bindR (key_decode_base64 L s) (\<lambda>r. Inr (map_sum Custom id r))"

definition secret_serialize :: "crypto_lib \<Rightarrow> u8 list \<Rightarrow> string" where
  "secret_serialize L secret = secret_encode_base64 L secret"

definition secret_deserialize :: "crypto_lib \<Rightarrow> string \<Rightarrow> (de_error + u8 list) res" where
  "secret_deserialize L s = bindR (secret_decode_base64 L s) (\<lambda>r. Inr (map_sum Custom id r))"

text \<open>\<open>Drop\<close> overwrites the secret; the seed stands for what the random generator returns.\<close>

definition secret_drop :: "u8 list \<Rightarrow> u8 list" where
  "secret_drop secret = map (\<lambda>x. 0) secret"

definition generate_keypair :: "crypto_lib \<Rightarrow> nat \<Rightarrow> public_key \<times> u8 list" where
  "generate_keypair L seed = (let (public, keypair) = dalek_generate L seed in (PublicKey (from_be_bytes public), keypair))"

text \<open>What the code relies on of base64: it reads back what it wrote, and 32 bytes become at least 16 characters.\<close>

definition base64_ok :: "crypto_lib \<Rightarrow> bool" where
  "base64_ok L \<longleftrightarrow> (\<forall>bs. base64_decode L (base64_encode L bs) = Some bs) \<and> (\<forall>bs. length bs \<le> length (base64_encode L bs))"

lemma key_text_roundtrip: "base64_ok L \<Longrightarrow> key_deserialize L (key_serialize L k) = Inr (Inr k)"
  using digest_try_from_to_vec [of "Digest (key_word k)"]
  by (simp add: key_deserialize_def key_serialize_def key_encode_base64_def key_decode_base64_def base64_ok_def
      key_bytes_def digest_to_vec_def)

lemma secret_text_roundtrip: "base64_ok L \<Longrightarrow> length secret = 64 \<Longrightarrow> secret_deserialize L (secret_serialize L secret) = Inr (Inr secret)"
  by (simp add: secret_deserialize_def secret_serialize_def secret_encode_base64_def secret_decode_base64_def base64_ok_def Let_def)

lemma displays_total: "base64_ok L \<Longrightarrow> (\<exists>s. digest_display L d = Inr s) \<and> (\<exists>s. key_display L k = Inr s)"
  using le_trans [of 16 32] unfolding base64_ok_def digest_display_def key_display_def key_encode_base64_def first16_def
  by (metis length_digest_to_vec length_key_bytes not_le numeral_le_iff semiring_norm(71,69,68))

section \<open>Signatures\<close>

datatype signature = Signature (part1: "256 word") (part2: "256 word")

definition signature_default :: signature where
  "signature_default = Signature 0 0"

definition flatten :: "signature \<Rightarrow> u8 list" where
  "flatten s = be_bytes 32 (part1 s) @ be_bytes 32 (part2 s)"

text \<open>\<open>Signature::new\<close>. The secret is one that \<open>Keypair::generate\<close> made or \<open>import\<close> read at its length; the \<open>expect\<close> of
  \<open>Keypair::from_bytes\<close> on a secret that the library refuses is not modelled, \<open>dalek_sign\<close> is total.\<close>

definition signature_new :: "crypto_lib \<Rightarrow> digest \<Rightarrow> u8 list \<Rightarrow> signature" where
  "signature_new L d secret =
     (let sg = dalek_sign L secret (digest_to_vec d)
      in Signature (from_be_bytes (take 32 sg)) (from_be_bytes (take 32 (drop 32 sg))))"

definition signature_verify :: "crypto_lib \<Rightarrow> signature \<Rightarrow> digest \<Rightarrow> public_key \<Rightarrow> crypto_error + unit" where
  "signature_verify L s d k =
     (if \<not> sig_ok L (flatten s) then Inl SignatureError
      else if \<not> key_ok L (key_bytes k) then Inl SignatureError
      else if verify_strict L (key_bytes k) (digest_to_vec d) (flatten s) then Inr ()
      else Inl SignatureError)"

text \<open>
  \<open>verify_batch\<close> collects messages, signatures and keys; a signature or a key that does not parse
  ends the loop with the error.
\<close>

fun batch_inputs :: "crypto_lib \<Rightarrow> digest \<Rightarrow> (public_key \<times> signature) list \<Rightarrow>
    u8 list list \<Rightarrow> u8 list list \<Rightarrow> u8 list list \<Rightarrow>
    crypto_error + u8 list list \<times> u8 list list \<times> u8 list list" where
  "batch_inputs L d [] messages signatures keys = Inr (messages, signatures, keys)"
| "batch_inputs L d ((k, s) # votes) messages signatures keys =
     (if \<not> sig_ok L (flatten s) then Inl SignatureError
      else if \<not> key_ok L (key_bytes k) then Inl SignatureError
      else batch_inputs L d votes (messages @ [digest_to_vec d]) (signatures @ [flatten s])
             (keys @ [key_bytes k]))"

definition verify_batch :: "crypto_lib \<Rightarrow> digest \<Rightarrow> (public_key \<times> signature) list \<Rightarrow> crypto_error + unit" where
  "verify_batch L d votes =
     bindR (batch_inputs L d votes [] [] [])
       (\<lambda>(messages, signatures, keys).
          if dalek_verify_batch L messages signatures keys then Inr () else Inl SignatureError)"

text \<open>\<open>SignatureService::request_signature\<close>: the service task signs the digest it is sent.\<close>

definition request_signature :: "crypto_lib \<Rightarrow> u8 list \<Rightarrow> digest \<Rightarrow> signature" where
  "request_signature L secret d = signature_new L d secret"

lemma length_flatten [simp]: "length (flatten s) = 64"
  by (simp add: flatten_def)

lemma flatten_inj: "flatten a = flatten b \<longleftrightarrow> a = b"
proof
  assume "flatten a = flatten b"
  then have "be_bytes 32 (part1 a) = be_bytes 32 (part1 b)"
    "be_bytes 32 (part2 a) = be_bytes 32 (part2 b)"
    by (simp_all add: flatten_def)
  then have "part1 a = part1 b" "part2 a = part2 b"
    by (auto elim!: be_bytes_inj)
  then show "a = b" by (rule signature.expand [OF conjI])
qed simp

text \<open>The three vectors handed to the batch check line up with the votes.\<close>

lemma batch_inputs_eq:
  "batch_inputs L d votes ms ss ks =
     (if \<forall>(k, s) \<in> set votes. sig_ok L (flatten s) \<and> key_ok L (key_bytes k)
      then Inr (ms @ map (\<lambda>_. digest_to_vec d) votes, ss @ map (flatten \<circ> snd) votes,
                ks @ map (key_bytes \<circ> fst) votes)
      else Inl SignatureError)"
  by (induction L d votes ms ss ks rule: batch_inputs.induct) auto

text \<open>
  A concrete library for the sample runs: the hash keeps the first bytes of the message, every
  signature is accepted.
\<close>

definition sample_lib :: crypto_lib where
  "sample_lib = \<lparr>sha512 = (\<lambda>bs. take 64 (bs @ replicate 64 0)), sig_ok = (\<lambda>_. True), key_ok = (\<lambda>_. True),
     verify_strict = (\<lambda>_ _ _. True), dalek_verify_batch = (\<lambda>_ _ _. True),
     dalek_sign = (\<lambda>_ _. replicate 64 0), base64_decode = (\<lambda>s. Some (map of_char s)), base64_encode = map (char_of \<circ> unat),
     dalek_generate = (\<lambda>seed. (replicate 32 (of_nat seed), replicate 64 (of_nat seed)))\<rparr>"

lemma sample_lib_digest: "hash_digest sample_lib (digest_to_vec d @ bs) = d"
proof -
  have "take 32 (sha512 sample_lib (digest_to_vec d @ bs)) = digest_to_vec d"
    by (simp add: sample_lib_def)
  then show ?thesis
    by (simp add: hash_digest_def) (simp add: digest_to_vec_def from_be_bytes_be_bytes)
qed

end
