(* ===== verification/Config.thy ===== *)
theory Config
  imports Crypto
begin

text \<open>
  The committee of \<open>config/src/lib.rs\<close>: authorities with their stake and addresses, the lookups of
  addresses, and the two stake thresholds. \<open>Stake\<close> is \<open>u32\<close>; its sums and products wrap as they do
  in the release profile. The files are in \<open>KeyFiles\<close>.
\<close>

section \<open>Data\<close>

type_synonym stake = u32
type_synonym worker_id = u32

datatype socket_addr = SocketAddr (ip: nat) (port: "16 word")

text \<open>The servers listen on their port at 0.0.0.0.\<close>

definition unspecified :: "16 word \<Rightarrow> socket_addr" where
  "unspecified p = SocketAddr 0 p"

record primary_addresses =
  primary_to_primary :: socket_addr
  worker_to_primary :: socket_addr

record worker_addresses =
  transactions :: socket_addr
  worker_to_worker :: socket_addr
  primary_to_worker :: socket_addr

record authority =
  auth_stake :: stake
  auth_primary :: primary_addresses
  auth_workers :: "(worker_id \<times> worker_addresses) list"

text \<open>\<open>authorities\<close> is a \<open>BTreeMap\<close>: the list is in strictly increasing key order.\<close>

record committee =
  authorities :: "(public_key \<times> authority) list"

datatype config_error =
    NotInCommittee public_key
  | UnknownWorker worker_id
  | ImportError string string
  | ExportError string string

text \<open>\<open>Parameters\<close> with its defaults; \<open>usize\<close> is 64 bits.\<close>

record parameters =
  par_header_size :: u64
  par_max_header_delay :: u64
  par_gc_depth :: u64
  par_sync_retry_delay :: u64
  par_sync_retry_nodes :: nat
  par_batch_size :: u64
  par_max_batch_delay :: u64

definition parameters_default :: parameters where
  "parameters_default = \<lparr>par_header_size = 1000, par_max_header_delay = 100, par_gc_depth = 50, par_sync_retry_delay = 5000,
     par_sync_retry_nodes = 3, par_batch_size = 500000, par_max_batch_delay = 100\<rparr>"

definition wf_committee :: "committee \<Rightarrow> bool" where
  "wf_committee c \<longleftrightarrow> sorted_wrt (<) (map fst (authorities c))"

section \<open>Operations\<close>

definition size_of :: "committee \<Rightarrow> nat" where
  "size_of c = length (authorities c)"

definition stake_of :: "committee \<Rightarrow> public_key \<Rightarrow> stake" where
  "stake_of c name = (case map_of (authorities c) name of None \<Rightarrow> 0 | Some a \<Rightarrow> auth_stake a)"

definition others_stake :: "committee \<Rightarrow> public_key \<Rightarrow> (public_key \<times> stake) list" where
  "others_stake c myself =
     map (\<lambda>(name, a). (name, auth_stake a)) (filter (\<lambda>(name, _). name \<noteq> myself) (authorities c))"

definition total_votes :: "committee \<Rightarrow> stake" where
  "total_votes c = sum_list (map (auth_stake \<circ> snd) (authorities c))"

definition quorum_threshold :: "committee \<Rightarrow> stake" where
  "quorum_threshold c = 2 * total_votes c div 3 + 1"

definition validity_threshold :: "committee \<Rightarrow> stake" where
  "validity_threshold c = (total_votes c + 2) div 3"

definition primary_of :: "committee \<Rightarrow> public_key \<Rightarrow> config_error + primary_addresses" where
  "primary_of c to =
     (case map_of (authorities c) to of None \<Rightarrow> Inl (NotInCommittee to) | Some a \<Rightarrow> Inr (auth_primary a))"

definition others_primaries :: "committee \<Rightarrow> public_key \<Rightarrow> (public_key \<times> primary_addresses) list" where
  "others_primaries c myself =
     map (\<lambda>(name, a). (name, auth_primary a)) (filter (\<lambda>(name, _). name \<noteq> myself) (authorities c))"

text \<open>Both failures of \<open>worker\<close> are reported as \<open>NotInCommittee\<close>.\<close>

definition worker_of :: "committee \<Rightarrow> public_key \<Rightarrow> worker_id \<Rightarrow> config_error + worker_addresses" where
  "worker_of c to wid =
     (case find (\<lambda>(name, _). name = to) (authorities c) of
        None \<Rightarrow> Inl (NotInCommittee to)
      | Some (_, a) \<Rightarrow>
          (case find (\<lambda>(k, _). k = wid) (auth_workers a) of
             None \<Rightarrow> Inl (NotInCommittee to)
           | Some (_, w) \<Rightarrow> Inr w))"

definition our_workers :: "committee \<Rightarrow> public_key \<Rightarrow> config_error + worker_addresses list" where
  "our_workers c myself =
     (case find (\<lambda>(name, _). name = myself) (authorities c) of
        None \<Rightarrow> Inl (NotInCommittee myself)
      | Some (_, a) \<Rightarrow> Inr (map snd (auth_workers a)))"

definition others_workers ::
    "committee \<Rightarrow> public_key \<Rightarrow> worker_id \<Rightarrow> (public_key \<times> worker_addresses) list" where
  "others_workers c myself wid =
     List.map_filter
       (\<lambda>(name, a). map_option (\<lambda>(_, addresses). (name, addresses))
                      (find (\<lambda>(k, _). k = wid) (auth_workers a)))
       (filter (\<lambda>(name, _). name \<noteq> myself) (authorities c))"

section \<open>Lookups\<close>

lemma wf_distinct: "wf_committee c \<Longrightarrow> distinct (map fst (authorities c))"
  by (simp add: wf_committee_def strict_sorted_iff)

lemma find_key_map_of:
  "find (\<lambda>(k, _). k = x) m = map_option (Pair x) (map_of m x)"
  by (induction m) auto

lemma worker_of_Inr:
  "worker_of c to wid = Inr w \<longleftrightarrow>
     (\<exists>a. map_of (authorities c) to = Some a \<and> map_of (auth_workers a) wid = Some w)"
  by (auto simp: worker_of_def find_key_map_of split: option.splits)

lemma worker_of_Inl: "worker_of c to wid = Inl e \<Longrightarrow> e = NotInCommittee to"
  by (auto simp: worker_of_def split: option.splits)

lemma others_workers_set:
  assumes "wf_committee c"
  shows "(name, w) \<in> set (others_workers c myself wid) \<longleftrightarrow>
     name \<noteq> myself \<and> worker_of c name wid = Inr w"
proof -
  have mem: "(name, a) \<in> set (authorities c) \<longleftrightarrow> map_of (authorities c) name = Some a" for a
    using wf_distinct [OF assms] by simp
  show ?thesis
    by (auto simp: others_workers_def map_filter_def find_key_map_of worker_of_Inr mem [symmetric]
        image_iff split: option.splits) force+
qed

section \<open>Stake arithmetic\<close>

text \<open>
  The exact sum of the stakes as a natural number. The \<open>u32\<close> sum equals it as long as it fits, and
  the threshold computations do not wrap as long as twice the sum fits.
\<close>

definition total_stake :: "committee \<Rightarrow> nat" where
  "total_stake c = sum_list (map (unat \<circ> auth_stake \<circ> snd) (authorities c))"

definition sane_stake :: "committee \<Rightarrow> bool" where
  "sane_stake c \<longleftrightarrow> wf_committee c \<and> total_stake c < 2 ^ 31"

definition members :: "committee \<Rightarrow> public_key set" where
  "members c = set (map fst (authorities c))"

definition stake_nat :: "committee \<Rightarrow> public_key \<Rightarrow> nat" where
  "stake_nat c name = unat (stake_of c name)"

lemma unat_sum_list:
  fixes xs :: "u32 list"
  assumes "sum_list (map unat xs) < 2 ^ 32"
  shows "unat (sum_list xs) = sum_list (map unat xs)"
  using assms
proof (induction xs)
  case Nil
  then show ?case by simp
next
  case (Cons x xs)
  then have "unat (sum_list xs) = sum_list (map unat xs)" by simp
  with Cons.prems show ?case by (simp add: unat_word_ariths)
qed

lemma total_votes_unat: "total_stake c < 2 ^ 32 \<Longrightarrow> unat (total_votes c) = total_stake c"
  using unat_sum_list [of "map (auth_stake \<circ> snd) (authorities c)"]
  by (simp add: total_votes_def total_stake_def comp_assoc)

lemma quorum_threshold_unat:
  assumes "total_stake c < 2 ^ 31"
  shows "unat (quorum_threshold c) = 2 * total_stake c div 3 + 1"
proof -
  have t: "unat (total_votes c) = total_stake c" using assms by (simp add: total_votes_unat)
  have "unat (2 * total_votes c) = 2 * total_stake c"
    using assms by (simp add: unat_word_ariths t)
  then have "unat (2 * total_votes c div 3) = 2 * total_stake c div 3"
    by (simp add: unat_div)
  moreover have "2 * total_stake c div 3 + 1 < 2 ^ 32" using assms by simp
  ultimately show ?thesis by (simp add: quorum_threshold_def unat_word_ariths)
qed

lemma validity_threshold_unat:
  assumes "total_stake c < 2 ^ 31"
  shows "unat (validity_threshold c) = (total_stake c + 2) div 3"
proof -
  have t: "unat (total_votes c) = total_stake c" using assms by (simp add: total_votes_unat)
  have "unat (total_votes c + 2) = total_stake c + 2"
    using assms by (simp add: unat_word_ariths t)
  then show ?thesis by (simp add: validity_threshold_def unat_div)
qed

lemma members_total:
  assumes "wf_committee c"
  shows "sum (stake_nat c) (members c) = total_stake c"
proof -
  have "sum (stake_nat c) (members c) = sum_list (map (stake_nat c) (map fst (authorities c)))"
    unfolding members_def by (rule sum_list_distinct_conv_sum_set [symmetric, OF wf_distinct [OF assms]])
  also have "\<dots> = sum_list (map (unat \<circ> auth_stake \<circ> snd) (authorities c))"
    using wf_distinct [OF assms]
    by (auto intro!: arg_cong [where f = sum_list] simp: stake_nat_def stake_of_def)
  finally show ?thesis by (simp add: total_stake_def)
qed

section \<open>The contract of a committee\<close>

text \<open>
  What the protocol asks of the thresholds: two quorums share more than the faulty stake, and a
  quorum meets every set that reaches the validity threshold.
\<close>

locale committee_contract =
  fixes ok :: "'c \<Rightarrow> bool" and mem :: "'c \<Rightarrow> 'n set" and weight :: "'c \<Rightarrow> 'n \<Rightarrow> nat"
    and quorum :: "'c \<Rightarrow> nat" and validity :: "'c \<Rightarrow> nat"
  assumes fin: "ok c \<Longrightarrow> finite (mem c)"
    and outside: "ok c \<Longrightarrow> x \<notin> mem c \<Longrightarrow> weight c x = 0"
    and quorum_validity: "ok c \<Longrightarrow> sum (weight c) (mem c) < quorum c + validity c"
    and two_quorums: "ok c \<Longrightarrow> sum (weight c) (mem c) + validity c \<le> 2 * quorum c"
    and quorum_le: "ok c \<Longrightarrow> 0 < sum (weight c) (mem c) \<Longrightarrow> quorum c \<le> sum (weight c) (mem c)"
    and quorum_pos: "ok c \<Longrightarrow> 0 < quorum c"
begin

lemma weight_restrict:
  assumes "ok c" "finite S"
  shows "sum (weight c) S = sum (weight c) (S \<inter> mem c)"
  using assms outside [OF assms(1)] by (intro sum.mono_neutral_right) auto

lemma overlap:
  assumes "ok c" "finite S" "finite T"
  shows "sum (weight c) S + sum (weight c) T \<le> sum (weight c) (mem c) + sum (weight c) (S \<inter> T)"
proof -
  let ?S = "S \<inter> mem c" and ?T = "T \<inter> mem c"
  have "sum (weight c) ?S + sum (weight c) ?T = sum (weight c) (?S \<union> ?T) + sum (weight c) (?S \<inter> ?T)"
    using assms by (simp add: sum.union_inter)
  also have "sum (weight c) (?S \<union> ?T) \<le> sum (weight c) (mem c)"
    using fin [OF assms(1)] by (intro sum_mono2) auto
  also have "sum (weight c) (?S \<inter> ?T) \<le> sum (weight c) (S \<inter> T)"
    using assms by (intro sum_mono2) auto
  finally show ?thesis
    by (simp add: weight_restrict [OF assms(1,2)] weight_restrict [OF assms(1,3)])
qed

lemma quorum_meets_validity:
  assumes "ok c" "finite S" "finite T"
    and "quorum c \<le> sum (weight c) S" "validity c \<le> sum (weight c) T"
  shows "\<exists>x \<in> S \<inter> T. 0 < weight c x"
proof (rule ccontr)
  assume "\<not> ?thesis"
  then have "sum (weight c) (S \<inter> T) = 0" by (intro sum.neutral) auto
  then have "sum (weight c) S + sum (weight c) T \<le> sum (weight c) (mem c)"
    using overlap [OF assms(1-3)] by simp
  with quorum_validity [OF assms(1)] assms(4,5) show False by linarith
qed

lemma quorums_share_validity:
  assumes "ok c" "finite S" "finite T"
    and "quorum c \<le> sum (weight c) S" "quorum c \<le> sum (weight c) T"
  shows "validity c \<le> sum (weight c) (S \<inter> T)"
  using overlap [OF assms(1-3)] two_quorums [OF assms(1)] assms(4,5) by linarith

text \<open>After a quorum has been counted, what is left of the committee is not a quorum.\<close>

lemma rest_no_quorum:
  assumes "ok c" "finite S" "finite T" "S \<inter> T = {}" "quorum c \<le> sum (weight c) S"
  shows "sum (weight c) T < validity c"
  using overlap [OF assms(1-3)] quorum_validity [OF assms(1)] assms(4,5) by simp

end

interpretation com: committee_contract sane_stake members stake_nat
  "\<lambda>c. unat (quorum_threshold c)" "\<lambda>c. unat (validity_threshold c)"
proof unfold_locales
  fix c assume ok: "sane_stake c"
  have tot: "sum (stake_nat c) (members c) = total_stake c"
    using ok by (simp add: sane_stake_def members_total)
  have q: "unat (quorum_threshold c) = 2 * total_stake c div 3 + 1"
    and v: "unat (validity_threshold c) = (total_stake c + 2) div 3"
    using ok by (simp_all add: sane_stake_def quorum_threshold_unat validity_threshold_unat)
  show "finite (members c)" by (simp add: members_def)
  show "sum (stake_nat c) (members c) < unat (quorum_threshold c) + unat (validity_threshold c)"
    unfolding tot q v by presburger
  show "sum (stake_nat c) (members c) + unat (validity_threshold c) \<le> 2 * unat (quorum_threshold c)"
    unfolding tot q v by presburger
  show "unat (quorum_threshold c) \<le> sum (stake_nat c) (members c)"
    if "0 < sum (stake_nat c) (members c)"
    using that unfolding tot q v by presburger
  show "0 < unat (quorum_threshold c)" unfolding q by simp
next
  fix c x assume "sane_stake c" "x \<notin> members c"
  then have "map_of (authorities c) x = None" by (simp add: members_def map_of_eq_None_iff)
  then show "stake_nat c x = 0" by (simp add: stake_nat_def stake_of_def)
qed

end
