(* ===== verification/Messages.thy ===== *)
theory Messages
  imports Config
begin

text \<open>
  The messages of \<open>primary/src/messages.rs\<close> and the errors of \<open>primary/src/error.rs\<close>: headers,
  votes, certificates, their hashes, their checks, and the genesis certificates.

  \<open>payload\<close> is a \<open>BTreeMap\<close> and \<open>parents\<close> a \<open>BTreeSet\<close>: lists in strictly increasing order
  (\<open>wf_header\<close>), which is the order the code iterates over them.
\<close>

section \<open>Data\<close>

type_synonym round = u64

record header =
  h_author :: public_key
  h_round :: round
  h_payload :: "(digest \<times> worker_id) list"
  h_parents :: "digest list"
  h_id :: digest
  h_sig :: signature

record vote =
  v_id :: digest
  v_round :: round
  v_origin :: public_key
  v_author :: public_key
  v_sig :: signature

record certificate =
  c_header :: header
  c_votes :: "(public_key \<times> signature) list"

datatype store_error = RocksError
datatype ser_error = BincodeError

datatype dag_error =
    InvalidSignature crypto_error
  | StoreError store_error
  | SerializationError ser_error
  | InvalidHeaderId
  | MalformedHeader digest
  | UnknownAuthority public_key
  | AuthorityReuse public_key
  | UnexpectedVote digest
  | CertificateRequiresQuorum
  | HeaderRequiresQuorum digest
  | TooOld digest round

text \<open>\<open>ensure!(cond, e)\<close> and \<open>map_err(DagError::from)\<close>.\<close>

definition ensure :: "bool \<Rightarrow> dag_error \<Rightarrow> dag_error + unit" where
  "ensure b e = (if b then Inr () else Inl e)"

definition sig_err :: "crypto_error + unit \<Rightarrow> dag_error + unit" where
  "sig_err r = (case r of Inl e \<Rightarrow> Inl (InvalidSignature e) | Inr u \<Rightarrow> Inr u)"

definition header_default :: header where
  "header_default = \<lparr>h_author = key_default, h_round = 0, h_payload = [], h_parents = [],
     h_id = digest_default, h_sig = signature_default\<rparr>"

definition wf_header :: "header \<Rightarrow> bool" where
  "wf_header h \<longleftrightarrow> sorted_wrt (<) (map fst (h_payload h)) \<and> sorted_wrt (<) (h_parents h)"

section \<open>Headers\<close>

definition header_bytes :: "header \<Rightarrow> u8 list" where
  "header_bytes h = key_bytes (h_author h) @ le_bytes 8 (h_round h)
     @ concat (map (\<lambda>(x, y). digest_to_vec x @ le_bytes 4 y) (h_payload h))
     @ concat (map digest_to_vec (h_parents h))"

definition header_digest :: "crypto_lib \<Rightarrow> header \<Rightarrow> digest" where
  "header_digest L h = hash_digest L (header_bytes h)"

definition header_new :: "crypto_lib \<Rightarrow> u8 list \<Rightarrow> public_key \<Rightarrow> round \<Rightarrow>
    (digest \<times> worker_id) list \<Rightarrow> digest list \<Rightarrow> header" where
  "header_new L secret auth rnd payload parents =
     (let header = \<lparr>h_author = auth, h_round = rnd, h_payload = payload, h_parents = parents,
                     h_id = digest_default, h_sig = signature_default\<rparr>;
          i = header_digest L header;
          s = request_signature L secret i
      in header\<lparr>h_id := i, h_sig := s\<rparr>)"

definition header_verify :: "crypto_lib \<Rightarrow> committee \<Rightarrow> header \<Rightarrow> dag_error + unit" where
  "header_verify L c h =
     bindR (ensure (header_digest L h = h_id h) InvalidHeaderId) (\<lambda>_.
     let voting_rights = stake_of c (h_author h) in
     bindR (ensure (voting_rights > 0) (UnknownAuthority (h_author h))) (\<lambda>_.
     bindR (foldR (\<lambda>wid _. case worker_of c (h_author h) wid of
                      Inl _ \<Rightarrow> Inl (MalformedHeader (h_id h)) | Inr _ \<Rightarrow> Inr ())
             (map snd (h_payload h)) ()) (\<lambda>_.
     sig_err (signature_verify L (h_sig h) (h_id h) (h_author h)))))"

section \<open>Votes\<close>

definition vote_bytes :: "vote \<Rightarrow> u8 list" where
  "vote_bytes v = digest_to_vec (v_id v) @ le_bytes 8 (v_round v) @ key_bytes (v_origin v)"

definition vote_digest :: "crypto_lib \<Rightarrow> vote \<Rightarrow> digest" where
  "vote_digest L v = hash_digest L (vote_bytes v)"

definition vote_new :: "crypto_lib \<Rightarrow> u8 list \<Rightarrow> header \<Rightarrow> public_key \<Rightarrow> vote" where
  "vote_new L secret h auth =
     (let v = \<lparr>v_id = h_id h, v_round = h_round h, v_origin = h_author h, v_author = auth,
               v_sig = signature_default\<rparr>
      in v\<lparr>v_sig := request_signature L secret (vote_digest L v)\<rparr>)"

definition vote_verify :: "crypto_lib \<Rightarrow> committee \<Rightarrow> vote \<Rightarrow> dag_error + unit" where
  "vote_verify L c v =
     bindR (ensure (stake_of c (v_author v) > 0) (UnknownAuthority (v_author v))) (\<lambda>_.
     sig_err (signature_verify L (v_sig v) (vote_digest L v) (v_author v)))"

section \<open>Certificates\<close>

definition cert_round :: "certificate \<Rightarrow> round" where
  "cert_round c = h_round (c_header c)"

definition cert_origin :: "certificate \<Rightarrow> public_key" where
  "cert_origin c = h_author (c_header c)"

definition cert_bytes :: "certificate \<Rightarrow> u8 list" where
  "cert_bytes c = digest_to_vec (h_id (c_header c)) @ le_bytes 8 (cert_round c) @ key_bytes (cert_origin c)"

definition cert_digest :: "crypto_lib \<Rightarrow> certificate \<Rightarrow> digest" where
  "cert_digest L c = hash_digest L (cert_bytes c)"

text \<open>The hand-written \<open>PartialEq\<close>: header id, round and origin only.\<close>

definition cert_eq :: "certificate \<Rightarrow> certificate \<Rightarrow> bool" where
  "cert_eq a b \<longleftrightarrow> h_id (c_header a) = h_id (c_header b) \<and> cert_round a = cert_round b
     \<and> cert_origin a = cert_origin b"

definition genesis :: "committee \<Rightarrow> certificate list" where
  "genesis c = map (\<lambda>name. \<lparr>c_header = header_default\<lparr>h_author := name\<rparr>, c_votes = []\<rparr>)
                 (map fst (authorities c))"

text \<open>The loop of \<open>Certificate::verify\<close> over the votes: reuse, voting rights, weight.\<close>

definition vote_weight :: "committee \<Rightarrow> (public_key \<times> signature) list \<Rightarrow>
    dag_error + stake \<times> public_key set" where
  "vote_weight c votes =
     foldR (\<lambda>(name, _) (weight, used).
        bindR (ensure (name \<notin> used) (AuthorityReuse name)) (\<lambda>_.
        let voting_rights = stake_of c name in
        bindR (ensure (voting_rights > 0) (UnknownAuthority name)) (\<lambda>_.
        Inr (weight + voting_rights, insert name used)))) votes (0, {})"

definition cert_verify :: "crypto_lib \<Rightarrow> committee \<Rightarrow> certificate \<Rightarrow> dag_error + unit" where
  "cert_verify L c cert =
     (if list_ex (\<lambda>g. cert_eq g cert) (genesis c) then Inr ()
      else bindR (header_verify L c (c_header cert)) (\<lambda>_.
           bindR (vote_weight c (c_votes cert)) (\<lambda>(weight, used).
           bindR (ensure (weight \<ge> quorum_threshold c) CertificateRequiresQuorum) (\<lambda>_.
           sig_err (verify_batch L (cert_digest L cert) (c_votes cert))))))"

section \<open>The checks as predicates\<close>

lemma ensure_Inr [simp]: "ensure b e = Inr u \<longleftrightarrow> b"
  by (simp add: ensure_def)

lemma sig_err_Inr [simp]: "sig_err r = Inr u \<longleftrightarrow> r = Inr ()"
  by (cases r) (auto simp: sig_err_def)

lemma foldR_unit_Inr:
  "foldR (\<lambda>x (_::unit). f x) xs () = Inr () \<longleftrightarrow> (\<forall>x \<in> set xs. f x = Inr ())"
  by (induction xs) (auto simp: bindR_Inr_iff)

lemma case_ok_iff:
  "(case r of Inl _ \<Rightarrow> Inl e | Inr _ \<Rightarrow> Inr ()) = Inr () \<longleftrightarrow> (\<exists>x. r = Inr x)"
  by (cases r) auto

lemma header_verify_Inr:
  "header_verify L c h = Inr () \<longleftrightarrow>
     header_digest L h = h_id h \<and> stake_of c (h_author h) > 0
     \<and> (\<forall>(d, wid) \<in> set (h_payload h). \<exists>w. worker_of c (h_author h) wid = Inr w)
     \<and> signature_verify L (h_sig h) (h_id h) (h_author h) = Inr ()"
  by (auto simp: header_verify_def bindR_Inr_iff Let_def foldR_unit_Inr case_ok_iff)

lemma stake_pos_iff: "stake_of c n > 0 \<longleftrightarrow> 0 < stake_nat c n"
  by (simp add: stake_nat_def word_less_nat_alt)

lemma vote_weight_gen:
  fixes c :: committee
  defines "step \<equiv> (\<lambda>(name, _::signature) (weight, used).
        bindR (ensure (name \<notin> used) (AuthorityReuse name)) (\<lambda>_.
        let voting_rights = stake_of c name in
        bindR (ensure (voting_rights > 0) (UnknownAuthority name)) (\<lambda>_.
        Inr (weight + voting_rights, insert name used))))"
  shows "foldR step votes (w, U) = Inr (w', U') \<longleftrightarrow>
      distinct (map fst votes) \<and> set (map fst votes) \<inter> U = {}
      \<and> (\<forall>n \<in> set (map fst votes). stake_of c n > 0)
      \<and> w' = w + sum_list (map (stake_of c \<circ> fst) votes) \<and> U' = U \<union> set (map fst votes)"
proof (induction votes arbitrary: w U)
  case Nil
  then show ?case by auto
next
  case (Cons x votes)
  then show ?case
    by (cases x) (auto simp: step_def bindR_Inr_iff Let_def add.assoc)
qed

lemma vote_weight_Inr:
  "vote_weight c votes = Inr (w, U) \<longleftrightarrow>
     distinct (map fst votes) \<and> (\<forall>n \<in> set (map fst votes). stake_of c n > 0)
     \<and> w = sum_list (map (stake_of c \<circ> fst) votes) \<and> U = set (map fst votes)"
  unfolding vote_weight_def by (subst vote_weight_gen) auto

lemma is_genesis_iff:
  "list_ex (\<lambda>g. cert_eq g cert) (genesis c) \<longleftrightarrow>
     h_id (c_header cert) = digest_default \<and> cert_round cert = 0 \<and> cert_origin cert \<in> members c"
  unfolding list_ex_iff genesis_def members_def set_map
  by (auto simp: cert_eq_def cert_round_def cert_origin_def header_default_def)

lemma cert_verify_Inr:
  "cert_verify L c cert = Inr () \<longleftrightarrow>
     (h_id (c_header cert) = digest_default \<and> cert_round cert = 0 \<and> cert_origin cert \<in> members c)
     \<or> (header_verify L c (c_header cert) = Inr () \<and> distinct (map fst (c_votes cert))
        \<and> (\<forall>n \<in> set (map fst (c_votes cert)). stake_of c n > 0)
        \<and> quorum_threshold c \<le> sum_list (map (stake_of c \<circ> fst) (c_votes cert))
        \<and> verify_batch L (cert_digest L cert) (c_votes cert) = Inr ())"
proof (cases "list_ex (\<lambda>g. cert_eq g cert) (genesis c)")
  case True
  then show ?thesis by (simp add: cert_verify_def) (simp add: is_genesis_iff)
next
  case False
  then have ng: "\<not> (h_id (c_header cert) = digest_default \<and> cert_round cert = 0
      \<and> cert_origin cert \<in> members c)"
    by (simp add: is_genesis_iff)
  from False show ?thesis
    unfolding cert_verify_def by (auto simp: ng bindR_Inr_iff vote_weight_Inr)
qed

section \<open>Weights of lists of names\<close>

lemma sum_stake_le_total:
  assumes "sane_stake c" "finite S"
  shows "sum (stake_nat c) S \<le> total_stake c"
proof -
  have "sum (stake_nat c) S = sum (stake_nat c) (S \<inter> members c)"
    by (rule com.weight_restrict [OF assms])
  also have "\<dots> \<le> sum (stake_nat c) (members c)"
    by (intro sum_mono2) (auto simp: members_def)
  also have "\<dots> = total_stake c" using assms by (simp add: sane_stake_def members_total)
  finally show ?thesis .
qed

lemma sum_list_stake_unat:
  assumes "sane_stake c" "distinct ns"
  shows "unat (sum_list (map (stake_of c) ns)) = sum (stake_nat c) (set ns)"
proof -
  have eq: "sum_list (map unat (map (stake_of c) ns)) = sum (stake_nat c) (set ns)"
    using sum_list_distinct_conv_sum_set [OF assms(2), of "stake_nat c"]
    by (simp add: stake_nat_def [abs_def] comp_def)
  moreover have "sum (stake_nat c) (set ns) < 2 ^ 32"
    using sum_stake_le_total [OF assms(1), of "set ns"] assms(1) by (simp add: sane_stake_def)
  ultimately show ?thesis using unat_sum_list [of "map (stake_of c) ns"] by simp
qed

lemma sample_lib_cert_digest: "cert_digest sample_lib c = h_id (c_header c)"
  by (simp add: cert_digest_def cert_bytes_def sample_lib_digest)

end
