(* ===== verification/StoreModel.thy ===== *)
theory StoreModel
  imports Messages
begin

text \<open>
  The storage task of \<open>store/src/lib.rs\<close>: a RocksDB handle, and the senders that wait for a key that is
  not there yet. The three methods of \<open>Store\<close> send a command and await its reply, so a client's
  \<open>write\<close> and \<open>read\<close> are steps of the task. RocksDB is the parameter \<open>rocks\<close>; \<open>rocks_ok\<close> says that a
  \<open>get\<close> returns the last \<open>put\<close> and that no I/O error occurs.
\<close>

section \<open>Commands and state\<close>

type_synonym bytes = "u8 list"

record 'db rocks =
  db_get :: "'db \<Rightarrow> bytes \<Rightarrow> store_error + bytes option"
  db_put :: "'db \<Rightarrow> bytes \<Rightarrow> bytes \<Rightarrow> (store_error + unit) \<times> 'db"

text \<open>A \<open>oneshot::Sender\<close> is named by a number; \<open>sent\<close> is what went into them.\<close>

datatype store_command =
    Write bytes bytes
  | Read bytes nat
  | NotifyRead bytes nat

datatype store_reply =
    ReadReply "store_error + bytes option"
  | NotifyReply "store_error + bytes"

record 'db store =
  db :: 'db
  obligations :: "(bytes \<times> nat list) list"
  sent :: "(nat \<times> store_reply) list"

definition store_new :: "'db \<Rightarrow> 'db store" where
  "store_new d = \<lparr>db = d, obligations = [], sent = []\<rparr>"

definition store_queue :: "'db store \<Rightarrow> bytes \<Rightarrow> nat list" where
  "store_queue s k = (case map_of (obligations s) k of None \<Rightarrow> [] | Some q \<Rightarrow> q)"

fun store_step :: "('db, 'a) rocks_scheme \<Rightarrow> store_command \<Rightarrow> 'db store \<Rightarrow> 'db store" where
  "store_step E (Write key val) s =
     s\<lparr>db := snd (db_put E (db s) key val),
       obligations := AList.delete key (obligations s),
       sent := sent s @ map (\<lambda>x. (x, NotifyReply (Inr val))) (store_queue s key)\<rparr>"
| "store_step E (Read key sender) s = s\<lparr>sent := sent s @ [(sender, ReadReply (db_get E (db s) key))]\<rparr>"
| "store_step E (NotifyRead key sender) s =
     (case db_get E (db s) key of
        Inr None \<Rightarrow> s\<lparr>obligations := AList.update key (store_queue s key @ [sender]) (obligations s)\<rparr>
      | Inr (Some val) \<Rightarrow> s\<lparr>sent := sent s @ [(sender, NotifyReply (Inr val))]\<rparr>
      | Inl e \<Rightarrow> s\<lparr>sent := sent s @ [(sender, NotifyReply (Inl e))]\<rparr>)"

declare store_step.simps [simp del]

definition store_run :: "('db, 'a) rocks_scheme \<Rightarrow> store_command list \<Rightarrow> 'db store \<Rightarrow> 'db store" where
  "store_run E cmds s = fold (store_step E) cmds s"

text \<open>The clients' view of a write and of a read.\<close>

definition store_write :: "('db, 'a) rocks_scheme \<Rightarrow> bytes \<Rightarrow> bytes \<Rightarrow> 'db store \<Rightarrow> 'db store" where
  "store_write E key val s = store_step E (Write key val) s"

definition store_read :: "('db, 'a) rocks_scheme \<Rightarrow> bytes \<Rightarrow> 'db store \<Rightarrow> store_error + bytes option" where
  "store_read E key s = db_get E (db s) key"

section \<open>The contract of a key-value store\<close>

definition rocks_ok :: "('db, 'a) rocks_scheme \<Rightarrow> bool" where
  "rocks_ok E \<longleftrightarrow> (\<forall>d k v j. db_get E (snd (db_put E d k v)) j = (if j = k then Inr (Some v) else db_get E d j))"

locale kv_store =
  fixes ok :: "'e \<Rightarrow> bool" and wr :: "'e \<Rightarrow> 'k \<Rightarrow> 'v \<Rightarrow> 's \<Rightarrow> 's" and rd :: "'e \<Rightarrow> 'k \<Rightarrow> 's \<Rightarrow> 'r + 'v option"
  assumes rd_wr: "ok e \<Longrightarrow> rd e j (wr e k v s) = (if j = k then Inr (Some v) else rd e j s)"
begin

definition has :: "'e \<Rightarrow> 'k \<Rightarrow> 's \<Rightarrow> bool" where
  "has e k s \<longleftrightarrow> (\<exists>v. rd e k s = Inr (Some v))"

lemma has_wr: "ok e \<Longrightarrow> has e j (wr e k v s) \<longleftrightarrow> j = k \<or> has e j s"
  by (auto simp: has_def rd_wr)

lemma rd_writes:
  "ok e \<Longrightarrow> rd e k (fold (\<lambda>(j, v). wr e j v) kvs s)
     = (case map_of (rev kvs) k of Some v \<Rightarrow> Inr (Some v) | None \<Rightarrow> rd e k s)"
  by (induction kvs arbitrary: s) (auto simp: rd_wr map_add_def split: option.splits)

end

interpretation st: kv_store rocks_ok store_write store_read
  by unfold_locales (simp add: rocks_ok_def store_step.simps store_write_def store_read_def)

text \<open>A map is a RocksDB without I/O errors.\<close>

definition map_rocks :: "(bytes \<rightharpoonup> bytes) rocks" where
  "map_rocks = \<lparr>db_get = (\<lambda>d k. Inr (d k)), db_put = (\<lambda>d k v. (Inr (), d(k \<mapsto> v)))\<rparr>"

lemma map_rocks_ok: "rocks_ok map_rocks"
  by (simp add: rocks_ok_def map_rocks_def)

section \<open>The task against its specification\<close>

text \<open>The last value written, from a sequence of commands on an initial map.\<close>

fun last_write :: "store_command list \<Rightarrow> (bytes \<rightharpoonup> bytes) \<Rightarrow> (bytes \<rightharpoonup> bytes)" where
  "last_write [] m = m"
| "last_write (Write k v # cmds) m = last_write cmds (m(k \<mapsto> v))"
| "last_write (_ # cmds) m = last_write cmds m"

fun first_write :: "bytes \<Rightarrow> store_command list \<Rightarrow> bytes option" where
  "first_write j [] = None"
| "first_write j (Write k v # cmds) = (if j = k then Some v else first_write j cmds)"
| "first_write j (_ # cmds) = first_write j cmds"

fun senders :: "store_command list \<Rightarrow> nat set" where
  "senders [] = {}"
| "senders (Write k v # cmds) = senders cmds"
| "senders (Read k x # cmds) = insert x (senders cmds)"
| "senders (NotifyRead k x # cmds) = insert x (senders cmds)"

definition replies_to :: "nat \<Rightarrow> 'db store \<Rightarrow> store_reply list" where
  "replies_to x s = map snd (filter (\<lambda>e. fst e = x) (sent s))"

definition holds_map :: "('db, 'a) rocks_scheme \<Rightarrow> (bytes \<rightharpoonup> bytes) \<Rightarrow> 'db store \<Rightarrow> bool" where
  "holds_map E m s \<longleftrightarrow> (\<forall>k. db_get E (db s) k = Inr (m k))"

lemma store_queue_simps [simp]:
  "store_queue (store_step E (Write k v) s) j = (if j = k then [] else store_queue s j)"
  "store_queue (store_step E (Read k x) s) j = store_queue s j"
  by (auto simp: store_step.simps store_queue_def AList.delete_conv')

lemma store_queue_notify:
  "store_queue (store_step E (NotifyRead k x) s) j =
     (if j = k \<and> db_get E (db s) k = Inr None then store_queue s k @ [x] else store_queue s j)"
  by (auto simp: store_step.simps store_queue_def update_conv' split: sum.split option.split)

lemma holds_map_step:
  assumes "rocks_ok E" "holds_map E m s"
  shows "holds_map E (last_write [cmd] m) (store_step E cmd s)"
  using assms by (cases cmd) (auto simp: store_step.simps holds_map_def rocks_ok_def split: sum.split option.split)

lemma last_write_append: "last_write (xs @ ys) m = last_write ys (last_write xs m)"
proof (induction xs arbitrary: m)
  case (Cons cmd xs)
  then show ?case by (cases cmd) (simp_all add: fun_upd_def)
qed simp

lemma holds_map_run:
  "rocks_ok E \<Longrightarrow> holds_map E m s \<Longrightarrow> holds_map E (last_write cmds m) (store_run E cmds s)"
proof (induction cmds arbitrary: m s)
  case (Cons cmd cmds)
  from Cons.IH [OF Cons.prems(1) holds_map_step [OF Cons.prems, of cmd]]
  show ?case using last_write_append [of "[cmd]" cmds m] by (simp add: store_run_def)
qed (simp add: store_run_def)

lemma replies_write:
  "replies_to x (store_step E (Write k v) s)
     = replies_to x s @ replicate (count_list (store_queue s k) x) (NotifyReply (Inr v))"
proof -
  have "map snd (filter (\<lambda>e. fst e = x) (map (\<lambda>y. (y, r)) ys)) = replicate (count_list ys x) r" for ys and r :: store_reply
    by (induction ys) auto
  then show ?thesis by (simp add: store_step.simps replies_to_def)
qed

text \<open>How often a sender waits for a key.\<close>

definition waits :: "nat \<Rightarrow> 'db store \<Rightarrow> bytes \<Rightarrow> nat" where
  "waits x s k = count_list (store_queue s k) x"

lemma waits_step:
  assumes "x \<notin> senders [cmd]"
  shows "waits x (store_step E cmd s) j = (if \<exists>v. cmd = Write j v then 0 else waits x s j)"
  using assms by (cases cmd) (auto simp: waits_def store_queue_notify)

lemma replies_step:
  assumes "x \<notin> senders [cmd]"
  shows "replies_to x (store_step E cmd s)
    = replies_to x s @ (case cmd of Write k v \<Rightarrow> replicate (waits x s k) (NotifyReply (Inr v)) | _ \<Rightarrow> [])"
proof (cases cmd)
  case (Write k v)
  then show ?thesis by (simp only: replies_write store_command.case waits_def)
qed (use assms in \<open>auto simp: store_step.simps replies_to_def split: sum.split option.split\<close>)

lemma senders_Cons: "senders (cmd # cmds) = senders [cmd] \<union> senders cmds"
  by (cases cmd) auto

lemma replies_other:
  "(\<And>k. waits x s k = 0) \<Longrightarrow> x \<notin> senders cmds \<Longrightarrow>
    replies_to x (store_run E cmds s) = replies_to x s \<and> (\<forall>k. waits x (store_run E cmds s) k = 0)"
proof (induction cmds arbitrary: s)
  case (Cons cmd cmds)
  have x: "x \<notin> senders [cmd]" "x \<notin> senders cmds" using Cons.prems(2) senders_Cons [of cmd cmds] by auto
  have "waits x (store_step E cmd s) k = 0" for k using Cons.prems(1) by (simp add: waits_step [OF x(1)])
  moreover have "replies_to x (store_step E cmd s) = replies_to x s"
    using Cons.prems(1) by (simp add: replies_step [OF x(1)] split: store_command.split)
  ultimately show ?case using Cons.IH x(2) by (simp add: store_run_def)
qed (simp add: store_run_def)

text \<open>The storage task implements a map: after any sequence of commands a read answers with the last
  value written under its key, or with what was there at the start.\<close>

theorem store_reads_last_write:
  assumes "rocks_ok E" "holds_map E m s"
  shows "store_read E k (store_run E cmds s) = Inr (last_write cmds m k)"
  using holds_map_run [OF assms, of cmds] by (simp add: holds_map_def store_read_def)

lemma map_rocks_new: "holds_map map_rocks m (store_new m)"
  by (simp add: holds_map_def map_rocks_def store_new_def)

lemma store_reads_last_write_witness:
  "store_read map_rocks [1] (store_run map_rocks [Write [1] [2], NotifyRead [3] 0, Write [1] [4]] (store_new Map.empty))
     = Inr (Some [4])"
  using store_reads_last_write [OF map_rocks_ok map_rocks_new] by simp

lemma store_waits:
  "(\<And>j. waits x s j = (if j = k then 1 else 0)) \<Longrightarrow> x \<notin> senders cmds \<Longrightarrow>
    replies_to x (store_run E cmds s)
      = replies_to x s @ (case first_write k cmds of None \<Rightarrow> [] | Some v \<Rightarrow> [NotifyReply (Inr v)])"
proof (induction cmds arbitrary: s)
  case (Cons cmd cmds)
  have run: "store_run E (cmd # cmds) s = store_run E cmds (store_step E cmd s)" by (simp add: store_run_def)
  have x: "x \<notin> senders [cmd]" "x \<notin> senders cmds" using Cons.prems(2) senders_Cons [of cmd cmds] by auto
  show ?case
  proof (cases "\<exists>v. cmd = Write k v")
    case True
    then obtain v where cmd: "cmd = Write k v" ..
    have "waits x (store_step E cmd s) j = 0" for j
      using Cons.prems(1) unfolding waits_step [OF x(1)] by (simp add: cmd)
    from replies_other [OF this x(2), of E] show ?thesis
      unfolding run replies_step [OF x(1)] using Cons.prems(1) by (simp add: cmd)
  next
    case False
    have "waits x (store_step E cmd s) j = (if j = k then 1 else 0)" for j
      using Cons.prems(1) False by (auto simp: waits_step [OF x(1)])
    moreover have "replies_to x (store_step E cmd s) = replies_to x s"
      using Cons.prems(1) False by (auto simp: replies_step [OF x(1)] split: store_command.split)
    moreover have "first_write k (cmd # cmds) = first_write k cmds" using False by (cases cmd) auto
    ultimately show ?thesis using Cons.IH x(2) run by simp
  qed
qed (simp add: store_run_def)

text \<open>C36. No wake-up is lost: every \<open>notify_read\<close> is answered exactly once if its key is ever written, at
  once with the value that is there, or else by the first write that follows; and never otherwise.\<close>

theorem notify_read_answered:
  assumes "rocks_ok E" "x \<notin> senders pre" "x \<notin> senders post"
    and "holds_map E m s" "\<And>j. x \<notin> set (store_queue s j)" "replies_to x s = []"
  shows "replies_to x (store_run E (pre @ NotifyRead k x # post) s)
     = (case last_write pre m k of
          Some v \<Rightarrow> [NotifyReply (Inr v)]
        | None \<Rightarrow> (case first_write k post of Some v \<Rightarrow> [NotifyReply (Inr v)] | None \<Rightarrow> []))"
proof -
  define s1 where "s1 = store_run E pre s"
  have "waits x s j = 0" for j using assms(5) by (simp add: waits_def count_list_0_iff)
  note pre = replies_other [OF this assms(2), of E]
  have s1: "holds_map E (last_write pre m) s1" "replies_to x s1 = []" "\<And>j. waits x s1 j = 0"
    using holds_map_run [OF assms(1,4)] pre assms(6) by (simp_all add: s1_def)
  have run: "store_run E (pre @ NotifyRead k x # post) s = store_run E post (store_step E (NotifyRead k x) s1)"
    by (simp add: store_run_def s1_def)
  show ?thesis
  proof (cases "last_write pre m k")
    case (Some v)
    then have step: "store_step E (NotifyRead k x) s1 = s1\<lparr>sent := sent s1 @ [(x, NotifyReply (Inr v))]\<rparr>"
      using s1(1) by (simp add: store_step.simps holds_map_def)
    have "waits x (store_step E (NotifyRead k x) s1) j = 0" for j
      using s1(3) [of j] unfolding step by (simp add: waits_def store_queue_def)
    from replies_other [OF this assms(3), of E]
    have "replies_to x (store_run E post (store_step E (NotifyRead k x) s1)) = replies_to x (store_step E (NotifyRead k x) s1)"
      by blast
    moreover have "replies_to x (store_step E (NotifyRead k x) s1) = [NotifyReply (Inr v)]"
      using s1(2) unfolding step by (simp add: replies_to_def)
    ultimately show ?thesis unfolding run Some by simp
  next
    case None
    then have get: "db_get E (db s1) k = Inr None" using s1(1) by (simp add: holds_map_def)
    have "waits x (store_step E (NotifyRead k x) s1) j = (if j = k then 1 else 0)" for j
      using s1(3) [of j] s1(3) [of k] get unfolding waits_def store_queue_notify by simp
    from store_waits [OF this assms(3), of E]
    have "replies_to x (store_run E post (store_step E (NotifyRead k x) s1))
        = replies_to x (store_step E (NotifyRead k x) s1)
          @ (case first_write k post of None \<Rightarrow> [] | Some v \<Rightarrow> [NotifyReply (Inr v)])" .
    moreover have "replies_to x (store_step E (NotifyRead k x) s1) = []" using s1(2) get by (simp add: store_step.simps replies_to_def)
    ultimately show ?thesis unfolding run None by (simp split: option.split)
  qed
qed

lemma notify_read_answered_witness:
  "replies_to 7 (store_run map_rocks ([Write [1] [2]] @ NotifyRead [3] 7 # [Write [3] [4], Write [3] [5]]) (store_new Map.empty))
     = [NotifyReply (Inr [4])]"
  using notify_read_answered [OF map_rocks_ok, of 7 "[Write [1] [2]]" "[Write [3] [4], Write [3] [5]]" Map.empty
      "store_new Map.empty" "[3]"]
  by (simp add: map_rocks_new) (simp add: replies_to_def store_queue_def store_new_def)

end
