(* ===== verification/KeyFiles.thy ===== *)
theory KeyFiles
  imports Config StoreModel "HOL-Library.Countable"
begin

text \<open>
  The files of \<open>config/src/lib.rs\<close>: the traits \<open>Import\<close> and \<open>Export\<close>, the key pair that the command
  \<open>generate_keys\<close> of \<open>node/src/main.rs\<close> writes, and what \<open>run\<close> reads when it starts. The disk is the state; serde_json is the
  parameter \<open>json\<close>, which reads and writes the fields of a structure.
\<close>

section \<open>The disk\<close>

text \<open>The error that opening a path gives, if any, and the error that writing gives, if any.\<close>

record disk =
  files :: "string \<rightharpoonup> bytes"
  open_error :: "string \<Rightarrow> string option"
  write_error :: "string option"

text \<open>What \<open>serde_json\<close> makes of the value, and the value or the error message it makes of bytes.\<close>

record 'v json =
  to_string_pretty :: "'v \<Rightarrow> bytes"
  from_slice :: "bytes \<Rightarrow> string + 'v"

section \<open>Import and export\<close>

definition import_file :: "'v json \<Rightarrow> string \<Rightarrow> disk \<Rightarrow> config_error + 'v" where
  "import_file J path D =
     (case (case open_error D path of
              Some e \<Rightarrow> Inl e
            | None \<Rightarrow> (case files D path of
                None \<Rightarrow> Inl ''No such file or directory''
              | Some data \<Rightarrow> from_slice J data)) of
        Inl e \<Rightarrow> Inl (ImportError path e)
      | Inr x \<Rightarrow> Inr x)"

text \<open>
  The file is opened with \<open>create\<close> and \<open>write\<close> but not with \<open>truncate\<close>: the bytes are written over the first ones of an
  old file. A \<open>BufWriter\<close> holds back up to 8192 bytes; they are written when it is dropped, where an error is ignored.
\<close>

definition overwrite :: "bytes \<Rightarrow> bytes \<Rightarrow> bytes" where
  "overwrite data old = data @ drop (length data) old"

definition newline :: "8 word" where
  "newline = 10"

definition export_file :: "'v json \<Rightarrow> 'v \<Rightarrow> string \<Rightarrow> disk \<Rightarrow> (config_error + unit) \<times> disk" where
  "export_file J x path D =
     (case open_error D path of
        Some e \<Rightarrow> (Inl (ExportError path e), D)
      | None \<Rightarrow>
          (let old = (case files D path of None \<Rightarrow> [] | Some bs \<Rightarrow> bs);
               data = to_string_pretty J x
           in case write_error D of
                None \<Rightarrow> (Inr (), D\<lparr>files := (files D)(path \<mapsto> overwrite (data @ [newline]) old)\<rparr>)
              | Some e \<Rightarrow> (if length data < 8192 then Inr () else Inl (ExportError path e), D\<lparr>files := (files D)(path \<mapsto> old)\<rparr>)))"

section \<open>Key pairs\<close>

record key_pair =
  kp_name :: public_key
  kp_secret :: bytes

definition key_pair_new :: "crypto_lib \<Rightarrow> nat \<Rightarrow> key_pair" where
  "key_pair_new L seed = (let (name, secret) = generate_keypair L seed in \<lparr>kp_name = name, kp_secret = secret\<rparr>)"

text \<open>The derived implementations: two fields, each the text of its key. A field that does not decode, is missing or comes twice is an error; others are ignored.\<close>

definition key_pair_fields :: "crypto_lib \<Rightarrow> key_pair \<Rightarrow> (string \<times> string) list" where
  "key_pair_fields L k = [(''name'', key_serialize L (kp_name k)), (''secret'', secret_serialize L (kp_secret k))]"

fun key_pair_visit :: "crypto_lib \<Rightarrow> (string \<times> string) list \<Rightarrow> public_key option \<Rightarrow> bytes option \<Rightarrow> (string + key_pair) res" where
  "key_pair_visit L [] name secret = Inr (case name of
     None \<Rightarrow> Inl ''missing field name''
   | Some n \<Rightarrow> (case secret of None \<Rightarrow> Inl ''missing field secret'' | Some s \<Rightarrow> Inr \<lparr>kp_name = n, kp_secret = s\<rparr>))"
| "key_pair_visit L ((k, v) # fs) name secret =
     (if k = ''name'' then
        (if name \<noteq> None then Inr (Inl ''duplicate field name'')
         else bindR (key_deserialize L v) (\<lambda>r. case r of Inl e \<Rightarrow> Inr (Inl ''invalid base64'') | Inr n \<Rightarrow> key_pair_visit L fs (Some n) secret))
      else if k = ''secret'' then
        (if secret \<noteq> None then Inr (Inl ''duplicate field secret'')
         else bindR (secret_deserialize L v) (\<lambda>r. case r of Inl e \<Rightarrow> Inr (Inl ''invalid base64'') | Inr s \<Rightarrow> key_pair_visit L fs name (Some s)))
      else key_pair_visit L fs name secret)"

definition key_pair_read :: "crypto_lib \<Rightarrow> (string \<times> string) list \<Rightarrow> (string + key_pair) res" where
  "key_pair_read L fs = key_pair_visit L fs None None"

definition key_pair_import :: "crypto_lib \<Rightarrow> (string \<times> string) list json \<Rightarrow> string \<Rightarrow> disk \<Rightarrow> (config_error + key_pair) res" where
  "key_pair_import L J path D = (case import_file J path D of
     Inl e \<Rightarrow> Inr (Inl e)
   | Inr fs \<Rightarrow> bindR (key_pair_read L fs) (\<lambda>r. Inr (map_sum (ImportError path) id r)))"

definition generate_keys :: "crypto_lib \<Rightarrow> (string \<times> string) list json \<Rightarrow> nat \<Rightarrow> string \<Rightarrow> disk \<Rightarrow> (config_error + unit) \<times> disk" where
  "generate_keys L J seed path D = export_file J (key_pair_fields L (key_pair_new L seed)) path D"

section \<open>The committee and the parameters\<close>

text \<open>The \<open>BTreeMap\<close> of the authorities is built from the entries of the file: a key that comes again replaces.\<close>

primrec btree_insert :: "'k::linorder \<Rightarrow> 'v \<Rightarrow> ('k \<times> 'v) list \<Rightarrow> ('k \<times> 'v) list" where
  "btree_insert k v [] = [(k, v)]"
| "btree_insert k v (p # ps) = (if k < fst p then (k, v) # p # ps else if k = fst p then (k, v) # ps else p # btree_insert k v ps)"

fun authorities_read :: "crypto_lib \<Rightarrow> (string \<times> authority) list \<Rightarrow> (public_key \<times> authority) list \<Rightarrow> (string + committee) res" where
  "authorities_read L [] tree = Inr (Inr \<lparr>authorities = tree\<rparr>)"
| "authorities_read L ((k, a) # rest) tree =
     bindR (key_deserialize L k) (\<lambda>r. case r of Inl e \<Rightarrow> Inr (Inl ''invalid base64'') | Inr n \<Rightarrow> authorities_read L rest (btree_insert n a tree))"

definition committee_import :: "crypto_lib \<Rightarrow> (string \<times> authority) list json \<Rightarrow> string \<Rightarrow> disk \<Rightarrow> (config_error + committee) res" where
  "committee_import L J path D = (case import_file J path D of
     Inl e \<Rightarrow> Inr (Inl e)
   | Inr entries \<Rightarrow> bindR (authorities_read L entries []) (\<lambda>r. Inr (map_sum (ImportError path) id r)))"

text \<open>What \<open>run\<close> reads before it makes the store: the keys, the committee and the parameters, in this order.\<close>

record codecs =
  keys_json :: "(string \<times> string) list json"
  committee_json :: "(string \<times> authority) list json"
  parameters_json :: "parameters json"

datatype startup_error = NoKeyPair config_error | NoCommittee config_error | NoParameters config_error

definition run_inputs :: "crypto_lib \<Rightarrow> codecs \<Rightarrow> string \<Rightarrow> string \<Rightarrow> string option \<Rightarrow> disk
    \<Rightarrow> (startup_error + key_pair \<times> committee \<times> parameters) res" where
  "run_inputs L C key_file committee_file parameters_file D =
     bindR (key_pair_import L (keys_json C) key_file D) (\<lambda>r. case r of Inl e \<Rightarrow> Inr (Inl (NoKeyPair e)) | Inr keypair \<Rightarrow>
     bindR (committee_import L (committee_json C) committee_file D) (\<lambda>r. case r of Inl e \<Rightarrow> Inr (Inl (NoCommittee e)) | Inr comm \<Rightarrow>
     (case parameters_file of
        None \<Rightarrow> Inr (Inr (keypair, comm, parameters_default))
      | Some filename \<Rightarrow> (case import_file (parameters_json C) filename D of
          Inl e \<Rightarrow> Inr (Inl (NoParameters e))
        | Inr p \<Rightarrow> Inr (Inr (keypair, comm, p))))))"

section \<open>Properties\<close>

text \<open>What the code relies on of serde_json: it reads what it wrote, also with a newline after it.\<close>

definition json_ok :: "'v json \<Rightarrow> bool" where
  "json_ok J \<longleftrightarrow> (\<forall>x. from_slice J (to_string_pretty J x @ [newline]) = Inr x)"

lemma overwrite_longer: "length old \<le> length data \<Longrightarrow> overwrite data old = data"
  by (simp add: overwrite_def)

lemma key_pair_read_back:
  "base64_ok L \<Longrightarrow> length (kp_secret k) = 64 \<Longrightarrow> key_pair_read L (key_pair_fields L k) = Inr (Inr k)"
  by (simp add: key_pair_read_def key_pair_fields_def key_text_roundtrip secret_text_roundtrip)

text \<open>C31. The keys that \<open>generate_keys\<close> writes are the ones a node reads, if the file was not there or was not longer than
  what is written. If it was longer, its rest stays behind the new keys, and what is read is what the JSON
  parser makes of both together.\<close>

theorem keys_roundtrip:
  assumes "json_ok J" "base64_ok L" "length (snd (dalek_generate L seed)) = 64" "open_error D path = None" "write_error D = None"
    and "generate_keys L J seed path D = (r, D')"
  shows "r = Inr ()
    \<and> (length (case files D path of None \<Rightarrow> [] | Some bs \<Rightarrow> bs) \<le> length (to_string_pretty J (key_pair_fields L (key_pair_new L seed))) + 1
         \<longrightarrow> key_pair_import L J path D' = Inr (Inr (key_pair_new L seed)))
    \<and> (\<forall>old. files D path = Some old \<longrightarrow> files D' path = Some (to_string_pretty J (key_pair_fields L (key_pair_new L seed)) @ [newline]
         @ drop (length (to_string_pretty J (key_pair_fields L (key_pair_new L seed))) + 1) old))"
proof -
  let ?k = "key_pair_new L seed"
  let ?data = "to_string_pretty J (key_pair_fields L ?k)"
  let ?old = "case files D path of None \<Rightarrow> [] | Some bs \<Rightarrow> bs"
  have D': "r = Inr ()" "D' = D\<lparr>files := (files D)(path \<mapsto> overwrite (?data @ [newline]) ?old)\<rparr>"
    using assms(4-6) by (auto simp: generate_keys_def export_file_def Let_def)
  have "length (kp_secret ?k) = 64" using assms(3) by (simp add: key_pair_new_def generate_keypair_def split_beta)
  then have "key_pair_import L J path D' = Inr (Inr ?k)" if "length ?old \<le> length ?data + 1"
    using that assms(1,4) key_pair_read_back [OF assms(2)] overwrite_longer [of ?old "?data @ [newline]"]
    by (simp add: key_pair_import_def import_file_def D'(2) json_ok_def)
  with D' show ?thesis by (auto simp: overwrite_def)
qed

text \<open>Whatever a node reads at its start, its committee is ordered by its keys and its secret key is whole.\<close>

lemma btree_insert_keys: "set (map fst (btree_insert k v ps)) = insert k (set (map fst ps))"
  by (induction ps) auto

lemma btree_insert_sorted: "sorted_wrt (<) (map fst ps) \<Longrightarrow> sorted_wrt (<) (map fst (btree_insert k v ps))"
proof (induction ps)
  case (Cons p ps)
  then show ?case using btree_insert_keys [of k v ps] by (auto simp flip: set_map)
qed simp

lemma try_Inr_iff:
  "bindR m (\<lambda>r. case r of Inl e \<Rightarrow> Inr (Inl (f e)) | Inr x \<Rightarrow> g x) = Inr (Inr y) \<longleftrightarrow> (\<exists>x. m = Inr (Inr x) \<and> g x = Inr (Inr y))"
  by (auto simp: bindR_def split: sum.splits)

lemma authorities_read_wf:
  "authorities_read L entries tree = Inr (Inr c) \<Longrightarrow> sorted_wrt (<) (map fst tree) \<Longrightarrow> wf_committee c"
proof (induction L entries tree rule: authorities_read.induct)
  case (2 L k a rest tree)
  then show ?case by (auto simp: try_Inr_iff btree_insert_sorted)
qed (auto simp: wf_committee_def)

lemma secret_deserialize_length: "secret_deserialize L v = Inr (Inr s) \<Longrightarrow> length s = 64"
  by (auto simp: secret_deserialize_def secret_decode_base64_def bindR_Inr_iff Let_def map_sum_def split: option.splits if_splits sum.splits)

lemma key_pair_visit_secret:
  "key_pair_visit L fs name secret = Inr (Inr k) \<Longrightarrow> pred_option (\<lambda>s. length s = 64) secret \<Longrightarrow> length (kp_secret k) = 64"
proof (induction L fs name secret rule: key_pair_visit.induct)
  case (1 L name secret)
  then show ?case by (auto split: option.splits)
next
  case (2 L k v fs name secret)
  then show ?case by (auto simp: try_Inr_iff secret_deserialize_length split: if_splits)
qed

lemma startup_inputs:
  assumes "run_inputs L C key_file committee_file parameters_file D = Inr (Inr (k, c, p))"
  shows "wf_committee c \<and> length (kp_secret k) = 64 \<and> (parameters_file = None \<longrightarrow> p = parameters_default)"
proof -
  have "key_pair_import L (keys_json C) key_file D = Inr (Inr k)" "committee_import L (committee_json C) committee_file D = Inr (Inr c)"
    "parameters_file = None \<longrightarrow> p = parameters_default"
    using assms
    by (cases parameters_file; cases "import_file (parameters_json C) (the parameters_file) D"; auto simp: run_inputs_def try_Inr_iff)+
  then show ?thesis using authorities_read_wf [of L _ "[]" c] key_pair_visit_secret [of L _ None None k]
    by (auto simp: key_pair_import_def committee_import_def key_pair_read_def bindR_Inr_iff map_sum_def split: sum.splits)
qed

text \<open>An error while writing a small file is not reported.\<close>

lemma lost_write_error:
  assumes "open_error D path = None" "write_error D = Some e" "files D path = None" "length (to_string_pretty J x) < 8192"
  shows "export_file J x path D = (Inr (), D\<lparr>files := (files D)(path \<mapsto> [])\<rparr>)"
  using assms by (simp add: export_file_def Let_def)

section \<open>A sample run\<close>

text \<open>A codec that numbers the values and refuses bytes after the newline.\<close>

definition sample_json :: "(string \<times> string) list json" where
  "sample_json = \<lparr>to_string_pretty = (\<lambda>x. replicate (to_nat x) 0),
     from_slice = (\<lambda>bs. if bs = replicate (length bs - 1) 0 @ [newline] then Inr (from_nat (length bs - 1))
                        else Inl ''trailing characters'')\<rparr>"

definition empty_disk :: disk where
  "empty_disk = \<lparr>files = Map.empty, open_error = (\<lambda>p. None), write_error = None\<rparr>"

lemma sample_codecs: "json_ok sample_json" "base64_ok sample_lib"
proof -
  show "json_ok sample_json" by (simp add: json_ok_def sample_json_def)
  have "of_char (char_of (unat b)) = b" for b :: "8 word"
  proof -
    have "unat b < 256" using unsigned_less [of b, where ?'a = nat] by simp
    then have "(of_char (char_of (unat b)) :: nat) = unat b" by (simp add: take_bit_nat_eq_self)
    then show ?thesis by (metis of_nat_of_char of_nat_unat ucast_id)
  qed
  then have "map of_char (map (char_of \<circ> unat) bs) = bs" for bs :: "8 word list" by (induction bs) simp_all
  then show "base64_ok sample_lib" by (simp add: base64_ok_def sample_lib_def)
qed

abbreviation sample_keys :: key_pair where
  "sample_keys \<equiv> key_pair_new sample_lib 5"

lemma keys_roundtrip_witness:
  "key_pair_import sample_lib sample_json ''keys'' (snd (generate_keys sample_lib sample_json 5 ''keys'' empty_disk)) = Inr (Inr sample_keys)"
proof -
  obtain r D where g: "generate_keys sample_lib sample_json 5 ''keys'' empty_disk = (r, D)" by fastforce
  have "length (snd (dalek_generate sample_lib 5)) = 64" by (simp add: sample_lib_def)
  from keys_roundtrip [OF sample_codecs this _ _ g] g show ?thesis by (simp add: empty_disk_def)
qed

text \<open>Over a longer file the new keys cannot be read.\<close>

lemma stale_tail:
  assumes "old = replicate (to_nat (key_pair_fields sample_lib sample_keys) + 2) 0"
  shows "\<exists>D. generate_keys sample_lib sample_json 5 ''keys'' (empty_disk\<lparr>files := [''keys'' \<mapsto> old]\<rparr>) = (Inr (), D)
    \<and> key_pair_import sample_lib sample_json ''keys'' D = Inr (Inl (ImportError ''keys'' ''trailing characters''))"
proof -
  let ?n = "to_nat (key_pair_fields sample_lib sample_keys)"
  have ne: "replicate ?n 0 @ [newline, 0] \<noteq> replicate (length (replicate ?n (0 :: 8 word) @ [newline, 0]) - 1) 0 @ [newline]"
  proof
    assume "replicate ?n 0 @ [newline, 0] = replicate (length (replicate ?n (0 :: 8 word) @ [newline, 0]) - 1) 0 @ [newline]"
    from arg_cong [OF this, of last] show False by (simp add: newline_def)
  qed
  have tail: "drop (Suc ?n) (replicate (?n + 2) (0 :: 8 word)) = [0]" by (simp only: drop_replicate) simp
  have "overwrite (to_string_pretty sample_json (key_pair_fields sample_lib sample_keys) @ [newline]) old = replicate ?n 0 @ [newline, 0]"
    using tail by (simp add: overwrite_def assms sample_json_def)
  with ne show ?thesis
    by (auto simp: generate_keys_def export_file_def empty_disk_def Let_def key_pair_import_def import_file_def sample_json_def)
qed

end
