(* ===== verification/PrimaryBase.thy ===== *)
theory PrimaryBase
  imports StoreModel
begin

text \<open>
  What the tasks of the primary share: the messages of \<open>primary/src/primary.rs\<close>, the parameters of a
  node, and the actions of an asynchronous handler: a state, an early return with a \<open>DagError\<close> (\<open>?\<close>),
  and panics. A handler that returns an error keeps the changes it made before.

  \<open>bincode\<close> is not in the repository: the bytes of the store are the functions \<open>ser_header\<close>,
  \<open>ser_certificate\<close> and \<open>de_certificate\<close> of \<open>node\<close>. \<open>codec_ok\<close> says that a certificate reads back and
  that the bytes of a header, a proper prefix of those of a certificate, do not read as one. Messages
  on the network are kept as values.
\<close>

section \<open>Messages\<close>

datatype primary_message =
    PHeader header
  | PVote vote
  | PCertificate certificate
  | CertificatesRequest "digest list" public_key

datatype primary_worker_message =
    Synchronize "digest list" public_key
  | Cleanup round

datatype worker_primary_message =
    OurBatch digest worker_id
  | OthersBatch digest worker_id

section \<open>The parameters of a node\<close>

record 'db node = "'db rocks" +
  lib :: crypto_lib
  my_name :: public_key
  committee_of :: committee
  my_secret :: "u8 list"
  gc_depth_of :: round
  ser_header :: "header \<Rightarrow> bytes"
  ser_certificate :: "certificate \<Rightarrow> bytes"
  de_certificate :: "bytes \<Rightarrow> certificate option"

definition codec_ok :: "'db node \<Rightarrow> bool" where
  "codec_ok N \<longleftrightarrow> (\<forall>x. de_certificate N (ser_certificate N x) = Some x) \<and> (\<forall>h. de_certificate N (ser_header N h) = None)"

text \<open>The key of a batch: its digest and the worker that holds it.\<close>

definition payload_key :: "digest \<Rightarrow> worker_id \<Rightarrow> bytes" where
  "payload_key d w = digest_to_vec d @ le_bytes 4 w"

lemma payload_key_other: "payload_key d w \<noteq> digest_to_vec d'"
proof
  assume "payload_key d w = digest_to_vec d'"
  then have "length (payload_key d w) = length (digest_to_vec d')" by simp
  then show False by (simp add: payload_key_def)
qed

section \<open>Actions\<close>

type_synonym ('s, 'a) act = "'s \<Rightarrow> ((dag_error + 'a) \<times> 's) res"

definition retA :: "'a \<Rightarrow> ('s, 'a) act" where
  "retA x s = Inr (Inr x, s)"

definition bindA :: "('s, 'a) act \<Rightarrow> ('a \<Rightarrow> ('s, 'b) act) \<Rightarrow> ('s, 'b) act" where
  "bindA m f s = bindR (m s) (\<lambda>(r, s'). case r of Inl e \<Rightarrow> Inr (Inl e, s') | Inr x \<Rightarrow> f x s')"

definition liftA :: "(dag_error + 'a) \<Rightarrow> ('s, 'a) act" where
  "liftA r s = Inr (r, s)"

definition modifyA :: "('s \<Rightarrow> 's) \<Rightarrow> ('s, unit) act" where
  "modifyA f s = Inr (Inr (), f s)"

definition panicA :: "panic \<Rightarrow> ('s, 'a) act" where
  "panicA p s = Inl p"

text \<open>\<open>.await.expect(msg)\<close>.\<close>

definition expectA :: "string \<Rightarrow> ('s, 'a) act \<Rightarrow> ('s, 'a) act" where
  "expectA msg m s = bindR (m s) (\<lambda>(r, s'). case r of Inl e \<Rightarrow> Inl (Expect msg) | Inr x \<Rightarrow> Inr (Inr x, s'))"

text \<open>
  What an action guarantees from a given state: \<open>P\<close> of a panic, \<open>Q\<close> of the result and the state it leaves.
  \<open>expects P\<close> allows every failed \<open>expect\<close>.
\<close>

definition acts :: "(panic \<Rightarrow> bool) \<Rightarrow> ('s, 'a) act \<Rightarrow> 's \<Rightarrow> ((dag_error + 'a) \<Rightarrow> 's \<Rightarrow> bool) \<Rightarrow> bool" where
  "acts P m s Q \<longleftrightarrow> (case m s of Inl p \<Rightarrow> P p | Inr (r, s') \<Rightarrow> Q r s')"

definition expects :: "(panic \<Rightarrow> bool) \<Rightarrow> bool" where
  "expects P \<longleftrightarrow> (\<forall>msg. P (Expect msg))"

lemma expects_simps [simp]: "expects (\<lambda>p. True)" "expects (\<lambda>p. p \<noteq> OutOfFuel)"
  by (simp_all add: expects_def)

lemma acts_D: "acts P m s Q \<Longrightarrow> m s = Inr (r, s') \<Longrightarrow> Q r s'"
  by (simp add: acts_def)

lemma acts_panicD: "acts P m s Q \<Longrightarrow> m s = Inl p \<Longrightarrow> P p"
  by (simp add: acts_def)

lemma acts_mono: "acts P m s Q \<Longrightarrow> (\<And>r s'. Q r s' \<Longrightarrow> R r s') \<Longrightarrow> acts P m s R"
  by (auto simp: acts_def split: sum.splits)

lemma acts_conj: "acts P m s Q \<Longrightarrow> acts P' m s R \<Longrightarrow> acts P m s (\<lambda>r s'. Q r s' \<and> R r s')"
  by (auto simp: acts_def split: sum.splits)

lemma acts_ret [simp]: "acts P (retA x) s Q \<longleftrightarrow> Q (Inr x) s"
  by (simp add: acts_def retA_def)

lemma acts_lift [simp]: "acts P (liftA r) s Q \<longleftrightarrow> Q r s"
  by (simp add: acts_def liftA_def)

lemma acts_modify [simp]: "acts P (modifyA f) s Q \<longleftrightarrow> Q (Inr ()) (f s)"
  by (simp add: acts_def modifyA_def)

lemma acts_panic [simp]: "acts P (panicA p) s Q \<longleftrightarrow> P p"
  by (simp add: acts_def panicA_def)

lemma acts_bind:
  "acts P (bindA m f) s Q \<longleftrightarrow> acts P m s (\<lambda>r s'. case r of Inl e \<Rightarrow> Q (Inl e) s' | Inr x \<Rightarrow> acts P (f x) s' Q)"
  by (cases "m s") (auto simp: acts_def bindA_def split: sum.splits)

lemma acts_expect:
  "acts P (expectA msg m) s Q
     \<longleftrightarrow> acts P m s (\<lambda>r s'. case r of Inl e \<Rightarrow> P (Expect msg) | Inr x \<Rightarrow> Q (Inr x) s')"
  by (cases "m s") (auto simp: acts_def expectA_def split: sum.splits)

text \<open>The rule for a sequence: what the first action guarantees is enough for the second.\<close>

lemma acts_bindI:
  assumes "acts P m s R" "\<And>e s'. R (Inl e) s' \<Longrightarrow> Q (Inl e) s'" "\<And>x s'. R (Inr x) s' \<Longrightarrow> acts P (f x) s' Q"
  shows "acts P (bindA m f) s Q"
  unfolding acts_bind by (rule acts_mono [OF assms(1)]) (auto split: sum.split intro: assms(2,3))

end
