(* ===== verification/Synchronizer.thy ===== *)
theory Synchronizer
  imports PrimaryBase
begin

text \<open>
  The \<open>Synchronizer\<close> of \<open>primary/src/synchronizer.rs\<close>: it looks the parents and the payload of a header up
  in the store and hands what is missing to the waiters. Its two channels are the lists of what was
  sent; \<open>header_waiter_up\<close> and \<open>certificate_waiter_up\<close> say that the receivers are there (the
  \<open>expect\<close>s panic otherwise). It shares the store with the core and only reads it.
\<close>

section \<open>State and operations\<close>

datatype waiter_message =
    SyncBatches "(digest \<times> worker_id) list" header
  | SyncParents "digest list" header

fun message_header :: "waiter_message \<Rightarrow> header" where
  "message_header (SyncBatches missing h) = h"
| "message_header (SyncParents missing h) = h"

record synchronizer =
  tx_header_waiter :: "waiter_message list"
  tx_certificate_waiter :: "certificate list"
  header_waiter_up :: bool
  certificate_waiter_up :: bool

definition synchronizer_new :: synchronizer where
  "synchronizer_new = \<lparr>tx_header_waiter = [], tx_certificate_waiter = [],
     header_waiter_up = True, certificate_waiter_up = True\<rparr>"

text \<open>The field \<open>genesis\<close>, computed once by \<open>new\<close>.\<close>

definition sync_genesis :: "'db node \<Rightarrow> (digest \<times> certificate) list" where
  "sync_genesis N = map (\<lambda>x. (cert_digest (lib N) x, x)) (genesis (committee_of N))"

definition send_header_waiter :: "string \<Rightarrow> waiter_message \<Rightarrow> (synchronizer, unit) act" where
  "send_header_waiter msg m sy =
     (if header_waiter_up sy then Inr (Inr (), sy\<lparr>tx_header_waiter := tx_header_waiter sy @ [m]\<rparr>)
      else Inl (Expect msg))"

text \<open>One key of the payload: present in the store, or added to \<open>missing\<close>.\<close>

definition check_batch :: "'db node \<Rightarrow> 'db store \<Rightarrow> digest \<times> worker_id \<Rightarrow> (digest \<times> worker_id) list \<Rightarrow>
    dag_error + (digest \<times> worker_id) list" where
  "check_batch N st e missing =
     (let (digest, worker_id) = e in
      case store_read N (payload_key digest worker_id) st of
        Inl err \<Rightarrow> Inl (StoreError err)
      | Inr None \<Rightarrow> Inr (AList.update digest worker_id missing)
      | Inr (Some _) \<Rightarrow> Inr missing)"

definition missing_payload :: "'db node \<Rightarrow> 'db store \<Rightarrow> header \<Rightarrow> (synchronizer, bool) act" where
  "missing_payload N st h =
     (if h_author h = my_name N then retA False
      else bindA (liftA (foldR (check_batch N st) (h_payload h) [])) (\<lambda>missing.
           if missing = [] then retA False
           else bindA (send_header_waiter ''Failed to send sync batch request'' (SyncBatches missing h)) (\<lambda>_.
                retA True)))"

text \<open>One parent: a genesis certificate, a certificate read from the store, or missing.\<close>

definition read_parent :: "'db node \<Rightarrow> 'db store \<Rightarrow> digest \<Rightarrow> digest list \<times> certificate list \<Rightarrow>
    dag_error + digest list \<times> certificate list" where
  "read_parent N st digest acc =
     (let (missing, parents) = acc in
      case List.find (\<lambda>(x, _). x = digest) (sync_genesis N) of
        Some (_, x) \<Rightarrow> Inr (missing, parents @ [x])
      | None \<Rightarrow>
          (case store_read N (digest_to_vec digest) st of
             Inl err \<Rightarrow> Inl (StoreError err)
           | Inr (Some bytes) \<Rightarrow>
               (case de_certificate N bytes of
                  None \<Rightarrow> Inl (SerializationError BincodeError)
                | Some x \<Rightarrow> Inr (missing, parents @ [x]))
           | Inr None \<Rightarrow> Inr (missing @ [digest], parents)))"

definition get_parents :: "'db node \<Rightarrow> 'db store \<Rightarrow> header \<Rightarrow> (synchronizer, certificate list) act" where
  "get_parents N st h =
     bindA (liftA (foldR (read_parent N st) (h_parents h) ([], []))) (\<lambda>(missing, parents).
     if missing = [] then retA parents
     else bindA (send_header_waiter ''Failed to send sync parents request'' (SyncParents missing h)) (\<lambda>_.
          retA []))"

fun deliver_loop :: "'db node \<Rightarrow> 'db store \<Rightarrow> certificate \<Rightarrow> digest list \<Rightarrow> (synchronizer, bool) act" where
  "deliver_loop N st cert [] = retA True"
| "deliver_loop N st cert (digest # ds) =
     (if list_ex (\<lambda>(x, _). x = digest) (sync_genesis N) then deliver_loop N st cert ds
      else case store_read N (digest_to_vec digest) st of
        Inl err \<Rightarrow> liftA (Inl (StoreError err))
      | Inr None \<Rightarrow>
          (\<lambda>sy. if certificate_waiter_up sy
                then Inr (Inr False, sy\<lparr>tx_certificate_waiter := tx_certificate_waiter sy @ [cert]\<rparr>)
                else Inl (Expect ''Failed to send sync certificate request''))
      | Inr (Some _) \<Rightarrow> deliver_loop N st cert ds)"

definition deliver_certificate :: "'db node \<Rightarrow> 'db store \<Rightarrow> certificate \<Rightarrow> (synchronizer, bool) act" where
  "deliver_certificate N st cert = deliver_loop N st cert (h_parents (c_header cert))"

section \<open>What the answers mean\<close>

lemma acts_send_header_waiter [simp]:
  "acts P (send_header_waiter msg m) sy Q \<longleftrightarrow>
     (if header_waiter_up sy then Q (Inr ()) (sy\<lparr>tx_header_waiter := tx_header_waiter sy @ [m]\<rparr>) else P (Expect msg))"
  by (simp add: acts_def send_header_waiter_def)

text \<open>What is sent to the waiters, and nothing else, changes: headers with \<open>P\<close> and certificates with \<open>Q\<close>.\<close>

definition sync_grows :: "(header \<Rightarrow> bool) \<Rightarrow> (certificate \<Rightarrow> bool) \<Rightarrow> synchronizer \<Rightarrow> synchronizer \<Rightarrow> bool" where
  "sync_grows P Q sy sy' \<longleftrightarrow> (\<exists>ms xs. sy' = sy\<lparr>tx_header_waiter := tx_header_waiter sy @ ms,
       tx_certificate_waiter := tx_certificate_waiter sy @ xs\<rparr> \<and> (\<forall>m \<in> set ms. P (message_header m)) \<and> (\<forall>x \<in> set xs. Q x))"

lemma sync_growsI:
  "sync_grows P Q sy sy"
  "P (message_header m) \<Longrightarrow> sync_grows P Q sy (sy\<lparr>tx_header_waiter := tx_header_waiter sy @ [m]\<rparr>)"
  "Q x \<Longrightarrow> sync_grows P Q sy (sy\<lparr>tx_certificate_waiter := tx_certificate_waiter sy @ [x]\<rparr>)"
proof -
  show "sync_grows P Q sy sy" unfolding sync_grows_def by (intro exI [of _ "[]"]) simp
  show "sync_grows P Q sy (sy\<lparr>tx_header_waiter := tx_header_waiter sy @ [m]\<rparr>)" if "P (message_header m)"
    unfolding sync_grows_def by (intro exI [of _ "[m]"] exI [of _ "[]"]) (simp add: that)
  show "sync_grows P Q sy (sy\<lparr>tx_certificate_waiter := tx_certificate_waiter sy @ [x]\<rparr>)" if "Q x"
    unfolding sync_grows_def by (intro exI [of _ "[]"] exI [of _ "[x]"]) (simp add: that)
qed

lemma sync_grows_mono:
  "sync_grows P Q sy sy' \<Longrightarrow> (\<And>h. P h \<Longrightarrow> P' h) \<Longrightarrow> (\<And>x. Q x \<Longrightarrow> Q' x) \<Longrightarrow> sync_grows P' Q' sy sy'"
  unfolding sync_grows_def by blast

lemma sync_grows_trans:
  assumes "sync_grows P Q sy sy'" "sync_grows P Q sy' sy''"
  shows "sync_grows P Q sy sy''"
proof -
  obtain ms xs where 1: "sy' = sy\<lparr>tx_header_waiter := tx_header_waiter sy @ ms, tx_certificate_waiter := tx_certificate_waiter sy @ xs\<rparr>"
    "\<forall>m \<in> set ms. P (message_header m)" "\<forall>x \<in> set xs. Q x" using assms(1) by (auto simp: sync_grows_def)
  obtain ns ys where 2: "sy'' = sy'\<lparr>tx_header_waiter := tx_header_waiter sy' @ ns, tx_certificate_waiter := tx_certificate_waiter sy' @ ys\<rparr>"
    "\<forall>m \<in> set ns. P (message_header m)" "\<forall>x \<in> set ys. Q x" using assms(2) by (auto simp: sync_grows_def)
  show ?thesis unfolding sync_grows_def by (intro exI [of _ "ms @ ns"] exI [of _ "xs @ ys"]) (use 1 2 in auto)
qed

text \<open>A genesis digest, or a key of the store.\<close>

definition is_genesis :: "'db node \<Rightarrow> digest \<Rightarrow> bool" where
  "is_genesis N d \<longleftrightarrow> d \<in> fst ` set (sync_genesis N)"

definition parent_of :: "'db node \<Rightarrow> 'db store \<Rightarrow> digest \<Rightarrow> certificate \<Rightarrow> bool" where
  "parent_of N st d x \<longleftrightarrow>
     (if is_genesis N d then (d, x) \<in> set (sync_genesis N)
      else \<exists>bs. store_read N (digest_to_vec d) st = Inr (Some bs) \<and> de_certificate N bs = Some x)"

definition payload_stored :: "'db node \<Rightarrow> 'db store \<Rightarrow> header \<Rightarrow> bool" where
  "payload_stored N st h \<longleftrightarrow> h_author h = my_name N \<or> (\<forall>(d, w) \<in> set (h_payload h). st.has N (payload_key d w) st)"

lemma find_genesis:
  "(case List.find (\<lambda>(x, _). x = d) (sync_genesis N) of None \<Rightarrow> \<not> is_genesis N d
    | Some (y, x) \<Rightarrow> is_genesis N d \<and> (d, x) \<in> set (sync_genesis N))"
proof (cases "List.find (\<lambda>(x, _). x = d) (sync_genesis N)")
  case None
  then have "\<not> is_genesis N d" by (auto simp: find_None_iff is_genesis_def)
  with None show ?thesis by simp
next
  case (Some p)
  then show ?thesis using find_SomeD [OF Some] by (force simp: is_genesis_def)
qed

lemma genesis_list_ex: "list_ex (\<lambda>(x, _). x = d) (sync_genesis N) \<longleftrightarrow> is_genesis N d"
  by (force simp: list_ex_iff is_genesis_def)

lemma read_parent_keeps:
  "foldR (read_parent N st) ds (missing, parents) = Inr (missing', parents') \<Longrightarrow> set missing \<subseteq> set missing'"
proof (induction ds arbitrary: missing parents)
  case (Cons d ds)
  then obtain m1 p1 where s: "read_parent N st d (missing, parents) = Inr (m1, p1)"
    "foldR (read_parent N st) ds (m1, p1) = Inr (missing', parents')" by (auto simp: bindR_Inr_iff)
  have "set missing \<subseteq> set m1" using s(1) by (auto simp: read_parent_def Let_def split: option.splits sum.splits)
  with Cons.IH [OF s(2)] show ?case by blast
qed simp

lemma read_parents_all:
  "foldR (read_parent N st) ds ([], parents) = Inr ([], parents') \<Longrightarrow>
    \<exists>xs. parents' = parents @ xs \<and> list_all2 (parent_of N st) ds xs"
proof (induction ds arbitrary: parents)
  case (Cons d ds)
  then obtain m1 p1 where s: "read_parent N st d ([], parents) = Inr (m1, p1)"
    "foldR (read_parent N st) ds (m1, p1) = Inr ([], parents')" by (auto simp: bindR_Inr_iff)
  then have m1: "m1 = []" using read_parent_keeps [OF s(2)] by simp
  have "\<exists>x. p1 = parents @ [x] \<and> parent_of N st d x"
    using s(1) m1 find_genesis [where N = N and d = d]
    by (auto simp: read_parent_def parent_of_def Let_def split: option.splits sum.splits)
  then obtain x where x: "p1 = parents @ [x]" "parent_of N st d x" by blast
  from Cons.IH [OF s(2) [unfolded m1 x(1)]] obtain xs where "parents' = (parents @ [x]) @ xs"
    "list_all2 (parent_of N st) ds xs" by blast
  with x(2) show ?case by (intro exI [of _ "x # xs"]) simp
qed simp

lemma get_parents_acts:
  assumes P: "expects P"
  shows "acts P (get_parents N st h) sy (\<lambda>r sy'. sync_grows (\<lambda>g. g = h) (\<lambda>x. False) sy sy'
      \<and> (\<forall>ps. r = Inr ps \<longrightarrow> ps = [] \<or> list_all2 (parent_of N st) (h_parents h) ps))"
proof (cases "foldR (read_parent N st) (h_parents h) ([], [])")
  case (Inr p)
  obtain missing parents where p: "p = (missing, parents)" by fastforce
  show ?thesis
  proof (cases "missing = []")
    case True
    with read_parents_all [of N st "h_parents h" "[]"] Inr p show ?thesis
      by (auto simp: get_parents_def acts_bind sync_growsI)
  qed (use P Inr p in \<open>simp add: get_parents_def acts_bind expects_def sync_growsI\<close>)
qed (simp add: get_parents_def acts_bind sync_growsI)

lemma check_batch_keeps:
  "foldR (check_batch N st) es missing = Inr missing' \<Longrightarrow> fst ` set missing \<subseteq> fst ` set missing'"
proof (induction es arbitrary: missing)
  case (Cons e es)
  then obtain m where s: "check_batch N st e missing = Inr m" "foldR (check_batch N st) es m = Inr missing'"
    by (auto simp: bindR_Inr_iff)
  have "m = missing \<or> (\<exists>k v. m = AList.update k v missing)"
    using s(1) by (cases e) (auto simp: check_batch_def split: option.splits sum.splits)
  then have "fst ` set missing \<subseteq> fst ` set m" by (elim disjE exE) (simp_all add: dom_update subset_insertI)
  with Cons.IH [OF s(2)] show ?case by blast
qed simp

lemma check_batches_all:
  "foldR (check_batch N st) es [] = Inr [] \<Longrightarrow> \<forall>(d, w) \<in> set es. st.has N (payload_key d w) st"
proof (induction es)
  case (Cons e es)
  obtain d w where e: "e = (d, w)" by fastforce
  obtain m where m: "check_batch N st e [] = Inr m" "foldR (check_batch N st) es m = Inr []"
    using Cons.prems by (auto simp: bindR_Inr_iff)
  have "m = []" using check_batch_keeps [OF m(2)] by simp
  moreover have "st.has N (payload_key d w) st"
    using m(1) e \<open>m = []\<close> by (auto simp: check_batch_def st.has_def split: option.splits sum.splits)
  ultimately show ?case using m(2) Cons.IH e by auto
qed simp

lemma missing_payload_acts:
  assumes P: "expects P"
  shows "acts P (missing_payload N st h) sy (\<lambda>r sy'. sync_grows (\<lambda>g. g = h) (\<lambda>x. False) sy sy'
      \<and> (r = Inr False \<longrightarrow> payload_stored N st h))"
proof (cases "h_author h = my_name N")
  case False
  show ?thesis
  proof (cases "foldR (check_batch N st) (h_payload h) []")
    case (Inr missing)
    with P False check_batches_all [of N st "h_payload h"] show ?thesis
      by (auto simp: missing_payload_def acts_bind payload_stored_def expects_def sync_growsI)
  qed (use False in \<open>simp add: missing_payload_def acts_bind sync_growsI\<close>)
qed (simp add: missing_payload_def payload_stored_def sync_growsI)

lemma deliver_loop_acts:
  assumes P: "expects P"
  shows "acts P (deliver_loop N st cert ds) sy (\<lambda>r sy'. sync_grows (\<lambda>h. False) (\<lambda>x. x = cert) sy sy'
      \<and> (r = Inr True \<longrightarrow> (\<forall>d \<in> set ds. is_genesis N d \<or> st.has N (digest_to_vec d) st)))"
proof (induction ds)
  case (Cons d ds)
  show ?case
  proof (cases "is_genesis N d")
    case True
    then have step: "deliver_loop N st cert (d # ds) = deliver_loop N st cert ds" by (simp add: genesis_list_ex)
    show ?thesis unfolding step by (rule acts_mono [OF Cons.IH]) (use True in auto)
  next
    case False
    then have "\<not> list_ex (\<lambda>(x, _). x = d) (sync_genesis N)" by (simp only: genesis_list_ex not_False_eq_True)
    with P Cons.IH show ?thesis
      by (auto simp: acts_def liftA_def st.has_def expects_def sync_growsI split: sum.splits option.splits)
  qed
qed (simp add: sync_growsI)

end
