(* ===== verification/Aggregators.thy ===== *)
theory Aggregators
  imports Messages
begin

text \<open>
  The two aggregators of \<open>primary/src/aggregators.rs\<close>. \<open>append\<close> returns its result together with
  the aggregator it leaves behind: \<open>used\<close> is updated even when the append fails.
\<close>

section \<open>State and operations\<close>

record votes_aggregator =
  va_weight :: stake
  va_votes :: "(public_key \<times> signature) list"
  va_used :: "public_key set"

definition votes_aggregator_new :: votes_aggregator where
  "votes_aggregator_new = \<lparr>va_weight = 0, va_votes = [], va_used = {}\<rparr>"

definition votes_append :: "vote \<Rightarrow> committee \<Rightarrow> header \<Rightarrow> votes_aggregator \<Rightarrow>
    (dag_error + certificate option) \<times> votes_aggregator" where
  "votes_append vote c header s =
     (let author = v_author vote;
          fresh = author \<notin> va_used s;
          s = s\<lparr>va_used := insert author (va_used s)\<rparr>
      in if \<not> fresh then (Inl (AuthorityReuse author), s)
         else
           let s = s\<lparr>va_votes := va_votes s @ [(author, v_sig vote)],
                     va_weight := va_weight s + stake_of c author\<rparr>
           in if va_weight s \<ge> quorum_threshold c
              then (Inr (Some \<lparr>c_header = header, c_votes = va_votes s\<rparr>), s\<lparr>va_weight := 0\<rparr>)
              else (Inr None, s))"

record certificates_aggregator =
  ca_weight :: stake
  ca_certificates :: "digest list"
  ca_used :: "public_key set"

definition certificates_aggregator_new :: certificates_aggregator where
  "certificates_aggregator_new = \<lparr>ca_weight = 0, ca_certificates = [], ca_used = {}\<rparr>"

definition certificates_append :: "crypto_lib \<Rightarrow> certificate \<Rightarrow> committee \<Rightarrow> certificates_aggregator \<Rightarrow>
    (dag_error + digest list option) \<times> certificates_aggregator" where
  "certificates_append L cert c s =
     (let origin = cert_origin cert;
          fresh = origin \<notin> ca_used s;
          s = s\<lparr>ca_used := insert origin (ca_used s)\<rparr>
      in if \<not> fresh then (Inr None, s)
         else
           let s = s\<lparr>ca_certificates := ca_certificates s @ [cert_digest L cert],
                     ca_weight := ca_weight s + stake_of c origin\<rparr>
           in if ca_weight s \<ge> quorum_threshold c
              then (Inr (Some (ca_certificates s)), s\<lparr>ca_weight := 0, ca_certificates := []\<rparr>)
              else (Inr None, s))"

text \<open>A sequence of appends to one aggregator, with the results in order.\<close>

fun agg_run :: "('m \<Rightarrow> 's \<Rightarrow> 'r \<times> 's) \<Rightarrow> 'm list \<Rightarrow> 's \<Rightarrow> 'r list \<times> 's" where
  "agg_run app [] s = ([], s)"
| "agg_run app (m # ms) s =
     (let (r, s') = app m s; (rs, s'') = agg_run app ms s' in (r # rs, s''))"

section \<open>The accounting both aggregators share\<close>

text \<open>
  \<open>weight_inv c fired counted weight used\<close>: before the quorum fired, the weight is the stake of all
  authorities used so far and is below the quorum; after it fired, the used authorities counted
  since are disjoint from a set that already held a quorum.
\<close>

definition weight_inv :: "committee \<Rightarrow> bool \<Rightarrow> stake \<Rightarrow> public_key set \<Rightarrow> bool" where
  "weight_inv c fired weight used \<longleftrightarrow> finite used \<and>
     (if fired then \<exists>Q R. used = Q \<union> R \<and> Q \<inter> R = {} \<and> unat (quorum_threshold c) \<le> sum (stake_nat c) Q
                     \<and> unat weight = sum (stake_nat c) R
      else unat weight = sum (stake_nat c) used \<and> weight < quorum_threshold c)"

lemma weight_step_unat:
  assumes "sane_stake c" "finite R" "a \<notin> R" "unat weight = sum (stake_nat c) R"
  shows "unat (weight + stake_of c a) = sum (stake_nat c) (insert a R)"
proof -
  have "sum (stake_nat c) (insert a R) \<le> total_stake c"
    using assms by (intro sum_stake_le_total) auto
  then have "unat weight + unat (stake_of c a) < 2 ^ 32"
    using assms by (simp add: sane_stake_def stake_nat_def)
  then show ?thesis using assms by (simp add: unat_word_ariths stake_nat_def)
qed

lemma weight_inv_init: "sane_stake c \<Longrightarrow> weight_inv c False 0 {}"
  using com.quorum_pos [of c] by (simp add: weight_inv_def word_less_nat_alt)

lemma weight_inv_step:
  assumes "sane_stake c" "weight_inv c fired weight used" "a \<notin> used"
  shows "if weight + stake_of c a \<ge> quorum_threshold c
         then \<not> fired \<and> weight_inv c True 0 (insert a used)
           \<and> unat (quorum_threshold c) \<le> sum (stake_nat c) (insert a used)
         else weight_inv c fired (weight + stake_of c a) (insert a used)"
proof (cases fired)
  case False
  with assms have u: "unat (weight + stake_of c a) = sum (stake_nat c) (insert a used)"
    by (intro weight_step_unat) (auto simp: weight_inv_def)
  show ?thesis
  proof (cases "weight + stake_of c a \<ge> quorum_threshold c")
    case True
    then have "unat (quorum_threshold c) \<le> sum (stake_nat c) (insert a used)"
      using u by (simp add: word_le_nat_alt)
    then have "weight_inv c True 0 (insert a used)"
      using assms(2) unfolding weight_inv_def
      by (metis (no_types, lifting) finite_insert sup_bot_right inf_bot_right sum.empty unsigned_0)
    with True False \<open>unat (quorum_threshold c) \<le> _\<close> show ?thesis by simp
  next
    case 2: False
    with u assms(2) \<open>\<not> fired\<close> show ?thesis by (auto simp: weight_inv_def not_le)
  qed
next
  case True
  with assms obtain Q R where QR: "used = Q \<union> R" "Q \<inter> R = {}"
    "unat (quorum_threshold c) \<le> sum (stake_nat c) Q" "unat weight = sum (stake_nat c) R" "finite used"
    by (auto simp: weight_inv_def)
  have u: "unat (weight + stake_of c a) = sum (stake_nat c) (insert a R)"
    using QR assms by (intro weight_step_unat) auto
  have "sum (stake_nat c) (insert a R) < unat (validity_threshold c)"
    using QR assms by (intro com.rest_no_quorum [of c Q]) auto
  also have "\<dots> \<le> unat (quorum_threshold c)"
    using assms(1) by (simp add: sane_stake_def quorum_threshold_unat validity_threshold_unat)
  finally have "\<not> weight + stake_of c a \<ge> quorum_threshold c"
    using u by (simp add: word_le_nat_alt)
  moreover have "weight_inv c True (weight + stake_of c a) (insert a used)"
  proof -
    have "insert a used = Q \<union> insert a R" "Q \<inter> insert a R = {}" "finite (insert a used)"
      using QR assms(3) by auto
    with QR(3) u show ?thesis unfolding weight_inv_def by (simp only: if_True) blast
  qed
  ultimately show ?thesis using True by simp
qed


section \<open>One quorum per aggregator\<close>

text \<open>
  What the two \<open>append\<close>s have in common: an authority is counted once, its stake is added, the
  aggregator fires when the weight reaches the quorum and then starts again from zero.
\<close>

locale quorum_aggregator =
  fixes c :: committee and app :: "'m \<Rightarrow> 's \<Rightarrow> 'r \<times> 's" and fired :: "'r \<Rightarrow> bool"
    and name :: "'m \<Rightarrow> public_key" and weight :: "'s \<Rightarrow> stake" and used :: "'s \<Rightarrow> public_key set"
  assumes again: "name m \<in> used s \<Longrightarrow> app m s = (r, s') \<Longrightarrow>
      \<not> fired r \<and> weight s' = weight s \<and> used s' = used s"
    and fresh: "name m \<notin> used s \<Longrightarrow> app m s = (r, s') \<Longrightarrow>
      used s' = insert (name m) (used s) \<and>
      (if weight s + stake_of c (name m) \<ge> quorum_threshold c then fired r \<and> weight s' = 0
       else \<not> fired r \<and> weight s' = weight s + stake_of c (name m))"
begin

lemma step_inv:
  assumes "sane_stake c" "weight_inv c f (weight s) (used s)" "app m s = (r, s')"
  shows "weight_inv c (f \<or> fired r) (weight s') (used s') \<and> \<not> (f \<and> fired r)
    \<and> used s' = insert (name m) (used s)
    \<and> (fired r \<longrightarrow> unat (quorum_threshold c) \<le> sum (stake_nat c) (used s'))"
proof (cases "name m \<in> used s")
  case True
  with again [OF this assms(3)] assms(2) show ?thesis by auto
next
  case False
  with fresh [OF this assms(3)] weight_inv_step [OF assms(1,2) False] show ?thesis
    by (cases f) (auto split: if_splits)
qed

lemma run_count:
  assumes "sane_stake c" "weight_inv c f (weight s) (used s)"
  shows "length (filter fired (fst (agg_run app ms s))) =
    (if \<not> f \<and> unat (quorum_threshold c) \<le> sum (stake_nat c) (used s \<union> name ` set ms) then 1 else 0)"
  using assms(2)
proof (induction ms arbitrary: s f)
  case Nil
  then show ?case by (auto simp: weight_inv_def word_less_nat_alt)
next
  case (Cons m ms)
  obtain r s' where st: "app m s = (r, s')" by fastforce
  obtain rs s'' where rn: "agg_run app ms s' = (rs, s'')" by fastforce
  note inv = step_inv [OF assms(1) Cons.prems st]
  have un: "used s' \<union> name ` set ms = used s \<union> name ` set (m # ms)" using inv by auto
  have fin: "finite (used s \<union> name ` set (m # ms))" using Cons.prems by (auto simp: weight_inv_def)
  have ih: "length (filter fired rs) = (if \<not> (f \<or> fired r) \<and> unat (quorum_threshold c)
      \<le> sum (stake_nat c) (used s \<union> name ` set (m # ms)) then 1 else 0)"
    using Cons.IH [OF conjunct1 [OF inv]] unfolding un by (simp only: rn fst_conv)
  have "sum (stake_nat c) (used s') \<le> sum (stake_nat c) (used s \<union> name ` set (m # ms))"
    using inv fin by (intro sum_mono2) auto
  with ih inv st rn show ?case by (cases "fired r") auto
qed

lemma run_once:
  assumes "sane_stake c" "weight s = 0" "used s = {}"
  shows "length (filter fired (fst (agg_run app ms s))) =
    (if unat (quorum_threshold c) \<le> sum (stake_nat c) (name ` set ms) then 1 else 0)"
  using run_count [OF assms(1), of False s ms] weight_inv_init [OF assms(1)] assms(2,3) by simp

end

interpretation va: quorum_aggregator c "\<lambda>v. votes_append v c h"
  "\<lambda>r. \<exists>x. r = Inr (Some x)" v_author va_weight va_used for c h
  by unfold_locales (auto simp: votes_append_def Let_def split: if_splits)

interpretation ca: quorum_aggregator c "\<lambda>x. certificates_append L x c"
  "\<lambda>r. \<exists>x. r = Inr (Some x)" cert_origin ca_weight ca_used for c L
  by unfold_locales (auto simp: certificates_append_def Let_def split: if_splits)

section \<open>What the aggregators hand out\<close>

text \<open>The votes kept are one per used authority; the certificate made from them is a quorum.\<close>

definition votes_wf :: "votes_aggregator \<Rightarrow> bool" where
  "votes_wf s \<longleftrightarrow> distinct (map fst (va_votes s)) \<and> set (map fst (va_votes s)) = va_used s"

lemma votes_append_wf: "votes_wf s \<Longrightarrow> votes_wf (snd (votes_append v c h s))"
  by (auto simp: votes_wf_def votes_append_def Let_def)

lemma votes_append_cert:
  assumes "sane_stake c" "votes_wf s" "weight_inv c f (va_weight s) (va_used s)"
    and "votes_append v c h s = (Inr (Some cert), s')"
  shows "c_header cert = h \<and> distinct (map fst (c_votes cert))
    \<and> set (map fst (c_votes cert)) = va_used s'
    \<and> quorum_threshold c \<le> sum_list (map (stake_of c \<circ> fst) (c_votes cert))"
proof -
  note inv = va.step_inv [OF assms(1,3,4)]
  have props: "c_header cert = h" "c_votes cert = va_votes s'"
    using assms(4) by (auto simp: votes_append_def Let_def split: if_splits)
  have "votes_wf s'" using votes_append_wf [OF assms(2), of v c h] assms(4) by simp
  then have d: "distinct (map fst (c_votes cert))" "set (map fst (c_votes cert)) = va_used s'"
    using props by (auto simp: votes_wf_def)
  have "unat (sum_list (map (stake_of c) (map fst (c_votes cert)))) = sum (stake_nat c) (va_used s')"
    using sum_list_stake_unat [OF assms(1) d(1)] d(2) by simp
  moreover have "unat (quorum_threshold c) \<le> sum (stake_nat c) (va_used s')" using inv by blast
  ultimately have "quorum_threshold c \<le> sum_list (map (stake_of c \<circ> fst) (c_votes cert))"
    by (simp add: word_le_nat_alt)
  with props d show ?thesis by simp
qed

lemma votes_run_cert:
  assumes "sane_stake c" "votes_wf s" "weight_inv c f (va_weight s) (va_used s)"
    and "Inr (Some cert) \<in> set (fst (agg_run (\<lambda>v. votes_append v c h) vs s))"
  shows "c_header cert = h \<and> distinct (map fst (c_votes cert))
    \<and> set (map fst (c_votes cert)) \<subseteq> va_used s \<union> v_author ` set vs
    \<and> quorum_threshold c \<le> sum_list (map (stake_of c \<circ> fst) (c_votes cert))"
  using assms(2-4)
proof (induction vs arbitrary: s f)
  case Nil
  then show ?case by simp
next
  case (Cons v vs)
  obtain r s' where st: "votes_append v c h s = (r, s')" by fastforce
  note inv = va.step_inv [OF assms(1) Cons.prems(2) st]
  have wf: "votes_wf s'" using votes_append_wf [OF Cons.prems(1), of v c h] st by simp
  show ?case
  proof (cases "r = Inr (Some cert)")
    case True
    from votes_append_cert [OF assms(1) Cons.prems(1,2) st [unfolded True]] inv
    show ?thesis by (auto simp: comp_def)
  next
    case False
    then have "Inr (Some cert) \<in> set (fst (agg_run (\<lambda>v. votes_append v c h) vs s'))"
      using Cons.prems(3) st by (auto split: prod.splits)
    from Cons.IH [OF wf conjunct1 [OF inv] this] inv show ?thesis by (auto simp: comp_def)
  qed
qed

end
