(* ===== verification/PrimaryCore.thy ===== *)
theory PrimaryCore
  imports Synchronizer Aggregators
begin

text \<open>
  The \<open>Core\<close> of \<open>primary/src/core.rs\<close>: the handlers of headers, votes and certificates, the checks of what
  comes from the network, and one turn of the main loop with its clean-up.

  \<open>net\<close>, \<open>tx_proposer\<close> and \<open>tx_consensus\<close> are what was sent, oldest first; a cancel handler is the
  position in \<open>net\<close> of the message it belongs to. The three handlers call each other
  (\<open>async_recursion\<close>), so they take a bound on the call depth; \<open>core_depth\<close> is proved to be enough.
  The round that the garbage collector publishes in \<open>consensus_round\<close> is read once per turn and is
  an input of the turn.
\<close>

section \<open>State\<close>

record 'db core =
  core_store :: "'db store"
  core_sync :: synchronizer
  gc_round :: round
  last_voted :: "(round \<times> public_key set) list"
  processing :: "(round \<times> digest set) list"
  current_header :: header
  votes_agg :: votes_aggregator
  cert_aggs :: "(round \<times> certificates_aggregator) list"
  cancel_handlers :: "(round \<times> nat list) list"
  net :: "(socket_addr \<times> primary_message) list"
  tx_proposer :: "(digest list \<times> round) list"
  tx_consensus :: "certificate list"
  proposer_up :: bool
  consensus_up :: bool

definition core_new :: "'db \<Rightarrow> 'db core" where
  "core_new d = \<lparr>core_store = store_new d, core_sync = synchronizer_new, gc_round = 0, last_voted = [],
     processing = [], current_header = header_default, votes_agg = votes_aggregator_new, cert_aggs = [],
     cancel_handlers = [], net = [], tx_proposer = [], tx_consensus = [],
     proposer_up = True, consensus_up = True\<rparr>"

section \<open>Pieces of the handlers\<close>

text \<open>\<open>network.broadcast\<close> or \<open>network.send\<close>, whose handlers are kept under the round.\<close>

definition send_reliably :: "socket_addr list \<Rightarrow> primary_message \<Rightarrow> round \<Rightarrow> 'db core \<Rightarrow> 'db core" where
  "send_reliably addresses m r s =
     s\<lparr>net := net s @ map (\<lambda>a. (a, m)) addresses,
       cancel_handlers := entry_update r [] (\<lambda>q. q @ [length (net s) ..< length (net s) + length addresses]) (cancel_handlers s)\<rparr>"

definition other_primaries :: "'db node \<Rightarrow> socket_addr list" where
  "other_primaries N = map (primary_to_primary \<circ> snd) (others_primaries (committee_of N) (my_name N))"

definition with_sync :: "('db store \<Rightarrow> (synchronizer, 'a) act) \<Rightarrow> ('db core, 'a) act" where
  "with_sync f s = bindR (f (core_store s) (core_sync s)) (\<lambda>(r, sy). Inr (r, s\<lparr>core_sync := sy\<rparr>))"

definition core_write :: "'db node \<Rightarrow> digest \<Rightarrow> bytes \<Rightarrow> ('db core, unit) act" where
  "core_write N d bs = modifyA (\<lambda>s. s\<lparr>core_store := store_write N (digest_to_vec d) bs (core_store s)\<rparr>)"

text \<open>The loop over the parents: their rounds, and the sum of their stake.\<close>

definition parents_stake :: "committee \<Rightarrow> header \<Rightarrow> certificate list \<Rightarrow> dag_error + stake" where
  "parents_stake c h parents =
     foldR (\<lambda>x stake. bindR (ensure (cert_round x + 1 = h_round h) (MalformedHeader (h_id h))) (\<lambda>_.
                      Inr (stake + stake_of c (cert_origin x)))) parents 0"

text \<open>\<open>last_voted.entry(round).or_insert_with(HashSet::new).insert(author)\<close>.\<close>

definition voted_insert :: "header \<Rightarrow> ('db core, bool) act" where
  "voted_insert h s =
     (let fresh = (case map_of (last_voted s) (h_round h) of None \<Rightarrow> True | Some names \<Rightarrow> h_author h \<notin> names)
      in Inr (Inr fresh, s\<lparr>last_voted := entry_update (h_round h) {} (insert (h_author h)) (last_voted s)\<rparr>))"

definition append_vote :: "'db node \<Rightarrow> vote \<Rightarrow> ('db core, certificate option) act" where
  "append_vote N v s =
     (let (r, va) = votes_append v (committee_of N) (current_header s) (votes_agg s)
      in Inr (r, s\<lparr>votes_agg := va\<rparr>))"

definition append_certificate :: "'db node \<Rightarrow> certificate \<Rightarrow> ('db core, digest list option) act" where
  "append_certificate N cert s =
     (let agg = (case map_of (cert_aggs s) (cert_round cert) of None \<Rightarrow> certificates_aggregator_new | Some a \<Rightarrow> a);
          (r, agg) = certificates_append (lib N) cert (committee_of N) agg
      in Inr (r, s\<lparr>cert_aggs := AList.update (cert_round cert) agg (cert_aggs s)\<rparr>))"

definition send_proposer :: "digest list \<Rightarrow> round \<Rightarrow> ('db core, unit) act" where
  "send_proposer parents r s =
     (if proposer_up s then Inr (Inr (), s\<lparr>tx_proposer := tx_proposer s @ [(parents, r)]\<rparr>)
      else Inl (Expect ''Failed to send certificate''))"

definition send_consensus :: "certificate \<Rightarrow> ('db core, unit) act" where
  "send_consensus cert = modifyA (\<lambda>s. if consensus_up s then s\<lparr>tx_consensus := tx_consensus s @ [cert]\<rparr> else s)"

definition is_processing :: "'db core \<Rightarrow> header \<Rightarrow> bool" where
  "is_processing s h = (case map_of (processing s) (h_round h) of None \<Rightarrow> False | Some x \<Rightarrow> h_id h \<in> x)"

section \<open>The handlers\<close>

fun process_header :: "nat \<Rightarrow> 'db node \<Rightarrow> header \<Rightarrow> ('db core, unit) act"
  and process_vote :: "nat \<Rightarrow> 'db node \<Rightarrow> vote \<Rightarrow> ('db core, unit) act"
  and process_certificate :: "nat \<Rightarrow> 'db node \<Rightarrow> certificate \<Rightarrow> ('db core, unit) act" where
  "process_header 0 N h = panicA OutOfFuel"
| "process_header (Suc n) N h =
     bindA (modifyA (\<lambda>s. s\<lparr>processing := entry_update (h_round h) {} (insert (h_id h)) (processing s)\<rparr>)) (\<lambda>_.
     bindA (with_sync (\<lambda>st. get_parents N st h)) (\<lambda>parents.
     if parents = [] then retA ()
     else bindA (liftA (parents_stake (committee_of N) h parents)) (\<lambda>stake.
     bindA (liftA (ensure (stake \<ge> quorum_threshold (committee_of N)) (HeaderRequiresQuorum (h_id h)))) (\<lambda>_.
     bindA (with_sync (\<lambda>st. missing_payload N st h)) (\<lambda>missing.
     if missing then retA ()
     else bindA (core_write N (h_id h) (ser_header N h)) (\<lambda>_.
     bindA (voted_insert h) (\<lambda>fresh.
     if \<not> fresh then retA ()
     else let vote = vote_new (lib N) (my_secret N) h (my_name N) in
       if v_origin vote = my_name N
       then expectA ''Failed to process our own vote'' (process_vote n N vote)
       else case primary_of (committee_of N) (h_author h) of
         Inl _ \<Rightarrow> panicA (Expect ''Author of valid header is not in the committee'')
       | Inr a \<Rightarrow> modifyA (send_reliably [primary_to_primary a] (PVote vote) (h_round h)))))))))"
| "process_vote 0 N v = panicA OutOfFuel"
| "process_vote (Suc n) N v =
     bindA (append_vote N v) (\<lambda>made. case made of
       None \<Rightarrow> retA ()
     | Some cert \<Rightarrow>
         bindA (modifyA (send_reliably (other_primaries N) (PCertificate cert) (cert_round cert))) (\<lambda>_.
         expectA ''Failed to process valid certificate'' (process_certificate n N cert)))"
| "process_certificate 0 N cert = panicA OutOfFuel"
| "process_certificate (Suc n) N cert =
     bindA (\<lambda>s. if is_processing s (c_header cert) then retA () s else process_header n N (c_header cert) s) (\<lambda>_.
     bindA (with_sync (\<lambda>st. deliver_certificate N st cert)) (\<lambda>delivered.
     if \<not> delivered then retA ()
     else bindA (core_write N (cert_digest (lib N) cert) (ser_certificate N cert)) (\<lambda>_.
     bindA (append_certificate N cert) (\<lambda>ready.
     bindA (case ready of None \<Rightarrow> retA () | Some parents \<Rightarrow> send_proposer parents (cert_round cert)) (\<lambda>_.
     send_consensus cert)))))"

text \<open>The call depth that is enough for every handler.\<close>

definition core_depth :: nat where
  "core_depth = 7"

definition process_own_header :: "'db node \<Rightarrow> header \<Rightarrow> ('db core, unit) act" where
  "process_own_header N h =
     bindA (modifyA (\<lambda>s. send_reliably (other_primaries N) (PHeader h) (h_round h)
                           (s\<lparr>current_header := h, votes_agg := votes_aggregator_new\<rparr>))) (\<lambda>_.
     process_header core_depth N h)"

section \<open>Checks of what comes from the network\<close>

definition sanitize_header :: "'db node \<Rightarrow> header \<Rightarrow> ('db core, unit) act" where
  "sanitize_header N h s =
     (bindA (liftA (ensure (gc_round s \<le> h_round h) (TooOld (h_id h) (h_round h)))) (\<lambda>_.
      liftA (header_verify (lib N) (committee_of N) h))) s"

definition sanitize_vote :: "'db node \<Rightarrow> vote \<Rightarrow> ('db core, unit) act" where
  "sanitize_vote N v s =
     (let cur = current_header s in
      bindA (liftA (ensure (h_round cur \<le> v_round v) (TooOld (vote_digest (lib N) v) (v_round v)))) (\<lambda>_.
      bindA (liftA (ensure (v_id v = h_id cur \<and> v_origin v = h_author cur \<and> v_round v = h_round cur)
                      (UnexpectedVote (v_id v)))) (\<lambda>_.
      liftA (vote_verify (lib N) (committee_of N) v)))) s"

definition sanitize_certificate :: "'db node \<Rightarrow> certificate \<Rightarrow> ('db core, unit) act" where
  "sanitize_certificate N cert s =
     (bindA (liftA (ensure (gc_round s \<le> cert_round cert) (TooOld (cert_digest (lib N) cert) (cert_round cert)))) (\<lambda>_.
      liftA (cert_verify (lib N) (committee_of N) cert))) s"

section \<open>The main loop\<close>

datatype core_event =
    FromPrimaries primary_message
  | FromHeaderWaiter header
  | FromCertificateWaiter certificate
  | FromProposer header

fun core_handle :: "'db node \<Rightarrow> core_event \<Rightarrow> ('db core, unit) act" where
  "core_handle N (FromPrimaries (PHeader h)) = bindA (sanitize_header N h) (\<lambda>_. process_header core_depth N h)"
| "core_handle N (FromPrimaries (PVote v)) = bindA (sanitize_vote N v) (\<lambda>_. process_vote core_depth N v)"
| "core_handle N (FromPrimaries (PCertificate x)) = bindA (sanitize_certificate N x) (\<lambda>_. process_certificate core_depth N x)"
| "core_handle N (FromPrimaries (CertificatesRequest ds k)) = panicA (Expect ''Unexpected core message'')"
| "core_handle N (FromHeaderWaiter h) = process_header core_depth N h"
| "core_handle N (FromCertificateWaiter x) = process_certificate core_depth N x"
| "core_handle N (FromProposer h) = process_own_header N h"

definition retain_from :: "round \<Rightarrow> (round \<times> 'v) list \<Rightarrow> (round \<times> 'v) list" where
  "retain_from r m = filter (\<lambda>(k, _). r \<le> k) m"

definition core_cleanup :: "'db node \<Rightarrow> round \<Rightarrow> 'db core \<Rightarrow> 'db core" where
  "core_cleanup N rnd s =
     (if rnd > gc_depth_of N
      then let g = rnd - gc_depth_of N in
           s\<lparr>last_voted := retain_from g (last_voted s), processing := retain_from g (processing s),
             cert_aggs := retain_from g (cert_aggs s), cancel_handlers := retain_from g (cancel_handlers s),
             gc_round := g\<rparr>
      else s)"

text \<open>One turn: a message, then the clean-up for the round the consensus has reached.\<close>

definition core_turn :: "'db node \<Rightarrow> core_event \<times> round \<Rightarrow> 'db core \<Rightarrow> 'db core res" where
  "core_turn N e s =
     bindR (core_handle N (fst e) s) (\<lambda>(r, s). case r of
       Inl (StoreError err) \<Rightarrow> Inl (Expect ''Storage failure: killing node.'')
     | _ \<Rightarrow> Inr (core_cleanup N (snd e) s))"

definition core_run :: "'db node \<Rightarrow> (core_event \<times> round) list \<Rightarrow> 'db core \<Rightarrow> 'db core res" where
  "core_run N es s = foldR (core_turn N) es s"

end
