(* ===== verification/CoreInvariants.thy ===== *)
theory CoreInvariants
  imports PrimaryCore
begin

text \<open>
  Invariants of the core. The locale \<open>core_inv\<close> states what an invariant has to satisfy at each change of
  state the handlers make; inside it, one induction over the call depth shows that every handler keeps it.
  \<open>ok\<close> is what the caller knows of a header it hands in, \<open>okc\<close> what it knows of the header of a certificate.
\<close>

section \<open>Rules for the pieces of the handlers\<close>

lemma acts_with_sync [simp]:
  "acts P (with_sync f) s Q \<longleftrightarrow> acts P (f (core_store s)) (core_sync s) (\<lambda>r sy. Q r (s\<lparr>core_sync := sy\<rparr>))"
  by (cases "f (core_store s) (core_sync s)") (auto simp: acts_def with_sync_def)

definition fresh_vote :: "header \<Rightarrow> 'db core \<Rightarrow> bool" where
  "fresh_vote h s \<longleftrightarrow> (case map_of (last_voted s) (h_round h) of None \<Rightarrow> True | Some names \<Rightarrow> h_author h \<notin> names)"

definition mark_voted :: "header \<Rightarrow> 'db core \<Rightarrow> 'db core" where
  "mark_voted h s = s\<lparr>last_voted := entry_update (h_round h) {} (insert (h_author h)) (last_voted s)\<rparr>"

definition store_digest :: "'db node \<Rightarrow> digest \<Rightarrow> bytes \<Rightarrow> 'db core \<Rightarrow> 'db core" where
  "store_digest N d bs s = s\<lparr>core_store := store_write N (digest_to_vec d) bs (core_store s)\<rparr>"

lemma acts_voted_insert [simp]: "acts P (voted_insert h) s Q \<longleftrightarrow> Q (Inr (fresh_vote h s)) (mark_voted h s)"
  by (simp add: acts_def voted_insert_def fresh_vote_def mark_voted_def Let_def)

lemma acts_core_write [simp]: "acts P (core_write N d bs) s Q \<longleftrightarrow> Q (Inr ()) (store_digest N d bs s)"
  by (simp add: core_write_def store_digest_def)

lemma acts_append_vote [simp]:
  "acts P (append_vote N v) s Q \<longleftrightarrow>
     (\<forall>r va. votes_append v (committee_of N) (current_header s) (votes_agg s) = (r, va) \<longrightarrow> Q r (s\<lparr>votes_agg := va\<rparr>))"
  by (auto simp: acts_def append_vote_def Let_def split: prod.split)

lemma acts_append_certificate [simp]:
  "acts P (append_certificate N cert) s Q \<longleftrightarrow>
     (\<forall>r agg. certificates_append (lib N) cert (committee_of N)
         (case map_of (cert_aggs s) (cert_round cert) of None \<Rightarrow> certificates_aggregator_new | Some a \<Rightarrow> a) = (r, agg)
       \<longrightarrow> Q r (s\<lparr>cert_aggs := AList.update (cert_round cert) agg (cert_aggs s)\<rparr>))"
  by (auto simp: acts_def append_certificate_def Let_def split: prod.split)

lemma acts_send_proposer [simp]:
  "acts P (send_proposer parents r) s Q \<longleftrightarrow>
     (if proposer_up s then Q (Inr ()) (s\<lparr>tx_proposer := tx_proposer s @ [(parents, r)]\<rparr>)
      else P (Expect ''Failed to send certificate''))"
  by (simp add: acts_def send_proposer_def)

lemma acts_send_consensus [simp]:
  "acts P (send_consensus cert) s Q \<longleftrightarrow>
     Q (Inr ()) (if consensus_up s then s\<lparr>tx_consensus := tx_consensus s @ [cert]\<rparr> else s)"
  by (simp add: send_consensus_def)

text \<open>What \<open>process_header\<close> has checked when it stores the header.\<close>

definition checked :: "'db node \<Rightarrow> 'db store \<Rightarrow> header \<Rightarrow> bool" where
  "checked N st h \<longleftrightarrow> (\<exists>ps w. ps \<noteq> [] \<and> list_all2 (parent_of N st) (h_parents h) ps
     \<and> parents_stake (committee_of N) h ps = Inr w \<and> quorum_threshold (committee_of N) \<le> w) \<and> payload_stored N st h"

text \<open>What \<open>process_certificate\<close> has checked when it stores the certificate, and what it then does.\<close>

definition ancestors_there :: "'db node \<Rightarrow> 'db store \<Rightarrow> certificate \<Rightarrow> bool" where
  "ancestors_there N st cert \<longleftrightarrow> (\<forall>d \<in> set (h_parents (c_header cert)). is_genesis N d \<or> st.has N (digest_to_vec d) st)"

definition delivering :: "'db node \<Rightarrow> certificate \<Rightarrow> ('db core, unit) act" where
  "delivering N cert =
     bindA (core_write N (cert_digest (lib N) cert) (ser_certificate N cert)) (\<lambda>_.
     bindA (append_certificate N cert) (\<lambda>ready.
     bindA (case ready of None \<Rightarrow> retA () | Some parents \<Rightarrow> send_proposer parents (cert_round cert)) (\<lambda>_.
     send_consensus cert)))"

section \<open>The contract of an invariant\<close>

abbreviation any_panic :: "panic \<Rightarrow> bool" where
  "any_panic \<equiv> (\<lambda>p. True)"

locale core_inv =
  fixes N :: "'db node" and I :: "'db core \<Rightarrow> bool" and ok :: "header \<Rightarrow> bool" and okc :: "header \<Rightarrow> bool"
  assumes inv_okc: "okc h \<Longrightarrow> ok h"
    and inv_current: "I s \<Longrightarrow> okc (current_header s)"
    and inv_processing: "I s \<Longrightarrow> ok h \<Longrightarrow> I (s\<lparr>processing := entry_update (h_round h) {} (insert (h_id h)) (processing s)\<rparr>)"
    and inv_sync: "I s \<Longrightarrow> sync_grows ok (\<lambda>x. okc (c_header x)) (core_sync s) sy \<Longrightarrow> I (s\<lparr>core_sync := sy\<rparr>)"
    and inv_voted: "I s \<Longrightarrow> ok h \<Longrightarrow> checked N (core_store s) h \<Longrightarrow>
      I (mark_voted h (store_digest N (h_id h) (ser_header N h) s))"
    and inv_vote: "I s \<Longrightarrow> ok h \<Longrightarrow> checked N (core_store s) h \<Longrightarrow> fresh_vote h s \<Longrightarrow> h_author h \<noteq> my_name N \<Longrightarrow>
      I (send_reliably [a] (PVote (vote_new (lib N) (my_secret N) h (my_name N))) (h_round h)
          (mark_voted h (store_digest N (h_id h) (ser_header N h) s)))"
    and inv_append: "I s \<Longrightarrow> votes_append v (committee_of N) (current_header s) (votes_agg s) = (r, va) \<Longrightarrow>
      I (s\<lparr>votes_agg := va\<rparr>)"
    and inv_certificate: "I s \<Longrightarrow> votes_append v (committee_of N) (current_header s) (votes_agg s) = (Inr (Some cert), va) \<Longrightarrow>
      I (send_reliably as (PCertificate cert) (cert_round cert) (s\<lparr>votes_agg := va\<rparr>))"
    and inv_deliver: "I s \<Longrightarrow> okc (c_header cert) \<Longrightarrow> ancestors_there N (core_store s) cert \<Longrightarrow>
      acts any_panic (delivering N cert) s (\<lambda>r s'. I s')"
begin

lemma header_vote:
  assumes I: "I s" "ok h" "checked N (core_store s) h"
    and rec: "\<And>v s. I s \<Longrightarrow> acts any_panic (process_vote n N v) s (\<lambda>r s'. I s')"
  shows "acts any_panic (bindA (core_write N (h_id h) (ser_header N h)) (\<lambda>_.
     bindA (voted_insert h) (\<lambda>fresh.
     if \<not> fresh then retA ()
     else let vote = vote_new (lib N) (my_secret N) h (my_name N) in
       if v_origin vote = my_name N
       then expectA ''Failed to process our own vote'' (process_vote n N vote)
       else case primary_of (committee_of N) (h_author h) of
         Inl _ \<Rightarrow> panicA (Expect ''Author of valid header is not in the committee'')
       | Inr a \<Rightarrow> modifyA (send_reliably [primary_to_primary a] (PVote vote) (h_round h))))) s (\<lambda>r s'. I s')"
proof -
  let ?s = "store_digest N (h_id h) (ser_header N h) s" and ?v = "vote_new (lib N) (my_secret N) h (my_name N)"
  have voted: "I (mark_voted h ?s)" by (rule inv_voted [OF I])
  have fresh: "fresh_vote h ?s = fresh_vote h s" by (simp add: fresh_vote_def store_digest_def)
  have author: "v_origin ?v = h_author h" by (simp add: vote_new_def Let_def)
  have own: "acts any_panic (process_vote n N ?v) (mark_voted h ?s) (\<lambda>r s'. case r of Inl e \<Rightarrow> True | Inr x \<Rightarrow> I s')" for msg
    by (rule acts_mono [OF rec [OF voted]]) (auto split: sum.split)
  show ?thesis
    using voted own inv_vote [OF I]
    by (auto simp: acts_bind acts_expect Let_def fresh author split: sum.split)
qed

lemma header_step:
  assumes I: "I s" "ok h"
    and rec: "\<And>v s. I s \<Longrightarrow> acts any_panic (process_vote n N v) s (\<lambda>r s'. I s')"
  shows "acts any_panic (process_header (Suc n) N h) s (\<lambda>r s'. I s')"
proof -
  let ?s = "s\<lparr>processing := entry_update (h_round h) {} (insert (h_id h)) (processing s)\<rparr>"
  let ?grows = "sync_grows (\<lambda>g. g = h) (\<lambda>x. False)"
  have I1: "I (?s\<lparr>core_sync := sy\<rparr>)" if "?grows (core_sync s) sy" for sy
    by (rule inv_sync [OF inv_processing [OF I]]) (use that I(2) in \<open>auto elim: sync_grows_mono\<close>)
  have st: "core_store (?s\<lparr>core_sync := sy\<rparr>) = core_store s" for sy by simp
  show ?thesis
    unfolding process_header.simps(2) acts_bind [of _ "modifyA _"] acts_modify sum.case
  proof (rule acts_bindI [where R = "\<lambda>r s'. \<exists>sy. s' = ?s\<lparr>core_sync := sy\<rparr> \<and> ?grows (core_sync s) sy
      \<and> (\<forall>ps. r = Inr ps \<longrightarrow> ps = [] \<or> list_all2 (parent_of N (core_store s)) (h_parents h) ps)"], goal_cases)
    case 1
    show ?case by (simp, rule acts_mono [OF get_parents_acts [OF expects_simps(1)]]) auto
  next
    case (2 e s')
    with I1 show ?case by blast
  next
    case (3 ps s')
    then obtain sy where s': "s' = ?s\<lparr>core_sync := sy\<rparr>" "?grows (core_sync s) sy"
      and ps: "ps = [] \<or> list_all2 (parent_of N (core_store s)) (h_parents h) ps" by blast
    show ?case
    proof (cases "ps = []")
      case True
      with I1 s' show ?thesis by simp
    next
      case False
      show ?thesis
        unfolding if_not_P [OF False]
      proof (rule acts_bindI [where R = "\<lambda>r t. t = s' \<and> r = parents_stake (committee_of N) h ps"], goal_cases)
        case (3 w t)
        show ?case
        proof (rule acts_bindI [where R = "\<lambda>r u. u = s' \<and> (\<forall>x. r = Inr x \<longrightarrow> quorum_threshold (committee_of N) \<le> w)"], goal_cases)
          case (3 x u)
          show ?case
          proof (rule acts_bindI [where R = "\<lambda>r v. \<exists>sy. v = ?s\<lparr>core_sync := sy\<rparr> \<and> ?grows (core_sync s) sy
              \<and> (r = Inr False \<longrightarrow> payload_stored N (core_store s) h)"], goal_cases)
            case 1
            show ?case using 3 s' by (simp, intro acts_mono [OF missing_payload_acts [OF expects_simps(1)]]) (auto elim: sync_grows_trans)
          next
            case (2 e v)
            with I1 show ?case by blast
          next
            case (3 missing v)
            then obtain sy where v: "v = ?s\<lparr>core_sync := sy\<rparr>" "?grows (core_sync s) sy" and p: "\<not> missing \<longrightarrow> payload_stored N (core_store s) h" by auto
            have "checked N (core_store v) h" if "\<not> missing"
              using False ps \<open>u = s' \<and> _\<close> \<open>t = s' \<and> _\<close> p that unfolding v(1) st checked_def
              by (auto intro!: exI [of _ ps] exI [of _ w])
            then show ?case using header_vote [OF I1 [OF v(2)] I(2) _ rec] I1 [OF v(2)] v(1) by (cases missing) auto
          qed
        qed (use 3 s' I1 in \<open>auto simp: ensure_def\<close>)
      qed (use s' I1 in auto)
    qed
  qed
qed

lemma certificate_step:
  assumes I: "I s" "okc (c_header cert)"
    and rec: "\<And>s. I s \<Longrightarrow> acts any_panic (process_header n N (c_header cert)) s (\<lambda>r s'. I s')"
  shows "acts any_panic (process_certificate (Suc n) N cert) s (\<lambda>r s'. I s')"
  unfolding process_certificate.simps(2)
proof (rule acts_bindI [where R = "\<lambda>r s'. I s'"], goal_cases)
  case 1
  show ?case using I rec by (simp add: acts_def retA_def)
next
  case (3 x s1)
  show ?case
  proof (rule acts_bindI [where R = "\<lambda>r s'. \<exists>sy. s' = s1\<lparr>core_sync := sy\<rparr>
      \<and> sync_grows ok (\<lambda>x. okc (c_header x)) (core_sync s1) sy \<and> (r = Inr True \<longrightarrow> ancestors_there N (core_store s1) cert)"], goal_cases)
    case 1
    show ?case unfolding deliver_certificate_def
      by (simp, rule acts_mono [OF deliver_loop_acts [OF expects_simps(1)]]) (use I(2) in \<open>auto simp: ancestors_there_def elim: sync_grows_mono\<close>)
  next
    case (2 e s')
    with 3 inv_sync show ?case by blast
  next
    case 4: (3 delivered s')
    then have "I s'" "delivered \<longrightarrow> ancestors_there N (core_store s') cert" using 3 inv_sync by auto
    with inv_deliver [OF _ I(2)] show ?case by (auto simp: delivering_def)
  qed
qed

lemma vote_step:
  assumes I: "I s"
    and rec: "\<And>s cert. I s \<Longrightarrow> okc (c_header cert) \<Longrightarrow> acts any_panic (process_certificate n N cert) s (\<lambda>r s'. I s')"
  shows "acts any_panic (process_vote (Suc n) N v) s (\<lambda>r s'. I s')"
proof -
  have "acts any_panic (process_certificate n N cert) t (\<lambda>r s'. case r of Inl e \<Rightarrow> True | Inr x \<Rightarrow> I s')"
    if "I t" "okc (c_header cert)" for cert t msg
    by (rule acts_mono [OF rec [OF that]]) (auto split: sum.split)
  moreover have "c_header cert = current_header s"
    if "votes_append v (committee_of N) (current_header s) (votes_agg s) = (Inr (Some cert), va)" for cert va
    using that by (auto simp: votes_append_def Let_def split: if_splits)
  ultimately show ?thesis
    using inv_append [OF I] inv_certificate [OF I] inv_current [OF I]
    by (auto simp: acts_bind acts_expect split: sum.split option.split)
qed

lemma handlers:
  "(\<forall>s h. I s \<longrightarrow> ok h \<longrightarrow> acts any_panic (process_header n N h) s (\<lambda>r s'. I s'))
   \<and> (\<forall>s v. I s \<longrightarrow> acts any_panic (process_vote n N v) s (\<lambda>r s'. I s'))
   \<and> (\<forall>s cert. I s \<longrightarrow> okc (c_header cert) \<longrightarrow> acts any_panic (process_certificate n N cert) s (\<lambda>r s'. I s'))"
proof (induction n)
  case (Suc n)
  then show ?case using header_step [of _ _ n] vote_step [of _ n] certificate_step [of _ _ n] inv_okc by blast
qed simp

lemmas header_keeps = handlers [THEN conjunct1, rule_format]
lemmas vote_keeps = handlers [THEN conjunct2, THEN conjunct1, rule_format]
lemmas certificate_keeps = handlers [THEN conjunct2, THEN conjunct2, rule_format]

end

section \<open>The call depth\<close>

text \<open>
  The handlers can call each other only until the node has voted on its own header: a second vote of its
  own is refused by the aggregator, and that ends the recursion.
\<close>

abbreviation not_fuel :: "panic \<Rightarrow> bool" where
  "not_fuel \<equiv> (\<lambda>p. p \<noteq> OutOfFuel)"

lemma header_fuel:
  assumes rec: "\<And>t v. votes_agg t = votes_agg s \<Longrightarrow> v_author v = my_name N \<Longrightarrow> acts not_fuel (process_vote n N v) t (\<lambda>_ _. True)"
  shows "acts not_fuel (process_header (Suc n) N h) s (\<lambda>_ _. True)"
proof -
  let ?vote = "bindA (core_write N (h_id h) (ser_header N h)) (\<lambda>_.
     bindA (voted_insert h) (\<lambda>fresh.
     if \<not> fresh then retA ()
     else let vote = vote_new (lib N) (my_secret N) h (my_name N) in
       if v_origin vote = my_name N
       then expectA ''Failed to process our own vote'' (process_vote n N vote)
       else case primary_of (committee_of N) (h_author h) of
         Inl _ \<Rightarrow> panicA (Expect ''Author of valid header is not in the committee'')
       | Inr a \<Rightarrow> modifyA (send_reliably [primary_to_primary a] (PVote vote) (h_round h))))"
  have vote: "acts not_fuel ?vote t (\<lambda>_ _. True)"
    if "votes_agg t = votes_agg s" for t
  proof -
    let ?v = "vote_new (lib N) (my_secret N) h (my_name N)" and ?t = "mark_voted h (store_digest N (h_id h) (ser_header N h) t)"
    have "acts not_fuel (process_vote n N ?v) ?t (\<lambda>_ _. True)"
      using that by (intro rec) (simp_all add: mark_voted_def store_digest_def vote_new_def Let_def)
    then have "acts not_fuel (process_vote n N ?v) ?t (\<lambda>r s'. case r of Inl e \<Rightarrow> Expect msg \<noteq> OutOfFuel | Inr x \<Rightarrow> True)" for msg
      by (rule acts_mono) (simp split: sum.split)
    then show ?thesis by (auto simp: acts_bind acts_expect Let_def split: sum.split)
  qed
  have gp: "acts not_fuel (with_sync (\<lambda>st. get_parents N st h)) t (\<lambda>r t'. votes_agg t' = votes_agg t)" for t
    by (simp, rule acts_mono [OF get_parents_acts [OF expects_simps(2)]]) simp
  have mp: "acts not_fuel (with_sync (\<lambda>st. missing_payload N st h)) t (\<lambda>r t'. votes_agg t' = votes_agg t)" for t
    by (simp, rule acts_mono [OF missing_payload_acts [OF expects_simps(2)]]) simp
  have rest: "acts not_fuel (bindA (with_sync (\<lambda>st. missing_payload N st h)) (\<lambda>missing. if missing then retA () else ?vote)) t
      (\<lambda>_ _. True)" if "votes_agg t = votes_agg s" for t
    using that by (intro acts_bindI [OF mp]) (auto intro: vote)
  show ?thesis
    unfolding process_header.simps(2) acts_bind [of _ "modifyA _"] acts_modify sum.case
    by (rule acts_bindI [OF gp]) (auto simp: acts_bind [of _ "liftA _"] split: sum.split intro!: rest)
qed

lemma vote_fuel:
  assumes "\<And>t cert. v_author v \<in> va_used (votes_agg t) \<Longrightarrow> acts not_fuel (process_certificate n N cert) t (\<lambda>_ _. True)"
  shows "acts not_fuel (process_vote (Suc n) N v) s (\<lambda>_ _. True)"
proof -
  have used: "v_author v \<in> va_used va" if "votes_append v c h a = (r, va)" for c h a r va
    using that by (auto simp: votes_append_def Let_def split: if_splits)
  have "acts not_fuel (process_certificate n N cert) t (\<lambda>r s'. case r of Inl e \<Rightarrow> Expect msg \<noteq> OutOfFuel | Inr x \<Rightarrow> True)"
    if "v_author v \<in> va_used (votes_agg t)" for cert t msg
    by (rule acts_mono [OF assms [OF that]]) (simp split: sum.split)
  with used show ?thesis
    by (auto simp: acts_bind acts_expect send_reliably_def split: sum.split option.split)
qed

lemma vote_fuel_again:
  assumes "v_author v \<in> va_used (votes_agg s)"
  shows "acts not_fuel (process_vote (Suc n) N v) s (\<lambda>_ _. True)"
  using assms by (auto simp: acts_bind votes_append_def Let_def split: sum.split option.split)

lemma delivering_fuel: "acts not_fuel (delivering N cert) s (\<lambda>_ _. True)"
  by (auto simp: delivering_def acts_bind split: sum.split option.split)

lemma certificate_fuel:
  assumes "acts not_fuel (process_header n N (c_header cert)) s (\<lambda>_ _. True)"
  shows "acts not_fuel (process_certificate (Suc n) N cert) s (\<lambda>_ _. True)"
  unfolding process_certificate.simps(2) delivering_def [symmetric]
proof (rule acts_bindI [where R = "\<lambda>_ _. True"], goal_cases)
  case 1
  show ?case using assms by (simp add: acts_def retA_def)
next
  case (3 x t)
  show ?case
  proof (rule acts_bindI [where R = "\<lambda>_ _. True"], goal_cases)
    case 1
    show ?case
      unfolding deliver_certificate_def by (simp, rule acts_mono [OF deliver_loop_acts [OF expects_simps(2)]]) simp
  qed (auto simp: delivering_fuel)
qed simp

lemma handlers_fuel:
  "my_name N \<in> va_used (votes_agg s) \<Longrightarrow> acts not_fuel (process_header (Suc (Suc n)) N h) s (\<lambda>_ _. True)"
  "my_name N \<in> va_used (votes_agg s) \<Longrightarrow> acts not_fuel (process_certificate (Suc (Suc (Suc n))) N x) s (\<lambda>_ _. True)"
  "v_author v = my_name N \<Longrightarrow> acts not_fuel (process_vote (Suc (Suc (Suc (Suc n)))) N v) s (\<lambda>_ _. True)"
  "acts not_fuel (process_header (Suc (Suc (Suc (Suc (Suc n))))) N h) s (\<lambda>_ _. True)"
  "acts not_fuel (process_certificate (Suc (Suc (Suc (Suc (Suc (Suc n)))))) N x) s (\<lambda>_ _. True)"
  "acts not_fuel (process_vote (Suc (Suc (Suc (Suc (Suc (Suc (Suc n))))))) N v) s (\<lambda>_ _. True)"
proof -
  have 1: "acts not_fuel (process_header (Suc (Suc n)) N h) s (\<lambda>_ _. True)" if "my_name N \<in> va_used (votes_agg s)" for s :: "'a core" and h
    using that by (intro header_fuel vote_fuel_again) simp
  then show "my_name N \<in> va_used (votes_agg s) \<Longrightarrow> acts not_fuel (process_header (Suc (Suc n)) N h) s (\<lambda>_ _. True)" .
  have 2: "acts not_fuel (process_certificate (Suc (Suc (Suc n))) N x) s (\<lambda>_ _. True)" if "my_name N \<in> va_used (votes_agg s)" for s :: "'a core" and x
    using that by (intro certificate_fuel 1)
  then show "my_name N \<in> va_used (votes_agg s) \<Longrightarrow> acts not_fuel (process_certificate (Suc (Suc (Suc n))) N x) s (\<lambda>_ _. True)" .
  have 3: "acts not_fuel (process_vote (Suc (Suc (Suc (Suc n)))) N v) s (\<lambda>_ _. True)" if "v_author v = my_name N" for s :: "'a core" and v
    using that by (intro vote_fuel 2) simp
  then show "v_author v = my_name N \<Longrightarrow> acts not_fuel (process_vote (Suc (Suc (Suc (Suc n)))) N v) s (\<lambda>_ _. True)" .
  have 4: "acts not_fuel (process_header (Suc (Suc (Suc (Suc (Suc n))))) N h) s (\<lambda>_ _. True)" for s :: "'a core" and h
    by (intro header_fuel 3)
  then show "acts not_fuel (process_header (Suc (Suc (Suc (Suc (Suc n))))) N h) s (\<lambda>_ _. True)" .
  have 5: "acts not_fuel (process_certificate (Suc (Suc (Suc (Suc (Suc (Suc n)))))) N x) s (\<lambda>_ _. True)" for s :: "'a core" and x
    by (intro certificate_fuel 4)
  then show "acts not_fuel (process_certificate (Suc (Suc (Suc (Suc (Suc (Suc n)))))) N x) s (\<lambda>_ _. True)" .
  show "acts not_fuel (process_vote (Suc (Suc (Suc (Suc (Suc (Suc (Suc n))))))) N v) s (\<lambda>_ _. True)"
    by (intro vote_fuel 5)
qed

lemma core_depth_fuel:
  "acts not_fuel (process_header core_depth N h) s (\<lambda>_ _. True)"
  "acts not_fuel (process_vote core_depth N v) s (\<lambda>_ _. True)"
  "acts not_fuel (process_certificate core_depth N x) s (\<lambda>_ _. True)"
  unfolding core_depth_def numeral_eq_Suc pred_numeral_simps BitM.simps
  using handlers_fuel(4) [of "Suc (Suc 0)"] handlers_fuel(5) [of "Suc 0"] handlers_fuel(6) [of 0]
  by (simp_all add: eval_nat_numeral)

end
