(* ===== verification/PrimaryTasks.thy ===== *)
theory PrimaryTasks
  imports PrimaryBase
begin

text \<open>
  The small tasks of the primary: \<open>payload_receiver.rs\<close>, \<open>helper.rs\<close>, \<open>garbage_collector.rs\<close> and the two
  handlers of \<open>primary.rs\<close> that sort what comes from the network. Each is one step of its loop over its
  inputs; what it sends is appended to its outputs.
\<close>

section \<open>Payload receiver\<close>

definition payload_receive :: "'db node \<Rightarrow> digest \<times> worker_id \<Rightarrow> 'db store \<Rightarrow> 'db store" where
  "payload_receive N e st = (let (digest, worker_id) = e in store_write N (payload_key digest worker_id) [] st)"

lemma payload_receive_has:
  assumes "rocks_ok N"
  shows "st.has N (payload_key d w) (payload_receive N (d, w) st)"
    and "st.has N k st \<Longrightarrow> st.has N k (payload_receive N e st)"
    and "store_read N (digest_to_vec d) (payload_receive N e st) = store_read N (digest_to_vec d) st"
  using assms payload_key_other payload_key_other [THEN not_sym] by (auto simp: payload_receive_def st.has_wr st.rd_wr split: prod.split)

section \<open>Helper\<close>

text \<open>
  A request for certificates is answered with what is stored under each digest. A read error is logged;
  what does not read back as a certificate is a panic.
\<close>

definition helper_reply :: "'db node \<Rightarrow> 'db store \<Rightarrow> socket_addr \<Rightarrow> digest \<Rightarrow> (socket_addr \<times> primary_message) list \<Rightarrow>
    (socket_addr \<times> primary_message) list res" where
  "helper_reply N st address digest out =
     (case store_read N (digest_to_vec digest) st of
        Inr (Some data) \<Rightarrow>
          bindR (expect ''Failed to deserialize our own certificate'' (de_certificate N data)) (\<lambda>x.
          Inr (out @ [(address, PCertificate x)]))
      | Inr None \<Rightarrow> Inr out
      | Inl e \<Rightarrow> Inr out)"

definition helper_request :: "'db node \<Rightarrow> 'db store \<Rightarrow> digest list \<times> public_key \<Rightarrow> (socket_addr \<times> primary_message) list \<Rightarrow>
    (socket_addr \<times> primary_message) list res" where
  "helper_request N st req out =
     (let (digests, origin) = req in
      case primary_of (committee_of N) origin of
        Inl e \<Rightarrow> Inr out
      | Inr a \<Rightarrow> foldR (helper_reply N st (primary_to_primary a)) digests out)"

lemma helper_reply_missing: "\<not> st.has N (digest_to_vec d) st \<Longrightarrow> helper_reply N st a d out = Inr out"
  by (auto simp: helper_reply_def st.has_def split: sum.split option.split)

lemma helper_replies_append:
  assumes "foldR (helper_reply N st a) ds out = Inr out'"
  shows "\<exists>xs. out' = out @ map (\<lambda>x. (a, PCertificate x)) xs
    \<and> (\<forall>x \<in> set xs. \<exists>d \<in> set ds. \<exists>bs. store_read N (digest_to_vec d) st = Inr (Some bs) \<and> de_certificate N bs = Some x)"
  using assms
proof (induction ds arbitrary: out)
  case (Cons d ds)
  then obtain out1 where o: "helper_reply N st a d out = Inr out1" "foldR (helper_reply N st a) ds out1 = Inr out'"
    by (auto simp: bindR_Inr_iff)
  obtain xs where xs: "out' = out1 @ map (\<lambda>x. (a, PCertificate x)) xs"
    "\<forall>x \<in> set xs. \<exists>d \<in> set ds. \<exists>bs. store_read N (digest_to_vec d) st = Inr (Some bs) \<and> de_certificate N bs = Some x"
    using Cons.IH [OF o(2)] by blast
  consider "out1 = out" | x bs where "out1 = out @ [(a, PCertificate x)]" "store_read N (digest_to_vec d) st = Inr (Some bs)"
    "de_certificate N bs = Some x"
    using o(1) by (auto simp: helper_reply_def bindR_Inr_iff expect_def split: sum.splits option.splits)
  then show ?case
  proof cases
    case 1
    with xs show ?thesis by auto
  next
    case (2 x bs)
    with xs show ?thesis by (intro exI [of _ "x # xs"]) auto
  qed
qed simp

section \<open>Garbage collector\<close>

text \<open>\<open>last_committed_round\<close> is the local of \<open>run\<close>; \<open>consensus_round\<close> the shared atomic; \<open>to_workers\<close> the broadcasts.\<close>

record garbage_collector =
  gc_last :: round
  consensus_round :: round
  gc_addresses :: "socket_addr list"
  to_workers :: "(socket_addr \<times> primary_worker_message) list"

definition garbage_collector_spawn :: "committee \<Rightarrow> public_key \<Rightarrow> garbage_collector res" where
  "garbage_collector_spawn c name =
     (case our_workers c name of
        Inl e \<Rightarrow> Inl (Expect ''Our public key or worker id is not in the committee'')
      | Inr ws \<Rightarrow> Inr \<lparr>gc_last = 0, consensus_round = 0, gc_addresses = map primary_to_worker ws, to_workers = []\<rparr>)"

definition gc_receive :: "certificate \<Rightarrow> garbage_collector \<Rightarrow> garbage_collector" where
  "gc_receive cert s =
     (let rnd = cert_round cert in
      if rnd > gc_last s
      then s\<lparr>gc_last := rnd, consensus_round := rnd,
             to_workers := to_workers s @ map (\<lambda>a. (a, Cleanup rnd)) (gc_addresses s)\<rparr>
      else s)"

definition gc_run :: "certificate list \<Rightarrow> garbage_collector \<Rightarrow> garbage_collector" where
  "gc_run certs s = fold gc_receive certs s"

definition gc_inv :: "garbage_collector \<Rightarrow> bool" where
  "gc_inv s \<longleftrightarrow> consensus_round s = gc_last s"

lemma gc_run_round:
  "gc_inv s \<Longrightarrow> consensus_round (gc_run certs s) = fold max (map cert_round certs) (consensus_round s) \<and> gc_inv (gc_run certs s)"
proof (induction certs arbitrary: s)
  case (Cons x certs)
  have "gc_inv (gc_receive x s)" "consensus_round (gc_receive x s) = max (cert_round x) (consensus_round s)"
    using Cons.prems by (auto simp: gc_inv_def gc_receive_def Let_def max_def)
  with Cons.IH show ?case by (simp add: gc_run_def)
qed (simp add: gc_run_def)

section \<open>The network handlers\<close>

text \<open>\<open>PrimaryReceiverHandler\<close>: a request goes to the helper, anything else to the core.\<close>

definition primary_dispatch :: "primary_message \<Rightarrow> primary_message list \<times> (digest list \<times> public_key) list \<Rightarrow>
    primary_message list \<times> (digest list \<times> public_key) list" where
  "primary_dispatch m chans =
     (let (tx_primary_messages, tx_cert_requests) = chans in
      case m of
        CertificatesRequest missing requestor \<Rightarrow> (tx_primary_messages, tx_cert_requests @ [(missing, requestor)])
      | request \<Rightarrow> (tx_primary_messages @ [request], tx_cert_requests))"

text \<open>\<open>WorkerReceiverHandler\<close>.\<close>

definition worker_dispatch :: "worker_primary_message \<Rightarrow> (digest \<times> worker_id) list \<times> (digest \<times> worker_id) list \<Rightarrow>
    (digest \<times> worker_id) list \<times> (digest \<times> worker_id) list" where
  "worker_dispatch m chans =
     (let (tx_our_digests, tx_others_digests) = chans in
      case m of
        OurBatch digest worker_id \<Rightarrow> (tx_our_digests @ [(digest, worker_id)], tx_others_digests)
      | OthersBatch digest worker_id \<Rightarrow> (tx_our_digests, tx_others_digests @ [(digest, worker_id)]))"

lemma primary_dispatch_no_request:
  "\<forall>m \<in> set (fst chans). \<forall>ds k. m \<noteq> CertificatesRequest ds k \<Longrightarrow>
   \<forall>m \<in> set (fst (fold primary_dispatch ms chans)). \<forall>ds k. m \<noteq> CertificatesRequest ds k"
proof (induction ms arbitrary: chans)
  case (Cons m ms)
  have "\<forall>m \<in> set (fst (primary_dispatch m chans)). \<forall>ds k. m \<noteq> CertificatesRequest ds k"
    using Cons.prems by (cases m; cases chans) (auto simp: primary_dispatch_def)
  with Cons.IH show ?case by simp
qed simp

end
