(* ===== verification/CoreSafety.thy ===== *)
theory CoreSafety
  imports CoreInvariants PrimaryTasks
begin

text \<open>
  What the core guarantees to the other nodes and to the consensus: it votes at most once per round and
  author, only for headers it has checked, and it hands certificates to the consensus after their
  parents. The core and the payload receiver share the store, so a run interleaves the turns of both.
\<close>

section \<open>Runs of the core with the payload receiver\<close>

datatype node_event =
    CoreTurn core_event round
  | PayloadTurn digest worker_id

fun node_step :: "'db node \<Rightarrow> node_event \<Rightarrow> 'db core \<Rightarrow> 'db core res" where
  "node_step N (CoreTurn ev rnd) s = core_turn N (ev, rnd) s"
| "node_step N (PayloadTurn d w) s = Inr (s\<lparr>core_store := payload_receive N (d, w) (core_store s)\<rparr>)"

definition node_run :: "'db node \<Rightarrow> node_event list \<Rightarrow> 'db core \<Rightarrow> 'db core res" where
  "node_run N es s = foldR (node_step N) es s"

text \<open>The header an event hands to the core, alone or in a certificate.\<close>

fun event_header :: "core_event \<Rightarrow> header option" where
  "event_header (FromPrimaries (PHeader h)) = Some h"
| "event_header (FromHeaderWaiter h) = Some h"
| "event_header (FromProposer h) = Some h"
| "event_header ev = None"

fun event_certificate :: "core_event \<Rightarrow> header option" where
  "event_certificate (FromPrimaries (PCertificate x)) = Some (c_header x)"
| "event_certificate (FromCertificateWaiter x) = Some (c_header x)"
| "event_certificate ev = None"

text \<open>The signatures, the stake and the digest of a message from another primary are checked before anything else.\<close>

fun passes :: "'db node \<Rightarrow> primary_message \<Rightarrow> bool" where
  "passes N (PHeader h) = (header_verify (lib N) (committee_of N) h = Inr ())"
| "passes N (PVote v) = (vote_verify (lib N) (committee_of N) v = Inr ())"
| "passes N (PCertificate x) = (cert_verify (lib N) (committee_of N) x = Inr ())"
| "passes N (CertificatesRequest ds k) = True"

text \<open>A turn keeps an invariant of the handlers that the clean-up and a new header keep.\<close>

definition own_header :: "'db node \<Rightarrow> header \<Rightarrow> 'db core \<Rightarrow> 'db core" where
  "own_header N h s = send_reliably (other_primaries N) (PHeader h) (h_round h)
     (s\<lparr>current_header := h, votes_agg := votes_aggregator_new\<rparr>)"

context core_inv
begin

lemma acts_sanitize:
  "acts any_panic (sanitize_header N h) s (\<lambda>r s'. s' = s \<and> (r = Inr () \<longrightarrow> gc_round s \<le> h_round h \<and> passes N (PHeader h)))"
  "acts any_panic (sanitize_vote N v) s (\<lambda>r s'. s' = s)"
  "acts any_panic (sanitize_certificate N cert) s (\<lambda>r s'. s' = s \<and> (r = Inr () \<longrightarrow> gc_round s \<le> cert_round cert \<and> passes N (PCertificate cert)))"
  by (simp_all add: acts_def sanitize_header_def sanitize_vote_def sanitize_certificate_def bindA_def liftA_def
      ensure_def Let_def split: sum.split)

lemma turn_keeps:
  assumes I: "I s"
    and own: "\<And>h. ev = FromProposer h \<Longrightarrow> I (own_header N h s) \<and> ok h"
    and hdr: "\<And>h. event_header ev = Some h \<Longrightarrow> (\<forall>m. ev = FromPrimaries m \<longrightarrow> gc_round s \<le> h_round h \<and> passes N m) \<Longrightarrow> ok h"
    and cert: "\<And>h. event_certificate ev = Some h \<Longrightarrow> (\<forall>m. ev = FromPrimaries m \<longrightarrow> gc_round s \<le> h_round h \<and> passes N m) \<Longrightarrow> okc h"
    and turn: "core_turn N (ev, rnd) s = Inr s'"
  shows "\<exists>t. I t \<and> s' = core_cleanup N rnd t"
proof -
  have "acts any_panic (core_handle N ev) s (\<lambda>r s'. I s')"
  proof (cases ev)
    case (FromPrimaries m)
    show ?thesis
    proof (cases m)
      case (PHeader h)
      show ?thesis
        unfolding FromPrimaries PHeader core_handle.simps
        by (rule acts_bindI [OF acts_sanitize(1)]) (use I hdr FromPrimaries PHeader in \<open>auto intro: header_keeps\<close>)
    next
      case (PVote v)
      show ?thesis
        unfolding FromPrimaries PVote core_handle.simps
        by (rule acts_bindI [OF acts_sanitize(2)]) (use I in \<open>auto intro: vote_keeps\<close>)
    next
      case (PCertificate x)
      show ?thesis
        unfolding FromPrimaries PCertificate core_handle.simps
        by (rule acts_bindI [OF acts_sanitize(3)])
          (use I cert FromPrimaries PCertificate in \<open>auto intro!: certificate_keeps simp: cert_round_def\<close>)
    qed (simp add: FromPrimaries)
  next
    case (FromHeaderWaiter h)
    then show ?thesis using I hdr by (auto intro: header_keeps)
  next
    case (FromCertificateWaiter x)
    then show ?thesis using I cert by (auto intro: certificate_keeps)
  next
    case (FromProposer h)
    then show ?thesis using own header_keeps by (auto simp: process_own_header_def acts_bind own_header_def)
  qed
  then have kept: "I t" if "core_handle N ev s = Inr (r, t)" for r t
    using that by (simp add: acts_def)
  obtain r t where h: "core_handle N ev s = Inr (r, t)"
    and out: "(case r of Inl (StoreError err) \<Rightarrow> Inl (Expect ''Storage failure: killing node.'')
       | _ \<Rightarrow> Inr (core_cleanup N rnd t)) = Inr s'"
    using turn unfolding core_turn_def bindR_Inr_iff prod.sel by auto
  have "s' = core_cleanup N rnd t"
  proof (cases r)
    case (Inl e)
    with out show ?thesis by (cases e) simp_all
  qed (use out in simp)
  with kept [OF h] show ?thesis by blast
qed

end

section \<open>One vote per round and author\<close>

definition vote_slots :: "'db core \<Rightarrow> (round \<times> public_key) list" where
  "vote_slots s = concat (map (\<lambda>(a, m). case m of PVote v \<Rightarrow> [(v_round v, v_origin v)] | _ \<Rightarrow> []) (net s))"

definition voted_for :: "'db core \<Rightarrow> round \<Rightarrow> public_key \<Rightarrow> bool" where
  "voted_for s r n \<longleftrightarrow> (\<exists>names. map_of (last_voted s) r = Some names \<and> n \<in> names)"

definition timely :: "'db node \<Rightarrow> round \<Rightarrow> header \<Rightarrow> bool" where
  "timely N g h \<longleftrightarrow> h_author h = my_name N \<or> h_parents h = [] \<or> g \<le> h_round h"

definition vote_inv :: "'db node \<Rightarrow> round \<Rightarrow> 'db core \<Rightarrow> bool" where
  "vote_inv N g s \<longleftrightarrow> gc_round s = g \<and> (h_author (current_header s) = my_name N \<or> h_parents (current_header s) = [])
     \<and> distinct (vote_slots s)
     \<and> (\<forall>(r, n) \<in> set (vote_slots s). r < g \<or> voted_for s r n)"

lemma vote_slots_simps [simp]:
  "vote_slots (send_reliably as (PHeader h) r s) = vote_slots s"
  "vote_slots (send_reliably as (PCertificate x) r s) = vote_slots s"
  "vote_slots (send_reliably [a] (PVote v) r s) = vote_slots s @ [(v_round v, v_origin v)]"
  "vote_slots (mark_voted h s) = vote_slots s" "vote_slots (store_digest N d bs s) = vote_slots s"
  by (simp_all add: vote_slots_def send_reliably_def mark_voted_def store_digest_def comp_def)

lemma vote_slots_update [simp]:
  "vote_slots (s\<lparr>core_store := st\<rparr>) = vote_slots s" "vote_slots (s\<lparr>core_sync := sy\<rparr>) = vote_slots s"
  "vote_slots (s\<lparr>processing := p\<rparr>) = vote_slots s" "vote_slots (s\<lparr>current_header := h\<rparr>) = vote_slots s"
  "vote_slots (s\<lparr>votes_agg := va\<rparr>) = vote_slots s" "vote_slots (s\<lparr>cert_aggs := ca\<rparr>) = vote_slots s"
  "vote_slots (s\<lparr>tx_proposer := tp\<rparr>) = vote_slots s" "vote_slots (s\<lparr>tx_consensus := tc\<rparr>) = vote_slots s"
  by (simp_all add: vote_slots_def)

lemma voted_for_mark:
  "voted_for (mark_voted h s) r n \<longleftrightarrow> (r = h_round h \<and> n = h_author h) \<or> voted_for s r n"
  by (auto simp: voted_for_def mark_voted_def map_of_entry_update split: option.splits)

lemma fresh_vote_iff: "fresh_vote h s \<longleftrightarrow> \<not> voted_for s (h_round h) (h_author h)"
  by (auto simp: fresh_vote_def voted_for_def split: option.split)

lemma voted_for_simps [simp]:
  "voted_for (send_reliably as m q s) r n = voted_for s r n" "voted_for (store_digest N d bs s) r n = voted_for s r n"
  by (simp_all add: voted_for_def send_reliably_def store_digest_def)

lemma voted_for_update [simp]:
  "voted_for (s\<lparr>core_store := st\<rparr>) r n = voted_for s r n" "voted_for (s\<lparr>core_sync := sy\<rparr>) r n = voted_for s r n"
  "voted_for (s\<lparr>processing := p\<rparr>) r n = voted_for s r n" "voted_for (s\<lparr>current_header := h\<rparr>) r n = voted_for s r n"
  "voted_for (s\<lparr>votes_agg := va\<rparr>) r n = voted_for s r n" "voted_for (s\<lparr>cert_aggs := ca\<rparr>) r n = voted_for s r n"
  "voted_for (s\<lparr>tx_proposer := tp\<rparr>) r n = voted_for s r n" "voted_for (s\<lparr>tx_consensus := tc\<rparr>) r n = voted_for s r n"
  by (simp_all add: voted_for_def)

lemma checked_parents: "checked N st h \<Longrightarrow> h_parents h \<noteq> []"
  by (auto simp: checked_def)

lemma core_piece_fields [simp]:
  "gc_round (send_reliably as m q s) = gc_round s" "current_header (send_reliably as m q s) = current_header s"
  "gc_round (mark_voted h s) = gc_round s" "current_header (mark_voted h s) = current_header s"
  "gc_round (store_digest N d bs s) = gc_round s" "current_header (store_digest N d bs s) = current_header s"
  by (simp_all add: send_reliably_def mark_voted_def store_digest_def)

interpretation vo: core_inv N "vote_inv N g" "timely N g" "timely N g" for N :: "'db node" and g
proof (unfold_locales, goal_cases)
  case (2 s)
  then show ?case by (auto simp: vote_inv_def timely_def)
next
  case (5 s h)
  then show ?case by (auto simp: vote_inv_def voted_for_mark)
next
  case (6 s h a)
  have "g \<le> h_round h" using 6(2,5) checked_parents [OF 6(3)] by (auto simp: timely_def)
  moreover have "v_round (vote_new L k h n) = h_round h" "v_origin (vote_new L k h n) = h_author h" for L k n
    by (simp_all add: vote_new_def Let_def)
  ultimately show ?case
    using 6(1,4) by (auto simp: vote_inv_def voted_for_mark fresh_vote_iff)
next
  case (9 s cert)
  then show ?case
    by (auto simp: delivering_def acts_bind vote_inv_def store_digest_def split: sum.split option.split)
qed (auto simp: vote_inv_def)

text \<open>
  The round of the clean-up after a turn, and what a run has to respect: the rounds of the consensus do
  not go back, the proposer makes the node's own headers, and what the waiters send back is not below the
  current clean-up round (the handlers do not check that again).
\<close>

definition next_gc :: "'db node \<Rightarrow> round \<Rightarrow> round \<Rightarrow> round" where
  "next_gc N g rnd = (if rnd > gc_depth_of N then rnd - gc_depth_of N else g)"

fun on_time :: "'db node \<Rightarrow> round \<Rightarrow> core_event \<Rightarrow> bool" where
  "on_time N g (FromPrimaries m) = True"
| "on_time N g (FromHeaderWaiter h) = timely N g h"
| "on_time N g (FromCertificateWaiter x) = timely N g (c_header x)"
| "on_time N g (FromProposer h) = (h_author h = my_name N)"

fun events_timely :: "'db node \<Rightarrow> round \<Rightarrow> node_event list \<Rightarrow> bool" where
  "events_timely N g [] = True"
| "events_timely N g (CoreTurn ev rnd # es) = (on_time N g ev \<and> g \<le> next_gc N g rnd \<and> events_timely N (next_gc N g rnd) es)"
| "events_timely N g (PayloadTurn d w # es) = events_timely N g es"

lemma map_of_retain: "map_of (retain_from r m) k = (if r \<le> k then map_of m k else None)"
  by (induction m) (auto simp: retain_from_def)

lemma core_cleanup_fields [simp]:
  "gc_round (core_cleanup N rnd s) = next_gc N (gc_round s) rnd" "current_header (core_cleanup N rnd s) = current_header s"
  "vote_slots (core_cleanup N rnd s) = vote_slots s" "net (core_cleanup N rnd s) = net s"
  "core_store (core_cleanup N rnd s) = core_store s" "tx_consensus (core_cleanup N rnd s) = tx_consensus s"
  "consensus_up (core_cleanup N rnd s) = consensus_up s" "core_sync (core_cleanup N rnd s) = core_sync s"
  "tx_proposer (core_cleanup N rnd s) = tx_proposer s" "proposer_up (core_cleanup N rnd s) = proposer_up s"
  by (simp_all add: core_cleanup_def next_gc_def vote_slots_def Let_def)

lemma vote_inv_cleanup:
  assumes "vote_inv N g s" "g \<le> next_gc N g rnd"
  shows "vote_inv N (next_gc N g rnd) (core_cleanup N rnd s)"
proof -
  have "voted_for (core_cleanup N rnd s) r n" if "voted_for s r n" "next_gc N g rnd \<le> r" for r n
    using that by (auto simp: voted_for_def core_cleanup_def Let_def next_gc_def map_of_retain)
  then have "r < next_gc N g rnd \<or> voted_for (core_cleanup N rnd s) r n" if "(r, n) \<in> set (vote_slots s)" for r n
    using assms that by (force simp: vote_inv_def)
  with assms show ?thesis by (auto simp: vote_inv_def)
qed

lemma vote_inv_turn:
  assumes inv: "vote_inv N g s" and ev: "on_time N g ev" "g \<le> next_gc N g rnd"
    and turn: "core_turn N (ev, rnd) s = Inr s'"
  shows "vote_inv N (next_gc N g rnd) s'"
proof -
  have late: "timely N g h" if "event_header ev = Some h \<or> event_certificate ev = Some h"
    "\<forall>m. ev = FromPrimaries m \<longrightarrow> gc_round s \<le> h_round h \<and> passes N m" for h
  proof (cases ev)
    case (FromPrimaries m)
    then show ?thesis using that inv by (simp add: timely_def vote_inv_def)
  qed (use that ev in \<open>auto simp: timely_def\<close>)
  have "\<exists>t. vote_inv N g t \<and> s' = core_cleanup N rnd t"
  proof (rule vo.turn_keeps [OF inv _ _ _ turn])
    show "vote_inv N g (own_header N h s) \<and> timely N g h" if "ev = FromProposer h" for h
      using that inv ev by (simp add: own_header_def timely_def vote_inv_def)
  qed (use late in blast)+
  with vote_inv_cleanup ev(2) show ?thesis by blast
qed

lemma vote_inv_run: "vote_inv N g s \<Longrightarrow> events_timely N g es \<Longrightarrow> node_run N es s = Inr s' \<Longrightarrow> \<exists>g. vote_inv N g s'"
proof (induction es arbitrary: g s)
  case (Cons e es)
  obtain t where t: "node_step N e s = Inr t" "node_run N es t = Inr s'"
    using Cons.prems(3) by (auto simp: node_run_def bindR_Inr_iff)
  show ?case
  proof (cases e)
    case (CoreTurn ev rnd)
    with Cons.prems t vote_inv_turn [of N g s ev rnd t] show ?thesis by (auto intro!: Cons.IH [OF _ _ t(2)])
  next
    case (PayloadTurn d w)
    with t(1) Cons.prems(1) have "vote_inv N g t" by (auto simp: vote_inv_def)
    with Cons.IH [OF _ _ t(2)] Cons.prems(2) PayloadTurn show ?thesis by auto
  qed
qed (auto simp: node_run_def)

end
