(* ===== verification/CoreDelivery.thy ===== *)
theory CoreDelivery
  imports CoreSafety
begin

text \<open>
  What the core sends: certificates go to the consensus after their parents, and every vote for the
  header of another node has a quorum of parents behind it. The store is shared by headers and
  certificates under their digests, so both results need that no header id is used as the digest of a
  certificate (\<open>apart\<close>), which the hash function gives, and that the bytes of a header do not read as a
  certificate (\<open>codec_ok\<close>).
\<close>

section \<open>The invariant\<close>

text \<open>
  \<open>H\<close> are the headers that are handed to the core, alone or in certificates. The core looks at no other header that
  has parents, and no parent of a certificate is the id of one of them.
\<close>

definition labelled :: "header set \<Rightarrow> header \<Rightarrow> bool" where
  "labelled H h \<longleftrightarrow> h_parents h = [] \<or> h \<in> H"

definition apart :: "'db node \<Rightarrow> header set \<Rightarrow> header \<Rightarrow> bool" where
  "apart N H h \<longleftrightarrow> labelled H h \<and> (\<forall>d \<in> set (h_parents h). is_genesis N d \<or> d \<notin> h_id ` H)"

definition delivered_causally :: "'db node \<Rightarrow> certificate list \<Rightarrow> bool" where
  "delivered_causally N xs \<longleftrightarrow> (\<forall>i < length xs. \<forall>d \<in> set (h_parents (c_header (xs ! i))).
     is_genesis N d \<or> (\<exists>j < i. cert_digest (lib N) (xs ! j) = d))"

text \<open>What a vote vouches for: the parents of the header are certificates of the round before, with a quorum of
  stake. \<open>P\<close> are the certificates they are taken from; the parents of a header are a set.\<close>

definition backed :: "crypto_lib \<Rightarrow> committee \<Rightarrow> certificate set \<Rightarrow> header \<Rightarrow> bool" where
  "backed L c P h \<longleftrightarrow> (\<exists>ps. map (cert_digest L) ps = h_parents h \<and> set ps \<subseteq> P
     \<and> (\<forall>x \<in> set ps. cert_round x + 1 = h_round h)
     \<and> quorum_threshold c \<le> sum_list (map (stake_of c \<circ> cert_origin) ps))"

definition vouched :: "crypto_lib \<Rightarrow> committee \<Rightarrow> certificate set \<Rightarrow> header \<Rightarrow> bool" where
  "vouched L c P h \<longleftrightarrow> distinct (h_parents h) \<and> (\<exists>ps. map (cert_digest L) ps = h_parents h \<and> set ps \<subseteq> P
     \<and> (\<forall>x \<in> set ps. cert_round x + 1 = h_round h)
     \<and> quorum_threshold c \<le> sum_list (map (stake_of c \<circ> cert_origin) ps))"

lemma vouched_backed: "vouched L c P h \<longleftrightarrow> distinct (h_parents h) \<and> backed L c P h"
  by (simp add: vouched_def backed_def)

lemma backed_mono: "backed L c P h \<Longrightarrow> P \<subseteq> Q \<Longrightarrow> backed L c Q h"
  unfolding backed_def by blast

text \<open>A vote is justified by one of the headers of \<open>H\<close>, whose author is another node, whose parents were delivered
  and whose payload is stored.\<close>

definition justified :: "'db node \<Rightarrow> header set \<Rightarrow> certificate list \<Rightarrow> 'db store \<Rightarrow> vote \<Rightarrow> bool" where
  "justified N H xs st v \<longleftrightarrow> (\<exists>h \<in> H. v = vote_new (lib N) (my_secret N) h (my_name N) \<and> h_author h \<noteq> my_name N
     \<and> backed (lib N) (committee_of N) (set (genesis (committee_of N)) \<union> set xs) h \<and> payload_stored N st h)"

definition stored_ok :: "'db node \<Rightarrow> header set \<Rightarrow> certificate list \<Rightarrow> 'db store \<Rightarrow> bool" where
  "stored_ok N H xs st \<longleftrightarrow> (\<forall>d v. store_read N (digest_to_vec d) st = Inr (Some v) \<longrightarrow>
     (\<exists>h \<in> H. h_id h = d \<and> v = ser_header N h) \<or> (\<exists>x \<in> set xs. v = ser_certificate N x \<and> cert_digest (lib N) x = d))"

definition node_inv :: "'db node \<Rightarrow> header set \<Rightarrow> 'db core \<Rightarrow> bool" where
  "node_inv N H s \<longleftrightarrow> rocks_ok N \<and> codec_ok N \<and> consensus_up s \<and> apart N H (current_header s)
     \<and> stored_ok N H (tx_consensus s) (core_store s) \<and> delivered_causally N (tx_consensus s)
     \<and> (\<forall>a v. (a, PVote v) \<in> set (net s) \<longrightarrow> justified N H (tx_consensus s) (core_store s) v)
     \<and> (\<forall>m \<in> set (tx_header_waiter (core_sync s)). labelled H (message_header m))
     \<and> (\<forall>x \<in> set (tx_certificate_waiter (core_sync s)). apart N H (c_header x))"

lemma delivered_causally_snoc:
  "delivered_causally N (xs @ [x]) \<longleftrightarrow> delivered_causally N xs
     \<and> (\<forall>d \<in> set (h_parents (c_header x)). is_genesis N d \<or> d \<in> cert_digest (lib N) ` set xs)"
proof -
  have "(\<exists>j < length xs. cert_digest (lib N) ((xs @ [x]) ! j) = d) \<longleftrightarrow> d \<in> cert_digest (lib N) ` set xs" for d
    by (force simp: nth_append in_set_conv_nth)
  moreover have "(\<exists>j < i. cert_digest (lib N) ((xs @ [x]) ! j) = d) \<longleftrightarrow> (\<exists>j < i. cert_digest (lib N) (xs ! j) = d)"
    if "i < length xs" for i d
    using that by (force simp: nth_append)
  ultimately show ?thesis
    by (auto simp: delivered_causally_def less_Suc_eq nth_append)
qed

lemma parents_stake_gen:
  "foldR (\<lambda>x stake. bindR (ensure (cert_round x + 1 = h_round h) (MalformedHeader (h_id h))) (\<lambda>_.
       Inr (stake + stake_of c (cert_origin x)))) ps w = Inr w'
   \<longleftrightarrow> (\<forall>x \<in> set ps. cert_round x + 1 = h_round h) \<and> w' = w + sum_list (map (stake_of c \<circ> cert_origin) ps)"
  by (induction ps arbitrary: w) (auto simp: bindR_Inr_iff add.assoc)

lemma parents_stake_Inr:
  "parents_stake c h ps = Inr w \<longleftrightarrow> (\<forall>x \<in> set ps. cert_round x + 1 = h_round h)
     \<and> w = sum_list (map (stake_of c \<circ> cert_origin) ps)"
  by (simp add: parents_stake_def parents_stake_gen)

text \<open>A parent the synchronizer found is a genesis certificate or one that was delivered.\<close>

lemma parent_of_known:
  assumes "parent_of N st d x" "stored_ok N H xs st" "codec_ok N"
  shows "cert_digest (lib N) x = d \<and> x \<in> set (genesis (committee_of N)) \<union> set xs"
  using assms by (fastforce simp: parent_of_def stored_ok_def codec_ok_def sync_genesis_def split: if_splits)

lemma checked_backed:
  assumes "checked N st h" "stored_ok N H xs st" "codec_ok N"
  shows "backed (lib N) (committee_of N) (set (genesis (committee_of N)) \<union> set xs) h"
proof -
  from assms(1) obtain ps where ps: "list_all2 (parent_of N st) (h_parents h) ps"
    "\<forall>x \<in> set ps. cert_round x + 1 = h_round h"
    "quorum_threshold (committee_of N) \<le> sum_list (map (stake_of (committee_of N) \<circ> cert_origin) ps)"
    by (auto simp: checked_def parents_stake_Inr)
  have "map (cert_digest (lib N)) ps = h_parents h \<and> set ps \<subseteq> set (genesis (committee_of N)) \<union> set xs"
    using ps(1) by (induction rule: list_all2_induct) (use parent_of_known [OF _ assms(2,3)] in auto)
  with ps(2-) show ?thesis unfolding backed_def by blast
qed

lemma justified_mono:
  assumes "justified N H xs st v" "set xs \<subseteq> set ys" "\<And>k. st.has N k st \<Longrightarrow> st.has N k st'"
  shows "justified N H ys st' v"
proof -
  have "set (genesis (committee_of N)) \<union> set xs \<subseteq> set (genesis (committee_of N)) \<union> set ys" using assms(2) by blast
  with assms(1,3) show ?thesis unfolding justified_def payload_stored_def by (blast intro: backed_mono)
qed

lemma stored_ok_header:
  "rocks_ok N \<Longrightarrow> stored_ok N H xs st \<Longrightarrow> h \<in> H \<Longrightarrow> stored_ok N H xs (store_write N (digest_to_vec (h_id h)) (ser_header N h) st)"
  by (auto simp: stored_ok_def st.rd_wr)

lemma stored_ok_certificate:
  "rocks_ok N \<Longrightarrow> stored_ok N H xs st \<Longrightarrow>
    stored_ok N H (xs @ [x]) (store_write N (digest_to_vec (cert_digest (lib N) x)) (ser_certificate N x) st)"
  by (auto simp: stored_ok_def st.rd_wr)

lemma ancestors_delivered:
  assumes "ancestors_there N st x" "stored_ok N H xs st" "apart N H (c_header x)"
  shows "\<forall>d \<in> set (h_parents (c_header x)). is_genesis N d \<or> d \<in> cert_digest (lib N) ` set xs"
  using assms by (fastforce simp: ancestors_there_def stored_ok_def apart_def st.has_def)

lemma node_inv_net:
  "node_inv N H s \<Longrightarrow> \<forall>a v. (a, PVote v) \<notin> set ms \<Longrightarrow> node_inv N H (s\<lparr>net := net s @ ms, cancel_handlers := ch\<rparr>)"
  by (auto simp: node_inv_def)

lemma send_reliably_votes:
  "(a, PVote v) \<in> set (net (send_reliably as m r s)) \<longleftrightarrow> (a, PVote v) \<in> set (net s) \<or> (a \<in> set as \<and> m = PVote v)"
  by (auto simp: send_reliably_def)

lemma core_stores [simp]:
  "core_store (send_reliably as m q s) = core_store s" "tx_consensus (send_reliably as m q s) = tx_consensus s"
  "consensus_up (send_reliably as m q s) = consensus_up s"
  "core_store (mark_voted h s) = core_store s" "tx_consensus (mark_voted h s) = tx_consensus s" "net (mark_voted h s) = net s"
  "consensus_up (mark_voted h s) = consensus_up s"
  "core_store (store_digest N d bs s) = store_write N (digest_to_vec d) bs (core_store s)"
  "tx_consensus (store_digest N d bs s) = tx_consensus s" "net (store_digest N d bs s) = net s"
  "consensus_up (store_digest N d bs s) = consensus_up s"
  "core_sync (send_reliably as m q s) = core_sync s" "core_sync (mark_voted h s) = core_sync s"
  "core_sync (store_digest N d bs s) = core_sync s"
  by (simp_all add: send_reliably_def mark_voted_def store_digest_def)

lemma node_inv_header:
  assumes "node_inv N H s" "h \<in> H"
  shows "node_inv N H (mark_voted h (store_digest N (h_id h) (ser_header N h) s))"
proof -
  have "justified N H (tx_consensus s) (store_write N k v (core_store s)) w"
    if "justified N H (tx_consensus s) (core_store s) w" for k v w
    by (rule justified_mono [OF that]) (use assms in \<open>auto simp: node_inv_def st.has_wr\<close>)
  with assms show ?thesis by (simp add: node_inv_def stored_ok_header)
qed

text \<open>Once the ancestors are there nothing fails: the certificate is stored and goes to the consensus.\<close>

definition after_delivery :: "'db node \<Rightarrow> certificate \<Rightarrow> 'db core \<Rightarrow> 'db core \<Rightarrow> bool" where
  "after_delivery N x s s' \<longleftrightarrow>
     core_store s' = store_write N (digest_to_vec (cert_digest (lib N) x)) (ser_certificate N x) (core_store s)
     \<and> tx_consensus s' = (if consensus_up s then tx_consensus s @ [x] else tx_consensus s)
     \<and> net s' = net s \<and> current_header s' = current_header s \<and> consensus_up s' = consensus_up s \<and> core_sync s' = core_sync s"

lemma certificates_append_result: "\<exists>y. fst (certificates_append L x c a) = Inr y"
  by (auto simp: certificates_append_def Let_def)

lemma delivering_sends: "acts any_panic (delivering N x) s (\<lambda>r s'. r = Inr () \<and> after_delivery N x s s')"
proof -
  have sent: "acts any_panic (bindA (case ready of None \<Rightarrow> retA () | Some parents \<Rightarrow> send_proposer parents (cert_round x))
      (\<lambda>_. send_consensus x)) (store_digest N (cert_digest (lib N) x) (ser_certificate N x) s\<lparr>cert_aggs := ca\<rparr>)
      (\<lambda>r s'. r = Inr () \<and> after_delivery N x s s')" for ready ca
    by (cases ready) (auto simp: acts_bind after_delivery_def store_digest_def)
  show ?thesis
    unfolding delivering_def acts_bind [of _ "core_write _ _ _"] acts_core_write sum.case
      acts_bind [of _ "append_certificate _ _"] acts_append_certificate
  proof (intro allI impI)
    fix r agg assume "certificates_append (lib N) x (committee_of N)
       (case map_of (cert_aggs (store_digest N (cert_digest (lib N) x) (ser_certificate N x) s)) (cert_round x) of
         None \<Rightarrow> certificates_aggregator_new | Some a \<Rightarrow> a) = (r, agg)"
    then obtain y where y: "r = Inr y" using certificates_append_result by (metis fst_conv)
    show "case r of Inl e \<Rightarrow> Inl e = Inr () \<and> after_delivery N x s (store_digest N (cert_digest (lib N) x) (ser_certificate N x) s
          \<lparr>cert_aggs := AList.update (cert_round x) agg (cert_aggs (store_digest N (cert_digest (lib N) x) (ser_certificate N x) s))\<rparr>)
       | Inr ready \<Rightarrow> acts any_panic (bindA (case ready of None \<Rightarrow> retA () | Some parents \<Rightarrow> send_proposer parents (cert_round x))
          (\<lambda>_. send_consensus x)) (store_digest N (cert_digest (lib N) x) (ser_certificate N x) s
          \<lparr>cert_aggs := AList.update (cert_round x) agg (cert_aggs (store_digest N (cert_digest (lib N) x) (ser_certificate N x) s))\<rparr>)
          (\<lambda>r s'. r = Inr () \<and> after_delivery N x s s')"
      unfolding y sum.case by (rule sent)
  qed
qed

lemma node_inv_deliver:
  assumes I: "node_inv N H s" and x: "apart N H (c_header x)" "ancestors_there N (core_store s) x"
  shows "acts any_panic (delivering N x) s (\<lambda>r s'. node_inv N H s')"
proof (rule acts_mono [OF delivering_sends])
  fix r s' assume "r = Inr () \<and> after_delivery N x s s'"
  then have s': "after_delivery N x s s'" by simp
  have up: "rocks_ok N" "consensus_up s" "stored_ok N H (tx_consensus s) (core_store s)" using I by (auto simp: node_inv_def)
  have "justified N H (tx_consensus s @ [x]) (store_write N k v (core_store s)) w"
    if "justified N H (tx_consensus s) (core_store s) w" for k v w
    by (rule justified_mono [OF that]) (use up in \<open>auto simp: st.has_wr\<close>)
  moreover have "delivered_causally N (tx_consensus s @ [x])"
    using I ancestors_delivered [OF x(2) up(3) x(1)] by (simp add: node_inv_def delivered_causally_snoc)
  moreover note stored_ok_certificate [OF up(1,3), of x] up(2) I
  ultimately show "node_inv N H s'" using s' by (simp add: node_inv_def after_delivery_def)
qed

interpretation nd: core_inv N "node_inv N H" "labelled H" "apart N H" for N :: "'db node" and H
proof (unfold_locales, goal_cases)
  case (4 s sy)
  then show ?case unfolding sync_grows_def by (auto simp: node_inv_def)
next
  case (5 s h)
  then show ?case using checked_parents [OF 5(3)] by (simp add: node_inv_header labelled_def)
next
  case (6 s h a)
  have H: "h \<in> H" using 6(2) checked_parents [OF 6(3)] by (simp add: labelled_def)
  have "stored_ok N H (tx_consensus s) (core_store s)" "codec_ok N" using 6(1) by (auto simp: node_inv_def)
  note backed = checked_backed [OF 6(3) this]
  have "payload_stored N (core_store s) h" using 6(3) by (simp add: checked_def)
  with H backed 6(5) have "justified N H (tx_consensus s) (core_store s) (vote_new (lib N) (my_secret N) h (my_name N))"
    unfolding justified_def by blast
  then have "justified N H (tx_consensus s) (store_write N (digest_to_vec (h_id h)) (ser_header N h) (core_store s))
      (vote_new (lib N) (my_secret N) h (my_name N))"
    by (rule justified_mono) (use 6 in \<open>auto simp: node_inv_def st.has_wr\<close>)
  with node_inv_header [OF 6(1) H] show ?case by (auto simp: node_inv_def send_reliably_votes)
next
  case (9 s x)
  then show ?case by (simp add: node_inv_deliver)
qed (auto simp: node_inv_def apart_def send_reliably_votes)

section \<open>Turns and runs\<close>

fun apart_event :: "'db node \<Rightarrow> header set \<Rightarrow> node_event \<Rightarrow> bool" where
  "apart_event N H (PayloadTurn d w) = True"
| "apart_event N H (CoreTurn ev rnd) = ((\<forall>m. ev = FromPrimaries m \<longrightarrow> passes N m) \<longrightarrow>
     (\<forall>h. event_header ev = Some h \<longrightarrow> labelled H h) \<and> (\<forall>h. event_certificate ev = Some h \<or> ev = FromProposer h \<longrightarrow> apart N H h))"

lemma node_inv_turn:
  assumes inv: "node_inv N H s" and ev: "apart_event N H (CoreTurn ev rnd)" and turn: "core_turn N (ev, rnd) s = Inr s'"
  shows "node_inv N H s'"
proof -
  have "\<exists>t. node_inv N H t \<and> s' = core_cleanup N rnd t"
  proof (rule nd.turn_keeps [OF inv _ _ _ turn])
    show "node_inv N H (own_header N h s) \<and> labelled H h" if "ev = FromProposer h" for h
      using that inv ev by (auto simp: own_header_def node_inv_def send_reliably_votes)
  qed (use ev in auto)
  then show ?thesis by (auto simp: node_inv_def)
qed

lemma node_inv_payload:
  assumes "node_inv N H s"
  shows "node_inv N H (s\<lparr>core_store := payload_receive N (d, w) (core_store s)\<rparr>)"
proof -
  have "justified N H xs (payload_receive N (d, w) (core_store s)) v" if "justified N H xs (core_store s) v" for xs v
    by (rule justified_mono [OF that]) (use assms payload_receive_has in \<open>auto simp: node_inv_def\<close>)
  moreover have "rocks_ok N" using assms by (simp add: node_inv_def)
  ultimately show ?thesis using assms payload_receive_has(3) [OF \<open>rocks_ok N\<close>] by (simp add: node_inv_def stored_ok_def)
qed

lemma node_inv_run:
  "node_inv N H s \<Longrightarrow> list_all (apart_event N H) es \<Longrightarrow> node_run N es s = Inr s' \<Longrightarrow> node_inv N H s'"
proof (induction es arbitrary: s)
  case (Cons e es)
  obtain t where t: "node_step N e s = Inr t" "node_run N es t = Inr s'"
    using Cons.prems(3) by (auto simp: node_run_def bindR_Inr_iff)
  have "node_inv N H t"
  proof (cases e)
    case (CoreTurn ev rnd)
    with Cons.prems t node_inv_turn [of N H s ev rnd t] show ?thesis by simp
  next
    case (PayloadTurn d w)
    with Cons.prems t node_inv_payload [of N H s d w] show ?thesis by auto
  qed
  with Cons.IH [OF _ _ t(2)] Cons.prems(2) show ?case by simp
qed (simp add: node_run_def)

lemma node_inv_new:
  assumes "rocks_ok N" "codec_ok N" "\<forall>k. store_read N k (store_new d) = Inr None"
  shows "node_inv N H (core_new d)"
  using assms by (simp add: node_inv_def core_new_def apart_def labelled_def header_default_def stored_ok_def delivered_causally_def
      synchronizer_new_def)

end
