(* ===== verification/CoreChannels.thy ===== *)
theory CoreChannels
  imports CoreDelivery "HOL-Library.Sublist"
begin

text \<open>
  The channels of the core over its turns: nothing that was sent is taken back, the store only grows, and the
  parents it hands to the proposer are a quorum of certificates that went to the consensus.
\<close>

section \<open>Channels only grow\<close>

definition core_grows :: "'db node \<Rightarrow> 'db core \<Rightarrow> 'db core \<Rightarrow> bool" where
  "core_grows N s s' \<longleftrightarrow> prefix (net s) (net s') \<and> prefix (tx_proposer s) (tx_proposer s') \<and> prefix (tx_consensus s) (tx_consensus s')
     \<and> prefix (tx_header_waiter (core_sync s)) (tx_header_waiter (core_sync s'))
     \<and> prefix (tx_certificate_waiter (core_sync s)) (tx_certificate_waiter (core_sync s'))
     \<and> (\<forall>k. st.has N k (core_store s) \<longrightarrow> st.has N k (core_store s'))"

lemma core_grows_refl: "core_grows N s s"
  by (simp add: core_grows_def)

lemma core_piece_channels [simp]:
  "tx_proposer (send_reliably as m q s) = tx_proposer s" "tx_proposer (mark_voted h s) = tx_proposer s"
  "tx_proposer (store_digest N d bs s) = tx_proposer s" "proposer_up (send_reliably as m q s) = proposer_up s"
  "proposer_up (mark_voted h s) = proposer_up s" "proposer_up (store_digest N d bs s) = proposer_up s"
  "cert_aggs (send_reliably as m q s) = cert_aggs s" "cert_aggs (mark_voted h s) = cert_aggs s"
  "cert_aggs (store_digest N d bs s) = cert_aggs s"
  "net (send_reliably as m q s) = net s @ map (\<lambda>a. (a, m)) as"
  by (simp_all add: send_reliably_def mark_voted_def store_digest_def)

interpretation gw: core_inv N "\<lambda>s. rocks_ok N \<and> core_grows N s0 s" "\<lambda>h. True" "\<lambda>h. True" for N :: "'db node" and s0
proof (unfold_locales, goal_cases)
  case (4 s sy)
  then show ?case unfolding sync_grows_def core_grows_def by auto
next
  case (9 s x)
  then show ?case
    by (auto simp: delivering_def acts_bind core_grows_def st.has_wr split: sum.split option.split)
qed (auto simp: core_grows_def st.has_wr)

lemma core_turn_grows:
  assumes "rocks_ok N" "core_turn N (ev, rnd) s = Inr s'"
  shows "core_grows N s s'"
proof -
  have "\<exists>t. (rocks_ok N \<and> core_grows N s t) \<and> s' = core_cleanup N rnd t"
  proof (rule gw.turn_keeps [OF _ _ _ _ assms(2)])
    show "(rocks_ok N \<and> core_grows N s (own_header N h s)) \<and> True" for h
      using assms(1) by (simp add: own_header_def core_grows_def)
  qed (use assms(1) core_grows_refl in auto)
  then show ?thesis by (auto simp: core_grows_def)
qed

section \<open>Quorums of parents\<close>

text \<open>Certificates of one round and of different authors that were delivered, and an entry of the channel to the proposer.\<close>

definition round_of :: "certificate list \<Rightarrow> round \<Rightarrow> certificate list \<Rightarrow> bool" where
  "round_of xs r cs \<longleftrightarrow> set cs \<subseteq> set xs \<and> (\<forall>x \<in> set cs. cert_round x = r) \<and> distinct (map cert_origin cs)"

definition stake_sum :: "committee \<Rightarrow> certificate list \<Rightarrow> stake" where
  "stake_sum c cs = sum_list (map (stake_of c \<circ> cert_origin) cs)"

definition quorum_entry :: "'db node \<Rightarrow> certificate list \<Rightarrow> digest list \<times> round \<Rightarrow> bool" where
  "quorum_entry N xs p \<longleftrightarrow> (\<exists>cs. round_of xs (snd p) cs \<and> fst p = map (cert_digest (lib N)) cs
     \<and> quorum_threshold (committee_of N) \<le> stake_sum (committee_of N) cs)"

definition agg_ok :: "'db node \<Rightarrow> certificate list \<Rightarrow> round \<Rightarrow> certificates_aggregator \<Rightarrow> bool" where
  "agg_ok N xs r a \<longleftrightarrow> (\<exists>cs. round_of xs r cs \<and> set (map cert_origin cs) \<subseteq> ca_used a
     \<and> ca_certificates a = map (cert_digest (lib N)) cs \<and> ca_weight a = stake_sum (committee_of N) cs)"

definition quorum_inv :: "'db node \<Rightarrow> 'db core \<Rightarrow> bool" where
  "quorum_inv N s \<longleftrightarrow> consensus_up s \<and> (\<forall>(r, a) \<in> set (cert_aggs s). agg_ok N (tx_consensus s) r a)
     \<and> (\<forall>p \<in> set (tx_proposer s). quorum_entry N (tx_consensus s) p)"

lemma agg_ok_new: "agg_ok N xs r certificates_aggregator_new"
  unfolding agg_ok_def by (intro exI [of _ "[]"]) (simp add: round_of_def stake_sum_def certificates_aggregator_new_def)

lemma round_of_mono: "round_of xs r cs \<Longrightarrow> set xs \<subseteq> set ys \<Longrightarrow> round_of ys r cs"
  by (auto simp: round_of_def)

lemma agg_ok_mono: "agg_ok N xs r a \<Longrightarrow> set xs \<subseteq> set ys \<Longrightarrow> agg_ok N ys r a"
  unfolding agg_ok_def using round_of_mono by blast

lemma quorum_entry_mono: "quorum_entry N xs p \<Longrightarrow> set xs \<subseteq> set ys \<Longrightarrow> quorum_entry N ys p"
  unfolding quorum_entry_def using round_of_mono by blast

lemma append_agg_ok:
  assumes ok: "agg_ok N xs (cert_round x) a" and app: "certificates_append (lib N) x (committee_of N) a = (r, a')"
  shows "agg_ok N (xs @ [x]) (cert_round x) a' \<and> (\<forall>ps. r = Inr (Some ps) \<longrightarrow> quorum_entry N (xs @ [x]) (ps, cert_round x))"
proof -
  obtain cs where cs: "round_of xs (cert_round x) cs" "set (map cert_origin cs) \<subseteq> ca_used a"
    "ca_certificates a = map (cert_digest (lib N)) cs" "ca_weight a = stake_sum (committee_of N) cs"
    using ok by (auto simp: agg_ok_def)
  have old: "round_of (xs @ [x]) (cert_round x) cs" by (rule round_of_mono [OF cs(1)]) auto
  show ?thesis
  proof (cases "cert_origin x \<in> ca_used a")
    case True
    then have "r = Inr None" "a' = a" using app by (auto simp: certificates_append_def Let_def insert_absorb)
    with ok show ?thesis by (auto intro: agg_ok_mono)
  next
    case False
    let ?cs = "cs @ [x]"
    have new: "round_of (xs @ [x]) (cert_round x) ?cs" using cs(2) old False by (auto simp: round_of_def)
    have sum: "stake_sum (committee_of N) ?cs = ca_weight a + stake_of (committee_of N) (cert_origin x)"
      using cs(4) by (simp add: stake_sum_def)
    show ?thesis
    proof (cases "ca_weight a + stake_of (committee_of N) (cert_origin x) \<ge> quorum_threshold (committee_of N)")
      case True
      then have r: "r = Inr (Some (map (cert_digest (lib N)) ?cs))"
        and a': "ca_weight a' = 0" "ca_certificates a' = []"
        using app False cs(3) by (auto simp: certificates_append_def Let_def)
      have "agg_ok N (xs @ [x]) (cert_round x) a'"
        unfolding agg_ok_def by (intro exI [of _ "[]"]) (simp add: round_of_def stake_sum_def a')
      moreover have "quorum_entry N (xs @ [x]) (map (cert_digest (lib N)) ?cs, cert_round x)"
        using new True sum unfolding quorum_entry_def by (intro exI [of _ ?cs]) simp
      ultimately show ?thesis using r by simp
    next
      case low: False
      then have "r = Inr None" "ca_used a' = insert (cert_origin x) (ca_used a)"
        "ca_certificates a' = map (cert_digest (lib N)) ?cs" "ca_weight a' = stake_sum (committee_of N) ?cs"
        using app False cs(3) sum by (auto simp: certificates_append_def Let_def)
      with new cs(2) show ?thesis unfolding agg_ok_def by (intro conjI exI [of _ ?cs]) auto
    qed
  qed
qed

lemma quorum_inv_deliver:
  assumes "quorum_inv N s"
  shows "acts any_panic (delivering N x) s (\<lambda>r s'. quorum_inv N s')"
proof -
  let ?xs = "tx_consensus s"
  have up: "consensus_up s" and aggs: "\<And>r a. (r, a) \<in> set (cert_aggs s) \<Longrightarrow> agg_ok N ?xs r a"
    and tx: "\<And>p. p \<in> set (tx_proposer s) \<Longrightarrow> quorum_entry N ?xs p"
    using assms by (auto simp: quorum_inv_def)
  define a where "a = (case map_of (cert_aggs s) (cert_round x) of None \<Rightarrow> certificates_aggregator_new | Some a \<Rightarrow> a)"
  have a: "agg_ok N ?xs (cert_round x) a"
    unfolding a_def using aggs by (auto simp: agg_ok_new dest: map_of_SomeD split: option.split)
  obtain r a' where app: "certificates_append (lib N) x (committee_of N) a = (r, a')" by fastforce
  obtain y where y: "r = Inr y" using app certificates_append_result by (metis fst_conv)
  note step = append_agg_ok [OF a app]
  have aggs': "agg_ok N (?xs @ [x]) q b" if "(q, b) \<in> set (AList.update (cert_round x) a' (cert_aggs s))" for q b
  proof -
    have "(q, b) = (cert_round x, a') \<or> (q, b) \<in> set (cert_aggs s)"
      using that set_update_subset [of "cert_round x" a' "cert_aggs s"] by auto
    with step aggs agg_ok_mono [of N ?xs q b "?xs @ [x]"] show ?thesis by auto
  qed
  have tx': "quorum_entry N (?xs @ [x]) p" if "p \<in> set (tx_proposer s)" for p
    using tx [OF that] by (rule quorum_entry_mono) auto
  show ?thesis
    using up aggs' tx' step app y
    by (auto simp: delivering_def acts_bind quorum_inv_def a_def [symmetric] split: option.split)
qed

interpretation qi: core_inv N "quorum_inv N" "\<lambda>h. True" "\<lambda>h. True" for N :: "'db node"
proof (unfold_locales, goal_cases)
  case (9 s x)
  then show ?case by (simp add: quorum_inv_deliver)
qed (auto simp: quorum_inv_def)

lemma quorum_inv_turn:
  assumes "quorum_inv N s" "core_turn N (ev, rnd) s = Inr s'"
  shows "quorum_inv N s'"
proof -
  have "\<exists>t. quorum_inv N t \<and> s' = core_cleanup N rnd t"
  proof (rule qi.turn_keeps [OF assms(1) _ _ _ assms(2)])
    show "quorum_inv N (own_header N h s) \<and> True" for h using assms(1) by (simp add: own_header_def quorum_inv_def)
  qed auto
  moreover have "set (cert_aggs (core_cleanup N rnd t)) \<subseteq> set (cert_aggs t)" for t
    by (auto simp: core_cleanup_def Let_def retain_from_def)
  ultimately show ?thesis by (fastforce simp: quorum_inv_def)
qed


section \<open>Where delivered certificates come from\<close>

text \<open>The headers of the certificates that the core handles: of those that came in, and its own.\<close>

definition origin_inv :: "header set \<Rightarrow> 'db core \<Rightarrow> bool" where
  "origin_inv H s \<longleftrightarrow> current_header s \<in> H \<and> (\<forall>x \<in> set (tx_consensus s). c_header x \<in> H)
     \<and> (\<forall>x \<in> set (tx_certificate_waiter (core_sync s)). c_header x \<in> H)"

interpretation og: core_inv N "origin_inv H" "\<lambda>h. True" "\<lambda>h. h \<in> H" for N :: "'db node" and H
proof (unfold_locales, goal_cases)
  case (4 s sy)
  then show ?case unfolding sync_grows_def by (auto simp: origin_inv_def)
next
  case (9 s x)
  show ?case by (rule acts_mono [OF delivering_sends]) (use 9 in \<open>auto simp: after_delivery_def origin_inv_def split: if_splits\<close>)
qed (auto simp: origin_inv_def)

lemma origin_inv_turn:
  assumes "origin_inv H s" "core_turn N (ev, rnd) s = Inr s'"
    and ev: "\<And>h. \<forall>m. ev = FromPrimaries m \<longrightarrow> passes N m \<Longrightarrow> event_certificate ev = Some h \<or> ev = FromProposer h \<Longrightarrow> h \<in> H"
  shows "origin_inv H s'"
proof -
  have "\<exists>t. origin_inv H t \<and> s' = core_cleanup N rnd t"
  proof (rule og.turn_keeps [OF assms(1) _ _ _ assms(2)])
    show "origin_inv H (own_header N h s) \<and> True" if "ev = FromProposer h" for h
      using assms(1) ev [of h] that by (simp add: own_header_def origin_inv_def)
  qed (use ev in auto)
  then show ?thesis by (auto simp: origin_inv_def)
qed

end
