(* ===== verification/PrimaryDemo.thy ===== *)
theory PrimaryDemo
  imports PrimaryBase "HOL-Library.Countable"
begin

text \<open>
  A node for the sample runs: two authorities of stake 3 and 1, a map for a database, a codec that
  numbers the certificates, and a hash that complements the first bytes of a message, so that the digest
  of a certificate is not the id of its header.
\<close>

instance digest :: countable by countable_datatype
instance public_key :: countable by countable_datatype
instance signature :: countable by countable_datatype

instance header_ext :: (countable) countable
  by (rule countable_classI [of "\<lambda>h. to_nat (h_author h, h_round h, h_payload h, h_parents h, h_id h, h_sig h, header.more h)"])
    simp

instance certificate_ext :: (countable) countable
  by (rule countable_classI [of "\<lambda>x. to_nat (c_header x, c_votes x, certificate.more x)"]) simp

definition flip_lib :: crypto_lib where
  "flip_lib = sample_lib\<lparr>sha512 := (\<lambda>bs. map NOT (take 64 bs))\<rparr>"

lemma le_bytes_not: "8 * n \<le> LENGTH('w) \<Longrightarrow> map NOT (le_bytes n w) = le_bytes n (NOT (w :: 'w::len word))"
  unfolding le_bytes_def by (auto simp: bit_simps intro!: bit_word_eqI)

lemma flip_lib_digest: "hash_digest flip_lib (digest_to_vec (Digest w) @ bs) = Digest (NOT w)"
proof -
  have "take 32 (sha512 flip_lib (digest_to_vec (Digest w) @ bs)) = map NOT (be_bytes 32 w)"
    by (simp add: flip_lib_def take_map min_def digest_to_vec_def)
  also have "\<dots> = be_bytes 32 (NOT w)" by (simp add: be_bytes_def rev_map [symmetric] le_bytes_not)
  finally show ?thesis by (simp add: hash_digest_def from_be_bytes_be_bytes)
qed

lemma flip_lib_cert_digest: "h_id (c_header x) = Digest w \<Longrightarrow> cert_digest flip_lib x = Digest (NOT w)"
  by (simp add: cert_digest_def cert_bytes_def flip_lib_digest)

definition demo_worker :: "nat \<Rightarrow> worker_addresses" where
  "demo_worker k = \<lparr>transactions = SocketAddr k 2, worker_to_worker = SocketAddr k 3, primary_to_worker = SocketAddr k 4\<rparr>"

definition demo_committee :: committee where
  "demo_committee = \<lparr>authorities =
     [(PublicKey 2, \<lparr>auth_stake = 3, auth_primary = \<lparr>primary_to_primary = SocketAddr 2 0, worker_to_primary = SocketAddr 2 1\<rparr>,
        auth_workers = [(7, demo_worker 2)]\<rparr>),
      (PublicKey 3, \<lparr>auth_stake = 1, auth_primary = \<lparr>primary_to_primary = SocketAddr 3 0, worker_to_primary = SocketAddr 3 1\<rparr>,
        auth_workers = [(7, demo_worker 3)]\<rparr>)]\<rparr>"

lemma demo_worker_of [simp]:
  "worker_of demo_committee (PublicKey 2) 7 = Inr (demo_worker 2)" "worker_of demo_committee (PublicKey 3) 7 = Inr (demo_worker 3)"
  by (simp_all add: worker_of_def demo_committee_def)

definition demo_node :: "(bytes \<rightharpoonup> bytes) node" where
  "demo_node = \<lparr>db_get = (\<lambda>d k. Inr (d k)), db_put = (\<lambda>d k v. (Inr (), d(k \<mapsto> v))), lib = flip_lib, my_name = PublicKey 3,
     committee_of = demo_committee, my_secret = [], gc_depth_of = 50, ser_header = (\<lambda>h. []),
     ser_certificate = (\<lambda>x. replicate (Suc (to_nat x)) 0),
     de_certificate = (\<lambda>bs. case bs of [] \<Rightarrow> None | b # bs \<Rightarrow> Some (from_nat (length bs)))\<rparr>"

lemma demo_codec [simp]:
  "ser_header demo_node h = []" "ser_certificate demo_node x \<noteq> []"
  "de_certificate demo_node (ser_certificate demo_node x) = Some x" "de_certificate demo_node [] = None"
  by (simp_all add: demo_node_def)

lemma demo_node_simps [simp]:
  "lib demo_node = flip_lib" "my_name demo_node = PublicKey 3" "committee_of demo_node = demo_committee"
  "my_secret demo_node = []" "gc_depth_of demo_node = 50"
  by (simp_all add: demo_node_def)

lemma demo_ok: "rocks_ok demo_node" "codec_ok demo_node"
  by (simp_all add: rocks_ok_def demo_node_def codec_ok_def)

lemma demo_committee_simps [simp]:
  "stake_of demo_committee (PublicKey 2) = 3" "stake_of demo_committee (PublicKey 3) = 1"
  "quorum_threshold demo_committee = 3"
  "genesis demo_committee = [\<lparr>c_header = header_default\<lparr>h_author := PublicKey 2\<rparr>, c_votes = []\<rparr>,
     \<lparr>c_header = header_default\<lparr>h_author := PublicKey 3\<rparr>, c_votes = []\<rparr>]"
  by (simp_all add: demo_committee_def stake_of_def quorum_threshold_def total_votes_def genesis_def)

definition demo_header :: "256 word \<Rightarrow> 256 word \<Rightarrow> round \<Rightarrow> 256 word \<Rightarrow> (digest \<times> worker_id) list \<Rightarrow> header" where
  "demo_header k i r p payload = \<lparr>h_author = PublicKey k, h_round = r, h_payload = payload, h_parents = [Digest p],
     h_id = Digest i, h_sig = signature_default\<rparr>"

definition demo_cert :: "256 word \<Rightarrow> 256 word \<Rightarrow> round \<Rightarrow> 256 word \<Rightarrow> (digest \<times> worker_id) list \<Rightarrow> certificate" where
  "demo_cert k i r p payload = \<lparr>c_header = demo_header k i r p payload, c_votes = []\<rparr>"

lemma demo_simps [simp]:
  "h_author (demo_header k i r p ws) = PublicKey k" "h_round (demo_header k i r p ws) = r"
  "h_payload (demo_header k i r p ws) = ws" "h_parents (demo_header k i r p ws) = [Digest p]"
  "h_id (demo_header k i r p ws) = Digest i"
  "c_header (demo_cert k i r p ws) = demo_header k i r p ws" "c_votes (demo_cert k i r p ws) = []"
  "cert_digest flip_lib (demo_cert k i r p ws) = Digest (NOT i)"
  "cert_round (demo_cert k i r p ws) = r" "cert_origin (demo_cert k i r p ws) = PublicKey k"
  by (simp_all add: demo_header_def demo_cert_def cert_round_def cert_origin_def
      flip_lib_cert_digest [where w = i])

lemma demo_genesis [simp]: "cert_digest flip_lib \<lparr>c_header = header_default\<lparr>h_author := k\<rparr>, c_votes = []\<rparr> = Digest (NOT 0)"
  by (rule flip_lib_cert_digest) (simp add: header_default_def digest_default_def)

lemma demo_read [simp]:
  "store_read demo_node k (store_write demo_node j v st) = (if k = j then Inr (Some v) else store_read demo_node k st)"
  "store_read demo_node k (store_new Map.empty) = Inr None"
  by (simp_all add: st.rd_wr demo_ok) (simp add: store_read_def store_new_def demo_node_def)

lemma demo_primary [simp]:
  "primary_of demo_committee (PublicKey 2) = Inr \<lparr>primary_to_primary = SocketAddr 2 0, worker_to_primary = SocketAddr 2 1\<rparr>"
  by (simp add: primary_of_def demo_committee_def)

end
