(* ===== verification/Proposer.thy ===== *)
theory Proposer
  imports PrimaryBase PrimaryDemo
begin

text \<open>
  The \<open>Proposer\<close> of \<open>primary/src/proposer.rs\<close>. An iteration of its loop first checks whether a header is
  due and then takes one input. The timer is its deadline: it has elapsed when the time of the iteration
  has reached it.
\<close>

section \<open>State and operations\<close>

text \<open>\<open>collect\<close> into a \<open>BTreeSet\<close> and into a \<open>BTreeMap\<close>: in increasing order, a later entry of a key wins.\<close>

definition btree_set :: "'a::linorder list \<Rightarrow> 'a list" where
  "btree_set xs = sort (remdups xs)"

definition btree_map :: "('a::linorder \<times> 'b) list \<Rightarrow> ('a \<times> 'b) list" where
  "btree_map kvs = map (\<lambda>k. (k, the (map_of (rev kvs) k))) (btree_set (map fst kvs))"

type_synonym instant = "128 word"

record proposer =
  p_round :: round
  last_parents :: "digest list"
  p_digests :: "(digest \<times> worker_id) list"
  payload_size :: u64
  header_size :: u64
  max_header_delay :: u64
  deadline :: instant
  p_core :: "header list"
  p_core_up :: bool

definition proposer_new :: "'db node \<Rightarrow> u64 \<Rightarrow> u64 \<Rightarrow> instant \<Rightarrow> proposer" where
  "proposer_new N hsize delay start =
     \<lparr>p_round = 1, last_parents = map (cert_digest (lib N)) (genesis (committee_of N)), p_digests = [], payload_size = 0,
      header_size = hsize, max_header_delay = delay, deadline = start + ucast delay, p_core = [], p_core_up = True\<rparr>"

definition make_header :: "'db node \<Rightarrow> proposer \<Rightarrow> proposer res" where
  "make_header N s =
     (let h = header_new (lib N) (my_secret N) (my_name N) (p_round s) (btree_map (p_digests s)) (btree_set (last_parents s));
          s = s\<lparr>p_digests := [], last_parents := []\<rparr>
      in if p_core_up s then Inr (s\<lparr>p_core := p_core s @ [h]\<rparr>) else Inl (Expect ''Failed to send header''))"

definition propose_check :: "'db node \<Rightarrow> instant \<Rightarrow> proposer \<Rightarrow> proposer res" where
  "propose_check N now s =
     (let enough_parents = (last_parents s \<noteq> []);
          enough_digests = (payload_size s \<ge> header_size s);
          timer_expired = (deadline s \<le> now)
      in if (timer_expired \<or> enough_digests) \<and> enough_parents
         then bindR (make_header N s) (\<lambda>s. Inr (s\<lparr>payload_size := 0, deadline := now + ucast (max_header_delay s)\<rparr>))
         else Inr s)"

datatype p_event =
    CoreParents "digest list" round
  | OwnDigest digest worker_id
  | TimerFired

fun propose_select :: "p_event \<Rightarrow> proposer \<Rightarrow> proposer" where
  "propose_select (CoreParents parents rnd) s =
     (if rnd < p_round s then s else s\<lparr>p_round := rnd + 1, last_parents := parents\<rparr>)"
| "propose_select (OwnDigest d w) s =
     s\<lparr>payload_size := payload_size s + of_nat (digest_size d), p_digests := p_digests s @ [(d, w)]\<rparr>"
| "propose_select TimerFired s = s"

definition propose_turn :: "'db node \<Rightarrow> instant \<times> p_event \<Rightarrow> proposer \<Rightarrow> proposer res" where
  "propose_turn N e s = bindR (propose_check N (fst e) s) (\<lambda>s. Inr (propose_select (snd e) s))"

definition propose_run :: "'db node \<Rightarrow> (instant \<times> p_event) list \<Rightarrow> proposer \<Rightarrow> proposer res" where
  "propose_run N es s = foldR (propose_turn N) es s"

section \<open>Ordered collections\<close>

lemma set_btree_set [simp]: "set (btree_set xs) = set xs"
  by (simp add: btree_set_def)

lemma btree_set_sorted: "sorted_wrt (<) (btree_set xs)"
  by (simp add: btree_set_def strict_sorted_iff)

lemma btree_map_sorted: "sorted_wrt (<) (map fst (btree_map kvs))"
  by (simp add: btree_map_def comp_def btree_set_sorted)

lemma btree_map_of: "map_of (btree_map kvs) k = map_of (rev kvs) k"
proof -
  have "map_of (btree_map kvs) k = (if k \<in> set (map fst kvs) then Some (the (map_of (rev kvs) k)) else None)"
    unfolding btree_map_def by (subst map_of_map_restrict [unfolded comp_def]) (auto simp: restrict_map_def)
  moreover have "map_of (rev kvs) k = None \<longleftrightarrow> k \<notin> set (map fst kvs)" by (simp add: map_of_eq_None_iff)
  ultimately show ?thesis by auto
qed

section \<open>What the proposer keeps\<close>

text \<open>The inputs so far, in order.\<close>

definition own_digests :: "(instant \<times> p_event) list \<Rightarrow> (digest \<times> worker_id) list" where
  "own_digests es = concat (map (\<lambda>(_, e). case e of OwnDigest d w \<Rightarrow> [(d, w)] | _ \<Rightarrow> []) es)"

definition quorums :: "(instant \<times> p_event) list \<Rightarrow> (digest list \<times> round) set" where
  "quorums es = {(ps, r). \<exists>t. (t, CoreParents ps r) \<in> set es}"

text \<open>A header made by the node, from a quorum for the round before and a part of the digests.\<close>

definition own_header_of :: "'db node \<Rightarrow> (digest list \<times> round) set \<Rightarrow> (digest \<times> worker_id) list \<Rightarrow> header \<Rightarrow> bool" where
  "own_header_of N Q chunk h \<longleftrightarrow> (\<exists>ps r. (ps, r) \<in> Q \<and> ps \<noteq> []
     \<and> h = header_new (lib N) (my_secret N) (my_name N) (r + 1) (btree_map chunk) (btree_set ps))"

definition prop_inv :: "'db node \<Rightarrow> (instant \<times> p_event) list \<Rightarrow> proposer \<Rightarrow> bool" where
  "prop_inv N es s \<longleftrightarrow>
     (let Q = insert (map (cert_digest (lib N)) (genesis (committee_of N)), 0) (quorums es) in
      p_core_up s \<and> sorted_wrt (<) (map h_round (p_core s))
      \<and> (\<forall>h \<in> set (p_core s). h_round h \<le> p_round s \<and> (last_parents s \<noteq> [] \<longrightarrow> h_round h < p_round s))
      \<and> (last_parents s \<noteq> [] \<longrightarrow> (\<exists>r. (last_parents s, r) \<in> Q \<and> p_round s = r + 1))
      \<and> (\<exists>chunks. concat chunks @ p_digests s = own_digests es \<and> list_all2 (own_header_of N Q) chunks (p_core s)))"

lemma header_new_fields [simp]:
  "h_round (header_new L k n r ws ps) = r" "h_author (header_new L k n r ws ps) = n"
  "h_payload (header_new L k n r ws ps) = ws" "h_parents (header_new L k n r ws ps) = ps"
  by (simp_all add: header_new_def Let_def)

lemma own_header_of_mono: "own_header_of N Q chunk h \<Longrightarrow> Q \<subseteq> Q' \<Longrightarrow> own_header_of N Q' chunk h"
  by (auto simp: own_header_of_def)

lemma list_all2_in: "list_all2 P xs ys \<Longrightarrow> y \<in> set ys \<Longrightarrow> \<exists>x \<in> set xs. P x y"
  by (induction rule: list_all2_induct) auto

lemma propose_check_inv:
  assumes inv: "prop_inv N es s"
  shows "\<exists>s'. propose_check N now s = Inr s' \<and> prop_inv N es s'"
proof (cases "(deadline s \<le> now \<or> payload_size s \<ge> header_size s) \<and> last_parents s \<noteq> []")
  case True
  let ?Q = "insert (map (cert_digest (lib N)) (genesis (committee_of N)), 0) (quorums es)"
  let ?h = "header_new (lib N) (my_secret N) (my_name N) (p_round s) (btree_map (p_digests s)) (btree_set (last_parents s))"
  let ?s = "s\<lparr>p_digests := [], last_parents := [], p_core := p_core s @ [?h], payload_size := 0,
    deadline := now + ucast (max_header_delay s)\<rparr>"
  have up: "p_core_up s" and low: "\<forall>h \<in> set (p_core s). h_round h < p_round s" and srt: "sorted_wrt (<) (map h_round (p_core s))"
    and par: "\<exists>r. (last_parents s, r) \<in> ?Q \<and> p_round s = r + 1"
    using inv True by (auto simp: prop_inv_def Let_def)
  obtain chunks where ch: "concat chunks @ p_digests s = own_digests es" "list_all2 (own_header_of N ?Q) chunks (p_core s)"
    using inv by (auto simp: prop_inv_def Let_def)
  have "own_header_of N ?Q (p_digests s) ?h" using par True unfolding own_header_of_def by metis
  then have "list_all2 (own_header_of N ?Q) (chunks @ [p_digests s]) (p_core s @ [?h])"
    using ch(2) by (simp add: list_all2_appendI)
  moreover have "concat (chunks @ [p_digests s]) = own_digests es" using ch(1) by simp
  ultimately have "\<exists>chunks. concat chunks @ [] = own_digests es \<and> list_all2 (own_header_of N ?Q) chunks (p_core s @ [?h])"
    by (intro exI [of _ "chunks @ [p_digests s]"]) simp
  then have "prop_inv N es ?s" using up low srt by (auto simp: prop_inv_def Let_def sorted_wrt_append)
  moreover have "propose_check N now s = Inr ?s" using True up by (simp add: propose_check_def make_header_def Let_def)
  ultimately show ?thesis by blast
next
  case False
  then have "propose_check N now s = Inr s" by (auto simp: propose_check_def Let_def)
  with inv show ?thesis by blast
qed

lemma propose_select_inv:
  assumes inv: "prop_inv N es s" and small: "\<forall>ps r. e = CoreParents ps r \<longrightarrow> r + 1 \<noteq> 0"
  shows "prop_inv N (es @ [(t, e)]) (propose_select e s)"
proof -
  let ?Q = "\<lambda>es. insert (map (cert_digest (lib N)) (genesis (committee_of N)), 0) (quorums es)"
  have mono: "?Q es \<subseteq> ?Q (es @ [(t, e)])" by (auto simp: quorums_def)
  obtain chunks where ch: "concat chunks @ p_digests s = own_digests es" "list_all2 (own_header_of N (?Q es)) chunks (p_core s)"
    using inv by (auto simp: prop_inv_def Let_def)
  have hs: "list_all2 (own_header_of N (?Q (es @ [(t, e)]))) chunks (p_core s)"
    by (rule list_all2_mono [OF ch(2)]) (rule own_header_of_mono [OF _ mono])
  show ?thesis
  proof (cases e)
    case (CoreParents ps r)
    have own: "own_digests (es @ [(t, e)]) = own_digests es" using CoreParents by (simp add: own_digests_def)
    show ?thesis
    proof (cases "r < p_round s")
      case True
      then have "propose_select e s = s" using CoreParents by simp
      with inv hs ch(1) mono own show ?thesis by (auto simp: prop_inv_def Let_def)
    next
      case False
      have "r < r + 1" using small unatSuc [of r] CoreParents by (simp add: add.commute word_less_nat_alt)
      moreover have "h_round h \<le> p_round s" if "h \<in> set (p_core s)" for h using inv that by (simp add: prop_inv_def Let_def)
      ultimately have low: "\<forall>h \<in> set (p_core s). h_round h < r + 1" using False by force
      have "(ps, r) \<in> ?Q (es @ [(t, e)])" using CoreParents by (auto simp: quorums_def)
      moreover have "propose_select e s = s\<lparr>p_round := r + 1, last_parents := ps\<rparr>" using CoreParents False by simp
      ultimately show ?thesis using inv hs ch(1) low own by (auto simp: prop_inv_def Let_def less_imp_le)
    qed
  next
    case (OwnDigest d w)
    then have "concat chunks @ (p_digests s @ [(d, w)]) = own_digests (es @ [(t, e)])" using ch(1) by (simp add: own_digests_def)
    with inv hs mono OwnDigest show ?thesis by (auto simp: prop_inv_def Let_def)
  next
    case TimerFired
    with inv hs ch(1) mono show ?thesis by (auto simp: prop_inv_def Let_def own_digests_def)
  qed
qed


definition small_rounds :: "(instant \<times> p_event) list \<Rightarrow> bool" where
  "small_rounds es \<longleftrightarrow> (\<forall>(ps, r) \<in> quorums es. r + 1 \<noteq> 0)"

lemma propose_run_inv:
  "prop_inv N es0 s \<Longrightarrow> small_rounds es \<Longrightarrow> \<exists>s'. propose_run N es s = Inr s' \<and> prop_inv N (es0 @ es) s'"
proof (induction es arbitrary: es0 s)
  case (Cons e es)
  obtain t ev where e: "e = (t, ev)" by fastforce
  obtain s1 where s1: "propose_check N t s = Inr s1" "prop_inv N es0 s1" using propose_check_inv [OF Cons.prems(1)] by blast
  have "prop_inv N (es0 @ [(t, ev)]) (propose_select ev s1)"
    by (rule propose_select_inv [OF s1(2)]) (use Cons.prems(2) e in \<open>auto simp: small_rounds_def quorums_def\<close>)
  moreover have "small_rounds es" using Cons.prems(2) by (auto simp: small_rounds_def quorums_def)
  ultimately obtain s' where "propose_run N es (propose_select ev s1) = Inr s'" "prop_inv N ((es0 @ [(t, ev)]) @ es) s'"
    using Cons.IH by blast
  then show ?case using s1(1) e by (simp add: propose_run_def propose_turn_def)
qed (simp add: propose_run_def)

lemma propose_run_new:
  assumes "small_rounds es"
  shows "\<exists>s. propose_run N es (proposer_new N hsize delay start) = Inr s \<and> prop_inv N es s"
proof -
  have "prop_inv N [] (proposer_new N hsize delay start)"
    by (auto simp: prop_inv_def proposer_new_def own_digests_def Let_def)
  from propose_run_inv [OF this assms] show ?thesis by simp
qed

text \<open>C29. The proposer never equivocates: whatever it receives, and whenever its timer fires, the headers it
makes have strictly increasing rounds, and each has the digests of one quorum of the round before as parents.\<close>

theorem proposer_no_equivocation:
  assumes "small_rounds es"
  shows "\<exists>s. propose_run N es (proposer_new N hsize delay start) = Inr s \<and> sorted_wrt (<) (map h_round (p_core s))
    \<and> (\<forall>h \<in> set (p_core s). h_author h = my_name N \<and> (\<exists>ps r. h_round h = r + 1 \<and> h_parents h = btree_set ps \<and> ps \<noteq> []
         \<and> (ps, r) \<in> insert (map (cert_digest (lib N)) (genesis (committee_of N)), 0) (quorums es)))"
proof -
  obtain s where s: "propose_run N es (proposer_new N hsize delay start) = Inr s" "prop_inv N es s"
    using propose_run_new [OF assms] by blast
  then obtain chunks where "list_all2 (own_header_of N (insert (map (cert_digest (lib N)) (genesis (committee_of N)), 0) (quorums es)))
      chunks (p_core s)" by (auto simp: prop_inv_def Let_def)
  then have "\<exists>chunk. own_header_of N (insert (map (cert_digest (lib N)) (genesis (committee_of N)), 0) (quorums es)) chunk h"
    if "h \<in> set (p_core s)" for h
    using that list_all2_in by fastforce
  then have "h_author h = my_name N \<and> (\<exists>ps r. h_round h = r + 1 \<and> h_parents h = btree_set ps \<and> ps \<noteq> []
         \<and> (ps, r) \<in> insert (map (cert_digest (lib N)) (genesis (committee_of N)), 0) (quorums es))" if "h \<in> set (p_core s)" for h
    using that by (fastforce simp: own_header_of_def)
  with s show ?thesis unfolding prop_inv_def Let_def by blast
qed

text \<open>No batch is lost or proposed twice: the digests received, in order, are the payloads of the
headers one after the other, followed by what waits for the next header.\<close>

theorem proposer_keeps_digests:
  assumes "small_rounds es"
  shows "\<exists>s chunks. propose_run N es (proposer_new N hsize delay start) = Inr s
    \<and> concat chunks @ p_digests s = own_digests es \<and> map h_payload (p_core s) = map btree_map chunks"
proof -
  obtain s where s: "propose_run N es (proposer_new N hsize delay start) = Inr s" "prop_inv N es s"
    using propose_run_new [OF assms] by blast
  then obtain chunks where ch: "concat chunks @ p_digests s = own_digests es" "list_all2 (own_header_of N
      (insert (map (cert_digest (lib N)) (genesis (committee_of N)), 0) (quorums es))) chunks (p_core s)"
    by (auto simp: prop_inv_def Let_def)
  have "map h_payload (p_core s) = map btree_map chunks"
    using ch(2) by (induction rule: list_all2_induct) (auto simp: own_header_of_def)
  with s ch show ?thesis by blast
qed

section \<open>A proposed header is accepted\<close>

text \<open>What the code relies on of the signature service: the node's signatures verify under its name.\<close>

definition signs_ok :: "'db node \<Rightarrow> bool" where
  "signs_ok N \<longleftrightarrow> (\<forall>d. signature_verify (lib N) (request_signature (lib N) (my_secret N) d) d (my_name N) = Inr ())"

lemma header_new_verifies:
  assumes "signs_ok N" "stake_of (committee_of N) (my_name N) > 0"
    "\<forall>(d, wid) \<in> set ws. \<exists>w. worker_of (committee_of N) (my_name N) wid = Inr w"
  shows "header_verify (lib N) (committee_of N) (header_new (lib N) (my_secret N) (my_name N) r ws ps) = Inr ()"
proof -
  let ?h = "header_new (lib N) (my_secret N) (my_name N) r ws ps"
  have "header_digest (lib N) ?h = h_id ?h" by (simp add: header_new_def header_digest_def header_bytes_def Let_def)
  moreover have "h_sig ?h = request_signature (lib N) (my_secret N) (h_id ?h)" by (simp add: header_new_def Let_def)
  ultimately show ?thesis using assms by (simp add: header_verify_Inr signs_ok_def)
qed

lemma btree_map_in: "(d, w) \<in> set (btree_map kvs) \<Longrightarrow> (d, w) \<in> set kvs"
  using btree_map_of [of kvs d] btree_map_sorted [of kvs]
  by (metis map_of_SomeD map_of_is_SomeI set_rev strict_sorted_iff)

text \<open>C35. Every header the proposer makes is well formed and passes the verification of the other nodes, if
the digests it was given name workers of the node.\<close>

theorem proposed_headers_verify:
  assumes "small_rounds es" "signs_ok N" "stake_of (committee_of N) (my_name N) > 0"
    and "\<forall>(d, wid) \<in> set (own_digests es). \<exists>w. worker_of (committee_of N) (my_name N) wid = Inr w"
    and "propose_run N es (proposer_new N hsize delay start) = Inr s" "h \<in> set (p_core s)"
  shows "wf_header h \<and> header_verify (lib N) (committee_of N) h = Inr ()"
proof -
  let ?Q = "insert (map (cert_digest (lib N)) (genesis (committee_of N)), 0) (quorums es)"
  obtain s0 where "propose_run N es (proposer_new N hsize delay start) = Inr s0" "prop_inv N es s0"
    using propose_run_new [OF assms(1), of N hsize delay start] by blast
  with assms(5) obtain chunks where ch: "concat chunks @ p_digests s = own_digests es" "list_all2 (own_header_of N ?Q) chunks (p_core s)"
    by (auto simp: prop_inv_def Let_def)
  then obtain chunk where c: "chunk \<in> set chunks" "own_header_of N ?Q chunk h"
    using list_all2_in [OF _ assms(6)] by blast
  have "set chunk \<subseteq> set (own_digests es)" unfolding ch(1) [symmetric] using c(1) by auto
  then have "\<forall>(d, wid) \<in> set (btree_map chunk). \<exists>w. worker_of (committee_of N) (my_name N) wid = Inr w"
    using assms(4) btree_map_in by fastforce
  with c(2) header_new_verifies [OF assms(2,3)] show ?thesis
    by (auto simp: own_header_of_def wf_header_def btree_map_sorted btree_set_sorted)
qed

section \<open>A sample run\<close>

text \<open>A header from the genesis once there is a digest, one from the parents of round 1 when the timer fires.\<close>

definition demo_inputs :: "(instant \<times> p_event) list" where
  "demo_inputs = [(0, OwnDigest (Digest 98) 7), (1, OwnDigest (Digest 97) 7), (2, CoreParents [Digest 52, Digest 51] 1),
     (3, CoreParents [Digest 60] 0), (500, OwnDigest (Digest 96) 7)]"

lemma demo_inputs_small: "small_rounds demo_inputs"
  by (auto simp: small_rounds_def quorums_def demo_inputs_def)

lemma demo_own: "own_digests demo_inputs = [(Digest 98, 7), (Digest 97, 7), (Digest 96, 7)]"
  by (simp add: own_digests_def demo_inputs_def)

lemma demo_proposals:
  "\<exists>s. propose_run demo_node demo_inputs (proposer_new demo_node 60 100 0) = Inr s
    \<and> map h_round (p_core s) = [1, 2] \<and> map h_parents (p_core s) = [[Digest (- 1)], [Digest 51, Digest 52]]
    \<and> map h_payload (p_core s) = [[(Digest 97, 7), (Digest 98, 7)], []] \<and> p_digests s = [(Digest 96, 7)]"
proof -
  have sz: "digest_size d = 32" for d by (simp add: digest_size_def)
  have le: "Digest a \<le> Digest b \<longleftrightarrow> a \<le> b" for a b by (simp add: less_eq_digest_def)
  show ?thesis
    by (simp add: propose_run_def demo_inputs_def propose_turn_def propose_check_def make_header_def proposer_new_def Let_def
        sz le btree_set_def btree_map_def word_le_nat_alt)
qed

lemma proposer_no_equivocation_witness:
  "\<exists>s. propose_run demo_node demo_inputs (proposer_new demo_node 60 100 0) = Inr s \<and> map h_round (p_core s) = [1, 2]
    \<and> sorted_wrt (<) (map h_round (p_core s))"
  using demo_proposals proposer_no_equivocation [OF demo_inputs_small, of demo_node 60 100 0] by auto

lemma proposer_keeps_digests_witness:
  "\<exists>s chunks. propose_run demo_node demo_inputs (proposer_new demo_node 60 100 0) = Inr s \<and> p_digests s = [(Digest 96, 7)]
    \<and> concat chunks @ p_digests s = [(Digest 98, 7), (Digest 97, 7), (Digest 96, 7)]"
proof -
  obtain s where s: "propose_run demo_node demo_inputs (proposer_new demo_node 60 100 0) = Inr s" "p_digests s = [(Digest 96, 7)]"
    using demo_proposals by blast
  with proposer_keeps_digests [OF demo_inputs_small, of demo_node 60 100 0] show ?thesis
    unfolding demo_own by (metis sum.inject(2))
qed

lemma proposed_headers_verify_witness:
  "\<exists>s h. propose_run demo_node demo_inputs (proposer_new demo_node 60 100 0) = Inr s \<and> h \<in> set (p_core s) \<and> h_round h = 2
    \<and> header_verify (lib demo_node) (committee_of demo_node) h = Inr ()"
proof -
  have sg: "signs_ok demo_node" by (simp add: signs_ok_def signature_verify_def flip_lib_def sample_lib_def)
  obtain s where s: "propose_run demo_node demo_inputs (proposer_new demo_node 60 100 0) = Inr s" "map h_round (p_core s) = [1, 2]"
    using demo_proposals by (elim exE conjE)
  from s(2) have "2 \<in> set (map h_round (p_core s))" by simp
  then have "2 \<in> h_round ` set (p_core s)" by (simp only: set_map)
  then obtain h where h: "h \<in> set (p_core s)" "2 = h_round h" by (elim imageE)
  have w: "\<forall>(d, wid) \<in> set (own_digests demo_inputs). \<exists>w. worker_of (committee_of demo_node) (my_name demo_node) wid = Inr w"
    by (simp add: demo_own)
  have "0 < stake_of (committee_of demo_node) (my_name demo_node)" by simp
  from proposed_headers_verify [OF demo_inputs_small sg this w s(1) h(1)] s(1) h show ?thesis by metis
qed

end
