(* ===== verification/Waiters.thy ===== *)
theory Waiters
  imports Synchronizer PrimaryDemo
begin

text \<open>
  The two tasks that hold back what the core cannot process yet: \<open>primary/src/header_waiter.rs\<close> and
  \<open>primary/src/certificate_waiter.rs\<close>. A future of their pools joins several \<open>notify_read\<close>s; it is ready
  when all its keys are stored (\<open>notify_read_answered\<close> of \<open>StoreModel\<close>). Which ready future
  \<open>waiting.next()\<close> returns, and which branch \<open>select!\<close> takes, is the choice of the event.

  A cancel channel has one sender, kept in \<open>pending\<close>: its receiver fires when a message was sent or when
  the sender is dropped, so a future is cancelled exactly when its number is not in \<open>pending\<close> any more.
  Both maps are association lists; what iterates over a map does so in the order of its list.
\<close>

section \<open>Joined reads\<close>

datatype join = JoinPending | JoinReady | JoinFailed store_error

fun join_reads :: "'db node \<Rightarrow> 'db store \<Rightarrow> bytes list \<Rightarrow> join" where
  "join_reads N st [] = JoinReady"
| "join_reads N st (k # ks) =
     (case store_read N k st of
        Inl e \<Rightarrow> JoinFailed e
      | Inr None \<Rightarrow> (case join_reads N st ks of JoinFailed e \<Rightarrow> JoinFailed e | _ \<Rightarrow> JoinPending)
      | Inr (Some _) \<Rightarrow> join_reads N st ks)"

lemma join_ready_iff: "join_reads N st ks = JoinReady \<longleftrightarrow> (\<forall>k \<in> set ks. st.has N k st)"
  by (induction ks) (auto simp: st.has_def split: sum.split option.split join.split)

section \<open>Certificate waiter\<close>

record certificate_waiter =
  cw_waiting :: "(bytes list \<times> certificate) list"
  cw_core :: "certificate list"
  cw_core_up :: bool

definition certificate_waiter_new :: certificate_waiter where
  "certificate_waiter_new = \<lparr>cw_waiting = [], cw_core = [], cw_core_up = True\<rparr>"

definition cw_receive :: "certificate \<Rightarrow> certificate_waiter \<Rightarrow> certificate_waiter" where
  "cw_receive cert s =
     (let wait_for = map digest_to_vec (h_parents (c_header cert))
      in s\<lparr>cw_waiting := cw_waiting s @ [(wait_for, cert)]\<rparr>)"

text \<open>\<open>waiting.next()\<close> returns the \<open>i\<close>-th future of the pool, which is not pending.\<close>

definition cw_next :: "'db node \<Rightarrow> 'db store \<Rightarrow> nat \<Rightarrow> certificate_waiter \<Rightarrow> certificate_waiter res" where
  "cw_next N st i s =
     (let (wait_for, cert) = cw_waiting s ! i;
          s = s\<lparr>cw_waiting := take i (cw_waiting s) @ drop (Suc i) (cw_waiting s)\<rparr>
      in case join_reads N st wait_for of
           JoinFailed e \<Rightarrow> Inl (Expect ''Storage failure: killing node.'')
         | _ \<Rightarrow> if cw_core_up s then Inr (s\<lparr>cw_core := cw_core s @ [cert]\<rparr>) else Inl (Expect ''Failed to send certificate''))"

text \<open>The waiter with the store it shares: writes of other tasks, certificates received, futures completed.\<close>

inductive cw_reach :: "'db node \<Rightarrow> certificate list \<Rightarrow> 'db store \<Rightarrow> certificate_waiter \<Rightarrow> bool" for N where
  cw_start: "cw_reach N [] (store_new d) certificate_waiter_new"
| cw_write: "cw_reach N xs st s \<Longrightarrow> cw_reach N xs (store_write N k v st) s"
| cw_message: "cw_reach N xs st s \<Longrightarrow> cw_reach N (xs @ [cert]) st (cw_receive cert s)"
| cw_completed: "cw_reach N xs st s \<Longrightarrow> i < length (cw_waiting s) \<Longrightarrow> join_reads N st (fst (cw_waiting s ! i)) \<noteq> JoinPending \<Longrightarrow>
    cw_next N st i s = Inr s' \<Longrightarrow> cw_reach N xs st s'"

section \<open>Header waiter\<close>

type_synonym millis = "128 word"

record header_waiter =
  retry_delay :: u64
  retry_nodes :: nat
  parent_requests :: "(digest \<times> round \<times> millis) list"
  batch_requests :: "(digest \<times> round) list"
  hw_pending :: "(digest \<times> round \<times> nat) list"
  hw_waiting :: "(nat \<times> bytes list \<times> header) list"
  hw_fresh :: nat
  hw_workers :: "(socket_addr \<times> primary_worker_message) list"
  hw_primaries :: "(socket_addr \<times> primary_message) list"
  hw_core :: "header list"
  hw_core_up :: bool

definition header_waiter_new :: "u64 \<Rightarrow> nat \<Rightarrow> header_waiter" where
  "header_waiter_new delay nodes = \<lparr>retry_delay = delay, retry_nodes = nodes, parent_requests = [], batch_requests = [],
     hw_pending = [], hw_waiting = [], hw_fresh = 0, hw_workers = [], hw_primaries = [], hw_core = [], hw_core_up = True\<rparr>"

text \<open>A future for the header goes to the pool, its cancel channel to \<open>pending\<close>.\<close>

definition hw_register :: "bytes list \<Rightarrow> header \<Rightarrow> header_waiter \<Rightarrow> header_waiter" where
  "hw_register wait_for h s =
     s\<lparr>hw_pending := AList.update (h_id h) (h_round h, hw_fresh s) (hw_pending s),
       hw_waiting := hw_waiting s @ [(hw_fresh s, wait_for, h)], hw_fresh := Suc (hw_fresh s)\<rparr>"

text \<open>The digests that were not requested yet, by worker, and the map of requests with them.\<close>

definition request_batch :: "round \<Rightarrow> digest \<times> worker_id \<Rightarrow>
    (worker_id \<times> digest list) list \<times> (digest \<times> round) list \<Rightarrow> (worker_id \<times> digest list) list \<times> (digest \<times> round) list" where
  "request_batch rnd e acc =
     (let (digest, worker_id) = e; (requires_sync, requests) = acc in
      if map_of requests digest \<noteq> None then acc
      else (entry_update worker_id [] (\<lambda>ds. ds @ [digest]) requires_sync, AList.update digest rnd requests))"

definition send_batch_sync :: "'db node \<Rightarrow> public_key \<Rightarrow> worker_id \<times> digest list \<Rightarrow> header_waiter \<Rightarrow> header_waiter res" where
  "send_batch_sync N auth e s =
     (let (worker_id, digests) = e in
      case worker_of (committee_of N) auth worker_id of
        Inl err \<Rightarrow> Inl (Expect ''Author of valid header is not in the committee'')
      | Inr w \<Rightarrow> Inr (s\<lparr>hw_workers := hw_workers s @ [(primary_to_worker w, Synchronize digests auth)]\<rparr>))"

definition sync_batches :: "'db node \<Rightarrow> (digest \<times> worker_id) list \<Rightarrow> header \<Rightarrow> header_waiter \<Rightarrow> header_waiter res" where
  "sync_batches N missing h s =
     (let s = hw_register (map (\<lambda>(digest, worker_id). payload_key digest worker_id) missing) h s;
          (requires_sync, requests) = fold (request_batch (h_round h)) missing ([], batch_requests s)
      in foldR (send_batch_sync N (h_author h)) requires_sync (s\<lparr>batch_requests := requests\<rparr>))"

definition request_parent :: "round \<Rightarrow> millis \<Rightarrow> digest \<Rightarrow> digest list \<times> (digest \<times> round \<times> millis) list \<Rightarrow>
    digest list \<times> (digest \<times> round \<times> millis) list" where
  "request_parent rnd now missing acc =
     (let (requires_sync, requests) = acc in
      if map_of requests missing \<noteq> None then acc
      else (requires_sync @ [missing], AList.update missing (rnd, now) requests))"

definition sync_parents :: "'db node \<Rightarrow> millis \<Rightarrow> digest list \<Rightarrow> header \<Rightarrow> header_waiter \<Rightarrow> header_waiter res" where
  "sync_parents N now missing h s =
     (let s = hw_register (map digest_to_vec missing) h s;
          (requires_sync, requests) = fold (request_parent (h_round h) now) missing ([], parent_requests s);
          s = s\<lparr>parent_requests := requests\<rparr>
      in if requires_sync = [] then Inr s
         else case primary_of (committee_of N) (h_author h) of
           Inl err \<Rightarrow> Inl (Expect ''Author of valid header not in the committee'')
         | Inr a \<Rightarrow> Inr (s\<lparr>hw_primaries := hw_primaries s @
             [(primary_to_primary a, CertificatesRequest requires_sync (my_name N))]\<rparr>))"

definition hw_deliver :: "header \<Rightarrow> header_waiter \<Rightarrow> header_waiter res" where
  "hw_deliver h s =
     (let s = s\<lparr>hw_pending := AList.delete (h_id h) (hw_pending s),
                batch_requests := fold AList.delete (map fst (h_payload h)) (batch_requests s),
                parent_requests := fold AList.delete (h_parents h) (parent_requests s)\<rparr>
      in if hw_core_up s then Inr (s\<lparr>hw_core := hw_core s @ [h]\<rparr>) else Inl (Expect ''Failed to send header''))"

text \<open>The timer: the requests that are too old go to some other primaries, picked at random.\<close>

definition hw_timer :: "'db node \<Rightarrow> millis \<Rightarrow> socket_addr list \<Rightarrow> header_waiter \<Rightarrow> header_waiter" where
  "hw_timer N now picked s =
     (let retry = map fst (filter (\<lambda>(digest, (_, timestamp)). timestamp + ucast (retry_delay s) < now) (parent_requests s))
      in s\<lparr>hw_primaries := hw_primaries s @ map (\<lambda>a. (a, CertificatesRequest retry (my_name N))) picked\<rparr>)"

definition hw_cleanup :: "'db node \<Rightarrow> round \<Rightarrow> header_waiter \<Rightarrow> header_waiter" where
  "hw_cleanup N rnd s =
     (if rnd > gc_depth_of N
      then let g = rnd - gc_depth_of N in
           s\<lparr>hw_pending := filter (\<lambda>(_, (r, _)). r > g) (hw_pending s),
             batch_requests := filter (\<lambda>(_, r). r > g) (batch_requests s),
             parent_requests := filter (\<lambda>(_, (r, _)). r > g) (parent_requests s)\<rparr>
      else s)"

text \<open>The events: a message at a time, a future that joined all its reads, one that was cancelled, the timer.\<close>

datatype hw_event =
    HwMessage waiter_message millis
  | HwJoined nat
  | HwCancelled nat
  | HwTimer millis "socket_addr list"

fun message_keys :: "waiter_message \<Rightarrow> bytes list" where
  "message_keys (SyncBatches missing h) = map (\<lambda>(digest, worker_id). payload_key digest worker_id) missing"
| "message_keys (SyncParents missing h) = map digest_to_vec missing"

definition hw_take :: "nat \<Rightarrow> header_waiter \<Rightarrow> header_waiter" where
  "hw_take n s = s\<lparr>hw_waiting := AList.delete n (hw_waiting s)\<rparr>"

text \<open>One turn of the loop: \<open>continue\<close> for a pending header skips the clean-up.\<close>

fun hw_turn :: "'db node \<Rightarrow> 'db store \<Rightarrow> hw_event \<times> round \<Rightarrow> header_waiter \<Rightarrow> header_waiter res" where
  "hw_turn N st (HwMessage m now, rnd) s =
     (if map_of (hw_pending s) (h_id (message_header m)) \<noteq> None then Inr s
      else bindR (case m of SyncBatches missing h \<Rightarrow> sync_batches N missing h s
                  | SyncParents missing h \<Rightarrow> sync_parents N now missing h s) (\<lambda>s. Inr (hw_cleanup N rnd s)))"
| "hw_turn N st (HwJoined n, rnd) s =
     (case map_of (hw_waiting s) n of
        None \<Rightarrow> Inr s
      | Some (wait_for, h) \<Rightarrow>
          (case join_reads N st wait_for of
             JoinFailed e \<Rightarrow> Inl (Expect ''Storage failure: killing node.'')
           | _ \<Rightarrow> bindR (hw_deliver h (hw_take n s)) (\<lambda>s. Inr (hw_cleanup N rnd s))))"
| "hw_turn N st (HwCancelled n, rnd) s = Inr (hw_cleanup N rnd (hw_take n s))"
| "hw_turn N st (HwTimer now picked, rnd) s = Inr (hw_cleanup N rnd (hw_timer N now picked s))"

text \<open>When an event can happen. The shuffled addresses are cut to the number of nodes to retry.\<close>

fun hw_enabled :: "'db node \<Rightarrow> 'db store \<Rightarrow> header_waiter \<Rightarrow> hw_event \<Rightarrow> bool" where
  "hw_enabled N st s (HwMessage m now) = True"
| "hw_enabled N st s (HwJoined n) =
     (case map_of (hw_waiting s) n of None \<Rightarrow> False | Some (wait_for, h) \<Rightarrow> join_reads N st wait_for \<noteq> JoinPending)"
| "hw_enabled N st s (HwCancelled n) = (n \<in> fst ` set (hw_waiting s) \<and> n \<notin> snd ` snd ` set (hw_pending s))"
| "hw_enabled N st s (HwTimer now picked) =
     (let addresses = map (primary_to_primary \<circ> snd) (others_primaries (committee_of N) (my_name N))
      in mset picked \<subseteq># mset addresses \<and> length picked = min (retry_nodes s) (length addresses))"

inductive hw_reach :: "'db node \<Rightarrow> waiter_message list \<Rightarrow> 'db store \<Rightarrow> header_waiter \<Rightarrow> bool" for N where
  hw_start: "hw_reach N [] (store_new d) (header_waiter_new delay nodes)"
| hw_write: "hw_reach N ms st s \<Longrightarrow> hw_reach N ms (store_write N k v st) s"
| hw_step: "hw_reach N ms st s \<Longrightarrow> hw_enabled N st s e \<Longrightarrow> hw_turn N st (e, rnd) s = Inr s' \<Longrightarrow>
    hw_reach N (ms @ (case e of HwMessage m now \<Rightarrow> [m] | _ \<Rightarrow> [])) st s'"

section \<open>What the certificate waiter keeps\<close>

lemma reads_kept: "rocks_ok N \<Longrightarrow> st.has N k st \<Longrightarrow> st.has N k (store_write N j v st)"
  by (simp add: st.has_wr)

lemma no_failure: "rocks_ok N \<Longrightarrow> (\<And>k. store_read N k st \<noteq> Inl e) \<Longrightarrow> join_reads N st ks \<noteq> JoinFailed e"
  by (induction ks) (auto split: sum.split option.split join.split)

definition cw_inv :: "'db node \<Rightarrow> certificate list \<Rightarrow> 'db store \<Rightarrow> certificate_waiter \<Rightarrow> bool" where
  "cw_inv N xs st s \<longleftrightarrow> cw_core_up s
     \<and> (\<forall>(ks, x) \<in> set (cw_waiting s). ks = map digest_to_vec (h_parents (c_header x)))
     \<and> mset (map snd (cw_waiting s)) + mset (cw_core s) = mset xs
     \<and> (\<forall>x \<in> set (cw_core s). \<forall>d \<in> set (h_parents (c_header x)). st.has N (digest_to_vec d) st)"

lemma mset_take_drop:
  assumes "i < length xs"
  shows "mset (take i xs @ drop (Suc i) xs) + {#xs ! i#} = mset xs"
proof -
  have "mset xs = mset (take i xs @ xs ! i # drop (Suc i) xs)" using assms by (simp add: id_take_nth_drop [symmetric])
  then show ?thesis by simp
qed

lemma mset_move:
  assumes "A + {#x#} = B" "B + C = D"
  shows "A + (C + {#x#}) = (D :: 'a multiset)"
proof -
  have "A + (C + {#x#}) = (A + {#x#}) + C" by (simp only: ac_simps)
  with assms show ?thesis by simp
qed

lemma cw_next_inv:
  assumes inv: "cw_inv N xs st s" and i: "i < length (cw_waiting s)" "join_reads N st (fst (cw_waiting s ! i)) \<noteq> JoinPending"
    and "next": "cw_next N st i s = Inr s'"
  shows "cw_inv N xs st s'"
proof -
  obtain ks x where e: "cw_waiting s ! i = (ks, x)" by fastforce
  then have mem: "(ks, x) \<in> set (cw_waiting s)" using i(1) nth_mem by metis
  have ready: "join_reads N st ks = JoinReady" and s': "s' = s\<lparr>cw_waiting := take i (cw_waiting s) @ drop (Suc i) (cw_waiting s),
      cw_core := cw_core s @ [x]\<rparr>"
    using "next" i(2) e by (auto simp: cw_next_def Let_def split: join.splits if_splits)
  let ?rest = "mset (map snd (take i (cw_waiting s) @ drop (Suc i) (cw_waiting s)))"
  have "?rest + {#x#} = mset (map snd (cw_waiting s))"
    using arg_cong [OF mset_take_drop [OF i(1)], of "image_mset snd"] e by simp
  then have "?rest + (mset (cw_core s) + {#x#}) = mset xs" by (rule mset_move) (use inv in \<open>simp add: cw_inv_def\<close>)
  moreover have "set (take i (cw_waiting s) @ drop (Suc i) (cw_waiting s)) \<subseteq> set (cw_waiting s)"
    by (auto dest: in_set_takeD in_set_dropD)
  moreover have "\<forall>d \<in> set (h_parents (c_header x)). st.has N (digest_to_vec d) st"
    using ready mem inv by (auto simp: join_ready_iff cw_inv_def)
  ultimately show ?thesis using inv unfolding s' cw_inv_def by auto
qed

lemma cw_reach_inv: "cw_reach N xs st s \<Longrightarrow> rocks_ok N \<Longrightarrow> cw_inv N xs st s"
proof (induction rule: cw_reach.induct)
  case (cw_write xs st s k v)
  then show ?case by (auto simp: cw_inv_def reads_kept)
next
  case (cw_completed xs st s i s')
  then show ?case by (blast intro: cw_next_inv)
qed (auto simp: cw_inv_def certificate_waiter_new_def cw_receive_def)

text \<open>The certificate waiter loses nothing and returns nothing early: what it received is, as a
multiset, what still waits and what it sent back, and the parents of what it sent back are stored.\<close>

theorem certificate_waiter_exact:
  assumes "rocks_ok N" "cw_reach N xs st s"
  shows "mset (map snd (cw_waiting s)) + mset (cw_core s) = mset xs
    \<and> (\<forall>x \<in> set (cw_core s). \<forall>d \<in> set (h_parents (c_header x)). st.has N (digest_to_vec d) st)"
  using cw_reach_inv [OF assms(2,1)] by (simp add: cw_inv_def)

section \<open>What the header waiter keeps\<close>

definition sent_sync :: "'db node \<Rightarrow> public_key set \<Rightarrow> socket_addr \<times> primary_worker_message \<Rightarrow> bool" where
  "sent_sync N A e \<longleftrightarrow> (\<exists>ds auth wid w. snd e = Synchronize ds auth \<and> auth \<in> A
     \<and> worker_of (committee_of N) auth wid = Inr w \<and> fst e = primary_to_worker w)"

definition hw_inv :: "'db node \<Rightarrow> waiter_message list \<Rightarrow> 'db store \<Rightarrow> header_waiter \<Rightarrow> bool" where
  "hw_inv N ms st s \<longleftrightarrow> hw_core_up s \<and> distinct (map fst (hw_waiting s)) \<and> (\<forall>n \<in> fst ` set (hw_waiting s). n < hw_fresh s)
     \<and> (\<forall>(n, ks, h) \<in> set (hw_waiting s). \<exists>m \<in> set ms. message_header m = h \<and> message_keys m = ks)
     \<and> (\<forall>(d, r, n) \<in> set (hw_pending s). \<exists>ks h. (n, ks, h) \<in> set (hw_waiting s) \<and> h_id h = d \<and> h_round h = r)
     \<and> (\<forall>h \<in> set (hw_core s). \<exists>m \<in> set ms. message_header m = h \<and> (\<forall>k \<in> set (message_keys m). st.has N k st))
     \<and> (\<forall>e \<in> set (hw_workers s). sent_sync N ((h_author \<circ> message_header) ` set ms) e)"

lemma send_batch_syncs:
  "foldR (send_batch_sync N auth) rs s = Inr s' \<Longrightarrow>
    \<exists>ws. s' = s\<lparr>hw_workers := hw_workers s @ ws\<rparr> \<and> (\<forall>e \<in> set ws. sent_sync N {auth} e)"
proof (induction rs arbitrary: s)
  case Nil
  then show ?case by (intro exI [of _ "[]"]) simp
next
  case (Cons r rs)
  obtain wid ds where r: "r = (wid, ds)" by fastforce
  obtain t where t: "send_batch_sync N auth r s = Inr t" and rest: "foldR (send_batch_sync N auth) rs t = Inr s'"
    using Cons.prems by (auto simp: bindR_Inr_iff)
  obtain w where w: "worker_of (committee_of N) auth wid = Inr w"
    and t': "t = s\<lparr>hw_workers := hw_workers s @ [(primary_to_worker w, Synchronize ds auth)]\<rparr>"
    using t by (auto simp: r send_batch_sync_def split: sum.splits)
  have "sent_sync N {auth} (primary_to_worker w, Synchronize ds auth)" using w by (auto simp: sent_sync_def)
  with Cons.IH [OF rest] show ?case unfolding t' by fastforce
qed

lemma sent_sync_mono: "sent_sync N A e \<Longrightarrow> A \<subseteq> B \<Longrightarrow> sent_sync N B e"
  by (auto simp: sent_sync_def)

text \<open>What a message does to the pool.\<close>

definition registered :: "waiter_message \<Rightarrow> header_waiter \<Rightarrow> header_waiter \<Rightarrow> bool" where
  "registered m s s' \<longleftrightarrow> hw_waiting s' = hw_waiting s @ [(hw_fresh s, message_keys m, message_header m)]
     \<and> hw_fresh s' = Suc (hw_fresh s) \<and> hw_core s' = hw_core s \<and> hw_core_up s' = hw_core_up s
     \<and> hw_pending s' = AList.update (h_id (message_header m)) (h_round (message_header m), hw_fresh s) (hw_pending s)"

lemma sync_batches_registered:
  assumes "sync_batches N missing h s = Inr s'"
  shows "registered (SyncBatches missing h) s s'"
    and "\<exists>ws. hw_workers s' = hw_workers s @ ws \<and> (\<forall>e \<in> set ws. sent_sync N {h_author h} e)"
  using assms send_batch_syncs
  by (fastforce simp: sync_batches_def registered_def hw_register_def split: prod.splits)+

lemma sync_parents_registered:
  assumes "sync_parents N now missing h s = Inr s'"
  shows "registered (SyncParents missing h) s s'" and "hw_workers s' = hw_workers s"
  using assms by (auto simp: sync_parents_def registered_def hw_register_def Let_def split: prod.splits if_splits sum.splits)

lemma hw_cleanup_inv: "hw_inv N ms st s \<Longrightarrow> hw_inv N ms st (hw_cleanup N rnd s)"
  unfolding hw_inv_def hw_cleanup_def Let_def by (cases "rnd > gc_depth_of N") auto

lemma registered_inv:
  assumes inv: "hw_inv N ms st s" and reg: "registered m s s'"
    and ws: "hw_workers s' = hw_workers s @ ws" "\<forall>e \<in> set ws. sent_sync N {h_author (message_header m)} e"
  shows "hw_inv N (ms @ [m]) st s'"
proof -
  have pend: "(d, r, n) = (h_id (message_header m), h_round (message_header m), hw_fresh s) \<or> (d, r, n) \<in> set (hw_pending s)"
    if "(d, r, n) \<in> set (hw_pending s')" for d r n
    using that reg set_update_subset [of "h_id (message_header m)" "(h_round (message_header m), hw_fresh s)" "hw_pending s"]
    by (auto simp: registered_def)
  have sync: "sent_sync N ((h_author \<circ> message_header) ` set (ms @ [m])) e" if "e \<in> set (hw_workers s')" for e
  proof (cases "e \<in> set ws")
    case True
    with ws(2) show ?thesis by (auto intro: sent_sync_mono)
  next
    case False
    with that ws(1) inv have "sent_sync N ((h_author \<circ> message_header) ` set ms) e" by (auto simp: hw_inv_def)
    then show ?thesis by (rule sent_sync_mono) auto
  qed
  have pended: "\<exists>ks h. (n, ks, h) \<in> set (hw_waiting s') \<and> h_id h = d \<and> h_round h = r" if "(d, r, n) \<in> set (hw_pending s')" for d r n
    using pend [OF that]
  proof
    assume "(d, r, n) \<in> set (hw_pending s)"
    with inv have "\<exists>ks h. (n, ks, h) \<in> set (hw_waiting s) \<and> h_id h = d \<and> h_round h = r" by (auto simp: hw_inv_def)
    with reg show ?thesis by (auto simp: registered_def)
  qed (use reg in \<open>auto simp: registered_def\<close>)
  from inv reg sync pended show ?thesis unfolding hw_inv_def registered_def by fastforce
qed


lemma distinct_fst_D: "distinct (map fst xs) \<Longrightarrow> (n, a) \<in> set xs \<Longrightarrow> (n, b) \<in> set xs \<Longrightarrow> a = b"
  by (metis map_of_is_SomeI option.inject)

lemma set_delete: "e \<in> set (AList.delete k m) \<longleftrightarrow> e \<in> set m \<and> fst e \<noteq> k"
  by (auto simp: AList.delete_eq)

text \<open>The pool without one of its futures.\<close>

lemma hw_take_inv:
  assumes "hw_inv N ms st s" "\<forall>(d, r, m) \<in> set (hw_pending s). m \<noteq> n"
  shows "hw_inv N ms st (hw_take n s)"
  using assms unfolding hw_inv_def hw_take_def
  by (fastforce simp: set_delete distinct_delete split: prod.splits)

lemma hw_deliver_inv:
  assumes inv: "hw_inv N ms st s" and w: "(n, ks, h) \<in> set (hw_waiting s)" "\<forall>k \<in> set ks. st.has N k st"
    and del: "hw_deliver h (hw_take n s) = Inr s'"
  shows "hw_inv N ms st s'" and "hw_core s' = hw_core s @ [h]" and "h_id h \<notin> fst ` set (hw_pending s')"
proof -
  let ?p = "AList.delete (h_id h) (hw_pending s)"
  have s': "hw_waiting s' = AList.delete n (hw_waiting s)" "hw_pending s' = ?p" "hw_core s' = hw_core s @ [h]"
    "hw_core_up s' = hw_core_up s" "hw_fresh s' = hw_fresh s" "hw_workers s' = hw_workers s"
    using del by (auto simp: hw_deliver_def hw_take_def Let_def split: if_splits)
  then show "hw_core s' = hw_core s @ [h]" "h_id h \<notin> fst ` set (hw_pending s')" by (auto simp: set_delete)
  obtain m where m: "m \<in> set ms" "message_header m = h" "message_keys m = ks" using inv w(1) by (fastforce simp: hw_inv_def)
  have other: "m \<noteq> n" if "(d, r, m) \<in> set ?p" for d r m
  proof
    assume "m = n"
    with that inv obtain ks' h' where "(n, ks', h') \<in> set (hw_waiting s)" "h_id h' = d" by (auto simp: hw_inv_def set_delete)
    with w(1) inv have "h_id h = d" by (auto simp: hw_inv_def dest: distinct_fst_D)
    with that show False by (auto simp: set_delete)
  qed
  have "hw_inv N ms st (hw_take n (s\<lparr>hw_pending := ?p\<rparr>))"
  proof (rule hw_take_inv)
    show "hw_inv N ms st (s\<lparr>hw_pending := ?p\<rparr>)" using inv by (auto simp: hw_inv_def set_delete)
  qed (use other in auto)
  with m w(2) s' show "hw_inv N ms st s'" unfolding hw_inv_def hw_take_def by auto
qed

lemma hw_turn_inv:
  assumes inv: "hw_inv N ms st s" and en: "hw_enabled N st s e" and turn: "hw_turn N st (e, rnd) s = Inr s'"
  shows "hw_inv N (ms @ (case e of HwMessage m now \<Rightarrow> [m] | _ \<Rightarrow> [])) st s'"
proof (cases e)
  case (HwMessage m now)
  show ?thesis
  proof (cases "map_of (hw_pending s) (h_id (message_header m))")
    case None
    then obtain t where t: "(case m of SyncBatches missing h \<Rightarrow> sync_batches N missing h s
        | SyncParents missing h \<Rightarrow> sync_parents N now missing h s) = Inr t" "s' = hw_cleanup N rnd t"
      using turn HwMessage by (auto simp: bindR_Inr_iff)
    have "hw_inv N (ms @ [m]) st t"
    proof (cases m)
      case (SyncBatches missing h)
      with t sync_batches_registered [of N missing h s t] inv show ?thesis by (auto intro: registered_inv)
    next
      case (SyncParents missing h)
      with t sync_parents_registered [of N now missing h s t] inv show ?thesis
        by (auto intro!: registered_inv [where ws = "[]"])
    qed
    with HwMessage t hw_cleanup_inv show ?thesis by auto
  next
    case (Some p)
    then have "s' = s" using turn HwMessage by simp
    moreover have "hw_inv N (ms @ [m]) st s"
      using inv unfolding hw_inv_def by (fastforce elim: sent_sync_mono)
    ultimately show ?thesis using HwMessage by simp
  qed
next
  case (HwJoined n)
  obtain ks h where w: "map_of (hw_waiting s) n = Some (ks, h)" "join_reads N st ks \<noteq> JoinPending"
    using en HwJoined by (auto split: option.splits)
  then obtain t where t: "hw_deliver h (hw_take n s) = Inr t" "s' = hw_cleanup N rnd t" "join_reads N st ks = JoinReady"
    using turn HwJoined by (cases "join_reads N st ks") (auto simp: bindR_Inr_iff)
  have "hw_inv N ms st t"
    by (rule hw_deliver_inv(1) [OF inv map_of_SomeD [OF w(1)] _ t(1)]) (use t(3) in \<open>simp add: join_ready_iff\<close>)
  with HwJoined t(2) hw_cleanup_inv show ?thesis by simp
next
  case (HwCancelled n)
  have "hw_inv N ms st (hw_take n s)" by (rule hw_take_inv [OF inv]) (use en HwCancelled in force)
  with HwCancelled turn hw_cleanup_inv show ?thesis by auto
next
  case (HwTimer now picked)
  have "hw_inv N ms st (hw_timer N now picked s)" using inv by (simp add: hw_inv_def hw_timer_def Let_def)
  with HwTimer turn hw_cleanup_inv show ?thesis by auto
qed

lemma hw_inv_grows:
  assumes "hw_inv N ms st s" "\<And>k. st.has N k st \<Longrightarrow> st.has N k st'"
  shows "hw_inv N ms st' s"
proof -
  have "\<exists>m \<in> set ms. message_header m = h \<and> (\<forall>k \<in> set (message_keys m). st.has N k st')" if "h \<in> set (hw_core s)" for h
  proof -
    from assms(1) that obtain m where "m \<in> set ms" "message_header m = h" "\<forall>k \<in> set (message_keys m). st.has N k st"
      unfolding hw_inv_def by blast
    with assms(2) show ?thesis by blast
  qed
  with assms(1) show ?thesis by (simp add: hw_inv_def)
qed

lemma hw_reach_inv: "hw_reach N ms st s \<Longrightarrow> rocks_ok N \<Longrightarrow> hw_inv N ms st s"
proof (induction rule: hw_reach.induct)
  case (hw_write ms st s k v)
  then have "hw_inv N ms st s" by blast
  then show ?case by (rule hw_inv_grows) (rule reads_kept [OF \<open>rocks_ok N\<close>])
next
  case (hw_step ms st s e rnd s')
  then show ?case by (blast intro: hw_turn_inv)
qed (auto simp: hw_inv_def header_waiter_new_def)

text \<open>The header waiter returns a header to the core only if the synchronizer had handed it over and
everything it was missing then is stored now; its requests for batches go to workers of the authors of
the headers it was handed.\<close>

theorem header_waiter_sound:
  assumes "rocks_ok N" "hw_reach N ms st s"
  shows "(\<forall>h \<in> set (hw_core s). \<exists>m \<in> set ms. message_header m = h \<and> (\<forall>k \<in> set (message_keys m). st.has N k st))
    \<and> (\<forall>e \<in> set (hw_workers s). \<exists>m \<in> set ms. \<exists>ds wid w. e = (primary_to_worker w, Synchronize ds (h_author (message_header m)))
         \<and> worker_of (committee_of N) (h_author (message_header m)) wid = Inr w)"
  using hw_reach_inv [OF assms(2,1)] by (fastforce simp: hw_inv_def sent_sync_def)

text \<open>C30. No header is forgotten: while a header is pending, there is a future for it, and once all that this
future waits for is stored, the turn that completes it sends the header to the core.\<close>

theorem pending_header_returns:
  assumes "rocks_ok N" "hw_reach N ms st s" "(d, r, n) \<in> set (hw_pending s)"
  shows "\<exists>ks h. (n, ks, h) \<in> set (hw_waiting s) \<and> h_id h = d
    \<and> ((\<forall>k \<in> set ks. st.has N k st) \<longrightarrow> hw_enabled N st s (HwJoined n)
        \<and> (\<exists>s'. hw_turn N st (HwJoined n, rnd) s = Inr s' \<and> hw_core s' = hw_core s @ [h] \<and> d \<notin> fst ` set (hw_pending s')))"
proof -
  note inv = hw_reach_inv [OF assms(2,1)]
  obtain ks h where w: "(n, ks, h) \<in> set (hw_waiting s)" "h_id h = d" using inv assms(3) by (fastforce simp: hw_inv_def)
  then have look: "map_of (hw_waiting s) n = Some (ks, h)" using inv by (simp add: hw_inv_def)
  show ?thesis
  proof (intro exI [of _ ks] exI [of _ h] conjI impI)
    assume all: "\<forall>k \<in> set ks. st.has N k st"
    then have ready: "join_reads N st ks = JoinReady" by (simp add: join_ready_iff)
    with look show "hw_enabled N st s (HwJoined n)" by simp
    obtain t where t: "hw_deliver h (hw_take n s) = Inr t" using inv by (auto simp: hw_deliver_def hw_take_def hw_inv_def Let_def)
    note after = hw_deliver_inv(2,3) [OF inv w(1) all t]
    have "hw_turn N st (HwJoined n, rnd) s = Inr (hw_cleanup N rnd t)" using look ready t by simp
    moreover have "hw_core (hw_cleanup N rnd t) = hw_core s @ [h]" "d \<notin> fst ` set (hw_pending (hw_cleanup N rnd t))"
      using after w(2) by (auto simp: hw_cleanup_def Let_def)
    ultimately show "\<exists>s'. hw_turn N st (HwJoined n, rnd) s = Inr s' \<and> hw_core s' = hw_core s @ [h] \<and> d \<notin> fst ` set (hw_pending s')"
      by blast
  qed (use w in auto)
qed

section \<open>A sample run\<close>

text \<open>A certificate and a header of round 2 wait for a certificate of round 1, which is then stored.\<close>

definition late_header :: header where
  "late_header = demo_header 2 12 2 (- 12) []"

definition late_cert :: certificate where
  "late_cert = \<lparr>c_header = late_header, c_votes = []\<rparr>"

lemma late_simps [simp]:
  "h_id late_header = Digest 12" "h_author late_header = PublicKey 2" "h_round late_header = 2"
  "h_parents late_header = [Digest (- 12)]" "h_payload late_header = []" "c_header late_cert = late_header"
  by (simp_all add: late_header_def late_cert_def)

abbreviation late_store :: "(bytes \<rightharpoonup> bytes) store" where
  "late_store \<equiv> store_write demo_node (digest_to_vec (Digest (- 12))) [] (store_new Map.empty)"

lemma late_has: "st.has demo_node (digest_to_vec (Digest (- 12))) late_store"
  by (simp add: st.has_def)

lemma cw_sample:
  "\<exists>s. cw_reach demo_node [late_cert] late_store s \<and> cw_waiting s = [] \<and> cw_core s = [late_cert]"
proof -
  let ?s = "cw_receive late_cert certificate_waiter_new"
  have 1: "cw_reach demo_node ([] @ [late_cert]) (store_new Map.empty) ?s" by (rule cw_message [OF cw_start])
  have w: "cw_waiting ?s = [([digest_to_vec (Digest (- 12))], late_cert)]"
    by (simp add: cw_receive_def certificate_waiter_new_def)
  have "cw_next demo_node late_store 0 ?s = Inr (?s\<lparr>cw_waiting := [], cw_core := [late_cert]\<rparr>)"
    by (simp add: cw_next_def w) (simp add: cw_receive_def certificate_waiter_new_def)
  from cw_completed [OF cw_write [OF 1] _ _ this] show ?thesis
    by (intro exI [of _ "?s\<lparr>cw_waiting := [], cw_core := [late_cert]\<rparr>"]) (simp add: w)
qed

lemma certificate_waiter_exact_witness:
  "\<exists>s. cw_reach demo_node [late_cert] late_store s \<and> cw_core s = [late_cert]
    \<and> mset (map snd (cw_waiting s)) + mset (cw_core s) = {#late_cert#}"
  using cw_sample certificate_waiter_exact [OF demo_ok(1), of "[late_cert]" late_store] by force

definition late_waiter :: header_waiter where
  "late_waiter = (header_waiter_new 1000 3)\<lparr>parent_requests := [(Digest (- 12), (2, 5))], hw_pending := [(Digest 12, (2, 0))],
     hw_waiting := [(0, [digest_to_vec (Digest (- 12))], late_header)], hw_fresh := 1,
     hw_primaries := [(SocketAddr 2 0, CertificatesRequest [Digest (- 12)] (PublicKey 3))]\<rparr>"

lemma late_waiter_reached: "hw_reach demo_node [SyncParents [Digest (- 12)] late_header] late_store late_waiter"
proof -
  have "hw_turn demo_node (store_new Map.empty) (HwMessage (SyncParents [Digest (- 12)] late_header) 5, 0) (header_waiter_new 1000 3)
      = Inr late_waiter"
    by (simp add: sync_parents_def hw_register_def request_parent_def Let_def hw_cleanup_def late_waiter_def header_waiter_new_def)
  from hw_write [OF hw_step [OF hw_start _ this]] show ?thesis by simp
qed

lemma header_waiter_sound_witness:
  "\<exists>s. hw_reach demo_node [SyncParents [Digest (- 12)] late_header] late_store s \<and> hw_core s = [late_header]
    \<and> (\<forall>k \<in> set (message_keys (SyncParents [Digest (- 12)] late_header)). st.has demo_node k late_store)"
proof -
  obtain s where s: "hw_turn demo_node late_store (HwJoined 0, 0) late_waiter = Inr s" "hw_core s = [late_header]"
    by (simp add: late_waiter_def header_waiter_new_def hw_deliver_def hw_take_def hw_cleanup_def)
  have "hw_enabled demo_node late_store late_waiter (HwJoined 0)" by (simp add: late_waiter_def)
  from hw_step [OF late_waiter_reached this s(1)]
  have r: "hw_reach demo_node [SyncParents [Digest (- 12)] late_header] late_store s" by simp
  from header_waiter_sound [OF demo_ok(1) r] s(2) r show ?thesis by auto
qed

lemma pending_header_returns_witness:
  "\<exists>s'. hw_turn demo_node late_store (HwJoined 0, 0) late_waiter = Inr s' \<and> hw_core s' = [late_header]"
proof -
  have p: "(Digest 12, 2, 0) \<in> set (hw_pending late_waiter)" by (simp add: late_waiter_def)
  have w: "hw_waiting late_waiter = [(0, [digest_to_vec (Digest (- 12))], late_header)]" "hw_core late_waiter = []"
    by (simp_all add: late_waiter_def header_waiter_new_def)
  from pending_header_returns [OF demo_ok(1) late_waiter_reached p, of 0] late_has show ?thesis by (auto simp: w)
qed

end
