(* ===== verification/MrvOrder.thy ===== *)
theory MrvOrder
  imports Messages
begin

text \<open>
  The state of \<open>mrv_executor/src/lib.rs\<close>, the pair verdict \<open>compare_pair\<close> and the comparators
  \<open>tie_break\<close> and \<open>compare_components\<close>, with what they promise: the verdict is total, antisymmetric and
  conservative, and the comparator is a total order on the stored digests.
\<close>

section \<open>State\<close>

record auf_state =
  auf_round :: round
  seen_by_round :: "(round \<times> public_key set) list"
  horizon :: "round option"
  mature :: bool

definition auf_state_new :: "round \<Rightarrow> auf_state" where
  "auf_state_new r = \<lparr>auf_round = r, seen_by_round = [], horizon = None, mature = False\<rparr>"

record batch_state =
  b_members :: "digest list"

text \<open>
  \<open>tx_output\<close> is what went down the channel; \<open>tx_room\<close> is how many more sends succeed before the
  receiver is dropped (\<open>None\<close> when it never is).
\<close>

record mrv_state =
  tx_output :: "certificate list"
  tx_room :: "nat option"
  mrv_store :: "(digest \<times> certificate) list"
  auf_states :: "(digest \<times> auf_state) list"
  batches :: "(u64 \<times> batch_state) list"
  active_floor_round :: "round option"
  frontier_round :: round
  window_cap :: round
  reach_threshold :: nat
  delta_threshold :: int

datatype ordering_relation = ABetter | BBetter | Tie

section \<open>Pair verdicts and comparators\<close>

definition seen_count_at :: "mrv_state \<Rightarrow> digest \<Rightarrow> round \<Rightarrow> nat" where
  "seen_count_at st d r =
     (case map_of (auf_states st) d of
        None \<Rightarrow> 0
      | Some s \<Rightarrow> (case map_of (seen_by_round s) r of None \<Rightarrow> 0 | Some S \<Rightarrow> card S))"

text \<open>The rounds of the comparison window with a signal for \<open>a\<close> and with a signal for \<open>b\<close>.\<close>

definition count_signals :: "mrv_state \<Rightarrow> digest \<Rightarrow> digest \<Rightarrow> round list \<Rightarrow> nat \<times> nat" where
  "count_signals st a b rounds =
     fold (\<lambda>r (pos, neg).
        let seen_a = int (seen_count_at st a r);
            seen_b = int (seen_count_at st b r);
            diff = seen_a - seen_b
        in if diff \<ge> delta_threshold st then (pos + 1, neg)
           else if diff \<le> - delta_threshold st then (pos, neg + 1)
           else (pos, neg)) rounds (0, 0)"

definition compare_pair :: "mrv_state \<Rightarrow> digest \<Rightarrow> digest \<Rightarrow> ordering_relation res" where
  "compare_pair st a b =
     (case map_of (auf_states st) a of None \<Rightarrow> Inr Tie | Some state_a \<Rightarrow>
     (case map_of (auf_states st) b of None \<Rightarrow> Inr Tie | Some state_b \<Rightarrow>
        if \<not> mature state_a \<or> \<not> mature state_b then Inr Tie
        else
          bindR (expect ''horizon must be finalized'' (horizon state_a)) (\<lambda>horizon_a.
          bindR (expect ''horizon must be finalized'' (horizon state_b)) (\<lambda>horizon_b.
          let pair_horizon = max horizon_a horizon_b;
              coexistence_start = max (auf_round state_a) (auf_round state_b)
          in if pair_horizon \<le> coexistence_start then Inr Tie
             else
               let (pos, neg) = count_signals st a b (u64_range (coexistence_start + 1) pair_horizon)
               in Inr (if pos \<ge> 1 \<and> neg = 0 then ABetter
                       else if neg \<ge> 1 \<and> pos = 0 then BBetter
                       else Tie)))))"

definition tie_break :: "mrv_state \<Rightarrow> digest \<Rightarrow> digest \<Rightarrow> ordering" where
  "tie_break st a b =
     (case (map_of (mrv_store st) a, map_of (mrv_store st) b) of
        (Some ca, Some cb) \<Rightarrow>
          then_with (then_with (ord_cmp (cert_round ca) (cert_round cb))
                       (ord_cmp (cert_origin ca) (cert_origin cb))) (ord_cmp a b)
      | _ \<Rightarrow> ord_cmp a b)"

definition compare_components :: "mrv_state \<Rightarrow> digest list \<Rightarrow> digest list \<Rightarrow> ordering res" where
  "compare_components st c1 c2 =
     bindR (expect ''component should not be empty'' (min_by (tie_break st) c1)) (\<lambda>min1.
     bindR (expect ''component should not be empty'' (min_by (tie_break st) c2)) (\<lambda>min2.
     Inr (tie_break st min1 min2)))"

section \<open>The pair verdict\<close>

text \<open>A mature AUF has its horizon: what the two \<open>expect\<close>s of \<open>compare_pair\<close> rely on.\<close>

definition horizon_ok :: "mrv_state \<Rightarrow> bool" where
  "horizon_ok st \<longleftrightarrow> (\<forall>d s. map_of (auf_states st) d = Some s \<longrightarrow> mature s \<longrightarrow> horizon s \<noteq> None)"

fun opposite :: "ordering_relation \<Rightarrow> ordering_relation" where
  "opposite ABetter = BBetter"
| "opposite BBetter = ABetter"
| "opposite Tie = Tie"

definition verdict :: "mrv_state \<Rightarrow> digest \<Rightarrow> digest \<Rightarrow> ordering_relation" where
  "verdict st a b = (case compare_pair st a b of Inl _ \<Rightarrow> Tie | Inr v \<Rightarrow> v)"

lemma opposite_opposite [simp]: "opposite (opposite v) = v"
  by (cases v) auto

lemma opposite_iff [simp]:
  "opposite v = ABetter \<longleftrightarrow> v = BBetter" "opposite v = BBetter \<longleftrightarrow> v = ABetter" "opposite v = Tie \<longleftrightarrow> v = Tie"
  by (cases v; simp)+

definition pair_window :: "auf_state \<Rightarrow> auf_state \<Rightarrow> round list" where
  "pair_window sa sb =
     (let until = max (the (horizon sa)) (the (horizon sb));
          start = max (auf_round sa) (auf_round sb)
      in if until \<le> start then [] else u64_range (start + 1) until)"

definition judge :: "nat \<times> nat \<Rightarrow> ordering_relation" where
  "judge s = (if fst s \<ge> 1 \<and> snd s = 0 then ABetter else if snd s \<ge> 1 \<and> fst s = 0 then BBetter else Tie)"

lemma judge_swap: "judge (prod.swap s) = opposite (judge s)"
  by (cases s) (auto simp: judge_def)

lemma pair_window_commute: "pair_window sa sb = pair_window sb sa"
  by (simp add: pair_window_def max.commute)

text \<open>Without a missing horizon the verdict is a function of the signals in the window.\<close>

lemma compare_pair_eq:
  assumes "horizon_ok st"
  shows "compare_pair st a b = Inr (case (map_of (auf_states st) a, map_of (auf_states st) b) of
      (Some sa, Some sb) \<Rightarrow> if mature sa \<and> mature sb then judge (count_signals st a b (pair_window sa sb)) else Tie
    | _ \<Rightarrow> Tie)"
proof -
  have "compare_pair st a b = Inr (judge (count_signals st a b (pair_window sa sb)))"
    if sa: "map_of (auf_states st) a = Some sa" "mature sa"
      and sb: "map_of (auf_states st) b = Some sb" "mature sb" for sa sb
  proof -
    obtain ha hb where "horizon sa = Some ha" "horizon sb = Some hb"
      using assms sa sb by (force simp: horizon_ok_def)
    with sa sb show ?thesis
      by (auto simp: compare_pair_def pair_window_def Let_def judge_def count_signals_def split: prod.splits)
  qed
  then show ?thesis by (auto simp: compare_pair_def split: option.splits)
qed

lemma compare_pair_verdict: "horizon_ok st \<Longrightarrow> compare_pair st a b = Inr (verdict st a b)"
  by (simp add: verdict_def compare_pair_eq)

lemma count_signals_eq:
  assumes "0 < delta_threshold st"
  shows "count_signals st a b rounds =
    (length (filter (\<lambda>r. delta_threshold st \<le> int (seen_count_at st a r) - int (seen_count_at st b r)) rounds),
     length (filter (\<lambda>r. delta_threshold st \<le> int (seen_count_at st b r) - int (seen_count_at st a r)) rounds))"
proof -
  let ?f = "\<lambda>r (pos, neg).
        let seen_a = int (seen_count_at st a r);
            seen_b = int (seen_count_at st b r);
            diff = seen_a - seen_b
        in if diff \<ge> delta_threshold st then (pos + 1, neg)
           else if diff \<le> - delta_threshold st then (pos, neg + 1)
           else (pos, neg)"
  have "fold ?f rounds (p, n) =
    (p + length (filter (\<lambda>r. delta_threshold st \<le> int (seen_count_at st a r) - int (seen_count_at st b r)) rounds),
     n + length (filter (\<lambda>r. delta_threshold st \<le> int (seen_count_at st b r) - int (seen_count_at st a r)) rounds))"
    for p n :: nat
    using assms by (induction rounds arbitrary: p n) (auto simp: Let_def)
  then show ?thesis by (simp add: count_signals_def)
qed

lemma count_signals_swap:
  "0 < delta_threshold st \<Longrightarrow> count_signals st b a rounds = prod.swap (count_signals st a b rounds)"
  by (simp add: count_signals_eq)

lemma verdict_swap:
  assumes "0 < delta_threshold st" "horizon_ok st"
  shows "verdict st b a = opposite (verdict st a b)"
proof -
  have "judge (count_signals st b a w) = opposite (judge (count_signals st a b w))" for w
    using judge_swap [of "count_signals st a b w"] count_signals_swap [OF assms(1), of b a w] by simp
  then show ?thesis
    by (auto simp: verdict_def compare_pair_eq [OF assms(2)] pair_window_commute split: option.splits)
qed

lemma verdict_self:
  assumes "0 < delta_threshold st" "horizon_ok st"
  shows "verdict st a a = Tie"
  using verdict_swap [OF assms, of a a] by (cases "verdict st a a") auto

text \<open>
  When the code says that \<open>a\<close> goes before \<open>b\<close>: both are mature, in some round of the window \<open>a\<close> was seen
  by at least \<open>delta\<close> more authorities, and in no round was \<open>b\<close>.
\<close>

lemma word_succ_le: "s < t \<Longrightarrow> s + 1 \<le> r \<longleftrightarrow> s < (r :: u64)"
  by uint_arith

lemma set_pair_window:
  "r \<in> set (pair_window sa sb) \<longleftrightarrow> max (auf_round sa) (auf_round sb) < r
     \<and> r \<le> max (the (horizon sa)) (the (horizon sb))"
proof -
  let ?s = "max (auf_round sa) (auf_round sb)" and ?h = "max (the (horizon sa)) (the (horizon sb))"
  have "r \<in> set (pair_window sa sb) \<longleftrightarrow> \<not> ?h \<le> ?s \<and> ?s + 1 \<le> r \<and> r \<le> ?h"
    by (simp add: pair_window_def Let_def del: max.bounded_iff max_less_iff_conj)
  also have "\<dots> \<longleftrightarrow> ?s < r \<and> r \<le> ?h"
    using word_succ_le [of ?s ?h r] by (meson le_less_trans not_le less_le_trans)
  finally show ?thesis .
qed

definition signal :: "mrv_state \<Rightarrow> digest \<Rightarrow> digest \<Rightarrow> round \<Rightarrow> bool" where
  "signal st a b r \<longleftrightarrow> delta_threshold st \<le> int (seen_count_at st a r) - int (seen_count_at st b r)"

lemma judge_ABetter: "judge (length (filter P xs), length (filter Q xs)) = ABetter
    \<longleftrightarrow> (\<exists>x \<in> set xs. P x) \<and> (\<forall>x \<in> set xs. \<not> Q x)"
  by (auto simp: judge_def filter_empty_conv Suc_le_eq)

lemma verdict_ABetter:
  assumes "horizon_ok st" "0 < delta_threshold st"
  shows "verdict st a b = ABetter \<longleftrightarrow> (\<exists>sa sb. map_of (auf_states st) a = Some sa
      \<and> map_of (auf_states st) b = Some sb \<and> mature sa \<and> mature sb
      \<and> (\<exists>r \<in> set (pair_window sa sb). signal st a b r)
      \<and> (\<forall>r \<in> set (pair_window sa sb). \<not> signal st b a r))"
  by (auto simp: verdict_def compare_pair_eq [OF assms(1)] count_signals_eq [OF assms(2)]
      signal_def [symmetric] judge_ABetter split: option.splits)

section \<open>The comparators\<close>

definition stored :: "mrv_state \<Rightarrow> digest set" where
  "stored st = dom (map_of (mrv_store st))"

lemma tie_break_Less:
  assumes "map_of (mrv_store st) a = Some ca" "map_of (mrv_store st) b = Some cb"
  shows "tie_break st a b = Less \<longleftrightarrow> cert_round ca < cert_round cb \<or> (cert_round ca = cert_round cb
      \<and> (cert_origin ca < cert_origin cb \<or> (cert_origin ca = cert_origin cb \<and> a < b)))"
    and "tie_break st a b = Equal \<longleftrightarrow> a = b"
    and "tie_break st b a = reverse_ordering (tie_break st a b)"
  using assms by (auto simp: tie_break_def then_with_iff reverse_then_with ord_cmp_rev)

interpretation tb: total_cmp "tie_break st" "stored st" for st
proof (unfold_locales, goal_cases)
  case (1 x y)
  then obtain cx cy where "map_of (mrv_store st) x = Some cx" "map_of (mrv_store st) y = Some cy"
    by (auto simp: stored_def)
  then show ?case by (rule tie_break_Less(2))
next
  case (2 x y)
  then obtain cx cy where "map_of (mrv_store st) x = Some cx" "map_of (mrv_store st) y = Some cy"
    by (auto simp: stored_def)
  then show ?case by (rule tie_break_Less(3))
next
  case (3 x y z)
  then obtain cx cy cz where "map_of (mrv_store st) x = Some cx" "map_of (mrv_store st) y = Some cy"
    "map_of (mrv_store st) z = Some cz"
    by (auto simp: stored_def)
  with 3 show ?case by (auto simp: tie_break_Less(1))
qed

lemma min_by_Some: "xs \<noteq> [] \<Longrightarrow> \<exists>m. min_by cmp xs = Some m"
  by (cases xs) auto

lemma compare_components_eq:
  assumes "c1 \<noteq> []" "c2 \<noteq> []"
  shows "compare_components st c1 c2 = Inr (tie_break st (the (min_by (tie_break st) c1)) (the (min_by (tie_break st) c2)))"
  using min_by_Some [OF assms(1), of "tie_break st"] min_by_Some [OF assms(2), of "tie_break st"]
  by (auto simp: compare_components_def)

section \<open>A sample state\<close>

text \<open>Two certificates of round 1 from a committee of four; three authorities have seen the first one in
  round 2 and all four in round 3, three have seen the second one in round 3.\<close>

definition sample_cert :: "256 word \<Rightarrow> round \<Rightarrow> certificate" where
  "sample_cert k r = \<lparr>c_header = header_default\<lparr>h_author := PublicKey k, h_round := r\<rparr>, c_votes = []\<rparr>"

definition sample_state :: mrv_state where
  "sample_state = \<lparr>tx_output = [], tx_room = None,
     mrv_store = [(Digest 1, sample_cert 2 1), (Digest 2, sample_cert 1 1)],
     auf_states =
       [(Digest 1, \<lparr>auf_round = 1,
           seen_by_round = [(2, {PublicKey 1, PublicKey 2, PublicKey 3}),
                            (3, {PublicKey 1, PublicKey 2, PublicKey 3, PublicKey 4})],
           horizon = Some 2, mature = True\<rparr>),
        (Digest 2, \<lparr>auf_round = 1, seen_by_round = [(3, {PublicKey 1, PublicKey 2, PublicKey 3})],
           horizon = Some 3, mature = True\<rparr>)],
     batches = [(0, \<lparr>b_members = [Digest 1, Digest 2]\<rparr>)], active_floor_round = Some 1,
     frontier_round = 3, window_cap = 4, reach_threshold = 3, delta_threshold = 2\<rparr>"

lemma sample_state_ok [simp]:
  "horizon_ok sample_state" "0 < delta_threshold sample_state" "stored sample_state = {Digest 1, Digest 2}"
  by (auto simp: horizon_ok_def sample_state_def stored_def split: if_splits)

section \<open>Properties\<close>

text \<open>C18. The pair verdict is conservative: \<open>compare_pair\<close> puts \<open>a\<close> before \<open>b\<close> exactly when both are
  mature, some round after both appeared and up to the later horizon shows \<open>a\<close> seen by at least
  \<open>delta_threshold\<close> more authorities than \<open>b\<close>, and no such round shows the opposite. In particular a capped AUF never
  yields an order.\<close>

theorem compare_pair_conservative:
  assumes "horizon_ok st" "0 < delta_threshold st"
  shows "compare_pair st a b = Inr ABetter \<longleftrightarrow>
    (\<exists>sa sb. map_of (auf_states st) a = Some sa \<and> map_of (auf_states st) b = Some sb
      \<and> mature sa \<and> mature sb
      \<and> (\<exists>r. max (auf_round sa) (auf_round sb) < r \<and> r \<le> max (the (horizon sa)) (the (horizon sb))
           \<and> delta_threshold st \<le> int (seen_count_at st a r) - int (seen_count_at st b r))
      \<and> \<not> (\<exists>r. max (auf_round sa) (auf_round sb) < r \<and> r \<le> max (the (horizon sa)) (the (horizon sb))
           \<and> delta_threshold st \<le> int (seen_count_at st b r) - int (seen_count_at st a r)))"
  unfolding compare_pair_verdict [OF assms(1)] sum.inject verdict_ABetter [OF assms]
    Bex_def Ball_def set_pair_window signal_def by meson

lemma compare_pair_conservative_witness:
  "compare_pair sample_state (Digest 1) (Digest 2) = Inr ABetter"
proof -
  have "seen_count_at sample_state (Digest 1) r = (if r = 2 then 3 else if r = 3 then 4 else 0)"
    "seen_count_at sample_state (Digest 2) r = (if r = 3 then 3 else 0)" for r
    by (simp_all add: seen_count_at_def sample_state_def)
  then have "delta_threshold sample_state \<le> int (seen_count_at sample_state (Digest 1) 2) - int (seen_count_at sample_state (Digest 2) 2)"
    "\<not> delta_threshold sample_state \<le> int (seen_count_at sample_state (Digest 2) r) - int (seen_count_at sample_state (Digest 1) r)"
    for r by (simp_all add: sample_state_def)
  then show ?thesis
    using compare_pair_conservative [OF sample_state_ok(1,2), of "Digest 1" "Digest 2"]
    by (auto simp: sample_state_def intro!: exI [of _ "2 :: u64"])
qed

text \<open>The pair verdict is antisymmetric and never panics: asking for the two certificates in the
  other order gives the opposite verdict, so the order of \<open>nodes\<close> does not matter to the graph.\<close>

theorem compare_pair_antisymmetric:
  assumes "horizon_ok st" "0 < delta_threshold st"
  shows "\<exists>v. compare_pair st a b = Inr v \<and> compare_pair st b a = Inr (opposite v)"
  using compare_pair_verdict [OF assms(1)] verdict_swap [OF assms(2,1), of b a] by auto

lemma compare_pair_antisymmetric_witness:
  "\<exists>v. compare_pair sample_state (Digest 1) (Digest 2) = Inr v
     \<and> compare_pair sample_state (Digest 2) (Digest 1) = Inr (opposite v)"
  by (rule compare_pair_antisymmetric) simp_all

end
