(* ===== verification/MrvGraph.thy ===== *)
theory MrvGraph
  imports Prelude
begin

text \<open>
  The strongly connected components of \<open>mrv_executor/src/lib.rs\<close>: \<open>dfs_forward\<close>, \<open>dfs_reverse\<close> and
  \<open>find_scc\<close> (Kosaraju's algorithm). The functions do not depend on what a node is; \<open>cmp\<close> is the
  comparator \<open>tie_break\<close>, \<open>it\<close> and \<open>itg\<close> are the orders in which a \<open>HashSet\<close> of nodes and the
  \<open>HashMap\<close> of the graph are iterated.
\<close>

section \<open>The code\<close>

type_synonym 'n graph = "('n \<times> 'n list) list"

function dfs_forward :: "('n \<Rightarrow> 'n \<Rightarrow> ordering) \<Rightarrow> ('n list \<Rightarrow> 'n list) \<Rightarrow> 'n graph \<Rightarrow>
    'n \<Rightarrow> 'n set \<Rightarrow> 'n list \<Rightarrow> 'n set \<times> 'n list"
  and dfs_forward_each :: "('n \<Rightarrow> 'n \<Rightarrow> ordering) \<Rightarrow> ('n list \<Rightarrow> 'n list) \<Rightarrow> 'n graph \<Rightarrow>
    'n list \<Rightarrow> 'n set \<Rightarrow> 'n list \<Rightarrow> 'n set \<times> 'n list" where
  "dfs_forward cmp it g node visited finish =
     (let (visited, finish) =
        (case map_of g node of
           None \<Rightarrow> (insert node visited, finish)
         | Some neighbors \<Rightarrow>
             dfs_forward_each cmp it g (sort_by cmp (it neighbors)) (insert node visited) finish)
      in (visited, finish @ [node]))"
| "dfs_forward_each cmp it g [] visited finish = (visited, finish)"
| "dfs_forward_each cmp it g (neighbor # rest) visited finish =
     (if neighbor \<notin> visited
      then let (visited, finish) = dfs_forward cmp it g neighbor visited finish
           in dfs_forward_each cmp it g rest visited finish
      else dfs_forward_each cmp it g rest visited finish)"
  by pat_completeness auto

lemma dfs_forward_visited_dom:
  "dfs_forward_dfs_forward_each_dom (Inl (cmp, it, g, node, visited, finish)) \<Longrightarrow>
     visited \<subseteq> fst (dfs_forward cmp it g node visited finish)"
  "dfs_forward_dfs_forward_each_dom (Inr (cmp, it, g, nodes, visited, finish)) \<Longrightarrow>
     visited \<subseteq> fst (dfs_forward_each cmp it g nodes visited finish)"
  by (induction cmp it g node visited finish and cmp it g nodes visited finish
      rule: dfs_forward_dfs_forward_each.pinduct)
    (auto simp: dfs_forward.psimps dfs_forward_each.psimps split: option.splits prod.splits, blast)

text \<open>
  Termination: every unvisited node with a graph entry is entered once. A call on a visited node,
  which the code never makes, counts one more.
\<close>

definition unvisited :: "'n graph \<Rightarrow> 'n set \<Rightarrow> nat" where
  "unvisited g visited = card (set (map fst g) - visited)"

lemma unvisited_mono: "V \<subseteq> V' \<Longrightarrow> unvisited g V' \<le> unvisited g V"
  by (auto simp: unvisited_def intro!: card_mono)

lemma unvisited_insert:
  assumes "map_of g n = Some x" "n \<notin> V"
  shows "unvisited g (insert n V) < unvisited g V"
proof -
  have "n \<in> set (map fst g)" using assms(1) by (force dest: map_of_SomeD)
  then have "set (map fst g) - insert n V \<subset> set (map fst g) - V" using assms(2) by auto
  then show ?thesis unfolding unvisited_def by (intro psubset_card_mono) auto
qed

termination dfs_forward
proof (relation "inv_image (less_than <*lex*> less_than) (\<lambda>x. case x of
      Inl (cmp, it, g, node, visited, finish) \<Rightarrow>
        (if node \<in> visited then Suc (unvisited g visited) else unvisited g visited, 0)
    | Inr (cmp, it, g, nodes, visited, finish) \<Rightarrow> (unvisited g visited, length nodes))", goal_cases)
  case 1
  show ?case by auto
next
  case (2 cmp it g node visited finish neighbors)
  then show ?case by (auto simp: insert_absorb dest: unvisited_insert)
next
  case (3 cmp it g neighbor rest visited finish)
  then show ?case by simp
next
  case (4 cmp it g neighbor rest visited finish x visited' finish')
  then have "visited \<subseteq> visited'"
    using dfs_forward_visited_dom(1) [of cmp it g neighbor visited finish] by (metis fst_conv)
  then show ?case using unvisited_mono [of visited visited' g] by auto
next
  case (5 cmp it g neighbor rest visited finish)
  then show ?case by simp
qed


declare dfs_forward.simps [simp del]

function dfs_reverse :: "'n graph \<Rightarrow> 'n \<Rightarrow> 'n set \<Rightarrow> 'n list \<Rightarrow> 'n set \<times> 'n list"
  and dfs_reverse_each :: "'n graph \<Rightarrow> 'n list \<Rightarrow> 'n set \<Rightarrow> 'n list \<Rightarrow> 'n set \<times> 'n list" where
  "dfs_reverse rg node visited component =
     (case map_of rg node of
        None \<Rightarrow> (insert node visited, component @ [node])
      | Some neighbors \<Rightarrow> dfs_reverse_each rg neighbors (insert node visited) (component @ [node]))"
| "dfs_reverse_each rg [] visited component = (visited, component)"
| "dfs_reverse_each rg (neighbor # rest) visited component =
     (if neighbor \<notin> visited
      then let (visited, component) = dfs_reverse rg neighbor visited component
           in dfs_reverse_each rg rest visited component
      else dfs_reverse_each rg rest visited component)"
  by pat_completeness auto

lemma dfs_reverse_visited_dom:
  "dfs_reverse_dfs_reverse_each_dom (Inl (rg, node, visited, component)) \<Longrightarrow>
     visited \<subseteq> fst (dfs_reverse rg node visited component)"
  "dfs_reverse_dfs_reverse_each_dom (Inr (rg, nodes, visited, component)) \<Longrightarrow>
     visited \<subseteq> fst (dfs_reverse_each rg nodes visited component)"
  by (induction rg node visited component and rg nodes visited component
      rule: dfs_reverse_dfs_reverse_each.pinduct)
    (auto simp: dfs_reverse.psimps dfs_reverse_each.psimps split: option.splits prod.splits, blast)

termination dfs_reverse
proof (relation "inv_image (less_than <*lex*> less_than) (\<lambda>x. case x of
      Inl (rg, node, visited, component) \<Rightarrow>
        (if node \<in> visited then Suc (unvisited rg visited) else unvisited rg visited, 0)
    | Inr (rg, nodes, visited, component) \<Rightarrow> (unvisited rg visited, length nodes))", goal_cases)
  case 1
  show ?case by auto
next
  case (2 rg node visited component neighbors)
  then show ?case by (auto simp: insert_absorb dest: unvisited_insert)
next
  case (3 rg neighbor rest visited component)
  then show ?case by simp
next
  case (4 rg neighbor rest visited component x visited' component')
  then have "visited \<subseteq> visited'"
    using dfs_reverse_visited_dom(1) [of rg neighbor visited component] by (metis fst_conv)
  then show ?case using unvisited_mono [of visited visited' rg] by auto
next
  case (5 rg neighbor rest visited component)
  then show ?case by simp
qed

declare dfs_reverse.simps [simp del]

text \<open>The reverse graph: an empty vector per node, then one push per edge, then every vector sorted.\<close>

definition push_edge :: "'n \<Rightarrow> 'n \<Rightarrow> 'n graph \<Rightarrow> 'n graph" where
  "push_edge from to rg =
     AList.update to ((case map_of rg to of None \<Rightarrow> [] | Some v \<Rightarrow> v) @ [from]) rg"

definition reverse_graph :: "('n \<Rightarrow> 'n \<Rightarrow> ordering) \<Rightarrow> ('n list \<Rightarrow> 'n list) \<Rightarrow>
    ('n graph \<Rightarrow> 'n graph) \<Rightarrow> 'n list \<Rightarrow> 'n graph \<Rightarrow> 'n graph" where
  "reverse_graph cmp it itg nodes g =
     (let rg = map (\<lambda>d. (d, [])) (remdups nodes);
          rg = fold (\<lambda>(from, tos). fold (push_edge from) (it tos)) (itg g) rg
      in map (\<lambda>(d, tos). (d, sort_by cmp tos)) rg)"

text \<open>\<open>while let Some(node) = finish_stack.pop()\<close>, over the reversed stack.\<close>

fun pop_components :: "'n graph \<Rightarrow> 'n list \<Rightarrow> 'n set \<Rightarrow> 'n list list \<Rightarrow> 'n list list" where
  "pop_components rg [] visited components = components"
| "pop_components rg (node # rest) visited components =
     (if node \<in> visited then pop_components rg rest visited components
      else let (visited, component) = dfs_reverse rg node visited []
           in pop_components rg rest visited (components @ [component]))"

definition find_scc :: "('n \<Rightarrow> 'n \<Rightarrow> ordering) \<Rightarrow> ('n list \<Rightarrow> 'n list) \<Rightarrow> ('n graph \<Rightarrow> 'n graph) \<Rightarrow>
    'n list \<Rightarrow> 'n graph \<Rightarrow> 'n list list" where
  "find_scc cmp it itg nodes g =
     (let (visited, finish_stack) = dfs_forward_each cmp it g nodes {} [];
          rg = reverse_graph cmp it itg nodes g
      in pop_components rg (rev finish_stack) {} [])"

section \<open>Reachability that avoids a set of nodes\<close>

definition wedge :: "('n \<times> 'n) set \<Rightarrow> 'n set \<Rightarrow> ('n \<times> 'n) set" where
  "wedge E V = {(a, b) \<in> E. a \<notin> V \<and> b \<notin> V}"

abbreviation wreach :: "('n \<times> 'n) set \<Rightarrow> 'n set \<Rightarrow> ('n \<times> 'n) set" where
  "wreach E V \<equiv> (wedge E V)\<^sup>*"

lemma wedge_empty [simp]: "wedge E {} = E"
  by (auto simp: wedge_def)

lemma wreach_mono: "V \<subseteq> V' \<Longrightarrow> wreach E V' \<subseteq> wreach E V"
  by (intro rtrancl_mono) (auto simp: wedge_def)

lemma wreach_notin: "(x, y) \<in> wreach E V \<Longrightarrow> x \<notin> V \<Longrightarrow> y \<notin> V"
  by (induction rule: rtrancl_induct) (auto simp: wedge_def)

lemma wreach_through:
  assumes "(x, y) \<in> wreach E V"
  shows "(x, y) \<in> wreach E (insert n V) \<or> (x, n) \<in> wreach E V \<and> (n, y) \<in> wreach E V"
  using assms
proof (induction rule: rtrancl_induct)
  case base
  then show ?case by simp
next
  case (step y z)
  consider "(x, n) \<in> wreach E V" "(n, y) \<in> wreach E V" | "(x, y) \<in> wreach E (insert n V)"
    using step.IH by blast
  then show ?case
  proof cases
    case 1
    then show ?thesis using step.hyps(2) by (meson rtrancl.rtrancl_into_rtrancl)
  next
    case 2
    show ?thesis
    proof (cases "y = n \<or> z = n")
      case True
      then show ?thesis using step.hyps by (meson rtrancl.rtrancl_into_rtrancl rtrancl.rtrancl_refl)
    next
      case False
      then have "(y, z) \<in> wedge E (insert n V)" using step.hyps(2) by (auto simp: wedge_def)
      with 2 show ?thesis by (meson rtrancl.rtrancl_into_rtrancl)
    qed
  qed
qed

text \<open>A set that no edge leaves either holds the end of a path or is avoided by the whole path.\<close>

lemma wreach_closed:
  assumes "(x, y) \<in> wreach E V" and "\<And>a b. a \<in> A \<Longrightarrow> (a, b) \<in> wedge E V \<Longrightarrow> b \<in> A"
  shows "y \<in> A \<or> x \<notin> A \<and> (x, y) \<in> wreach E (V \<union> A)"
  using assms(1)
proof (induction rule: rtrancl_induct)
  case base
  then show ?case by auto
next
  case (step y z)
  show ?case
  proof (cases "y \<in> A \<or> z \<in> A")
    case True
    then show ?thesis using assms(2) step.hyps(2) by blast
  next
    case False
    then have "(y, z) \<in> wedge E (V \<union> A)" using step.hyps(2) by (auto simp: wedge_def)
    with False step.IH show ?thesis by (auto intro: rtrancl_into_rtrancl)
  qed
qed

text \<open>The nodes reached from one node, and from a list of nodes, as a depth-first search finds them.\<close>

lemma wreach_node:
  assumes "n \<notin> V"
  shows "wreach E V `` {n} = insert n (wreach E (insert n V) `` (E `` {n} - insert n V))"
proof (intro equalityI subsetI)
  fix y assume "y \<in> wreach E V `` {n}"
  then have "(n, y) \<in> wreach E V" by simp
  then show "y \<in> insert n (wreach E (insert n V) `` (E `` {n} - insert n V))"
  proof (induction rule: rtrancl_induct)
    case base
    then show ?case by simp
  next
    case (step y z)
    show ?case
    proof (cases "z = n")
      case False
      show ?thesis
      proof (cases "y = n")
        case True
        then have "z \<in> E `` {n} - insert n V" using False step.hyps(2) by (auto simp: wedge_def)
        then show ?thesis by blast
      next
        case 2: False
        then obtain m where m: "m \<in> E `` {n} - insert n V" "(m, y) \<in> wreach E (insert n V)"
          using step.IH by blast
        have "(y, z) \<in> wedge E (insert n V)" using step.hyps(2) False 2 by (auto simp: wedge_def)
        with m have "(m, z) \<in> wreach E (insert n V)" by (meson rtrancl.rtrancl_into_rtrancl)
        with m(1) show ?thesis by blast
      qed
    qed simp
  qed
next
  fix y assume "y \<in> insert n (wreach E (insert n V) `` (E `` {n} - insert n V))"
  then consider "y = n" | m where "m \<in> E `` {n} - insert n V" "(m, y) \<in> wreach E (insert n V)"
    by blast
  then show "y \<in> wreach E V `` {n}"
  proof cases
    case 2
    have "(n, m) \<in> wedge E V" using 2(1) assms by (auto simp: wedge_def)
    moreover have "(m, y) \<in> wreach E V"
      using 2(2) wreach_mono [of V "insert n V" E] by blast
    ultimately show ?thesis by (auto intro: converse_rtrancl_into_rtrancl)
  qed simp
qed

lemma wreach_cons:
  assumes A: "A = wreach E V `` {n}" and n: "n \<notin> V"
  shows "wreach E V `` (insert n S - V) = A \<union> wreach E (V \<union> A) `` (S - (V \<union> A))"
proof -
  have cl: "b \<in> A" if "a \<in> A" "(a, b) \<in> wedge E V" for a b
    using that unfolding A by (auto intro: rtrancl_into_rtrancl)
  show ?thesis
  proof (intro equalityI subsetI)
    fix y assume "y \<in> wreach E V `` (insert n S - V)"
    then obtain x where x: "x \<in> insert n S - V" "(x, y) \<in> wreach E V" by blast
    have "y \<in> A \<or> x \<notin> A \<and> (x, y) \<in> wreach E (V \<union> A)"
      by (rule wreach_closed [OF x(2)]) (rule cl)
    moreover have "y \<in> A" if "x = n" using x(2) that A by simp
    ultimately show "y \<in> A \<union> wreach E (V \<union> A) `` (S - (V \<union> A))"
      using x(1) by blast
  next
    fix y assume "y \<in> A \<union> wreach E (V \<union> A) `` (S - (V \<union> A))"
    with n wreach_mono [of V "V \<union> A" E] show "y \<in> wreach E V `` (insert n S - V)"
      unfolding A by blast
  qed
qed


section \<open>Positions in the finish order\<close>

text \<open>\<open>upto L z y\<close>: \<open>y\<close> stands before \<open>z\<close> in \<open>L\<close>, or is \<open>z\<close>.\<close>

definition upto_in :: "'n list \<Rightarrow> 'n \<Rightarrow> 'n \<Rightarrow> bool" where
  "upto_in L z y \<longleftrightarrow> (\<exists>pre post. L = pre @ z # post \<and> y \<in> set (pre @ [z]))"

lemma upto_in_left: "upto_in L1 z y \<Longrightarrow> upto_in (L1 @ L2) z y"
  unfolding upto_in_def by (metis append.assoc append_Cons)

lemma upto_in_cross: "z \<in> set L2 \<Longrightarrow> y \<in> set L1 \<Longrightarrow> upto_in (L1 @ L2) z y"
  unfolding upto_in_def by (metis Un_iff append.assoc set_append split_list)

lemma upto_in_right: "upto_in L2 z y \<Longrightarrow> upto_in (L1 @ L2) z y"
  unfolding upto_in_def by (metis Un_iff append.assoc set_append)

lemma upto_in_last: "y \<in> set (L @ [n]) \<Longrightarrow> upto_in (L @ [n]) n y"
  by (auto simp: upto_in_def)

lemma upto_in_mem: "upto_in L z y \<Longrightarrow> z \<in> set L"
  by (auto simp: upto_in_def)

text \<open>
  The property of a finish order that Kosaraju's second pass needs: whatever \<open>x\<close> reaches has
  finished no later than some node of the component of \<open>x\<close>.
\<close>

definition finish_order :: "('n \<times> 'n) set \<Rightarrow> 'n set \<Rightarrow> 'n list \<Rightarrow> bool" where
  "finish_order E V L \<longleftrightarrow> (\<forall>x \<in> set L. \<forall>y. (x, y) \<in> wreach E V \<longrightarrow>
     (\<exists>z. (x, z) \<in> wreach E V \<and> (z, x) \<in> wreach E V \<and> upto_in L z y))"

lemma finish_order_node:
  assumes L: "finish_order E (insert n V) L" and n: "n \<notin> V"
    and set: "insert n (set L) = wreach E V `` {n}"
  shows "finish_order E V (L @ [n])"
  unfolding finish_order_def
proof (intro ballI allI impI)
  fix x y assume x: "x \<in> set (L @ [n])" and xy: "(x, y) \<in> wreach E V"
  have nx: "(n, x) \<in> wreach E V" using x set by auto
  have mono: "wreach E (insert n V) \<subseteq> wreach E V" by (rule wreach_mono) auto
  show "\<exists>z. (x, z) \<in> wreach E V \<and> (z, x) \<in> wreach E V \<and> upto_in (L @ [n]) z y"
  proof (cases "(x, n) \<in> wreach E V")
    case True
    from nx xy have "(n, y) \<in> wreach E V" by (rule rtrancl_trans)
    then have "y \<in> set (L @ [n])" using set by auto
    with True nx show ?thesis by (blast intro: upto_in_last)
  next
    case False
    then have "x \<in> set L" "(x, y) \<in> wreach E (insert n V)"
      using x wreach_through [OF xy, of n] by auto
    with L obtain z where "(x, z) \<in> wreach E (insert n V)" "(z, x) \<in> wreach E (insert n V)"
      "upto_in L z y"
      unfolding finish_order_def by blast
    with mono show ?thesis by (blast intro: upto_in_left)
  qed
qed

lemma finish_order_append:
  assumes L1: "finish_order E V L1" and L2: "finish_order E (V \<union> set L1) L2"
    and cl: "\<And>a b. a \<in> set L1 \<Longrightarrow> (a, b) \<in> wedge E V \<Longrightarrow> b \<in> set L1"
  shows "finish_order E V (L1 @ L2)"
  unfolding finish_order_def
proof (intro ballI allI impI)
  fix x y assume x: "x \<in> set (L1 @ L2)" and xy: "(x, y) \<in> wreach E V"
  have mono: "wreach E (V \<union> set L1) \<subseteq> wreach E V" by (rule wreach_mono) auto
  have alt: "y \<in> set L1 \<or> x \<notin> set L1 \<and> (x, y) \<in> wreach E (V \<union> set L1)"
    by (rule wreach_closed [OF xy]) (rule cl)
  show "\<exists>z. (x, z) \<in> wreach E V \<and> (z, x) \<in> wreach E V \<and> upto_in (L1 @ L2) z y"
  proof (cases "x \<in> set L1")
    case True
    with L1 xy show ?thesis unfolding finish_order_def by (blast intro: upto_in_left)
  next
    case False
    with x have x2: "x \<in> set L2" by simp
    show ?thesis
    proof (cases "y \<in> set L1")
      case True
      with x2 show ?thesis by (blast intro: upto_in_cross)
    next
      case 2: False
      with alt have "(x, y) \<in> wreach E (V \<union> set L1)" by blast
      with L2 x2 mono show ?thesis unfolding finish_order_def by (blast intro: upto_in_right)
    qed
  qed
qed

section \<open>Correctness of the two searches\<close>

definition edges :: "'n graph \<Rightarrow> ('n \<times> 'n) set" where
  "edges g = {(a, b). \<exists>ns. map_of g a = Some ns \<and> b \<in> set ns}"

lemma edges_Image: "edges g `` {a} = (case map_of g a of None \<Rightarrow> {} | Some ns \<Rightarrow> set ns)"
  by (auto simp: edges_def split: option.splits)

lemma closed_wreach:
  "\<lbrakk>a \<in> wreach E V `` S; (a, b) \<in> wedge E V\<rbrakk> \<Longrightarrow> b \<in> wreach E V `` S"
  by (auto intro: rtrancl_into_rtrancl)

definition dfs_found :: "('n \<times> 'n) set \<Rightarrow> 'n set \<Rightarrow> 'n set \<Rightarrow> 'n list \<Rightarrow> bool" where
  "dfs_found E V A L \<longleftrightarrow> distinct L \<and> set L \<inter> V = {} \<and> set L = A \<and> finish_order E V L"

lemma dfs_found_node:
  assumes "dfs_found E (insert n V) (wreach E (insert n V) `` (E `` {n} - insert n V)) L" "n \<notin> V"
  shows "dfs_found E V (wreach E V `` {n}) (L @ [n])"
proof -
  have "insert n (set L) = wreach E V `` {n}"
    using assms wreach_node [OF assms(2), of E] by (simp add: dfs_found_def)
  with assms show ?thesis by (auto simp: dfs_found_def intro!: finish_order_node)
qed

lemma dfs_found_append:
  assumes L1: "dfs_found E V (wreach E V `` {n}) L1" and n: "n \<notin> V"
    and L2: "dfs_found E (V \<union> set L1) (wreach E (V \<union> set L1) `` (S - (V \<union> set L1))) L2"
  shows "dfs_found E V (wreach E V `` (insert n S - V)) (L1 @ L2)"
proof -
  have set1: "set L1 = wreach E V `` {n}" using L1 by (simp add: dfs_found_def)
  have "finish_order E V (L1 @ L2)"
  proof (rule finish_order_append)
    show "b \<in> set L1" if "a \<in> set L1" "(a, b) \<in> wedge E V" for a b
      using that closed_wreach [of a E V "{n}" b] set1 by simp
  qed (use L1 L2 in \<open>auto simp: dfs_found_def\<close>)
  moreover have "set (L1 @ L2) = wreach E V `` (insert n S - V)"
    using wreach_cons [OF set1 n, of S] L2 by (simp add: dfs_found_def)
  moreover have "distinct (L1 @ L2)" "set (L1 @ L2) \<inter> V = {}"
    using L1 L2 unfolding dfs_found_def by (simp, blast)+
  ultimately show ?thesis by (simp add: dfs_found_def)
qed

lemma dfs_forward_correct:
  "\<forall>xs. set (it xs) = set xs \<Longrightarrow> node \<notin> visited \<Longrightarrow>
     \<exists>L. dfs_forward cmp it g node visited finish = (visited \<union> set L, finish @ L)
       \<and> dfs_found (edges g) visited (wreach (edges g) visited `` {node}) L"
  "\<forall>xs. set (it xs) = set xs \<Longrightarrow>
     \<exists>L. dfs_forward_each cmp it g nodes visited finish = (visited \<union> set L, finish @ L)
       \<and> dfs_found (edges g) visited (wreach (edges g) visited `` (set nodes - visited)) L"
proof (induction cmp it g node visited finish and cmp it g nodes visited finish
    rule: dfs_forward_dfs_forward_each.induct)
  case (1 cmp it g node visited finish)
  show ?case
  proof (cases "map_of g node")
    case None
    then have "edges g `` {node} = {}" by (simp add: edges_Image)
    then have "dfs_found (edges g) (insert node visited)
        (wreach (edges g) (insert node visited) `` (edges g `` {node} - insert node visited)) []"
      by (auto simp: dfs_found_def finish_order_def)
    from dfs_found_node [OF this "1.prems"(2)] None show ?thesis
      by (intro exI [of _ "[node]"]) (auto simp: dfs_forward.simps)
  next
    case (Some ns)
    then have E: "edges g `` {node} = set (sort_by cmp (it ns))"
      using "1.prems"(1) by (simp add: edges_Image)
    obtain L where L: "dfs_forward_each cmp it g (sort_by cmp (it ns)) (insert node visited) finish
        = (insert node visited \<union> set L, finish @ L)"
      "dfs_found (edges g) (insert node visited)
        (wreach (edges g) (insert node visited) `` (edges g `` {node} - insert node visited)) L"
      using "1.IH" [OF Some "1.prems"(1)] unfolding E by blast
    from dfs_found_node [OF L(2) "1.prems"(2)] L(1) Some show ?thesis
      by (intro exI [of _ "L @ [node]"]) (auto simp: dfs_forward.simps)
  qed
next
  case (2 cmp it g visited finish)
  show ?case by (intro exI [of _ "[]"]) (auto simp: dfs_found_def finish_order_def)
next
  case (3 cmp it g neighbor rest visited finish)
  show ?case
  proof (cases "neighbor \<in> visited")
    case True
    then have "set (neighbor # rest) - visited = set rest - visited" by auto
    with "3.IH"(3) True "3.prems" show ?thesis by simp
  next
    case False
    obtain L1 where L1: "dfs_forward cmp it g neighbor visited finish = (visited \<union> set L1, finish @ L1)"
      "dfs_found (edges g) visited (wreach (edges g) visited `` {neighbor}) L1"
      using "3.IH"(1) [OF False "3.prems" False] by blast
    obtain L2 where L2: "dfs_forward_each cmp it g rest (visited \<union> set L1) (finish @ L1)
        = (visited \<union> set L1 \<union> set L2, (finish @ L1) @ L2)"
      "dfs_found (edges g) (visited \<union> set L1)
        (wreach (edges g) (visited \<union> set L1) `` (set rest - (visited \<union> set L1))) L2"
      using "3.IH"(2) [OF False L1(1) [symmetric] refl "3.prems"] by blast
    from dfs_found_append [OF L1(2) False L2(2)] L1(1) L2(1) False show ?thesis
      by (intro exI [of _ "L1 @ L2"]) (auto simp: Un_assoc)
  qed
qed

lemma dfs_reverse_correct:
  "node \<notin> visited \<Longrightarrow>
     \<exists>L. dfs_reverse rg node visited component = (visited \<union> set L, component @ L)
       \<and> distinct L \<and> set L \<inter> visited = {} \<and> set L = wreach (edges rg) visited `` {node}"
  "\<exists>L. dfs_reverse_each rg nodes visited component = (visited \<union> set L, component @ L)
       \<and> distinct L \<and> set L \<inter> visited = {} \<and> set L = wreach (edges rg) visited `` (set nodes - visited)"
proof (induction rg node visited component and rg nodes visited component
    rule: dfs_reverse_dfs_reverse_each.induct)
  case (1 rg node visited component)
  note wn = wreach_node [OF "1.prems", of "edges rg"]
  show ?case
  proof (cases "map_of rg node")
    case None
    then have "edges rg `` {node} = {}" by (simp add: edges_Image)
    with wn None "1.prems" show ?thesis
      by (intro exI [of _ "[node]"]) (auto simp: dfs_reverse.simps)
  next
    case (Some ns)
    then have E: "edges rg `` {node} = set ns" by (simp add: edges_Image)
    obtain L where "dfs_reverse_each rg ns (insert node visited) (component @ [node])
        = (insert node visited \<union> set L, (component @ [node]) @ L)" "distinct L"
      "set L \<inter> insert node visited = {}"
      "set L = wreach (edges rg) (insert node visited) `` (set ns - insert node visited)"
      using "1.IH" [OF Some] by blast
    with wn Some "1.prems" show ?thesis unfolding E
      by (intro exI [of _ "node # L"]) (auto simp: dfs_reverse.simps)
  qed
next
  case (2 rg visited component)
  show ?case by (intro exI [of _ "[]"]) auto
next
  case (3 rg neighbor rest visited component)
  show ?case
  proof (cases "neighbor \<in> visited")
    case True
    then have "set (neighbor # rest) - visited = set rest - visited" by auto
    with "3.IH"(3) True show ?thesis by simp
  next
    case False
    obtain L1 where L1: "dfs_reverse rg neighbor visited component = (visited \<union> set L1, component @ L1)"
      "distinct L1" "set L1 \<inter> visited = {}" "set L1 = wreach (edges rg) visited `` {neighbor}"
      using "3.IH"(1) [OF False False] by blast
    obtain L2 where L2: "dfs_reverse_each rg rest (visited \<union> set L1) (component @ L1)
        = (visited \<union> set L1 \<union> set L2, (component @ L1) @ L2)" "distinct L2"
      "set L2 \<inter> (visited \<union> set L1) = {}"
      "set L2 = wreach (edges rg) (visited \<union> set L1) `` (set rest - (visited \<union> set L1))"
      using "3.IH"(2) [OF False L1(1) [symmetric] refl] by blast
    have "set (L1 @ L2) = wreach (edges rg) visited `` (set (neighbor # rest) - visited)"
      using wreach_cons [OF L1(4) False, of "set rest"] L2(4) by simp
    moreover have "distinct (L1 @ L2)" "set (L1 @ L2) \<inter> visited = {}"
      using L1(2,3) L2(2,3) by auto
    moreover have "dfs_reverse_each rg (neighbor # rest) visited component
        = (visited \<union> set (L1 @ L2), component @ L1 @ L2)"
      using L1(1) L2(1) False by (simp add: Un_assoc)
    ultimately show ?thesis by blast
  qed
qed


section \<open>The reverse graph\<close>

definition graph_on :: "'n list \<Rightarrow> 'n graph \<Rightarrow> bool" where
  "graph_on nodes g \<longleftrightarrow> distinct (map fst g) \<and> set (map fst g) = set nodes
     \<and> edges g \<subseteq> set nodes \<times> set nodes"

lemma edges_mem: "distinct (map fst g) \<Longrightarrow> edges g = {(a, b). \<exists>ns. (a, ns) \<in> set g \<and> b \<in> set ns}"
  by (auto simp: edges_def)

lemma edges_push_edge: "edges (push_edge from to rg) = insert (to, from) (edges rg)"
  by (auto simp: edges_def push_edge_def AList.update_conv' split: if_splits option.splits)

lemma edges_push_edges:
  "edges (fold (push_edge from) tos rg) = edges rg \<union> {(t, from) |t. t \<in> set tos}"
  by (induction tos arbitrary: rg) (auto simp: edges_push_edge)

lemma edges_push_all:
  "edges (fold (\<lambda>(from, tos). fold (push_edge from) (it tos)) gs rg)
     = edges rg \<union> {(t, from) |t from tos. (from, tos) \<in> set gs \<and> t \<in> set (it tos)}"
  by (induction gs arbitrary: rg) (auto simp: edges_push_edges)

lemma map_of_map_snd: "map_of (map (\<lambda>(d, x). (d, f x)) m) k = map_option f (map_of m k)"
  by (induction m) auto

lemma edges_reverse_graph:
  assumes "distinct (map fst g)" "\<forall>xs. set (it xs) = set xs" "set (itg g) = set g"
  shows "edges (reverse_graph cmp it itg nodes g) = (edges g)\<inverse>"
proof -
  have sorted: "edges (map (\<lambda>(d, tos). (d, sort_by cmp tos)) rg) = edges rg" for rg
    by (auto simp: edges_def map_of_map_snd)
  have init: "edges (map (\<lambda>d. (d, [])) ds) = {}" for ds
    by (auto simp: edges_def map_of_map_restrict restrict_map_def split: if_splits)
  show ?thesis
    unfolding reverse_graph_def Let_def sorted edges_push_all init edges_mem [OF assms(1)]
    using assms(2,3) by auto
qed

section \<open>The components\<close>

definition same_scc :: "('n \<times> 'n) set \<Rightarrow> 'n \<Rightarrow> 'n set" where
  "same_scc E r = {x. (x, r) \<in> E\<^sup>* \<and> (r, x) \<in> E\<^sup>*}"

text \<open>
  The state of the second pass: the visited set is closed under predecessors, and the popped
  components are the strongly connected components of what was visited, in topological order.
\<close>

definition scc_inv :: "('n \<times> 'n) set \<Rightarrow> 'n set \<Rightarrow> 'n list list \<Rightarrow> bool" where
  "scc_inv E V cs \<longleftrightarrow> V = set (concat cs) \<and> distinct (concat cs) \<and> [] \<notin> set cs
     \<and> (\<forall>C \<in> set cs. \<forall>r \<in> set C. set C = same_scc E r)
     \<and> (\<forall>x y. (x, y) \<in> E\<^sup>* \<longrightarrow> y \<in> V \<longrightarrow> x \<in> V)
     \<and> sorted_wrt (\<lambda>C D. \<forall>x \<in> set D. \<forall>y \<in> set C. (x, y) \<notin> E\<^sup>*) cs"

lemma wreach_converse: "(b, a) \<in> wreach (E\<inverse>) V \<longleftrightarrow> (a, b) \<in> wreach E V"
proof -
  have "wedge (E\<inverse>) V = (wedge E V)\<inverse>" by (auto simp: wedge_def)
  then show ?thesis by (simp add: rtrancl_converse)
qed

text \<open>One pop: what the reverse search from an unvisited node finds is exactly its component.\<close>

lemma reverse_search_scc:
  assumes fo: "finish_order E {} L" and dist: "distinct L"
    and L: "L = rev rest @ node # P" and P: "set P \<subseteq> V" and node: "node \<notin> V"
    and cl: "\<And>x y. (x, y) \<in> E\<^sup>* \<Longrightarrow> y \<in> V \<Longrightarrow> x \<in> V"
    and nodes: "\<And>x. (x, node) \<in> E\<^sup>* \<Longrightarrow> x \<in> set L"
  shows "wreach (E\<inverse>) V `` {node} = same_scc E node"
    and "\<And>x. (x, node) \<in> E\<^sup>* \<Longrightarrow> x \<in> V \<or> x \<in> same_scc E node"
proof -
  show key: "x \<in> V \<or> x \<in> same_scc E node" if x: "(x, node) \<in> E\<^sup>*" for x
  proof (rule ccontr)
    assume neg: "\<not> ?thesis"
    obtain z where z: "(x, z) \<in> E\<^sup>*" "(z, x) \<in> E\<^sup>*" "upto_in L z node"
      using fo nodes [OF x] x unfolding finish_order_def by auto
    from z(3) obtain pre post where pp: "L = pre @ z # post" "node \<in> set (pre @ [z])"
      unfolding upto_in_def by blast
    have "z \<in> set (node # P)"
    proof (rule ccontr)
      assume nz: "z \<notin> set (node # P)"
      have "z \<in> set (rev rest)" using pp(1) L nz by (metis Un_iff in_set_conv_decomp set_append)
      then obtain a b where ab: "rev rest = a @ z # b" by (meson split_list)
      then have "L = a @ z # (b @ node # P)" using L by simp
      moreover have "z \<notin> set pre" "z \<notin> set post" using pp(1) dist by auto
      ultimately have "pre = a" using pp(1) append_Cons_eq_iff [of z pre post a "b @ node # P"] by simp
      then show False using pp(2) ab dist L nz by auto
    qed
    then consider "z = node" | "z \<in> set P" by auto
    then show False
    proof cases
      assume "z = node" then show False using neg z x by (auto simp: same_scc_def)
    next
      assume "z \<in> set P"
      then show False using neg P cl z(1) by blast
    qed
  qed
  show "wreach (E\<inverse>) V `` {node} = same_scc E node"
  proof (intro equalityI subsetI)
    fix x assume "x \<in> wreach (E\<inverse>) V `` {node}"
    then have w: "(x, node) \<in> wreach E V" using wreach_converse [of node x E V] by simp
    then have "(x, node) \<in> E\<^sup>*" using wreach_mono [of "{}" V E] by auto
    moreover have "x \<notin> V"
      using wreach_notin [of node x "E\<inverse>" V] node w wreach_converse [of node x E V] by blast
    ultimately show "x \<in> same_scc E node" using key by blast
  next
    fix x assume x: "x \<in> same_scc E node"
    have out: "y \<notin> V" if "(x, y) \<in> E\<^sup>*" for y
      using that x cl [of node y] node by (auto simp: same_scc_def dest: rtrancl_trans)
    have "(x, y) \<in> wreach E V" if "(x, y) \<in> E\<^sup>*" for y
      using that
    proof (induction rule: rtrancl_induct)
      case base
      then show ?case by simp
    next
      case (step y z)
      then have "(y, z) \<in> wedge E V"
        using out [of y] out [of z] by (auto simp: wedge_def intro: rtrancl_into_rtrancl)
      with step.IH show ?case by (rule rtrancl_into_rtrancl)
    qed
    then have "(x, node) \<in> wreach E V" using x by (simp add: same_scc_def)
    then show "x \<in> wreach (E\<inverse>) V `` {node}" using wreach_converse [of node x E V] by simp
  qed
qed


lemma same_scc_eq: "x \<in> same_scc E r \<Longrightarrow> same_scc E x = same_scc E r"
  by (auto simp: same_scc_def dest: rtrancl_trans)

lemma scc_inv_step:
  assumes inv: "scc_inv E V cs"
    and C: "set C = same_scc E node" "distinct C" "node \<notin> V"
    and key: "\<And>x. (x, node) \<in> E\<^sup>* \<Longrightarrow> x \<in> V \<or> x \<in> same_scc E node"
  shows "scc_inv E (V \<union> set C) (cs @ [C])"
proof -
  have V: "V = set (concat cs)" and cl: "\<And>x y. (x, y) \<in> E\<^sup>* \<Longrightarrow> y \<in> V \<Longrightarrow> x \<in> V"
    using inv unfolding scc_inv_def by blast+
  have out: "x \<notin> V" if "x \<in> set C" for x
    using that C(1,3) cl [of node x] by (auto simp: same_scc_def)
  have "node \<in> set C" using C(1) by (simp add: same_scc_def)
  then have ne: "C \<noteq> []" by auto
  have "distinct (concat (cs @ [C]))"
    using inv C(2) out unfolding scc_inv_def by (auto simp: V)
  moreover have "\<forall>D \<in> set (cs @ [C]). \<forall>r \<in> set D. set D = same_scc E r"
  proof (intro ballI)
    fix D r assume D: "D \<in> set (cs @ [C])" and r: "r \<in> set D"
    show "set D = same_scc E r"
    proof (cases "D \<in> set cs")
      case True
      with r inv show ?thesis unfolding scc_inv_def by blast
    next
      case False
      with D have "D = C" by simp
      with r C(1) same_scc_eq [of r E node] show ?thesis by simp
    qed
  qed
  moreover have "\<forall>x y. (x, y) \<in> E\<^sup>* \<longrightarrow> y \<in> V \<union> set C \<longrightarrow> x \<in> V \<union> set C"
  proof (intro allI impI)
    fix x y assume xy: "(x, y) \<in> E\<^sup>*" "y \<in> V \<union> set C"
    show "x \<in> V \<union> set C"
    proof (cases "y \<in> V")
      case False
      then have "(x, node) \<in> E\<^sup>*" using xy C(1) by (auto simp: same_scc_def dest: rtrancl_trans)
      with key C(1) show ?thesis by blast
    qed (use cl xy in blast)
  qed
  moreover have "sorted_wrt (\<lambda>C D. \<forall>x \<in> set D. \<forall>y \<in> set C. (x, y) \<notin> E\<^sup>*) (cs @ [C])"
  proof -
    have "\<forall>D \<in> set cs. \<forall>x \<in> set C. \<forall>y \<in> set D. (x, y) \<notin> E\<^sup>*"
    proof (intro ballI notI)
      fix D x y assume "D \<in> set cs" "x \<in> set C" "y \<in> set D" "(x, y) \<in> E\<^sup>*"
      then have "y \<in> V" by (auto simp: V)
      with \<open>(x, y) \<in> E\<^sup>*\<close> have "x \<in> V" by (rule cl)
      with out \<open>x \<in> set C\<close> show False by blast
    qed
    with inv show ?thesis unfolding scc_inv_def by (simp add: sorted_wrt_append)
  qed
  ultimately show ?thesis using inv ne unfolding scc_inv_def by auto
qed

lemma pop_components_correct:
  assumes fo: "finish_order E {} L" and dist: "distinct L" and Eg: "edges rg = E\<inverse>"
    and preds: "\<And>x y. y \<in> set L \<Longrightarrow> (x, y) \<in> E\<^sup>* \<Longrightarrow> x \<in> set L"
  shows "L = rev rest @ P \<Longrightarrow> set P \<subseteq> V \<Longrightarrow> V \<subseteq> set L \<Longrightarrow> scc_inv E V cs \<Longrightarrow>
    scc_inv E (set L) (pop_components rg rest V cs)"
proof (induction rest arbitrary: P V cs)
  case Nil
  then have "V = set L" by auto
  with Nil show ?case by simp
next
  case (Cons node rest)
  have L: "L = rev rest @ node # P" using Cons.prems(1) by simp
  show ?case
  proof (cases "node \<in> V")
    case True
    with Cons.IH [of "node # P" V cs] Cons.prems L show ?thesis by simp
  next
    case False
    have cl: "\<And>x y. (x, y) \<in> E\<^sup>* \<Longrightarrow> y \<in> V \<Longrightarrow> x \<in> V"
      using Cons.prems(4) unfolding scc_inv_def by blast
    have nodes: "\<And>x. (x, node) \<in> E\<^sup>* \<Longrightarrow> x \<in> set L" using preds [of node] L by auto
    note scc = reverse_search_scc [OF fo dist L Cons.prems(2) False cl nodes]
    obtain C where C: "dfs_reverse rg node V [] = (V \<union> set C, [] @ C)" "distinct C"
      "set C = same_scc E node"
      using dfs_reverse_correct(1) [OF False, of rg "[]"] scc(1) unfolding Eg by auto
    have "scc_inv E (V \<union> set C) (cs @ [C])"
      by (rule scc_inv_step [OF Cons.prems(4) C(3,2) False scc(2)])
    moreover have "set (node # P) \<subseteq> V \<union> set C" "V \<union> set C \<subseteq> set L"
      using Cons.prems C(3) nodes by (auto simp: same_scc_def)
    ultimately show ?thesis using Cons.IH [of "node # P" "V \<union> set C" "cs @ [C]"] L C(1) False by simp
  qed
qed

text \<open>
  \<open>find_scc\<close>: the components partition the nodes, each is a strongly connected component, and they
  come in topological order (no path leads from a later component to an earlier one).
\<close>

lemma find_scc_correct:
  assumes g: "graph_on nodes g"
    and it: "\<forall>xs. set (it xs) = set xs" and itg: "set (itg g) = set g"
  shows "scc_inv (edges g) (set nodes) (find_scc cmp it itg nodes g)"
proof -
  let ?E = "edges g"
  obtain L where L: "dfs_forward_each cmp it g nodes {} [] = (set L, L)"
    "dfs_found ?E {} (?E\<^sup>* `` set nodes) L"
    using dfs_forward_correct(2) [OF it, of cmp g nodes "{}" "[]"] by auto
  have nodes: "?E\<^sup>* `` set nodes = set nodes"
  proof (intro equalityI subsetI)
    fix y assume "y \<in> ?E\<^sup>* `` set nodes"
    then obtain x where "(x, y) \<in> ?E\<^sup>*" "x \<in> set nodes" by blast
    then show "y \<in> set nodes"
      using g by (induction rule: rtrancl_induct) (auto simp: graph_on_def)
  qed auto
  have setL: "set L = set nodes" and dist: "distinct L" and fo: "finish_order ?E {} L"
    using L(2) nodes by (auto simp: dfs_found_def)
  have rg: "edges (reverse_graph cmp it itg nodes g) = ?E\<inverse>"
    using g it itg by (intro edges_reverse_graph) (auto simp: graph_on_def)
  have preds: "x \<in> set L" if "y \<in> set L" "(x, y) \<in> ?E\<^sup>*" for x y
    using that(2,1) g setL by (induction rule: converse_rtrancl_induct) (auto simp: graph_on_def)
  have init: "scc_inv ?E {} []" by (simp add: scc_inv_def)
  have "scc_inv ?E (set L) (pop_components (reverse_graph cmp it itg nodes g) (rev L) {} [])"
    by (rule pop_components_correct [OF fo dist rg preds, where P = "[]"]) (use init in auto)
  then show ?thesis by (simp add: find_scc_def L(1) setL)
qed

end
