(* ===== verification/MrvSort.thy ===== *)
theory MrvSort
  imports MrvOrder MrvGraph
begin

text \<open>
  \<open>sort_batch\<close> of \<open>mrv_executor/src/lib.rs\<close>: the precedence graph of the pair verdicts, its
  condensation into components and the topological completion by \<open>compare_components\<close>. Every
  \<open>expect\<close>, every index and the subtraction of the in-degree is a panic branch.
\<close>

section \<open>The code\<close>

text \<open>
  The iteration orders of the hash containers: any rearrangement of the entries, one function per
  kind of container.
\<close>

record hash_order =
  ord_digests :: "digest list \<Rightarrow> digest list"
  ord_graph :: "digest graph \<Rightarrow> digest graph"
  ord_indices :: "nat list \<Rightarrow> nat list"
  ord_degrees :: "(nat \<times> nat) list \<Rightarrow> (nat \<times> nat) list"

definition hash_order_ok :: "hash_order \<Rightarrow> bool" where
  "hash_order_ok h \<longleftrightarrow> (\<forall>xs. mset (ord_digests h xs) = mset xs) \<and> (\<forall>xs. mset (ord_graph h xs) = mset xs)
     \<and> (\<forall>xs. mset (ord_indices h xs) = mset xs) \<and> (\<forall>xs. mset (ord_degrees h xs) = mset xs)"


definition vec_index :: "'a list \<Rightarrow> nat \<Rightarrow> 'a res" where
  "vec_index xs i = (if i < length xs then Inr (xs ! i) else Inl IndexMissing)"

definition map_index :: "('k \<times> 'v) list \<Rightarrow> 'k \<Rightarrow> 'v res" where
  "map_index m k = (case map_of m k of None \<Rightarrow> Inl IndexMissing | Some v \<Rightarrow> Inr v)"

text \<open>\<open>graph.get_mut(a).expect("node must exist").insert(b)\<close>.\<close>

definition graph_insert :: "string \<Rightarrow> 'n \<Rightarrow> 'n \<Rightarrow> 'n graph \<Rightarrow> 'n graph res" where
  "graph_insert msg a b g = bindR (expect msg (map_of g a)) (\<lambda>s. Inr (AList.update a (List.insert b s) g))"

definition pair_edge :: "mrv_state \<Rightarrow> digest \<Rightarrow> digest \<Rightarrow> digest graph \<Rightarrow> digest graph res" where
  "pair_edge st a b g =
     bindR (compare_pair st a b) (\<lambda>v. case v of
       ABetter \<Rightarrow> graph_insert ''node must exist'' a b g
     | BBetter \<Rightarrow> graph_insert ''node must exist'' b a g
     | Tie \<Rightarrow> Inr g)"

text \<open>The two nested loops over the positions \<open>i < j\<close> of \<open>nodes\<close>.\<close>

definition precedence_graph :: "mrv_state \<Rightarrow> digest list \<Rightarrow> digest graph res" where
  "precedence_graph st nodes =
     foldR (\<lambda>i. foldR (\<lambda>j. pair_edge st (nodes ! i) (nodes ! j)) [Suc i..<length nodes])
       [0..<length nodes] (map (\<lambda>d. (d, [])) (remdups nodes))"

definition component_index :: "digest list list \<Rightarrow> (digest \<times> nat) list" where
  "component_index components =
     fold (\<lambda>(idx, component). fold (\<lambda>d. AList.update d idx) component) (enumerate 0 components) []"

text \<open>
  One edge of the precedence graph seen between components: \<open>insert\<close> into the successor set of the
  source component and, when it is new, count it at the target.
\<close>

definition link_components :: "(digest \<times> nat) list \<Rightarrow> digest \<Rightarrow> digest \<Rightarrow>
    nat graph \<times> (nat \<times> nat) list \<Rightarrow> (nat graph \<times> (nat \<times> nat) list) res" where
  "link_components nc from to s =
     bindR (map_index nc from) (\<lambda>from_component.
     bindR (map_index nc to) (\<lambda>to_component.
     if from_component = to_component then Inr s
     else
       bindR (expect ''component must exist'' (map_of (fst s) from_component)) (\<lambda>succs.
       if to_component \<in> set succs then Inr s
       else
         bindR (expect ''component must exist'' (map_of (snd s) to_component)) (\<lambda>degree.
         Inr (AList.update from_component (List.insert to_component succs) (fst s),
              AList.update to_component (degree + 1) (snd s))))))"

definition condensation :: "hash_order \<Rightarrow> digest graph \<Rightarrow> (digest \<times> nat) list \<Rightarrow> nat \<Rightarrow>
    (nat graph \<times> (nat \<times> nat) list) res" where
  "condensation h g nc n =
     foldR (\<lambda>(from, tos). foldR (link_components nc from) (ord_digests h tos)) (ord_graph h g)
       (map (\<lambda>i. (i, [])) [0..<n], map (\<lambda>i. (i, 0)) [0..<n])"

text \<open>The decrement of one successor's in-degree; a component whose degree reaches zero is ready.\<close>

definition release_successor :: "nat \<Rightarrow> (nat \<times> nat) list \<times> nat list \<Rightarrow>
    ((nat \<times> nat) list \<times> nat list) res" where
  "release_successor nx s =
     bindR (expect ''component must exist'' (map_of (fst s) nx)) (\<lambda>degree.
     if degree = 0 then Inl Underflow
     else Inr (AList.update nx (degree - 1) (fst s),
               if degree - 1 = 0 then snd s @ [nx] else snd s))"

definition positive_degrees :: "(nat \<times> nat) list \<Rightarrow> nat" where
  "positive_degrees deg = length (filter (\<lambda>(_, d). 0 < d) deg)"

lemma positive_degrees_update:
  "map_of deg k = Some d \<Longrightarrow> 0 < d \<Longrightarrow>
     positive_degrees (AList.update k (d - 1) deg) + (if d - 1 = 0 then 1 else 0) = positive_degrees deg"
  by (induction deg) (auto simp: positive_degrees_def)

lemma release_successors_measure:
  "foldR release_successor nxs (deg, ready) = Inr (deg', ready') \<Longrightarrow>
     positive_degrees deg' + length ready' = positive_degrees deg + length ready"
proof (induction nxs arbitrary: deg ready)
  case Nil
  then show ?case by simp
next
  case (Cons nx nxs)
  then obtain d where d: "map_of deg nx = Some d" "0 < d"
    by (cases "map_of deg nx") (auto simp: release_successor_def split: if_splits)
  let ?rdy = "if d - 1 = 0 then ready @ [nx] else ready"
  have "release_successor nx (deg, ready) = Inr (AList.update nx (d - 1) deg, ?rdy)"
    using d by (simp add: release_successor_def)
  with Cons.prems have "foldR release_successor nxs (AList.update nx (d - 1) deg, ?rdy) = Inr (deg', ready')"
    by simp
  from Cons.IH [OF this] show ?case
    using positive_degrees_update [OF d] by (simp split: if_splits)
qed

function emit_components :: "hash_order \<Rightarrow> mrv_state \<Rightarrow> digest list list \<Rightarrow> nat graph \<Rightarrow>
    (nat \<times> nat) list \<Rightarrow> nat list \<Rightarrow> digest list \<Rightarrow> digest list res" where
  "emit_components h st components cg degree ready result =
     (if ready = [] then Inr result
      else
        bindR (sort_byR (\<lambda>a b. bindR (vec_index components a) (\<lambda>ca.
                 bindR (vec_index components b) (\<lambda>cb. compare_components st ca cb))) ready) (\<lambda>sorted.
        case sorted of [] \<Rightarrow> Inl IndexMissing | current # rest \<Rightarrow>
          bindR (vec_index components current) (\<lambda>component_members.
          let result = result @ sort_by (tie_break st) component_members;
              next_components = sort (case map_of cg current of None \<Rightarrow> [] | Some s \<Rightarrow> ord_indices h s)
          in bindR (foldR release_successor next_components (degree, rest)) (\<lambda>(degree, ready).
             emit_components h st components cg degree ready result))))"
  by pat_completeness auto

lemma insert_byR_length: "insert_byR cmp x ys = Inr zs \<Longrightarrow> length zs = Suc (length ys)"
  by (induction ys arbitrary: zs) (auto simp: bindR_Inr_iff split: if_splits)

lemma sort_byR_length: "sort_byR cmp xs = Inr ys \<Longrightarrow> length ys = length xs"
  by (induction xs arbitrary: ys) (auto simp: bindR_Inr_iff dest: insert_byR_length)

termination emit_components
proof (relation "measure (\<lambda>(h, st, components, cg, degree, ready, result).
    positive_degrees degree + length ready)", goal_cases)
  case 1
  show ?case by simp
next
  case (2 h st components cg degree ready result sorted current rest ms result' nxs x degree' ready')
  then have "length (current # rest) = length ready" by (auto dest: sort_byR_length)
  moreover have "positive_degrees degree' + length ready' = positive_degrees degree + length rest"
    using 2 by (auto dest: release_successors_measure)
  ultimately show ?case by simp
qed

declare emit_components.simps [simp del]

definition sort_batch :: "hash_order \<Rightarrow> mrv_state \<Rightarrow> digest list \<Rightarrow> digest list res" where
  "sort_batch h st ms =
     (if length ms \<le> 1 then Inr ms
      else
        let nodes = sort_by (tie_break st) ms in
        bindR (precedence_graph st nodes) (\<lambda>graph.
        let components = find_scc (tie_break st) (ord_digests h) (ord_graph h) nodes graph;
            node_to_component = component_index components in
        bindR (condensation h graph node_to_component (length components))
          (\<lambda>(component_graph, component_indegree).
        let ready = map fst (filter (\<lambda>(_, degree). degree = 0) (ord_degrees h component_indegree))
        in emit_components h st components component_graph component_indegree ready [])))"

lemma hash_order_set:
  assumes "hash_order_ok h"
  shows "set (ord_digests h xs) = set xs" "set (ord_graph h g) = set g"
    "set (ord_indices h ns) = set ns" "set (ord_degrees h ds) = set ds"
  using assms unfolding hash_order_ok_def by (metis set_mset_mset)+

section \<open>The precedence graph\<close>

definition beats :: "mrv_state \<Rightarrow> digest set \<Rightarrow> (digest \<times> digest) set" where
  "beats st M = {(a, b). a \<in> M \<and> b \<in> M \<and> verdict st a b = ABetter}"

definition pair_edges :: "mrv_state \<Rightarrow> digest \<Rightarrow> digest \<Rightarrow> (digest \<times> digest) set" where
  "pair_edges st a b = (case verdict st a b of ABetter \<Rightarrow> {(a, b)} | BBetter \<Rightarrow> {(b, a)} | Tie \<Rightarrow> {})"

definition graph_wf :: "'n list \<Rightarrow> 'n graph \<Rightarrow> bool" where
  "graph_wf nodes g \<longleftrightarrow> graph_on nodes g \<and> (\<forall>(a, ns) \<in> set g. distinct ns)"

lemma graph_insert_ok:
  assumes "graph_wf nodes g" "a \<in> set nodes" "b \<in> set nodes"
  shows "\<exists>g'. graph_insert msg a b g = Inr g' \<and> graph_wf nodes g' \<and> edges g' = insert (a, b) (edges g)
    \<and> map fst g' = map fst g"
proof -
  have key: "a \<in> set (map fst g)" using assms by (simp add: graph_wf_def graph_on_def)
  then obtain s where s: "map_of g a = Some s" using map_of_Some_iff [of g a] by auto
  let ?g = "AList.update a (List.insert b s) g"
  have keys: "map fst ?g = map fst g" by (rule update_keys [OF key])
  have E: "edges ?g = insert (a, b) (edges g)"
    using s by (auto simp: edges_def AList.update_conv' split: if_splits)
  have "distinct (List.insert b s)"
    using assms(1) map_of_SomeD [OF s] by (auto simp: graph_wf_def)
  then have "\<forall>(a, ns) \<in> set ?g. distinct ns"
    using assms(1) set_update_subset [of a "List.insert b s" g] by (auto simp: graph_wf_def)
  moreover have "graph_on nodes ?g"
    unfolding graph_on_def keys E using assms by (auto simp: graph_wf_def graph_on_def)
  ultimately show ?thesis using s keys E by (auto simp: graph_insert_def graph_wf_def)
qed

lemma pair_edge_ok:
  assumes "horizon_ok st" "graph_wf nodes g" "a \<in> set nodes" "b \<in> set nodes"
  shows "\<exists>g'. pair_edge st a b g = Inr g' \<and> graph_wf nodes g' \<and> edges g' = edges g \<union> pair_edges st a b"
  using graph_insert_ok [OF assms(2,3,4), of "''node must exist''"]
    graph_insert_ok [OF assms(2,4,3), of "''node must exist''"] assms(2)
  by (cases "verdict st a b")
    (auto simp: pair_edge_def compare_pair_verdict [OF assms(1)] pair_edges_def)

text \<open>A loop that keeps an invariant and adds to what it has collected.\<close>

lemma foldR_collect:
  assumes "\<And>x s. x \<in> set xs \<Longrightarrow> P s \<Longrightarrow> \<exists>s'. f x s = Inr s' \<and> P s' \<and> q s' = q s \<union> r x"
    and "P s"
  shows "\<exists>s'. foldR f xs s = Inr s' \<and> P s' \<and> q s' = q s \<union> (\<Union>x \<in> set xs. r x)"
  using assms
proof (induction xs arbitrary: s)
  case Nil
  then show ?case by simp
next
  case (Cons x xs)
  obtain s1 where s1: "f x s = Inr s1" "P s1" "q s1 = q s \<union> r x"
    using Cons.prems(1) [of x s] Cons.prems(2) by auto
  obtain s2 where "foldR f xs s1 = Inr s2" "P s2" "q s2 = q s1 \<union> (\<Union>x \<in> set xs. r x)"
    using Cons.IH [OF Cons.prems(1) s1(2)] by auto
  with s1 show ?case by (auto simp: Un_assoc)
qed

lemma precedence_graph_ok:
  assumes ok: "horizon_ok st" and delta: "0 < delta_threshold st"
  shows "\<exists>g. precedence_graph st nodes = Inr g \<and> graph_wf nodes g \<and> edges g = beats st (set nodes)"
proof -
  let ?pairs = "\<lambda>i. \<Union>j \<in> set [Suc i..<length nodes]. pair_edges st (nodes ! i) (nodes ! j)"
  let ?init = "map (\<lambda>d. (d, [])) (remdups nodes)"
  have init: "graph_wf nodes ?init" "edges ?init = {}"
    by (auto simp: graph_wf_def graph_on_def edges_def map_of_map_restrict restrict_map_def comp_def split: if_splits)
  have inner: "\<exists>g'. foldR (\<lambda>j. pair_edge st (nodes ! i) (nodes ! j)) [Suc i..<length nodes] g = Inr g'
      \<and> graph_wf nodes g' \<and> edges g' = edges g \<union> ?pairs i"
    if "i \<in> set [0..<length nodes]" "graph_wf nodes g" for i g
    using that by (intro foldR_collect) (auto intro: pair_edge_ok [OF ok])
  obtain g where g: "precedence_graph st nodes = Inr g" "graph_wf nodes g"
    "edges g = (\<Union>i \<in> set [0..<length nodes]. ?pairs i)"
    using foldR_collect [of "[0..<length nodes]" "graph_wf nodes" _ edges ?pairs ?init, OF inner init(1)]
    unfolding precedence_graph_def init(2) by auto
  have "(a, b) \<in> edges g \<longleftrightarrow> (a, b) \<in> beats st (set nodes)" for a b
  proof
    assume "(a, b) \<in> edges g"
    then obtain i j where ij: "i < j" "j < length nodes" "(a, b) \<in> pair_edges st (nodes ! i) (nodes ! j)"
      by (auto simp: g(3) Suc_le_eq)
    show "(a, b) \<in> beats st (set nodes)"
    proof (cases "verdict st (nodes ! i) (nodes ! j)")
      case BBetter
      with verdict_swap [OF delta ok, of "nodes ! j" "nodes ! i"] ij show ?thesis
        by (simp add: pair_edges_def beats_def)
    qed (use ij in \<open>auto simp: pair_edges_def beats_def\<close>)
  next
    assume ab: "(a, b) \<in> beats st (set nodes)"
    then obtain i j where ij: "i < length nodes" "j < length nodes" "nodes ! i = a" "nodes ! j = b"
      by (auto simp: beats_def in_set_conv_nth)
    have v: "verdict st a b = ABetter" "verdict st b a = BBetter"
      using ab verdict_swap [OF delta ok, of b a] by (auto simp: beats_def)
    have "i \<noteq> j" using v verdict_self [OF delta ok, of a] ij by auto
    then consider "i < j" | "j < i" by linarith
    then show "(a, b) \<in> edges g"
    proof cases
      case 1
      then have "(a, b) \<in> pair_edges st (nodes ! i) (nodes ! j)" using ij v by (simp add: pair_edges_def)
      with 1 ij show ?thesis unfolding g(3) by (intro UN_I [of i] UN_I [of j]) auto
    next
      case 2
      then have "(a, b) \<in> pair_edges st (nodes ! j) (nodes ! i)" using ij v by (simp add: pair_edges_def)
      with 2 ij show ?thesis unfolding g(3) by (intro UN_I [of j] UN_I [of i]) auto
    qed
  qed
  then have "edges g = beats st (set nodes)" by auto
  with g show ?thesis by blast
qed

section \<open>The condensation\<close>

lemma fold_update_index:
  "map_of (fold (\<lambda>d. AList.update d i) ds m) d = (if d \<in> set ds then Some i else map_of m d)"
  by (induction ds arbitrary: m) (auto simp: AList.update_conv')

lemma component_index_gen:
  assumes "distinct (concat cs)" "k < length cs" "d \<in> set (cs ! k)"
  shows "map_of (fold (\<lambda>(idx, component). fold (\<lambda>d. AList.update d idx) component) (enumerate s cs) m) d
    = Some (s + k)"
  using assms
proof (induction cs arbitrary: s k m)
  case Nil
  then show ?case by simp
next
  case (Cons c cs)
  have keep: "map_of (fold (\<lambda>(idx, component). fold (\<lambda>d. AList.update d idx) component) (enumerate s' cs') m') d
      = map_of m' d" if "d \<notin> set (concat cs')" for s' cs' m'
    using that by (induction cs' arbitrary: s' m') (auto simp: fold_update_index)
  show ?case
  proof (cases k)
    case 0
    then have "d \<notin> set (concat cs)" using Cons.prems by auto
    with 0 Cons.prems show ?thesis by (simp add: keep fold_update_index)
  next
    case (Suc k')
    with Cons.prems Cons.IH [of k' "Suc s"] show ?thesis by simp
  qed
qed

lemma component_index_of:
  "distinct (concat cs) \<Longrightarrow> k < length cs \<Longrightarrow> d \<in> set (cs ! k) \<Longrightarrow> map_of (component_index cs) d = Some k"
  using component_index_gen [of cs k d 0 "[]"] by (simp add: component_index_def)

text \<open>
  The two tables over \<open>n\<close> components for a set \<open>L\<close> of links: the successors of each and the number
  of predecessors of each.
\<close>

definition condensed :: "nat \<Rightarrow> (nat \<times> nat) set \<Rightarrow> nat graph \<times> (nat \<times> nat) list \<Rightarrow> bool" where
  "condensed n L s \<longleftrightarrow> graph_wf [0..<n] (fst s) \<and> edges (fst s) = L
     \<and> map fst (snd s) = [0..<n] \<and> (\<forall>j<n. map_of (snd s) j = Some (card {i. (i, j) \<in> L}))"

lemma edges_lookup: "map_of g a = Some ns \<Longrightarrow> b \<in> set ns \<longleftrightarrow> (a, b) \<in> edges g"
  by (simp add: edges_def)

lemma link_components_ok:
  assumes c: "condensed n L s" and L: "L \<subseteq> {..<n} \<times> {..<n}"
    and ij: "map_of nc from = Some i" "map_of nc to = Some j" "i < n" "j < n"
  shows "\<exists>s'. link_components nc from to s = Inr s' \<and> condensed n (L \<union> ({(i, j)} - Id)) s'"
proof (cases "i = j")
  case True
  then have "L \<union> ({(i, j)} - Id) = L" by auto
  with True c ij show ?thesis by (simp add: link_components_def map_index_def)
next
  case ne: False
  have wf: "graph_wf [0..<n] (fst s)" and E: "edges (fst s) = L" and keys: "map fst (snd s) = [0..<n]"
    using c by (auto simp: condensed_def)
  obtain succs where sc: "map_of (fst s) i = Some succs"
    using map_of_Some_iff [of "fst s" i] wf ij(3) by (auto simp: graph_wf_def graph_on_def)
  have mem: "j \<in> set succs \<longleftrightarrow> (i, j) \<in> L" using edges_lookup [OF sc] E by simp
  have dj: "map_of (snd s) j = Some (card {i. (i, j) \<in> L})" using c ij(4) by (simp add: condensed_def)
  show ?thesis
  proof (cases "(i, j) \<in> L")
    case True
    then have "L \<union> ({(i, j)} - Id) = L" by auto
    with True ne c ij sc mem show ?thesis by (simp add: link_components_def map_index_def)
  next
    case False
    let ?g = "AList.update i (List.insert j succs) (fst s)"
    let ?d = "AList.update j (card {i. (i, j) \<in> L} + 1) (snd s)"
    have eq: "L \<union> ({(i, j)} - Id) = insert (i, j) L" using ne by auto
    obtain g' where "graph_insert [] i j (fst s) = Inr g'" "graph_wf [0..<n] g'" "edges g' = insert (i, j) L"
      using graph_insert_ok [OF wf, of i j "[]"] ij E by auto
    then have g: "graph_wf [0..<n] ?g" "edges ?g = insert (i, j) L"
      by (auto simp: graph_insert_def sc)
    have "j \<in> set (map fst (snd s))" using keys ij(4) by simp
    then have kd: "map fst ?d = [0..<n]" using keys by (simp add: update_keys)
    have fin: "finite {k. (k, j) \<in> L}" by (rule finite_subset [of _ "{..<n}"]) (use L in auto)
    have pre_j: "{k. (k, j) \<in> insert (i, j) L} = insert i {k. (k, j) \<in> L}" by auto
    have "card {k. (k, j) \<in> insert (i, j) L} = card {k. (k, j) \<in> L} + 1"
      unfolding pre_j using fin False by (subst card_insert_disjoint) auto
    moreover have "{k. (k, m) \<in> insert (i, j) L} = {k. (k, m) \<in> L}" if "m \<noteq> j" for m
      using that by auto
    ultimately have "\<forall>m<n. map_of ?d m = Some (card {k. (k, m) \<in> insert (i, j) L})"
      using c by (simp add: AList.update_conv' condensed_def)
    with g kd have "condensed n (insert (i, j) L) (?g, ?d)" by (simp add: condensed_def)
    with ne False ij sc mem dj show ?thesis
      by (simp add: link_components_def map_index_def eq)
  qed
qed

definition links :: "(digest \<times> nat) list \<Rightarrow> (digest \<times> digest) set \<Rightarrow> (nat \<times> nat) set" where
  "links nc E = {(i, j). i \<noteq> j \<and> (\<exists>(a, b) \<in> E. map_of nc a = Some i \<and> map_of nc b = Some j)}"

definition condensed_ok :: "nat \<Rightarrow> nat graph \<times> (nat \<times> nat) list \<Rightarrow> bool" where
  "condensed_ok n s \<longleftrightarrow> condensed n (edges (fst s)) s \<and> edges (fst s) \<subseteq> {..<n} \<times> {..<n}"

lemma link_components_collect:
  assumes "condensed_ok n s" "map_of nc from = Some i" "map_of nc to = Some j" "i < n" "j < n"
  shows "\<exists>s'. link_components nc from to s = Inr s' \<and> condensed_ok n s'
    \<and> edges (fst s') = edges (fst s) \<union> links nc {(from, to)}"
proof -
  have "links nc {(from, to)} = {(i, j)} - Id" using assms(2,3) by (auto simp: links_def)
  moreover obtain s' where s': "link_components nc from to s = Inr s'"
    "condensed n (edges (fst s) \<union> ({(i, j)} - Id)) s'"
    using link_components_ok [of n "edges (fst s)" s nc "from" i to j] assms by (auto simp: condensed_ok_def)
  moreover from s'(2) have "edges (fst s') = edges (fst s) \<union> ({(i, j)} - Id)"
    by (simp add: condensed_def)
  ultimately show ?thesis using assms by (auto simp: condensed_ok_def)
qed

lemma links_UN: "links nc (\<Union>x \<in> X. F x) = (\<Union>x \<in> X. links nc (F x))"
  by (auto simp: links_def)

lemma condensation_ok:
  assumes h: "hash_order_ok h" and g: "graph_wf nodes g"
    and nc: "\<And>d. d \<in> set nodes \<Longrightarrow> \<exists>i<n. map_of nc d = Some i"
  shows "\<exists>s. condensation h g nc n = Inr s \<and> condensed n (links nc (edges g)) s
    \<and> links nc (edges g) \<subseteq> {..<n} \<times> {..<n}"
proof -
  have E: "edges g \<subseteq> set nodes \<times> set nodes" and dist: "distinct (map fst g)"
    using g by (auto simp: graph_wf_def graph_on_def)
  note it = hash_order_set(1,2) [OF h]
  have mem: "(a, b) \<in> edges g" if "(a, ns) \<in> set g" "b \<in> set ns" for a b ns
    using that by (auto simp: edges_mem [OF dist])
  let ?q = "\<lambda>s. edges (fst s)"
  let ?init = "(map (\<lambda>i. (i, [])) [0..<n], map (\<lambda>i. (i, 0)) [0..<n]) :: nat graph \<times> (nat \<times> nat) list"
  have m0: "map_of (map (\<lambda>i. (i, 0::nat)) [0..<n]) j = Some 0" if "j < n" for j
    using that by (simp add: map_of_map_restrict restrict_map_def)
  have e0: "edges (map (\<lambda>i. (i, [])) [0..<n]) = {}"
    by (auto simp: edges_def map_of_map_restrict restrict_map_def split: if_splits)
  have init: "condensed_ok n ?init" "?q ?init = {}"
    using m0 by (simp_all add: condensed_ok_def condensed_def e0 graph_wf_def graph_on_def comp_def)
  have inner: "\<exists>s'. foldR (link_components nc a) (ord_digests h ns) s = Inr s' \<and> condensed_ok n s'
      \<and> ?q s' = ?q s \<union> (\<Union>b \<in> set (ord_digests h ns). links nc {(a, b)})"
    if "(a, ns) \<in> set (ord_graph h g)" "condensed_ok n s" for a ns s
  proof (rule foldR_collect [where P = "condensed_ok n" and q = ?q])
    show "condensed_ok n s" by (rule that(2))
    fix b s assume "b \<in> set (ord_digests h ns)" and s: "condensed_ok n s"
    then have "(a, b) \<in> edges g" using mem [of a ns b] that(1) it by simp
    then have "a \<in> set nodes" "b \<in> set nodes" using E by auto
    then obtain i j where "map_of nc a = Some i" "map_of nc b = Some j" "i < n" "j < n"
      using nc by blast
    then show "\<exists>s'. link_components nc a b s = Inr s' \<and> condensed_ok n s'
        \<and> ?q s' = ?q s \<union> links nc {(a, b)}"
      by (rule link_components_collect [OF s])
  qed
  let ?body = "\<lambda>(a, ns). foldR (link_components nc a) (ord_digests h ns)"
  have body: "\<exists>s'. ?body x s = Inr s' \<and> condensed_ok n s'
      \<and> ?q s' = ?q s \<union> (case x of (a, ns) \<Rightarrow> \<Union>b \<in> set ns. links nc {(a, b)})"
    if "x \<in> set (ord_graph h g)" "condensed_ok n s" for x s
    using inner [of "fst x" "snd x" s] that it by (cases x) simp
  obtain s where s: "condensation h g nc n = Inr s" "condensed_ok n s"
    "?q s = (\<Union>x \<in> set (ord_graph h g). case x of (a, ns) \<Rightarrow> \<Union>b \<in> set ns. links nc {(a, b)})"
    using foldR_collect [of "ord_graph h g" "condensed_ok n" ?body ?q, OF body init(1)]
    unfolding condensation_def init(2) by auto
  have "edges g = (\<Union>x \<in> set (ord_graph h g). case x of (a, ns) \<Rightarrow> \<Union>b \<in> set ns. {(a, b)})"
    by (auto simp: edges_mem [OF dist] it)
  then have "links nc (edges g) = ?q s"
    unfolding s(3) by (simp add: links_UN split_def)
  with s show ?thesis by (auto simp: condensed_ok_def)
qed

section \<open>The topological completion\<close>

text \<open>
  What the loop over \<open>ready\<close> promises, on component indices: it emits, again and again, the least
  component all of whose predecessors are emitted, until every component is.
\<close>

definition unblocked :: "(nat \<times> nat) set \<Rightarrow> nat \<Rightarrow> nat set \<Rightarrow> nat \<Rightarrow> bool" where
  "unblocked L n D c \<longleftrightarrow> c < n \<and> c \<notin> D \<and> {i. (i, c) \<in> L} \<subseteq> D"

fun greedy :: "(nat \<Rightarrow> nat \<Rightarrow> bool) \<Rightarrow> (nat \<times> nat) set \<Rightarrow> nat \<Rightarrow> nat set \<Rightarrow> nat list \<Rightarrow> bool" where
  "greedy le L n D [] \<longleftrightarrow> {..<n} \<subseteq> D"
| "greedy le L n D (c # cs) \<longleftrightarrow> unblocked L n D c \<and> (\<forall>e. unblocked L n D e \<longrightarrow> le c e)
     \<and> greedy le L n (insert c D) cs"

lemma release_successors_ok:
  assumes "distinct ns" "\<And>j. j \<in> set ns \<Longrightarrow> map_of degree j = Some (d j) \<and> 0 < d j"
  shows "\<exists>degree'. foldR release_successor ns (degree, ready) = Inr (degree', ready @ filter (\<lambda>j. d j = 1) ns)
    \<and> (\<forall>j. map_of degree' j = (if j \<in> set ns then Some (d j - 1) else map_of degree j))"
  using assms
proof (induction ns arbitrary: degree ready)
  case Nil
  then show ?case by simp
next
  case (Cons j ns)
  let ?deg = "AList.update j (d j - 1) degree" and ?rdy = "if d j = 1 then ready @ [j] else ready"
  have j: "map_of degree j = Some (d j)" "0 < d j" using Cons.prems by auto
  then have step: "release_successor j (degree, ready) = Inr (?deg, ?rdy)"
    by (auto simp: release_successor_def)
  have "map_of ?deg k = Some (d k) \<and> 0 < d k" if "k \<in> set ns" for k
    using that Cons.prems by (auto simp: AList.update_conv')
  from Cons.IH [OF _ this, of ?rdy] Cons.prems(1) obtain degree'
    where "foldR release_successor ns (?deg, ?rdy) = Inr (degree', ?rdy @ filter (\<lambda>j. d j = 1) ns)"
      "\<forall>k. map_of degree' k = (if k \<in> set ns then Some (d k - 1) else map_of ?deg k)"
    by auto
  with step Cons.prems(1) show ?case by (auto simp: AList.update_conv')
qed

definition kahn_inv :: "(nat \<times> nat) set \<Rightarrow> nat \<Rightarrow> nat set \<Rightarrow> (nat \<times> nat) list \<Rightarrow> nat list \<Rightarrow> bool" where
  "kahn_inv L n D degree ready \<longleftrightarrow> distinct ready \<and> set ready = {c. unblocked L n D c}
     \<and> (\<forall>j<n. map_of degree j = Some (card ({i. (i, j) \<in> L} - D)))
     \<and> (\<forall>i j. (i, j) \<in> L \<longrightarrow> j \<in> D \<longrightarrow> i \<in> D)"

lemma kahn_step:
  assumes inv: "kahn_inv L n D degree ready" and L: "L \<subseteq> {..<n} \<times> {..<n}"
    and ready: "mset ready = mset (c # rest)" and ns: "distinct ns" "set ns = {j. (c, j) \<in> L}"
  shows "\<exists>degree' ready'. foldR release_successor ns (degree, rest) = Inr (degree', ready')
    \<and> kahn_inv L n (insert c D) degree' ready'"
proof -
  let ?P = "\<lambda>j. {i. (i, j) \<in> L} - D" and ?d = "\<lambda>j. card ({i. (i, j) \<in> L} - D)"
  have fin: "finite (?P j)" for j by (rule finite_subset [of _ "{..<n}"]) (use L in auto)
  have dist: "distinct (c # rest)" using inv ready unfolding kahn_inv_def by (metis mset_eq_imp_distinct_iff)
  have setr: "insert c (set rest) = {c. unblocked L n D c}"
    using inv ready unfolding kahn_inv_def by (metis list.set(2) mset_eq_setD)
  then have c: "c < n" "c \<notin> D" "{i. (i, c) \<in> L} \<subseteq> D" by (auto simp: unblocked_def)
  have deg: "map_of degree j = Some (?d j)" if "j < n" for j using inv that by (simp add: kahn_inv_def)
  have ns_d: "map_of degree j = Some (?d j) \<and> 0 < ?d j" if "j \<in> set ns" for j
    using that ns(2) L deg [of j] c(2) fin [of j] by (auto simp: card_gt_0_iff)
  obtain degree' where d': "foldR release_successor ns (degree, rest)
      = Inr (degree', rest @ filter (\<lambda>j. ?d j = 1) ns)"
    "\<And>j. map_of degree' j = (if j \<in> set ns then Some (?d j - 1) else map_of degree j)"
    using release_successors_ok [OF ns(1) ns_d] by blast
  have P': "{i. (i, j) \<in> L} - insert c D = ?P j - {c}" for j by auto
  have "\<forall>j<n. map_of degree' j = Some (card ({i. (i, j) \<in> L} - insert c D))"
  proof (intro allI impI)
    fix j assume "j < n"
    show "map_of degree' j = Some (card ({i. (i, j) \<in> L} - insert c D))"
    proof (cases "j \<in> set ns")
      case True
      then have "c \<in> ?P j" using ns(2) c(2) by simp
      with True show ?thesis using fin [of j] d'(2) by (simp add: P' card_Diff_singleton)
    next
      case False
      then have "?P j - {c} = ?P j" using ns(2) by auto
      with False show ?thesis using deg \<open>j < n\<close> d'(2) by (simp add: P')
    qed
  qed
  moreover have one: "?d j = 1 \<longleftrightarrow> {i. (i, j) \<in> L} \<subseteq> insert c D" if "j \<in> set ns" for j
  proof -
    have cj: "c \<in> ?P j" using that ns(2) c(2) by simp
    have "?d j = 1 \<longleftrightarrow> ?P j = {c}" using cj by (metis card_1_singleton_iff One_nat_def singletonD)
    also have "\<dots> \<longleftrightarrow> {i. (i, j) \<in> L} \<subseteq> insert c D" using cj by auto
    finally show ?thesis .
  qed
  have nd: "j \<notin> D" if "j \<in> set ns" for j using that ns(2) c(2) inv by (auto simp: kahn_inv_def)
  have "set (rest @ filter (\<lambda>j. ?d j = 1) ns) = {e. unblocked L n (insert c D) e}"
  proof (intro equalityI subsetI)
    fix e assume "e \<in> set (rest @ filter (\<lambda>j. ?d j = 1) ns)"
    then consider "e \<in> set rest" | "e \<in> set ns" "?d e = 1" by auto
    then show "e \<in> {e. unblocked L n (insert c D) e}"
    proof cases
      case 1
      then have "unblocked L n D e" "e \<noteq> c" using setr dist by auto
      then show ?thesis by (auto simp: unblocked_def)
    next
      case 2
      then show ?thesis using one [of e] nd [of e] ns(2) L c by (auto simp: unblocked_def)
    qed
  next
    fix e assume "e \<in> {e. unblocked L n (insert c D) e}"
    then have e: "e < n" "e \<notin> D" "e \<noteq> c" "{i. (i, e) \<in> L} \<subseteq> insert c D" by (auto simp: unblocked_def)
    show "e \<in> set (rest @ filter (\<lambda>j. ?d j = 1) ns)"
    proof (cases "e \<in> set ns")
      case True
      with one e(4) show ?thesis by simp
    next
      case False
      then have "unblocked L n D e" using e ns(2) by (auto simp: unblocked_def)
      with setr e(3) show ?thesis by auto
    qed
  qed
  moreover have "distinct (rest @ filter (\<lambda>j. ?d j = 1) ns)"
  proof -
    have "e \<notin> set ns" if "e \<in> set rest" for e
    proof
      assume "e \<in> set ns"
      then have "(c, e) \<in> L" using ns(2) by simp
      moreover have "unblocked L n D e" using that setr by auto
      ultimately show False using c(2) by (auto simp: unblocked_def)
    qed
    with dist ns(1) show ?thesis by auto
  qed
  moreover have "\<forall>i j. (i, j) \<in> L \<longrightarrow> j \<in> insert c D \<longrightarrow> i \<in> insert c D"
    using inv c(3) by (auto simp: kahn_inv_def)
  ultimately have "kahn_inv L n (insert c D) degree' (rest @ filter (\<lambda>j. ?d j = 1) ns)"
    by (simp add: kahn_inv_def)
  with d'(1) show ?thesis by blast
qed

definition least_of :: "mrv_state \<Rightarrow> digest list list \<Rightarrow> nat \<Rightarrow> digest" where
  "least_of st components i = the (min_by (tie_break st) (components ! i))"

definition comp_le :: "mrv_state \<Rightarrow> digest list list \<Rightarrow> nat \<Rightarrow> nat \<Rightarrow> bool" where
  "comp_le st components i j \<longleftrightarrow> tie_break st (least_of st components i) (least_of st components j) \<noteq> Greater"

definition comps_ok :: "mrv_state \<Rightarrow> digest list list \<Rightarrow> bool" where
  "comps_ok st components \<longleftrightarrow> distinct (concat components) \<and> [] \<notin> set components
     \<and> set (concat components) \<subseteq> stored st"

lemma least_of_in:
  assumes "comps_ok st cs" "i < length cs"
  shows "least_of st cs i \<in> set (cs ! i)" "y \<in> set (cs ! i) \<Longrightarrow> tie_break st (least_of st cs i) y \<noteq> Greater"
    "least_of st cs i \<in> stored st"
proof -
  have "cs ! i \<in> set cs" using assms(2) by simp
  then have ne: "cs ! i \<noteq> []" and sub: "set (cs ! i) \<subseteq> stored st"
    using assms(1) by (auto simp: comps_ok_def)
  obtain m where m: "min_by (tie_break st) (cs ! i) = Some m" using min_by_Some [OF ne] by blast
  note least = tb.min_by_least [OF sub m]
  show "least_of st cs i \<in> set (cs ! i)" using least m by (simp add: least_of_def)
  then show "least_of st cs i \<in> stored st" using sub by blast
  show "y \<in> set (cs ! i) \<Longrightarrow> tie_break st (least_of st cs i) y \<noteq> Greater"
    using least m by (simp add: least_of_def)
qed

lemma concat_index: "y \<in> set (concat cs) \<Longrightarrow> \<exists>k<length cs. y \<in> set (cs ! k)"
  by (auto simp: in_set_conv_nth) (metis nth_mem)

lemma concat_index_unique:
  fixes cs :: "digest list list"
  assumes "distinct (concat cs)" "i < length cs" "j < length cs" "x \<in> set (cs ! i)" "x \<in> set (cs ! j)"
  shows "i = j"
  using component_index_of [OF assms(1,2,4)] component_index_of [OF assms(1,3,5)] by simp

lemma comp_total:
  assumes "comps_ok st cs"
  shows "total_cmp (\<lambda>i j. tie_break st (least_of st cs i) (least_of st cs j)) {..<length cs}"
proof (rule total_cmp_inj [OF tb.total_cmp_axioms])
  show "inj_on (least_of st cs) {..<length cs}"
    using least_of_in(1) [OF assms] concat_index_unique [of cs] assms
    unfolding comps_ok_def inj_on_def by (metis lessThan_iff)
  show "least_of st cs ` {..<length cs} \<subseteq> stored st" using least_of_in(3) [OF assms] by auto
qed

text \<open>Sorting \<open>ready\<close>: no panic, the same elements, and a least one in front.\<close>

lemma sort_ready:
  assumes ok: "comps_ok st cs" and ready: "set ready \<subseteq> {..<length cs}" "ready \<noteq> []"
  shows "\<exists>c rest. sort_byR (\<lambda>a b. bindR (vec_index cs a) (\<lambda>ca. bindR (vec_index cs b)
      (\<lambda>cb. compare_components st ca cb))) ready = Inr (c # rest)
    \<and> mset ready = mset (c # rest) \<and> (\<forall>e \<in> set ready. comp_le st cs c e)"
proof -
  let ?cmp = "\<lambda>i j. tie_break st (least_of st cs i) (least_of st cs j)"
  have "sort_byR (\<lambda>a b. bindR (vec_index cs a) (\<lambda>ca. bindR (vec_index cs b)
      (\<lambda>cb. compare_components st ca cb))) ready = Inr (sort_by ?cmp ready)"
  proof (rule sort_byR_total)
    fix x y assume "x \<in> set ready" "y \<in> set ready"
    then have "x < length cs" "y < length cs" using ready by auto
    moreover from this have "cs ! x \<noteq> []" "cs ! y \<noteq> []" using ok by (auto simp: comps_ok_def in_set_conv_nth)
    ultimately show "bindR (vec_index cs x) (\<lambda>ca. bindR (vec_index cs y)
        (\<lambda>cb. compare_components st ca cb)) = Inr (?cmp x y)"
      by (simp add: vec_index_def compare_components_eq least_of_def)
  qed
  moreover obtain c rest where cr: "sort_by ?cmp ready = c # rest"
    using ready(2) by (metis length_0_conv length_sort_by neq_Nil_conv)
  moreover have ms: "mset ready = mset (c # rest)" using mset_sort_by [of ?cmp ready] cr by simp
  moreover have "comp_le st cs c e" if "e \<in> set ready" for e
  proof (cases "e = c")
    case True
    have "c \<in> {..<length cs}" using that True ready by auto
    then show ?thesis using total_cmp.cmp_refl_le [OF comp_total [OF ok]] True by (simp add: comp_le_def)
  next
    case False
    have "sorted_wrt (\<lambda>a b. ?cmp a b \<noteq> Greater) (c # rest)"
      using total_cmp.sorted_sort_by [OF comp_total [OF ok] ready(1)] cr by simp
    moreover have "e \<in> set rest" using that False ms by (metis mset_eq_setD set_ConsD)
    ultimately show ?thesis by (simp add: comp_le_def)
  qed
  ultimately show ?thesis by auto
qed

lemma all_emitted:
  assumes top: "\<And>i j. (i, j) \<in> L \<Longrightarrow> i < (j::nat)" and L: "L \<subseteq> {..<n} \<times> {..<n}"
    and none: "\<And>c. \<not> unblocked L n D c"
  shows "{..<n} \<subseteq> D"
proof
  fix c assume "c \<in> {..<n}"
  then show "c \<in> D"
  proof (induction c rule: less_induct)
    case (less c)
    then have "{i. (i, c) \<in> L} \<subseteq> D" using top L by auto
    with less.prems none [of c] show ?case by (auto simp: unblocked_def)
  qed
qed

lemma emit_components_ok:
  assumes ok: "comps_ok st cs" and h: "hash_order_ok h"
    and L: "L \<subseteq> {..<length cs} \<times> {..<length cs}" and top: "\<And>i j. (i, j) \<in> L \<Longrightarrow> i < j"
    and cg: "graph_wf [0..<length cs] cg" "edges cg = L"
  shows "kahn_inv L (length cs) D degree ready \<Longrightarrow>
    \<exists>ord. emit_components h st cs cg degree ready result
        = Inr (result @ concat (map (\<lambda>i. sort_by (tie_break st) (cs ! i)) ord))
      \<and> greedy (comp_le st cs) L (length cs) D ord"
proof (induction "length cs - card (D \<inter> {..<length cs})" arbitrary: D degree ready result rule: less_induct)
  case less
  let ?n = "length cs"
  show ?case
  proof (cases "ready = []")
    case True
    then have "{..<?n} \<subseteq> D" using less.prems top L by (intro all_emitted) (auto simp: kahn_inv_def)
    with True show ?thesis by (intro exI [of _ "[]"]) (simp add: emit_components.simps)
  next
    case False
    have sub: "set ready \<subseteq> {..<?n}" using less.prems by (auto simp: kahn_inv_def unblocked_def)
    obtain c rest where c: "sort_byR (\<lambda>a b. bindR (vec_index cs a) (\<lambda>ca. bindR (vec_index cs b)
        (\<lambda>cb. compare_components st ca cb))) ready = Inr (c # rest)"
      "mset ready = mset (c # rest)" "\<forall>e \<in> set ready. comp_le st cs c e"
      using sort_ready [OF ok sub False] by blast
    have "c \<in> set ready" using c(2) by (metis list.set_intros(1) mset_eq_setD)
    then have un: "unblocked L ?n D c" and cn: "c < ?n" "c \<notin> D"
      using less.prems by (auto simp: kahn_inv_def unblocked_def)
    obtain s where s: "map_of cg c = Some s"
      using map_of_Some_iff [of cg c] cg(1) cn by (auto simp: graph_wf_def graph_on_def)
    have "distinct s" using cg(1) map_of_SomeD [OF s] by (auto simp: graph_wf_def)
    moreover have "mset (ord_indices h s) = mset s" using h by (simp add: hash_order_ok_def)
    ultimately have "distinct (ord_indices h s)" by (metis mset_eq_imp_distinct_iff)
    then have ns: "distinct (sort (ord_indices h s))" "set (sort (ord_indices h s)) = {j. (c, j) \<in> L}"
      using hash_order_set(3) [OF h, of s] edges_lookup [OF s] cg(2) by auto
    obtain degree' ready' where step: "foldR release_successor (sort (ord_indices h s)) (degree, rest)
        = Inr (degree', ready')" "kahn_inv L ?n (insert c D) degree' ready'"
      using kahn_step [OF less.prems L c(2) ns] by blast
    have "insert c D \<inter> {..<?n} = insert c (D \<inter> {..<?n})" using cn by auto
    then have "card (insert c D \<inter> {..<?n}) = Suc (card (D \<inter> {..<?n}))" using cn by simp
    moreover have "card (insert c D \<inter> {..<?n}) \<le> ?n" using card_mono [of "{..<?n}" "insert c D \<inter> {..<?n}"] by simp
    ultimately have "?n - card (insert c D \<inter> {..<?n}) < ?n - card (D \<inter> {..<?n})" by simp
    from less.hyps [OF this step(2), of "result @ sort_by (tie_break st) (cs ! c)"] obtain ord
      where ord: "emit_components h st cs cg degree' ready' (result @ sort_by (tie_break st) (cs ! c))
          = Inr ((result @ sort_by (tie_break st) (cs ! c)) @ concat (map (\<lambda>i. sort_by (tie_break st) (cs ! i)) ord))"
        "greedy (comp_le st cs) L ?n (insert c D) ord" by blast
    have "greedy (comp_le st cs) L ?n D (c # ord)"
      using ord(2) un c(3) less.prems by (auto simp: kahn_inv_def)
    moreover have "emit_components h st cs cg degree ready result
        = Inr (result @ concat (map (\<lambda>i. sort_by (tie_break st) (cs ! i)) (c # ord)))"
      using ord(1) False c(1) cn step(1) s
      by (subst emit_components.simps) (simp add: vec_index_def)
    ultimately show ?thesis by blast
  qed
qed

section \<open>The specification of the order\<close>

text \<open>
  \<open>canonical\<close> says what the sorted batch is, from the relation \<open>E\<close> (who goes before whom) and the
  comparator alone: the strongly connected components of \<open>E\<close>, each sorted; next comes, again and
  again, the component with the least head among those whose predecessors are all out (\<open>X\<close>).
\<close>

definition available :: "(digest \<times> digest) set \<Rightarrow> digest set \<Rightarrow> digest set \<Rightarrow> digest \<Rightarrow> bool" where
  "available E M X y \<longleftrightarrow> y \<in> M \<and> y \<notin> X
     \<and> (\<forall>a b. (a, b) \<in> E \<longrightarrow> b \<in> same_scc E y \<longrightarrow> a \<in> X \<union> same_scc E y)"

abbreviation tie_le :: "mrv_state \<Rightarrow> digest \<Rightarrow> digest \<Rightarrow> bool" where
  "tie_le st a b \<equiv> tie_break st a b \<noteq> Greater"

fun canonical :: "mrv_state \<Rightarrow> (digest \<times> digest) set \<Rightarrow> digest set \<Rightarrow> digest set \<Rightarrow> digest list list \<Rightarrow> bool" where
  "canonical st E M X [] \<longleftrightarrow> M \<subseteq> X"
| "canonical st E M X (C # Cs) \<longleftrightarrow> C \<noteq> [] \<and> available E M X (hd C)
     \<and> (\<forall>y. available E M X y \<longrightarrow> tie_le st (hd C) y)
     \<and> set C = same_scc E (hd C) \<and> distinct C \<and> sorted_wrt (tie_le st) C
     \<and> canonical st E M (X \<union> set C) Cs"

lemma same_scc_closed: "E \<subseteq> M \<times> M \<Longrightarrow> y \<in> M \<Longrightarrow> same_scc E y \<subseteq> M"
proof
  fix x assume E: "E \<subseteq> M \<times> M" "y \<in> M" and "x \<in> same_scc E y"
  then have "(y, x) \<in> E\<^sup>*" by (simp add: same_scc_def)
  then show "x \<in> M" using E by (induction rule: rtrancl_induct) auto
qed

lemma canonical_unique:
  assumes M: "M \<subseteq> stored st" and E: "E \<subseteq> M \<times> M"
  shows "canonical st E M X Cs \<Longrightarrow> canonical st E M X Ds \<Longrightarrow> Cs = Ds"
proof (induction Cs arbitrary: X Ds)
  case Nil
  then show ?case by (cases Ds) (auto simp: available_def)
next
  case (Cons C Cs)
  then obtain D Ds' where Ds: "Ds = D # Ds'" by (cases Ds) (auto simp: available_def)
  have av: "available E M X (hd C)" "available E M X (hd D)" using Cons.prems Ds by auto
  then have "tie_le st (hd C) (hd D)" "tie_le st (hd D) (hd C)" using Cons.prems Ds by auto
  moreover have "hd C \<in> stored st" "hd D \<in> stored st" using av M by (auto simp: available_def)
  ultimately have hd: "hd C = hd D" using tb.cmp_antisym by blast
  have set: "set C = set D" using Cons.prems Ds hd by simp
  then have "mset C = mset D" using Cons.prems Ds by (simp flip: set_eq_iff_mset_eq_distinct)
  moreover have "set C \<subseteq> stored st"
    using Cons.prems(1) same_scc_closed [OF E, of "hd C"] av(1) M by (auto simp: available_def)
  moreover have "sorted_wrt (tie_le st) C" "sorted_wrt (tie_le st) D" using Cons.prems Ds by auto
  ultimately have CD: "C = D" using tb.sorted_unique [of C D] by blast
  have "canonical st E M (X \<union> set C) Cs" "canonical st E M (X \<union> set C) Ds'"
    using Cons.prems Ds set by auto
  from Cons.IH [OF this] show ?case using CD Ds by simp
qed

definition pred_closed :: "(digest \<times> digest) set \<Rightarrow> digest set \<Rightarrow> bool" where
  "pred_closed E X \<longleftrightarrow> (\<forall>a b. (a, b) \<in> E\<^sup>* \<longrightarrow> b \<in> X \<longrightarrow> a \<in> X)"

lemma pred_closed_step:
  assumes X: "pred_closed E X" and av: "available E M X y"
  shows "pred_closed E (X \<union> same_scc E y)"
proof -
  have "a \<in> X \<union> same_scc E y" if "(a, b) \<in> E\<^sup>*" "b \<in> X \<union> same_scc E y" for a b
    using that
  proof (induction rule: converse_rtrancl_induct)
    case base
    then show ?case .
  next
    case (step u v)
    then have "v \<in> X \<union> same_scc E y" by blast
    then show ?case
    proof
      assume "v \<in> X"
      then show ?thesis using X step.hyps(1) unfolding pred_closed_def by blast
    qed (use av step.hyps(1) in \<open>auto simp: available_def\<close>)
  qed
  then show ?thesis unfolding pred_closed_def by blast
qed

lemma available_scc:
  assumes "pred_closed E X" "available E M X y" "E \<subseteq> M \<times> M"
  shows "same_scc E y \<subseteq> M - X"
proof -
  have "x \<notin> X" if "x \<in> same_scc E y" for x
    using that assms(1,2) by (auto simp: same_scc_def pred_closed_def available_def)
  moreover have "same_scc E y \<subseteq> M" using same_scc_closed [OF assms(3), of y] assms(2) by (simp add: available_def)
  ultimately show ?thesis by blast
qed

lemma canonical_parts:
  assumes E: "E \<subseteq> M \<times> M"
  shows "canonical st E M X Cs \<Longrightarrow> pred_closed E X \<Longrightarrow>
    distinct (concat Cs) \<and> set (concat Cs) = M - X"
proof (induction Cs arbitrary: X)
  case Nil
  then show ?case by auto
next
  case (Cons C Cs)
  then have C: "set C = same_scc E (hd C)" "available E M X (hd C)" "distinct C"
    "canonical st E M (X \<union> set C) Cs" by auto
  have "pred_closed E (X \<union> set C)" using pred_closed_step [OF Cons.prems(2) C(2)] C(1) by simp
  with Cons.IH C(4) have IH: "distinct (concat Cs)" "set (concat Cs) = M - (X \<union> set C)" by auto
  have "set C \<subseteq> M - X" using available_scc [OF Cons.prems(2) C(2) E] C(1) by simp
  with IH C(3) show ?case by auto
qed

text \<open>\<open>a\<close> stands before \<open>b\<close>.\<close>

definition precedes :: "'a list \<Rightarrow> 'a \<Rightarrow> 'a \<Rightarrow> bool" where
  "precedes r a b \<longleftrightarrow> (\<exists>xs ys. r = xs @ ys \<and> a \<in> set xs \<and> b \<in> set ys)"

lemma precedes_append:
  "a \<in> set xs \<Longrightarrow> b \<in> set ys \<Longrightarrow> precedes (xs @ ys) a b"
  "precedes ys a b \<Longrightarrow> precedes (xs @ ys) a b"
  unfolding precedes_def by blast (metis Un_iff append.assoc set_append)

lemma canonical_order:
  assumes E: "E \<subseteq> M \<times> M" and ab: "(a, b) \<in> E\<^sup>*" "(b, a) \<notin> E\<^sup>*"
  shows "canonical st E M X Cs \<Longrightarrow> pred_closed E X \<Longrightarrow> a \<in> M - X \<Longrightarrow> b \<in> M - X \<Longrightarrow>
    precedes (concat Cs) a b"
proof (induction Cs arbitrary: X)
  case Nil
  then show ?case by auto
next
  case (Cons C Cs)
  then have C: "set C = same_scc E (hd C)" "available E M X (hd C)"
    "canonical st E M (X \<union> set C) Cs" by auto
  have cl: "pred_closed E (X \<union> set C)" using pred_closed_step [OF Cons.prems(2) C(2)] C(1) by simp
  have nb: "b \<notin> set C"
  proof
    assume b: "b \<in> set C"
    then have "a \<in> X \<union> set C" using cl ab(1) unfolding pred_closed_def by blast
    then have "a \<in> set C" using Cons.prems(3) by blast
    with b C(1) ab(2) show False by (auto simp: same_scc_def dest: rtrancl_trans)
  qed
  show ?case
  proof (cases "a \<in> set C")
    case True
    moreover have "b \<in> set (concat Cs)"
      using canonical_parts [OF E C(3) cl] nb Cons.prems(4) by auto
    ultimately show ?thesis using precedes_append(1) [of a C b "concat Cs"] by simp
  next
    case False
    then have "precedes (concat Cs) a b" using Cons.IH [OF C(3) cl] nb Cons.prems by auto
    then show ?thesis using precedes_append(2) by simp
  qed
qed

section \<open>The code meets the specification\<close>

lemma greedy_canonical:
  assumes scc: "scc_inv E M cs" and E: "E \<subseteq> M \<times> M" and M: "M \<subseteq> stored st"
    and L: "L = links (component_index cs) E" and n: "n = length cs"
  shows "greedy (comp_le st cs) L n D ord \<Longrightarrow> D \<subseteq> {..<n} \<Longrightarrow>
    canonical st E M (\<Union>i \<in> D. set (cs ! i)) (map (\<lambda>i. sort_by (tie_break st) (cs ! i)) ord)"
proof -
  have dist: "distinct (concat cs)" and MU: "M = set (concat cs)" and ne: "[] \<notin> set cs"
    and C: "\<And>D r. D \<in> set cs \<Longrightarrow> r \<in> set D \<Longrightarrow> set D = same_scc E r"
    using scc unfolding scc_inv_def by blast+
  have ok: "comps_ok st cs" using dist ne M MU by (simp add: comps_ok_def)
  have scc_i: "set (cs ! i) = same_scc E y" if "i < n" "y \<in> set (cs ! i)" for i y
    using C [of "cs ! i" y] that n by simp
  have idx: "\<exists>i<n. y \<in> set (cs ! i)" if "y \<in> M" for y
    using that MU n concat_index [of y cs] by simp
  have uniq: "i = j" if "i < n" "j < n" "y \<in> set (cs ! i)" "y \<in> set (cs ! j)" for i j y
    using concat_index_unique [OF dist] that n by blast
  have link: "(i, e) \<in> L \<longleftrightarrow> i \<noteq> e \<and> (\<exists>a \<in> set (cs ! i). \<exists>b \<in> set (cs ! e). (a, b) \<in> E)"
    if "i < n" "e < n" for i e
  proof -
    have ci: "map_of (component_index cs) a = Some i \<longleftrightarrow> a \<in> set (cs ! i)" if "a \<in> M" "i < n" for a i
      using idx [OF that(1)] component_index_of [OF dist] that(2) n by fastforce
    show ?thesis using that ci E by (auto simp: L links_def) blast+
  qed
  have Lsub: "L \<subseteq> {..<n} \<times> {..<n}"
  proof -
    have "\<exists>i<n. map_of (component_index cs) a = Some i" if "a \<in> M" for a
      using idx [OF that] component_index_of [OF dist] n by blast
    then show ?thesis using E by (fastforce simp: L links_def)
  qed
  have av: "available E M (\<Union>i \<in> D. set (cs ! i)) y \<longleftrightarrow> unblocked L n D e"
    if "D \<subseteq> {..<n}" "e < n" "y \<in> set (cs ! e)" for D e y
  proof
    let ?X = "\<Union>i \<in> D. set (cs ! i)"
    assume a: "available E M ?X y"
    have "i \<in> D" if ie: "(i, e) \<in> L" for i
    proof -
      have i: "i < n" using ie Lsub by auto
      then obtain a' b where ab: "a' \<in> set (cs ! i)" "b \<in> set (cs ! e)" "(a', b) \<in> E" "i \<noteq> e"
        using link [OF i \<open>e < n\<close>] ie by blast
      then have "a' \<in> ?X \<union> set (cs ! e)"
        using a scc_i [OF \<open>e < n\<close> \<open>y \<in> set (cs ! e)\<close>] by (auto simp: available_def)
      moreover have "a' \<notin> set (cs ! e)" using uniq [OF i \<open>e < n\<close> ab(1)] ab(4) by blast
      ultimately obtain k where "k \<in> D" "a' \<in> set (cs ! k)" by blast
      with uniq [OF i _ ab(1), of k] \<open>D \<subseteq> {..<n}\<close> show "i \<in> D" by blast
    qed
    moreover have "e \<notin> D" using a \<open>y \<in> set (cs ! e)\<close> by (auto simp: available_def)
    ultimately show "unblocked L n D e" using \<open>e < n\<close> by (auto simp: unblocked_def)
  next
    let ?X = "\<Union>i \<in> D. set (cs ! i)"
    assume u: "unblocked L n D e"
    have "y \<in> M" using that MU n by auto
    moreover have "y \<notin> ?X" using uniq [OF _ that(2) _ that(3)] that(1) u by (auto simp: unblocked_def)
    moreover have "a \<in> ?X \<union> set (cs ! e)" if ab: "(a, b) \<in> E" "b \<in> set (cs ! e)" for a b
    proof -
      obtain i where i: "i < n" "a \<in> set (cs ! i)" using idx [of a] ab E by blast
      show ?thesis
      proof (cases "i = e")
        case False
        then have "(i, e) \<in> L" using link [OF i(1) \<open>e < n\<close>] i(2) ab by blast
        with u i show ?thesis by (auto simp: unblocked_def)
      qed (use i in simp)
    qed
    ultimately show "available E M ?X y" using scc_i [OF that(2,3)] by (auto simp: available_def)
  qed
  show "greedy (comp_le st cs) L n D ord \<Longrightarrow> D \<subseteq> {..<n} \<Longrightarrow>
    canonical st E M (\<Union>i \<in> D. set (cs ! i)) (map (\<lambda>i. sort_by (tie_break st) (cs ! i)) ord)"
  proof (induction ord arbitrary: D)
    case Nil
    then have "D = {..<n}" by auto
    then show ?case using idx by auto
  next
    case (Cons c ord)
    let ?C = "sort_by (tie_break st) (cs ! c)" and ?X = "\<Union>i \<in> D. set (cs ! i)"
    have c: "unblocked L n D c" "c < n" "\<And>e. unblocked L n D e \<Longrightarrow> comp_le st cs c e"
      using Cons.prems(1) by (auto simp: unblocked_def)
    have mem: "cs ! c \<in> set cs" using c(2) n by simp
    then have nemp: "?C \<noteq> []" using ne by (metis length_0_conv length_sort_by)
    then have hd: "hd ?C \<in> set (cs ! c)" using hd_in_set by fastforce
    have sub: "set (cs ! c) \<subseteq> stored st" using mem MU M by auto
    have srt: "sorted_wrt (tie_le st) ?C" by (rule tb.sorted_sort_by [OF sub])
    have hd_le: "tie_le st (hd ?C) x" if "x \<in> set (cs ! c)" for x
    proof (cases "x = hd ?C")
      case True
      then show ?thesis using tb.cmp_refl_le hd sub by blast
    next
      case False
      have "x \<in> set ?C" using that by simp
      with nemp False srt show ?thesis by (cases ?C) auto
    qed
    have "tie_le st (hd ?C) y" if y: "available E M ?X y" for y
    proof -
      obtain e where e: "e < n" "y \<in> set (cs ! e)" using idx [of y] y by (auto simp: available_def)
      then have "comp_le st cs c e" using av [OF Cons.prems(2) e] y c(3) by blast
      then have 1: "tie_le st (least_of st cs c) (least_of st cs e)" by (simp add: comp_le_def)
      have cl: "c < length cs" "e < length cs" using c(2) e(1) n by auto
      note le = least_of_in [OF ok cl(1)] and le' = least_of_in [OF ok cl(2)]
      have ys: "y \<in> stored st" "hd ?C \<in> stored st" using y M hd sub by (auto simp: available_def)
      have "tie_le st (least_of st cs c) y"
        by (rule tb.cmp_le_trans [OF le(3) le'(3) ys(1) 1 le'(2) [OF e(2)]])
      then show ?thesis by (rule tb.cmp_le_trans [OF ys(2) le(3) ys(1) hd_le [OF le(1)]])
    qed
    moreover have "available E M ?X (hd ?C)" using av [OF Cons.prems(2) c(2) hd] c(1) by blast
    moreover have "set ?C = same_scc E (hd ?C)" using scc_i [OF c(2) hd] by simp
    moreover have "distinct ?C" using dist mem by (simp add: distinct_concat_iff)
    moreover have "canonical st E M (?X \<union> set ?C) (map (\<lambda>i. sort_by (tie_break st) (cs ! i)) ord)"
      using Cons.IH [of "insert c D"] Cons.prems c(2) by (simp add: Un_commute)
    ultimately show ?case using nemp srt by simp
  qed
qed

lemma kahn_init:
  assumes c: "condensed n L s" and L: "L \<subseteq> {..<n} \<times> {..<n}" and h: "hash_order_ok h"
  shows "kahn_inv L n {} (snd s) (map fst (filter (\<lambda>(_, degree). degree = 0) (ord_degrees h (snd s))))"
    (is "kahn_inv L n {} (snd s) ?ready")
proof -
  have keys: "map fst (snd s) = [0..<n]" and deg: "\<forall>j<n. map_of (snd s) j = Some (card {i. (i, j) \<in> L})"
    using c by (auto simp: condensed_def)
  have fin: "finite {i. (i, j) \<in> L}" for j by (rule finite_subset [of _ "{..<n}"]) (use L in auto)
  have "mset (map fst (ord_degrees h (snd s))) = mset (map fst (snd s))"
    using h by (simp add: hash_order_ok_def)
  then have "distinct (map fst (ord_degrees h (snd s)))"
    using keys by (metis mset_eq_imp_distinct_iff distinct_upt)
  then have dist: "distinct ?ready" by (rule distinct_map_filter)
  have "j \<in> set ?ready \<longleftrightarrow> (j, 0) \<in> set (snd s)" for j
    using hash_order_set(4) [OF h] by force
  moreover have "(j, 0) \<in> set (snd s) \<longleftrightarrow> map_of (snd s) j = Some 0" for j
    using keys by (auto simp: map_of_eq_Some_iff)
  moreover have "map_of (snd s) j = Some 0 \<longleftrightarrow> unblocked L n {} j" for j
  proof (cases "j < n")
    case True
    then show ?thesis using deg fin [of j] by (auto simp: unblocked_def)
  next
    case False
    then have "j \<notin> set (map fst (snd s))" using keys by simp
    then have "map_of (snd s) j = None" by (simp add: map_of_eq_None_iff)
    with False show ?thesis by (simp add: unblocked_def)
  qed
  ultimately have "set ?ready = {j. unblocked L n {} j}" by auto
  with dist deg show ?thesis by (simp add: kahn_inv_def)
qed

lemma links_topological:
  assumes scc: "scc_inv E M cs" and L: "(i, j) \<in> links (component_index cs) E"
    and E: "E \<subseteq> M \<times> M"
  shows "i < j"
proof -
  obtain a b where ab: "(a, b) \<in> E" "map_of (component_index cs) a = Some i"
    "map_of (component_index cs) b = Some j" "i \<noteq> j"
    using L by (auto simp: links_def)
  have dist: "distinct (concat cs)" and M: "M = set (concat cs)"
    and srt: "sorted_wrt (\<lambda>C D. \<forall>x \<in> set D. \<forall>y \<in> set C. (x, y) \<notin> E\<^sup>*) cs"
    using scc unfolding scc_inv_def by blast+
  have idx: "\<exists>k<length cs. y \<in> set (cs ! k)" if "y \<in> M" for y
    using that M concat_index [of y cs] by simp
  have "a \<in> M" "b \<in> M" using ab(1) E by auto
  then have a: "i < length cs" "a \<in> set (cs ! i)" and b: "j < length cs" "b \<in> set (cs ! j)"
    using idx [of a] idx [of b] component_index_of [OF dist] ab(2,3) by fastforce+
  have "\<not> j < i"
  proof
    assume "j < i"
    then have "\<forall>x \<in> set (cs ! i). \<forall>y \<in> set (cs ! j). (x, y) \<notin> E\<^sup>*"
      using srt a(1) sorted_wrt_nth_less by blast
    with a(2) b(2) ab(1) show False by blast
  qed
  with ab(4) show ?thesis by simp
qed

lemma same_scc_empty [simp]: "same_scc {} d = {d}"
  by (auto simp: same_scc_def)

lemma beats_single:
  assumes "horizon_ok st" "0 < delta_threshold st"
  shows "beats st {d} = {}"
  using verdict_self [OF assms(2,1)] by (auto simp: beats_def)

lemma sort_batch_small:
  assumes "horizon_ok st" "0 < delta_threshold st" "set ms \<subseteq> stored st" "length ms \<le> 1"
  shows "\<exists>Cs. ms = concat Cs \<and> canonical st (beats st (set ms)) (set ms) {} Cs"
proof (cases ms)
  case Nil
  then show ?thesis by (intro exI [of _ "[]"]) simp
next
  case (Cons d ds)
  then have "ms = [d]" using assms(4) by simp
  then show ?thesis
    using assms(3) tb.cmp_refl_le [of d st] beats_single [OF assms(1,2), of d]
    by (intro exI [of _ "[[d]]"]) (auto simp: available_def)
qed

lemma sort_batch_canonical:
  assumes ok: "horizon_ok st" and delta: "0 < delta_threshold st" and h: "hash_order_ok h"
    and ms: "set ms \<subseteq> stored st"
  shows "\<exists>Cs. sort_batch h st ms = Inr (concat Cs) \<and> canonical st (beats st (set ms)) (set ms) {} Cs"
proof (cases "length ms \<le> 1")
  case True
  with sort_batch_small [OF ok delta ms] show ?thesis by (simp add: sort_batch_def)
next
  case False
  let ?nodes = "sort_by (tie_break st) ms" and ?E = "beats st (set ms)"
  have E: "?E \<subseteq> set ms \<times> set ms" by (auto simp: beats_def)
  obtain g where g: "precedence_graph st ?nodes = Inr g" "graph_wf ?nodes g" "edges g = ?E"
    using precedence_graph_ok [OF ok delta, of ?nodes] by auto
  define cs where "cs = find_scc (tie_break st) (ord_digests h) (ord_graph h) ?nodes g"
  define nc where "nc = component_index cs"
  let ?n = "length cs"
  have gon: "graph_on ?nodes g" using g(2) by (simp add: graph_wf_def)
  have scc: "scc_inv ?E (set ms) cs"
    using find_scc_correct [OF gon, of "ord_digests h" "ord_graph h" "tie_break st"] hash_order_set [OF h]
    by (simp add: cs_def g(3))
  have dist: "distinct (concat cs)" and MU: "set ms = set (concat cs)" and ne: "[] \<notin> set cs"
    using scc unfolding scc_inv_def by blast+
  have comps: "comps_ok st cs" using dist ne MU ms by (simp add: comps_ok_def)
  have "\<exists>i<?n. map_of nc d = Some i" if d: "d \<in> set ?nodes" for d
  proof -
    obtain i where "i < ?n" "d \<in> set (cs ! i)" using concat_index [of d cs] d MU by auto
    with component_index_of [OF dist] show ?thesis by (auto simp: nc_def)
  qed
  from condensation_ok [OF h g(2) this] obtain s where s: "condensation h g nc ?n = Inr s"
    "condensed ?n (links nc ?E) s" "links nc ?E \<subseteq> {..<?n} \<times> {..<?n}"
    by (auto simp: g(3))
  have cg: "graph_wf [0..<?n] (fst s)" "edges (fst s) = links nc ?E" using s(2) by (auto simp: condensed_def)
  have top: "i < j" if "(i, j) \<in> links nc ?E" for i j
    using links_topological [OF scc _ E] that by (simp add: nc_def)
  let ?ready = "map fst (filter (\<lambda>(_, degree). degree = 0) (ord_degrees h (snd s)))"
  obtain ord where ord: "emit_components h st cs (fst s) (snd s) ?ready []
      = Inr (concat (map (\<lambda>i. sort_by (tie_break st) (cs ! i)) ord))"
    "greedy (comp_le st cs) (links nc ?E) ?n {} ord"
    using emit_components_ok [OF comps h s(3) top cg kahn_init [OF s(2,3) h], of "[]"] by auto
  have "canonical st ?E (set ms) {} (map (\<lambda>i. sort_by (tie_break st) (cs ! i)) ord)"
    using greedy_canonical [OF scc E ms refl refl, of "{}" ord] ord(2) by (simp add: nc_def)
  moreover have "sort_batch h st ms = Inr (concat (map (\<lambda>i. sort_by (tie_break st) (cs ! i)) ord))"
    using False g(1) s(1) ord(1) by (simp add: sort_batch_def Let_def cs_def [symmetric] nc_def [symmetric] split_def)
  ultimately show ?thesis by blast
qed

section \<open>Properties\<close>

text \<open>C12. \<open>sort_batch\<close> is the canonical order of the verdicts: whatever the hash tables' iteration orders, it does not
  panic and returns the one list that the specification \<open>canonical\<close> describes (strongly connected
  components of the verdict edges \<open>beats\<close>, each sorted by \<open>tie_break\<close>, emitted least head first among those
  whose predecessors are out). The parents of a certificate play no part in it: \<open>README.md\<close> says that the graph
  has causal edges as well, but the code only adds those of \<open>compare_pair\<close>, and in the witness a certificate comes
  before its own parent.\<close>

theorem sort_batch_meets_spec:
  assumes "horizon_ok st" "0 < delta_threshold st" "hash_order_ok h" "set ms \<subseteq> stored st"
  shows "sort_batch h st ms = Inr r \<longleftrightarrow>
    (\<exists>Cs. canonical st (beats st (set ms)) (set ms) {} Cs \<and> r = concat Cs)"
proof -
  obtain Cs where Cs: "sort_batch h st ms = Inr (concat Cs)" "canonical st (beats st (set ms)) (set ms) {} Cs"
    using sort_batch_canonical [OF assms] by blast
  then show ?thesis using canonical_unique [OF assms(4), of "beats st (set ms)"] by (auto simp: beats_def)
qed

definition plain_order :: hash_order where
  "plain_order = \<lparr>ord_digests = (\<lambda>xs. xs), ord_graph = (\<lambda>xs. xs), ord_indices = (\<lambda>xs. xs), ord_degrees = (\<lambda>xs. xs)\<rparr>"

definition reverse_order :: hash_order where
  "reverse_order = \<lparr>ord_digests = rev, ord_graph = rev, ord_indices = rev, ord_degrees = rev\<rparr>"

lemma orders_ok [simp]: "hash_order_ok plain_order" "hash_order_ok reverse_order"
  by (simp_all add: hash_order_ok_def plain_order_def reverse_order_def)

text \<open>
  A committee of seven, whose windows are three rounds long. Few have seen the parent in round 4, so the certificate of
  the seventh author beats it. The child was capped before a quorum had seen it, so no verdict is about it,
  and its key is the least one that is ready.
\<close>

definition slow_parent :: certificate where
  "slow_parent = \<lparr>c_header = header_default\<lparr>h_author := PublicKey 2, h_round := 2, h_id := Digest 1\<rparr>, c_votes = []\<rparr>"

definition capped_child :: certificate where
  "capped_child = \<lparr>c_header = header_default\<lparr>h_author := PublicKey 1, h_round := 3, h_parents := [Digest 1], h_id := Digest 2\<rparr>, c_votes = []\<rparr>"

definition fast_other :: certificate where
  "fast_other = \<lparr>c_header = header_default\<lparr>h_author := PublicKey 7, h_round := 3, h_id := Digest 3\<rparr>, c_votes = []\<rparr>"

definition capped_state :: mrv_state where
  "capped_state = \<lparr>tx_output = [], tx_room = None,
     mrv_store = [(Digest 1, slow_parent), (Digest 2, capped_child), (Digest 3, fast_other)],
     auf_states =
       [(Digest 1, \<lparr>auf_round = 2, seen_by_round = [(2, {PublicKey 2}), (3, {PublicKey 1, PublicKey 2}), (4, {PublicKey 1, PublicKey 2}),
           (5, {PublicKey 1, PublicKey 2, PublicKey 3, PublicKey 4, PublicKey 5})], horizon = Some 5, mature = True\<rparr>),
        (Digest 2, \<lparr>auf_round = 3, seen_by_round = [(3, {PublicKey 1}), (4, {PublicKey 1}),
           (5, {PublicKey 1, PublicKey 2, PublicKey 3, PublicKey 4}), (6, {PublicKey 1})], horizon = Some 6, mature = False\<rparr>),
        (Digest 3, \<lparr>auf_round = 3, seen_by_round = [(3, {PublicKey 7}),
           (4, {PublicKey 1, PublicKey 2, PublicKey 3, PublicKey 4, PublicKey 5, PublicKey 6}),
           (5, {PublicKey 1, PublicKey 2, PublicKey 3, PublicKey 4, PublicKey 5})], horizon = Some 4, mature = True\<rparr>)],
     batches = [(1, \<lparr>b_members = [Digest 1, Digest 2, Digest 3]\<rparr>)], active_floor_round = Some 2,
     frontier_round = 8, window_cap = 3, reach_threshold = 5, delta_threshold = 3\<rparr>"

lemma child_first_sorted:
  "sort_batch plain_order capped_state [Digest 1, Digest 2, Digest 3] = Inr [Digest 2, Digest 3, Digest 1]"
  by code_simp

lemma capped_state_ok: "horizon_ok capped_state" "0 < delta_threshold capped_state" "stored capped_state = {Digest 1, Digest 2, Digest 3}"
  by (auto simp: horizon_ok_def capped_state_def stored_def split: if_splits)

lemma sort_batch_meets_spec_witness:
  "sort_batch plain_order capped_state [Digest 1, Digest 2, Digest 3] = Inr [Digest 2, Digest 3, Digest 1]
   \<and> (\<exists>Cs. canonical capped_state (beats capped_state {Digest 1, Digest 2, Digest 3}) {Digest 1, Digest 2, Digest 3} {} Cs
        \<and> [Digest 2, Digest 3, Digest 1] = concat Cs)
   \<and> map_of (mrv_store capped_state) (Digest 2) = Some capped_child \<and> Digest 1 \<in> set (h_parents (c_header capped_child))"
proof -
  have "set [Digest 1, Digest 2, Digest 3] \<subseteq> stored capped_state" by (simp add: capped_state_ok)
  with sort_batch_meets_spec [OF capped_state_ok(1,2) orders_ok(1) this] child_first_sorted
  have "\<exists>Cs. canonical capped_state (beats capped_state (set [Digest 1, Digest 2, Digest 3])) (set [Digest 1, Digest 2, Digest 3]) {} Cs
        \<and> [Digest 2, Digest 3, Digest 1] = concat Cs" by blast
  with child_first_sorted show ?thesis by (simp add: capped_state_def capped_child_def)
qed

text \<open>C15. \<open>sort_batch\<close> neither loses, adds nor repeats a certificate, and it respects every pair verdict
  that no cycle of verdicts contradicts: where \<open>a\<close> leads to \<open>b\<close> through verdicts and \<open>b\<close> does not lead back,
  \<open>a\<close> comes first.\<close>

theorem sort_batch_sound:
  assumes "horizon_ok st" "0 < delta_threshold st" "hash_order_ok h" "set ms \<subseteq> stored st"
  shows "\<exists>r. sort_batch h st ms = Inr r \<and> distinct r \<and> set r = set ms
    \<and> (\<forall>a b. (a, b) \<in> (beats st (set ms))\<^sup>* \<longrightarrow> (b, a) \<notin> (beats st (set ms))\<^sup>* \<longrightarrow>
         a \<in> set ms \<longrightarrow> precedes r a b)"
proof -
  let ?E = "beats st (set ms)"
  obtain Cs where Cs: "sort_batch h st ms = Inr (concat Cs)" "canonical st ?E (set ms) {} Cs"
    using sort_batch_canonical [OF assms] by blast
  have E: "?E \<subseteq> set ms \<times> set ms" and pc: "pred_closed ?E {}" by (auto simp: beats_def pred_closed_def)
  have "precedes (concat Cs) a b" if ab: "(a, b) \<in> ?E\<^sup>*" "(b, a) \<notin> ?E\<^sup>*" "a \<in> set ms" for a b
  proof -
    have "b \<in> set ms" using ab(1,3) E by (induction rule: rtrancl_induct) auto
    with canonical_order [OF E ab(1,2) Cs(2) pc] ab(3) show ?thesis by simp
  qed
  with canonical_parts [OF E Cs(2) pc] Cs(1) show ?thesis by auto
qed

lemma sort_batch_sound_witness:
  "\<exists>r. sort_batch reverse_order sample_state [Digest 2, Digest 1] = Inr r \<and> distinct r
     \<and> set r = {Digest 1, Digest 2}"
  using sort_batch_sound [of sample_state reverse_order "[Digest 2, Digest 1]"] by auto

text \<open>\<open>sort_batch\<close> is deterministic: the result depends neither on the iteration orders of the hash
  maps nor on the order in which the members were committed.\<close>

theorem sort_batch_deterministic:
  assumes "horizon_ok st" "0 < delta_threshold st" "hash_order_ok h" "hash_order_ok h'"
    and "set ms \<subseteq> stored st" "set ms = set ms'"
  shows "sort_batch h st ms = sort_batch h' st ms'"
proof -
  obtain Cs where Cs: "sort_batch h st ms = Inr (concat Cs)" "canonical st (beats st (set ms)) (set ms) {} Cs"
    using sort_batch_canonical [OF assms(1,2,3,5)] by blast
  obtain Ds where Ds: "sort_batch h' st ms' = Inr (concat Ds)" "canonical st (beats st (set ms)) (set ms) {} Ds"
    using sort_batch_canonical [OF assms(1,2,4), of ms'] assms(5,6) by auto
  have "Cs = Ds" by (rule canonical_unique [OF assms(5) _ Cs(2) Ds(2)]) (auto simp: beats_def)
  with Cs(1) Ds(1) show ?thesis by simp
qed

lemma sort_batch_deterministic_witness:
  "sort_batch plain_order sample_state [Digest 1, Digest 2] = sort_batch reverse_order sample_state [Digest 2, Digest 1]"
  by (rule sort_batch_deterministic) auto

lemma canonical_no_evidence:
  "distinct ds \<Longrightarrow> set ds \<subseteq> stored st \<Longrightarrow> sorted_wrt (tie_le st) ds \<Longrightarrow> M - X = set ds \<Longrightarrow>
    canonical st {} M X (map (\<lambda>d. [d]) ds)"
proof (induction ds arbitrary: X)
  case Nil
  then show ?case by auto
next
  case (Cons d ds)
  have "M - (X \<union> {d}) = set ds" using Cons.prems by auto
  then have "canonical st {} M (X \<union> {d}) (map (\<lambda>d. [d]) ds)" using Cons by auto
  moreover have "tie_le st d y" if "y \<in> M" "y \<notin> X" for y
  proof -
    have "y = d \<or> y \<in> set ds" using that Cons.prems(4) by auto
    then show ?thesis using Cons.prems tb.cmp_refl_le [of d st] by auto
  qed
  moreover have "d \<in> M" "d \<notin> X" using Cons.prems(4) by auto
  ultimately show ?case by (auto simp: available_def)
qed

text \<open>Without evidence the batch is in tie-break order: when no pair has a verdict, the result is the
  members sorted by round, origin and digest.\<close>

theorem sort_batch_no_evidence:
  assumes "horizon_ok st" "0 < delta_threshold st" "hash_order_ok h" "set ms \<subseteq> stored st" "distinct ms"
    and "\<And>a b. a \<in> set ms \<Longrightarrow> b \<in> set ms \<Longrightarrow> compare_pair st a b = Inr Tie"
  shows "sort_batch h st ms = Inr (sort_by (tie_break st) ms)"
proof -
  let ?ds = "sort_by (tie_break st) ms"
  have E: "beats st (set ms) = {}" using assms(6) by (auto simp: beats_def verdict_def)
  have "canonical st {} (set ms) {} (map (\<lambda>d. [d]) ?ds)"
    by (rule canonical_no_evidence) (use assms tb.sorted_sort_by [of ms st] in auto)
  moreover obtain Cs where "sort_batch h st ms = Inr (concat Cs)" "canonical st {} (set ms) {} Cs"
    using sort_batch_canonical [OF assms(1-4)] E by auto
  moreover have "Cs = map (\<lambda>d. [d]) ?ds"
    using canonical_unique [OF assms(4), of "{}" "{}" Cs] calculation by simp
  ultimately show ?thesis by simp
qed

lemma sort_batch_no_evidence_witness:
  "sort_batch plain_order (sample_state\<lparr>auf_states := []\<rparr>) [Digest 1, Digest 2] = Inr [Digest 2, Digest 1]"
proof -
  let ?st = "sample_state\<lparr>auf_states := []\<rparr>"
  have "sort_batch plain_order ?st [Digest 1, Digest 2] = Inr (sort_by (tie_break ?st) [Digest 1, Digest 2])"
    by (rule sort_batch_no_evidence)
      (auto simp: horizon_ok_def sample_state_def stored_def compare_pair_def split: if_splits)
  also have "sort_by (tie_break ?st) [Digest 1, Digest 2] = [Digest 2, Digest 1]"
    by (simp add: tie_break_def sample_state_def sample_cert_def cert_round_def cert_origin_def
        ord_cmp_def less_public_key_def)
  finally show ?thesis .
qed

end
