(* ===== verification/Commits.thy ===== *)
theory Commits
  imports Messages
begin

text \<open>
  \<open>CommittedSubDag\<close> of \<open>consensus/src/lib.rs\<close>: what the consensus hands to the executor.
\<close>

record committed_sub_dag =
  batch_index :: u64
  leader_round :: round
  leader_digest :: digest
  certificates :: "certificate list"

end
