(* ===== verification/MrvExecutor.thy ===== *)
theory MrvExecutor
  imports MrvSort Commits
begin

text \<open>
  The operations of \<open>MrvExecutor\<close> (\<open>mrv_executor/src/lib.rs\<close>) around \<open>sort_batch\<close>: what a committed
  batch does to the state, the walk over the causal history that counts who has seen what, the
  capping of horizons, and the release of batches in the order of their index.
\<close>

section \<open>The code\<close>

text \<open>The state that \<open>spawn\<close> builds.\<close>

definition spawn :: "nat option \<Rightarrow> nat \<Rightarrow> round \<Rightarrow> mrv_state" where
  "spawn room committee_size window =
     (let n = max committee_size 1;
          f = (n - 1) div 3
      in \<lparr>tx_output = [], tx_room = room, mrv_store = [], auf_states = [], batches = [],
          active_floor_round = None, frontier_round = 0, window_cap = max window 1,
          reach_threshold = 2 * f + 1, delta_threshold = int (f + 1)\<rparr>)"

definition note_active_round :: "round \<Rightarrow> mrv_state \<Rightarrow> mrv_state" where
  "note_active_round r st =
     st\<lparr>active_floor_round := Some (case active_floor_round st of None \<Rightarrow> r | Some m \<Rightarrow> min m r)\<rparr>"

definition recompute_active_floor_round :: "mrv_state \<Rightarrow> mrv_state" where
  "recompute_active_floor_round st =
     st\<lparr>active_floor_round :=
          (case map (auf_round \<circ> snd) (auf_states st) of [] \<Rightarrow> None | r # rs \<Rightarrow> Some (fold min rs r))\<rparr>"

text \<open>The body of \<open>if let Some(state) = self.auf_states.get_mut(&current)\<close>.\<close>

definition mark_seen :: "nat \<Rightarrow> round \<Rightarrow> public_key \<Rightarrow> auf_state \<Rightarrow> auf_state" where
  "mark_seen reach rnd author s =
     (let seen = (case map_of (seen_by_round s) rnd of None \<Rightarrow> {} | Some S \<Rightarrow> S);
          s' = s\<lparr>seen_by_round := AList.update rnd (insert author seen) (seen_by_round s)\<rparr>
      in if author \<notin> seen \<and> horizon s = None \<and> reach \<le> card (insert author seen)
         then s'\<lparr>horizon := Some rnd, mature := True\<rparr> else s')"

text \<open>
  The \<open>while let Some(current) = stack.pop()\<close> loop. The head of the list is the top of the stack, so
  the parents are pushed in order and the last one is popped first.
\<close>

function update_seen_loop :: "(digest \<times> certificate) list \<Rightarrow> nat \<Rightarrow> round \<Rightarrow> public_key \<Rightarrow> round \<Rightarrow>
    digest list \<Rightarrow> digest set \<Rightarrow> (digest \<times> auf_state) list \<Rightarrow> (digest \<times> auf_state) list" where
  "update_seen_loop store reach rnd author min_round [] visited aufs = aufs"
| "update_seen_loop store reach rnd author min_round (current # stack) visited aufs =
     (if current \<in> visited then update_seen_loop store reach rnd author min_round stack visited aufs
      else case map_of store current of
        None \<Rightarrow> update_seen_loop store reach rnd author min_round stack (insert current visited) aufs
      | Some certificate \<Rightarrow>
          if cert_round certificate < min_round
          then update_seen_loop store reach rnd author min_round stack (insert current visited) aufs
          else
            let aufs = (case map_of aufs current of None \<Rightarrow> aufs
                        | Some s \<Rightarrow> AList.update current (mark_seen reach rnd author s) aufs)
            in if cert_round certificate = min_round
               then update_seen_loop store reach rnd author min_round stack (insert current visited) aufs
               else update_seen_loop store reach rnd author min_round
                      (rev (h_parents (c_header certificate)) @ stack) (insert current visited) aufs)"
  by pat_completeness auto

lemma unvisited_insert': "map_of g n = Some x \<Longrightarrow> n \<notin> V \<Longrightarrow>
    card (fst ` set g - insert n V) < card (fst ` set g - V)"
proof -
  assume "map_of g n = Some x" "n \<notin> V"
  moreover from this have "n \<in> fst ` set g" by (force dest: map_of_SomeD)
  ultimately show ?thesis by (intro psubset_card_mono) auto
qed

lemma unvisited_insert_None: "map_of g n = None \<Longrightarrow> fst ` set g - insert n V = fst ` set g - V"
  by (auto simp: map_of_eq_None_iff)

termination update_seen_loop
proof (relation "inv_image (less_than <*lex*> less_than)
    (\<lambda>(store, reach, rnd, author, min_round, stack, visited, aufs).
       (card (fst ` set store - visited), length stack))", goal_cases)
  case (3 store reach rnd author min_round current stack visited aufs)
  then show ?case by (simp add: unvisited_insert_None)
qed (auto dest: unvisited_insert')

definition update_seen_for_new_certificate :: "round \<Rightarrow> public_key \<Rightarrow> digest \<Rightarrow> mrv_state \<Rightarrow> mrv_state" where
  "update_seen_for_new_certificate rnd author digest st =
     (let min_round = (case active_floor_round st of None \<Rightarrow> rnd | Some r \<Rightarrow> r)
      in st\<lparr>auf_states := update_seen_loop (mrv_store st) (reach_threshold st) rnd author min_round
                            [digest] {} (auf_states st)\<rparr>)"

definition cap_state :: "round \<Rightarrow> round \<Rightarrow> auf_state \<Rightarrow> auf_state" where
  "cap_state frontier window s =
     (if horizon s \<noteq> None then s
      else let cap_round = saturating_add_u64 (auf_round s) window
           in if frontier \<ge> cap_round then s\<lparr>horizon := Some cap_round, mature := False\<rparr> else s)"

definition apply_window_cap :: "mrv_state \<Rightarrow> mrv_state" where
  "apply_window_cap st =
     st\<lparr>auf_states := map (\<lambda>(d, s). (d, cap_state (frontier_round st) (window_cap st) s)) (auf_states st)\<rparr>"

definition batch_horizon :: "mrv_state \<Rightarrow> digest list \<Rightarrow> round option" where
  "batch_horizon st ms =
     fold (\<lambda>digest acc. case acc of None \<Rightarrow> None | Some hz \<Rightarrow>
             (case map_of (auf_states st) digest of None \<Rightarrow> None
              | Some s \<Rightarrow> (case horizon s of None \<Rightarrow> None | Some h \<Rightarrow> Some (max hz h))))
       ms (Some 0)"

definition release_batch :: "u64 \<Rightarrow> digest list \<Rightarrow> mrv_state \<Rightarrow> mrv_state" where
  "release_batch index ms st =
     (let st = st\<lparr>batches := AList.delete index (batches st)\<rparr>;
          (removed_floor, aufs) =
            fold (\<lambda>digest (removed_floor, aufs).
              (removed_floor \<or> (case map_of aufs digest of None \<Rightarrow> False
                                | Some s \<Rightarrow> Some (auf_round s) = active_floor_round st),
               AList.delete digest aufs)) ms (False, auf_states st);
          st = st\<lparr>auf_states := aufs\<rparr>
      in if removed_floor then recompute_active_floor_round st else st)"

text \<open>\<open>self.tx_output.send(certificate)\<close>: an error once the receiver is gone.\<close>

definition send_output :: "certificate \<Rightarrow> mrv_state \<Rightarrow> bool \<times> mrv_state" where
  "send_output certificate st =
     (case tx_room st of
        None \<Rightarrow> (True, st\<lparr>tx_output := tx_output st @ [certificate]\<rparr>)
      | Some 0 \<Rightarrow> (False, st)
      | Some (Suc k) \<Rightarrow> (True, st\<lparr>tx_output := tx_output st @ [certificate], tx_room := Some k\<rparr>))"

fun send_sorted :: "digest list \<Rightarrow> mrv_state \<Rightarrow> bool \<times> mrv_state" where
  "send_sorted [] st = (True, st)"
| "send_sorted (digest # rest) st =
     (case map_of (mrv_store st) digest of
        None \<Rightarrow> send_sorted rest st
      | Some certificate \<Rightarrow>
          (case send_output certificate st of
             (True, st) \<Rightarrow> send_sorted rest st
           | (False, st) \<Rightarrow> (False, st)))"

text \<open>The first entry of the \<open>BTreeMap\<close> of batches.\<close>

definition first_batch :: "(u64 \<times> batch_state) list \<Rightarrow> (u64 \<times> batch_state) option" where
  "first_batch bs =
     (case map fst bs of [] \<Rightarrow> None
      | k # ks \<Rightarrow> (let m = fold min ks k in map_option (Pair m) (map_of bs m)))"

text \<open>
  \<open>try_finalize_batches\<close>: the Boolean is the \<open>Ok\<close>/\<open>Err\<close> of the code. The arm for a missing first
  batch cannot be taken, as the key was just read from the map.
\<close>

lemma first_batch_in: "first_batch bs = Some (k, b) \<Longrightarrow> map_of bs k = Some b"
  by (auto simp: first_batch_def Let_def split: list.splits)

lemma delete_shorter: "map_of bs k = Some b \<Longrightarrow> length (AList.delete k bs) < length bs"
proof (induction bs)
  case (Cons x bs)
  then show ?case using length_delete_le [of k bs] by (cases x) (auto simp: less_Suc_eq_le)
qed simp

lemma batches_recompute [simp]: "batches (recompute_active_floor_round st) = batches st"
  by (simp add: recompute_active_floor_round_def)

lemma batches_release [simp]: "batches (release_batch k ms st) = AList.delete k (batches st)"
  by (auto simp: release_batch_def Let_def split: prod.splits)

text \<open>Sending changes the channel only.\<close>

definition core :: "mrv_state \<Rightarrow> mrv_state" where
  "core st = st\<lparr>tx_output := [], tx_room := None\<rparr>"

lemma send_output_core: "core (snd (send_output c st)) = core st"
  by (cases "tx_room st" rule: option.exhaust [case_product nat.exhaust])
    (auto simp: core_def send_output_def split: nat.splits option.splits)

lemma send_sorted_core: "core (snd (send_sorted ds st)) = core st"
proof (induction ds arbitrary: st)
  case (Cons d ds)
  show ?case
  proof (cases "map_of (mrv_store st) d")
    case (Some c)
    obtain b st' where s: "send_output c st = (b, st')" by fastforce
    with send_output_core [of c st] have "core st' = core st" by simp
    with Some s Cons [of st'] show ?thesis by (cases b) simp_all
  qed (simp add: Cons)
qed simp

lemma core_fields:
  assumes "core st' = core st"
  shows "mrv_store st' = mrv_store st" "auf_states st' = auf_states st" "batches st' = batches st"
    "active_floor_round st' = active_floor_round st" "frontier_round st' = frontier_round st"
    "window_cap st' = window_cap st" "reach_threshold st' = reach_threshold st"
    "delta_threshold st' = delta_threshold st"
  using assms by (simp_all add: core_def) (metis mrv_state.select_convs mrv_state.ext_inject mrv_state.surjective mrv_state.update_convs)+

lemma batches_send_sorted: "(b, st') = send_sorted ds st \<Longrightarrow> batches st' = batches st"
  using core_fields(3) [OF send_sorted_core [of ds st]] by (metis snd_conv)

function try_finalize_batches :: "hash_order \<Rightarrow> mrv_state \<Rightarrow> (bool \<times> mrv_state) res" where
  "try_finalize_batches h st =
     (case first_batch (batches st) of
        None \<Rightarrow> Inr (True, st)
      | Some (next_index, batch) \<Rightarrow>
          if b_members batch = [] then try_finalize_batches h (st\<lparr>batches := AList.delete next_index (batches st)\<rparr>)
          else case batch_horizon st (b_members batch) of
            None \<Rightarrow> Inr (True, st)
          | Some bh \<Rightarrow>
              if frontier_round st < bh then Inr (True, st)
              else bindR (sort_batch h st (b_members batch)) (\<lambda>sorted.
                   case send_sorted sorted st of
                     (False, st) \<Rightarrow> Inr (False, st)
                   | (True, st) \<Rightarrow> try_finalize_batches h (release_batch next_index (b_members batch) st)))"
  by pat_completeness auto

termination try_finalize_batches
  by (relation "measure (\<lambda>(h, st). length (batches st))")
    (auto dest!: first_batch_in batches_send_sorted intro: delete_shorter)

declare try_finalize_batches.simps [simp del]

text \<open>The body of the loop over the certificates of a committed batch; the list collects \<open>members\<close>.\<close>

definition add_certificate :: "crypto_lib \<Rightarrow> certificate \<Rightarrow> digest list \<times> mrv_state \<Rightarrow> digest list \<times> mrv_state" where
  "add_certificate L certificate s =
     (let (ms, st) = s;
          digest = cert_digest L certificate;
          rnd = cert_round certificate;
          author = cert_origin certificate;
          st = st\<lparr>frontier_round := max (frontier_round st) rnd,
                  mrv_store := AList.update digest certificate (mrv_store st)\<rparr>;
          st = (if map_of (auf_states st) digest = None
                then let st = note_active_round rnd st
                     in st\<lparr>auf_states := AList.update digest (auf_state_new rnd) (auf_states st)\<rparr>
                else st);
          st = update_seen_for_new_certificate rnd author digest st
      in (ms @ [digest], st))"

definition on_committed_batch :: "crypto_lib \<Rightarrow> hash_order \<Rightarrow> committed_sub_dag \<Rightarrow> mrv_state \<Rightarrow>
    (bool \<times> mrv_state) res" where
  "on_committed_batch L h committed_batch st =
     (let (ms, st) = fold (add_certificate L) (certificates committed_batch) ([], st);
          st = (if ms \<noteq> [] then st\<lparr>batches := AList.update (batch_index committed_batch) \<lparr>b_members = ms\<rparr> (batches st)\<rparr>
                else st)
      in try_finalize_batches h (apply_window_cap st))"

text \<open>\<open>run\<close> over the batches received: it stops at the first error.\<close>

fun run_executor :: "crypto_lib \<Rightarrow> hash_order \<Rightarrow> committed_sub_dag list \<Rightarrow> mrv_state \<Rightarrow> (bool \<times> mrv_state) res" where
  "run_executor L h [] st = Inr (True, st)"
| "run_executor L h (b # bs) st =
     bindR (on_committed_batch L h b st) (\<lambda>(ok, st). if ok then run_executor L h bs st else Inr (False, st))"

section \<open>Who has been seen: the walk over the causal history\<close>

declare update_seen_loop.simps(2) [simp del]

lemma wreach_stack:
  assumes n: "n \<notin> V"
  shows "wreach E V `` (insert n S - V) = insert n (wreach E (insert n V) `` (E `` {n} \<union> S - insert n V))"
proof (intro equalityI subsetI)
  fix y assume "y \<in> wreach E V `` (insert n S - V)"
  then obtain x where x: "x \<in> insert n S" "x \<notin> V" "(x, y) \<in> wreach E V" by blast
  consider "(n, y) \<in> wreach E V" | "x \<noteq> n" "(x, y) \<in> wreach E (insert n V)"
    using wreach_through [OF x(3), of n] x(3) by blast
  then show "y \<in> insert n (wreach E (insert n V) `` (E `` {n} \<union> S - insert n V))"
  proof cases
    case 1
    then have "y \<in> wreach E V `` {n}" by simp
    then show ?thesis unfolding wreach_node [OF n, of E] by blast
  next
    case 2
    then show ?thesis using x by blast
  qed
next
  fix y assume y: "y \<in> insert n (wreach E (insert n V) `` (E `` {n} \<union> S - insert n V))"
  have "wreach E V `` {n} \<subseteq> wreach E V `` (insert n S - V)" using n by blast
  moreover have "wreach E (insert n V) `` (S - insert n V) \<subseteq> wreach E V `` (insert n S - V)"
    using wreach_mono [of V "insert n V" E] by blast
  ultimately show "y \<in> wreach E V `` (insert n S - V)" using y wreach_node [OF n, of E] by blast
qed

text \<open>The edges the walk follows: from a stored certificate above the floor to its parents.\<close>

definition above_floor :: "(digest \<times> certificate) list \<Rightarrow> round \<Rightarrow> (digest \<times> digest) set" where
  "above_floor store m = {(c, p). \<exists>cert. map_of store c = Some cert \<and> m < cert_round cert
     \<and> p \<in> set (h_parents (c_header cert))}"

definition marked :: "(digest \<times> certificate) list \<Rightarrow> round \<Rightarrow> digest set \<Rightarrow> digest set \<Rightarrow> digest set" where
  "marked store m V S = {d \<in> wreach (above_floor store m) V `` (S - V).
     \<exists>cert. map_of store d = Some cert \<and> m \<le> cert_round cert}"

lemma marked_visited: "n \<in> V \<Longrightarrow> marked store m V (insert n S) = marked store m V S"
  by (simp add: marked_def)

lemma marked_step:
  assumes "n \<notin> V"
  shows "marked store m V (insert n S) =
    (if \<exists>cert. map_of store n = Some cert \<and> m \<le> cert_round cert then {n} else {})
    \<union> marked store m (insert n V) (above_floor store m `` {n} \<union> S)"
  unfolding marked_def wreach_stack [OF assms] by auto

lemma marked_notin: "n \<in> V \<Longrightarrow> n \<notin> marked store m V S"
  using wreach_notin [of _ n "above_floor store m" V] by (auto simp: marked_def)

lemma update_seen_loop_map:
  "map_of (update_seen_loop store reach rnd author m stack V aufs) d =
     (if d \<in> marked store m V (set stack) then map_option (mark_seen reach rnd author) (map_of aufs d)
      else map_of aufs d)"
proof (induction store reach rnd author m stack V aufs rule: update_seen_loop.induct)
  case (1 store reach rnd author m V aufs)
  then show ?case by (simp add: marked_def)
next
  case (2 store reach rnd author m cur stack V aufs)
  let ?E = "above_floor store m"
  show ?case
  proof (cases "cur \<in> V")
    case True
    with 2 show ?thesis by (simp add: marked_visited update_seen_loop.simps(2))
  next
    case new: False
    note step = marked_step [OF new, of store m "set stack"]
    show ?thesis
    proof (cases "map_of store cur")
      case None
      then have "?E `` {cur} = {}" by (auto simp: above_floor_def)
      with "2.IH"(2) None new step show ?thesis by (simp add: update_seen_loop.simps(2))
    next
      case (Some cert)
      show ?thesis
      proof (cases "cert_round cert < m")
        case True
        then have "?E `` {cur} = {}" using Some by (auto simp: above_floor_def)
        with "2.IH"(3) Some True new step show ?thesis by (simp add: update_seen_loop.simps(2))
      next
        case ge: False
        let ?aufs = "case map_of aufs cur of None \<Rightarrow> aufs
                     | Some s \<Rightarrow> AList.update cur (mark_seen reach rnd author s) aufs"
        have aufs: "map_of ?aufs d = (if d = cur then map_option (mark_seen reach rnd author) (map_of aufs cur)
            else map_of aufs d)" for d
          by (auto simp: AList.update_conv' split: option.splits)
        have mk: "marked store m V (insert cur (set stack))
            = insert cur (marked store m (insert cur V) (?E `` {cur} \<union> set stack))"
          using step Some ge by (auto simp: not_less)
        have cur: "cur \<notin> marked store m (insert cur V) S" for S by (simp add: marked_notin)
        show ?thesis
        proof (cases "cert_round cert = m")
          case True
          then have E: "?E `` {cur} = {}" using Some by (auto simp: above_floor_def)
          show ?thesis using "2.IH"(4) [OF new Some ge refl True] Some ge True new mk cur
            unfolding E by (simp add: aufs update_seen_loop.simps(2))
        next
          case False
          then have E: "?E `` {cur} = set (h_parents (c_header cert))"
            using Some ge by (auto simp: above_floor_def)
          show ?thesis using "2.IH"(5) [OF new Some ge refl False] Some ge False new mk cur
            unfolding E by (simp add: aufs update_seen_loop.simps(2))
        qed
      qed
    qed
  qed
qed

lemma update_seen_loop_keys:
  "map fst (update_seen_loop store reach rnd author m stack V aufs) = map fst aufs"
proof (induction store reach rnd author m stack V aufs rule: update_seen_loop.induct)
  case (2 store reach rnd author m cur stack V aufs)
  have "map fst (case map_of aufs cur of None \<Rightarrow> aufs
      | Some s \<Rightarrow> AList.update cur (mark_seen reach rnd author s) aufs) = map fst aufs"
  proof (cases "map_of aufs cur")
    case (Some s)
    then have "cur \<in> set (map fst aufs)" using map_of_Some_iff [of aufs cur] by blast
    with Some show ?thesis by (simp add: update_keys del: set_map)
  qed simp
  with 2 show ?case by (auto split: option.splits simp: Let_def update_seen_loop.simps(2))
qed simp

text \<open>In a store where parents are of earlier rounds, the floor cuts off nothing that is active.\<close>

definition ancestry :: "(digest \<times> certificate) list \<Rightarrow> (digest \<times> digest) set" where
  "ancestry store = {(c, p). \<exists>cert. map_of store c = Some cert \<and> p \<in> set (h_parents (c_header cert))}"

definition ranked :: "(digest \<times> certificate) list \<Rightarrow> bool" where
  "ranked store \<longleftrightarrow> (\<forall>d c p cp. map_of store d = Some c \<longrightarrow> p \<in> set (h_parents (c_header c)) \<longrightarrow>
     map_of store p = Some cp \<longrightarrow> cert_round cp < cert_round c)"

lemma floor_path:
  assumes r: "ranked store" and d: "map_of store d = Some cd" "m \<le> cert_round cd"
    and path: "(x, d) \<in> (ancestry store)\<^sup>*"
  shows "(x, d) \<in> (above_floor store m)\<^sup>* \<and> (\<exists>cx. map_of store x = Some cx \<and> cert_round cd \<le> cert_round cx)"
  using path
proof (induction rule: converse_rtrancl_induct)
  case base
  with d show ?case by auto
next
  case (step x y)
  then obtain cx cy where c: "map_of store x = Some cx" "y \<in> set (h_parents (c_header cx))"
    "map_of store y = Some cy" "cert_round cd \<le> cert_round cy"
    by (auto simp: ancestry_def)
  then have lt: "cert_round cy < cert_round cx" using r by (auto simp: ranked_def)
  then have "m < cert_round cx" using c(4) d(2) by (meson le_less_trans)
  then have "(x, y) \<in> above_floor store m" using c by (auto simp: above_floor_def)
  with step.IH have "(x, d) \<in> (above_floor store m)\<^sup>*" by (meson converse_rtrancl_into_rtrancl)
  moreover have "cert_round cd \<le> cert_round cx" using c(4) lt by simp
  ultimately show ?case using c(1) by blast
qed

lemma marked_ancestry:
  assumes "ranked store" "map_of store d = Some cd" "m \<le> cert_round cd"
  shows "d \<in> marked store m {} {x} \<longleftrightarrow> (x, d) \<in> (ancestry store)\<^sup>*"
proof
  assume "d \<in> marked store m {} {x}"
  then have "(x, d) \<in> (above_floor store m)\<^sup>*" by (simp add: marked_def)
  moreover have "above_floor store m \<subseteq> ancestry store" by (auto simp: above_floor_def ancestry_def)
  ultimately show "(x, d) \<in> (ancestry store)\<^sup>*" using rtrancl_mono by blast
next
  assume "(x, d) \<in> (ancestry store)\<^sup>*"
  with floor_path [OF assms] assms show "d \<in> marked store m {} {x}" by (auto simp: marked_def)
qed

section \<open>Invariants of the state\<close>

definition auf_ok :: "nat \<Rightarrow> round \<Rightarrow> auf_state \<Rightarrow> bool" where
  "auf_ok reach frontier s \<longleftrightarrow>
     (mature s \<longrightarrow> (\<exists>h S. horizon s = Some h \<and> map_of (seen_by_round s) h = Some S \<and> reach \<le> card S))
     \<and> (\<forall>h. horizon s = Some h \<longrightarrow> h \<le> frontier)
     \<and> (\<forall>r S. map_of (seen_by_round s) r = Some S \<longrightarrow> finite S)"

definition active_rounds :: "mrv_state \<Rightarrow> round set" where
  "active_rounds st = auf_round ` ran (map_of (auf_states st))"

definition mrv_inv :: "mrv_state \<Rightarrow> bool" where
  "mrv_inv st \<longleftrightarrow> distinct (map fst (auf_states st)) \<and> 0 < delta_threshold st
     \<and> (\<forall>d s. map_of (auf_states st) d = Some s \<longrightarrow> auf_ok (reach_threshold st) (frontier_round st) s
          \<and> (\<exists>c. map_of (mrv_store st) d = Some c \<and> cert_round c = auf_round s))
     \<and> active_floor_round st = (if active_rounds st = {} then None else Some (Min (active_rounds st)))"

lemma mrv_inv_D:
  assumes "mrv_inv st"
  shows "horizon_ok st" "0 < delta_threshold st"
    "map_of (auf_states st) d = Some s \<Longrightarrow> auf_ok (reach_threshold st) (frontier_round st) s"
    "map_of (auf_states st) d = Some s \<Longrightarrow> \<exists>c. map_of (mrv_store st) d = Some c \<and> cert_round c = auf_round s"
  using assms by (fastforce simp: mrv_inv_def horizon_ok_def auf_ok_def)+

lemma finite_active_rounds [simp]: "finite (active_rounds st)"
  by (simp add: active_rounds_def finite_ran)

lemma mark_seen_fields [simp]:
  "auf_round (mark_seen reach rnd author s) = auf_round s"
  "horizon s = Some h \<Longrightarrow> horizon (mark_seen reach rnd author s) = Some h"
  "horizon s = Some h \<Longrightarrow> mature (mark_seen reach rnd author s) = mature s"
  by (simp_all add: mark_seen_def Let_def)

lemma cap_state_fields [simp]:
  "auf_round (cap_state frontier window s) = auf_round s"
  "seen_by_round (cap_state frontier window s) = seen_by_round s"
  "horizon s = Some h \<Longrightarrow> cap_state frontier window s = s"
  by (simp_all add: cap_state_def Let_def)

lemma mark_seen_seen:
  "map_of (seen_by_round (mark_seen reach rnd author s)) r =
     (if r = rnd then Some (insert author (case map_of (seen_by_round s) rnd of None \<Rightarrow> {} | Some S \<Rightarrow> S))
      else map_of (seen_by_round s) r)"
  by (simp add: mark_seen_def Let_def AList.update_conv')

lemma auf_ok_mark_seen:
  assumes ok: "auf_ok reach frontier s" and r: "rnd \<le> frontier"
  shows "auf_ok reach frontier (mark_seen reach rnd author s)"
proof -
  let ?seen = "case map_of (seen_by_round s) rnd of None \<Rightarrow> {} | Some S \<Rightarrow> S"
  let ?s = "mark_seen reach rnd author s"
  have fin: "finite ?seen" using ok by (auto simp: auf_ok_def split: option.splits)
  have f: "\<forall>r S. map_of (seen_by_round ?s) r = Some S \<longrightarrow> finite S"
    using ok fin by (simp add: mark_seen_seen auf_ok_def)
  show ?thesis
  proof (cases "author \<notin> ?seen \<and> horizon s = None \<and> reach \<le> card (insert author ?seen)")
    case True
    then have "horizon ?s = Some rnd" "mature ?s" by (simp_all add: mark_seen_def Let_def)
    with True r f show ?thesis by (simp add: auf_ok_def mark_seen_seen)
  next
    case False
    then have same: "horizon ?s = horizon s" "mature ?s = mature s" by (auto simp: mark_seen_def Let_def)
    have "\<exists>S. map_of (seen_by_round ?s) h = Some S \<and> reach \<le> card S"
      if "map_of (seen_by_round s) h = Some S" "reach \<le> card S" for h S
    proof (cases "h = rnd")
      case True
      then have "reach \<le> card (insert author ?seen)" using that card_insert_le [of ?seen author] by simp
      with True show ?thesis by (simp add: mark_seen_seen)
    qed (use that in \<open>simp add: mark_seen_seen\<close>)
    with ok f show ?thesis unfolding auf_ok_def same by meson
  qed
qed

lemma auf_ok_cap_state:
  "auf_ok reach frontier s \<Longrightarrow> auf_ok reach frontier (cap_state frontier window s)"
  by (auto simp: auf_ok_def cap_state_def Let_def)

lemma auf_ok_mono: "auf_ok reach f s \<Longrightarrow> f \<le> f' \<Longrightarrow> auf_ok reach f' s"
  by (auto simp: auf_ok_def intro: order_trans)

lemma auf_ok_new: "auf_ok reach frontier (auf_state_new r)"
  by (simp add: auf_ok_def auf_state_new_def)

lemma mrv_inv_update:
  assumes inv: "mrv_inv st" and keys: "map fst aufs = map fst (auf_states st)"
    and lookup: "\<And>d. map_of aufs d = map_option (g d) (map_of (auf_states st) d)"
    and g: "\<And>d s. auf_round (g d s) = auf_round s"
      "\<And>d s. auf_ok (reach_threshold st) (frontier_round st) s \<Longrightarrow> auf_ok (reach_threshold st) (frontier_round st) (g d s)"
  shows "mrv_inv (st\<lparr>auf_states := aufs\<rparr>)"
proof -
  have "r \<in> active_rounds (st\<lparr>auf_states := aufs\<rparr>) \<longleftrightarrow> r \<in> active_rounds st" for r
    by (auto simp: active_rounds_def ran_def lookup g(1) image_iff) (metis g(1))
  then have R: "active_rounds (st\<lparr>auf_states := aufs\<rparr>) = active_rounds st" by blast
  have "auf_ok (reach_threshold st) (frontier_round st) s
      \<and> (\<exists>c. map_of (mrv_store st) d = Some c \<and> cert_round c = auf_round s)"
    if "map_of aufs d = Some s" for d s
    using that mrv_inv_D(3,4) [OF inv] by (auto simp: lookup g)
  with inv R keys show ?thesis by (simp add: mrv_inv_def)
qed

text \<open>The updates of \<open>update_seen_for_new_certificate\<close> and \<open>apply_window_cap\<close> as functions of the lookup.\<close>

lemma update_seen_lookup:
  "map_of (auf_states (update_seen_for_new_certificate rnd author digest st)) d =
     map_option (if d \<in> marked (mrv_store st) (case active_floor_round st of None \<Rightarrow> rnd | Some r \<Rightarrow> r) {} {digest}
                 then mark_seen (reach_threshold st) rnd author else (\<lambda>s. s)) (map_of (auf_states st) d)"
  by (cases "map_of (auf_states st) d")
    (simp_all add: update_seen_for_new_certificate_def update_seen_loop_map Let_def)

lemma update_seen_inv:
  assumes "mrv_inv st" "rnd \<le> frontier_round st"
  shows "mrv_inv (update_seen_for_new_certificate rnd author digest st)"
proof -
  let ?aufs = "auf_states (update_seen_for_new_certificate rnd author digest st)"
  have "mrv_inv (st\<lparr>auf_states := ?aufs\<rparr>)"
    by (rule mrv_inv_update [OF assms(1) _ update_seen_lookup])
      (use auf_ok_mark_seen assms(2) in \<open>auto simp: update_seen_for_new_certificate_def update_seen_loop_keys Let_def\<close>)
  then show ?thesis by (simp add: update_seen_for_new_certificate_def Let_def)
qed

lemma map_of_map_entries: "map_of (map (\<lambda>(d, x). (d, f x)) m) k = map_option f (map_of m k)"
  by (induction m) auto

lemma apply_window_cap_lookup:
  "map_of (auf_states (apply_window_cap st)) d =
     map_option (cap_state (frontier_round st) (window_cap st)) (map_of (auf_states st) d)"
  by (simp add: apply_window_cap_def map_of_map_entries)

lemma apply_window_cap_inv: "mrv_inv st \<Longrightarrow> mrv_inv (apply_window_cap st)"
  unfolding apply_window_cap_def
  by (rule mrv_inv_update [where g = "\<lambda>_. cap_state (frontier_round st) (window_cap st)"])
    (simp_all add: map_of_map_entries auf_ok_cap_state split_def comp_def del: map_eq_conv
       flip: map_of_map_entries)

lemma note_active_inv:
  assumes inv: "mrv_inv st" and none: "map_of (auf_states st) digest = None"
    and c: "map_of (mrv_store st) digest = Some c" "cert_round c = rnd"
  shows "mrv_inv ((note_active_round rnd st)\<lparr>auf_states := AList.update digest (auf_state_new rnd) (auf_states st)\<rparr>)"
    (is "mrv_inv ?st")
proof -
  have lookup: "map_of (auf_states ?st) = (map_of (auf_states st))(digest \<mapsto> auf_state_new rnd)"
    by (simp add: AList.update_conv')
  have R: "active_rounds ?st = insert rnd (active_rounds st)"
    unfolding active_rounds_def lookup using none by (simp add: auf_state_new_def)
  have "active_floor_round ?st = Some (Min (insert rnd (active_rounds st)))"
    using inv by (auto simp: note_active_round_def mrv_inv_def min.commute)
  moreover have "distinct (map fst (auf_states ?st))"
    using inv by (simp add: mrv_inv_def distinct_update)
  moreover have "auf_ok (reach_threshold st) (frontier_round st) s
      \<and> (\<exists>c. map_of (mrv_store st) d = Some c \<and> cert_round c = auf_round s)"
    if "map_of (auf_states ?st) d = Some s" for d s
  proof (cases "d = digest")
    case True
    then have "s = auf_state_new rnd" using that unfolding lookup by simp
    with True c show ?thesis using auf_ok_new by (auto simp: auf_state_new_def)
  next
    case False
    then have "map_of (auf_states st) d = Some s" using that unfolding lookup by simp
    with mrv_inv_D(3,4) [OF inv] show ?thesis by blast
  qed
  ultimately show ?thesis using inv R by (simp add: mrv_inv_def note_active_round_def)
qed

lemma store_inv:
  assumes inv: "mrv_inv st" and fresh: "digest \<notin> stored st"
  shows "mrv_inv (st\<lparr>frontier_round := max (frontier_round st) rnd,
    mrv_store := AList.update digest certificate (mrv_store st)\<rparr>)" (is "mrv_inv ?st")
proof -
  have R: "active_rounds ?st = active_rounds st" by (simp add: active_rounds_def)
  have "auf_ok (reach_threshold st) (max (frontier_round st) rnd) s
      \<and> (\<exists>c. map_of (mrv_store ?st) d = Some c \<and> cert_round c = auf_round s)"
    if s: "map_of (auf_states st) d = Some s" for d s
  proof -
    have "d \<noteq> digest" using mrv_inv_D(4) [OF inv s] fresh by (auto simp: stored_def)
    with mrv_inv_D(3,4) [OF inv s] show ?thesis
      by (auto simp: AList.update_conv' intro: auf_ok_mono)
  qed
  with inv R show ?thesis by (simp add: mrv_inv_def)
qed

lemma fresh_no_auf: "mrv_inv st \<Longrightarrow> d \<notin> stored st \<Longrightarrow> map_of (auf_states st) d = None"
  using mrv_inv_D(4) by (fastforce simp: stored_def)

lemma add_certificate_inv:
  assumes inv: "mrv_inv st" and fresh: "cert_digest L c \<notin> stored st"
  shows "mrv_inv (snd (add_certificate L c (ms, st)))"
proof -
  let ?d = "cert_digest L c" and ?r = "cert_round c"
  let ?st = "st\<lparr>frontier_round := max (frontier_round st) ?r, mrv_store := AList.update ?d c (mrv_store st)\<rparr>"
  let ?st2 = "(note_active_round ?r ?st)\<lparr>auf_states := AList.update ?d (auf_state_new ?r) (auf_states ?st)\<rparr>"
  have none: "map_of (auf_states st) ?d = None" by (rule fresh_no_auf [OF inv fresh])
  have "mrv_inv ?st" by (rule store_inv [OF inv fresh])
  then have "mrv_inv ?st2" by (rule note_active_inv) (simp_all add: none AList.update_conv')
  then have "mrv_inv (update_seen_for_new_certificate ?r (cert_origin c) ?d ?st2)"
    by (rule update_seen_inv) (simp add: note_active_round_def)
  then show ?thesis using none by (simp add: add_certificate_def Let_def note_active_round_def)
qed

lemma release_fold:
  "fold (\<lambda>digest (removed_floor, aufs).
      (removed_floor \<or> (case map_of aufs digest of None \<Rightarrow> False
                        | Some s \<Rightarrow> Some (auf_round s) = fl),
       AList.delete digest aufs)) ms (rf, aufs)
   = (rf \<or> (\<exists>d \<in> set ms. \<exists>s. map_of aufs d = Some s \<and> Some (auf_round s) = fl),
      filter (\<lambda>x. fst x \<notin> set ms) aufs)"
proof (induction ms arbitrary: rf aufs)
  case (Cons d ms)
  have del: "filter (\<lambda>x. fst x \<notin> set ms) (AList.delete d aufs) = filter (\<lambda>x. fst x \<notin> set (d # ms)) aufs"
    by (auto simp: AList.delete_eq split_def intro!: filter_cong)
  have hit: "(\<exists>e \<in> set ms. \<exists>s. map_of (AList.delete d aufs) e = Some s \<and> P s)
    \<longleftrightarrow> (\<exists>e \<in> set ms - {d}. \<exists>s. map_of aufs e = Some s \<and> P s)" for P
    by (auto simp: AList.delete_conv' split: if_splits)
  show ?case
    unfolding fold.simps comp_apply split Cons.IH del hit
    by (cases "map_of aufs d") auto
qed simp

lemma map_of_filter_keys: "map_of (filter (\<lambda>x. P (fst x)) m) k = (if P k then map_of m k else None)"
  by (induction m) auto

lemma recompute_floor:
  "recompute_active_floor_round st = st\<lparr>active_floor_round :=
     (if auf_states st = [] then None else Some (Min (auf_round ` snd ` set (auf_states st))))\<rparr>"
  by (cases "auf_states st")
    (simp_all add: recompute_active_floor_round_def Min.set_eq_fold [symmetric] image_image)

lemma active_rounds_set:
  "distinct (map fst (auf_states st)) \<Longrightarrow> active_rounds st = auf_round ` snd ` set (auf_states st)"
  by (simp add: active_rounds_def ran_distinct)

lemma release_batch_lookup:
  "map_of (auf_states (release_batch k ms st)) d = (if d \<in> set ms then None else map_of (auf_states st) d)"
  unfolding release_batch_def Let_def release_fold
  by (simp add: recompute_active_floor_round_def map_of_filter_keys [of "\<lambda>d. d \<notin> set ms"])

lemma release_batch_fields [simp]:
  "mrv_store (release_batch k ms st) = mrv_store st" "tx_output (release_batch k ms st) = tx_output st"
  "tx_room (release_batch k ms st) = tx_room st" "frontier_round (release_batch k ms st) = frontier_round st"
  "window_cap (release_batch k ms st) = window_cap st"
  "reach_threshold (release_batch k ms st) = reach_threshold st"
  "delta_threshold (release_batch k ms st) = delta_threshold st"
  by (simp_all add: release_batch_def Let_def release_fold recompute_active_floor_round_def)

lemma release_batch_inv:
  assumes inv: "mrv_inv st"
  shows "mrv_inv (release_batch k ms st)" (is "mrv_inv ?st")
proof -
  let ?rf = "\<exists>d \<in> set ms. \<exists>s. map_of (auf_states st) d = Some s \<and> Some (auf_round s) = active_floor_round st"
  let ?aufs = "filter (\<lambda>x. fst x \<notin> set ms) (auf_states st)"
  let ?base = "st\<lparr>batches := AList.delete k (batches st), auf_states := ?aufs\<rparr>"
  have st: "?st = (if ?rf then recompute_active_floor_round ?base else ?base)"
    unfolding release_batch_def Let_def release_fold by simp
  have aufs: "auf_states ?st = ?aufs" by (simp add: st recompute_active_floor_round_def)
  have dist: "distinct (map fst ?aufs)" using inv by (simp add: mrv_inv_def distinct_map_filter)
  have R: "active_rounds ?st = auf_round ` snd ` set ?aufs"
    using active_rounds_set [of ?st] dist aufs by simp
  have floor: "active_floor_round ?st = (if active_rounds ?st = {} then None else Some (Min (active_rounds ?st)))"
  proof (cases ?rf)
    case True
    then have "active_floor_round ?st = (if ?aufs = [] then None else Some (Min (auf_round ` snd ` set ?aufs)))"
      using st by (simp add: recompute_floor)
    then show ?thesis unfolding R by (simp only: image_is_empty set_empty)
  next
    case False
    have "?st = ?base" by (rule trans [OF st if_not_P [OF False]])
    then have same: "active_floor_round ?st = active_floor_round st" by simp
    show ?thesis
    proof (cases "active_rounds st = {}")
      case True
      moreover have "active_rounds ?st \<subseteq> active_rounds st"
        using R active_rounds_set [of st] inv by (auto simp: mrv_inv_def)
      ultimately show ?thesis using same inv by (simp add: mrv_inv_def)
    next
      case ne: False
      let ?m = "Min (active_rounds st)"
      have fl: "active_floor_round st = Some ?m" using inv ne by (simp add: mrv_inv_def)
      have "?m \<in> active_rounds st" using ne by simp
      then obtain d s where ds: "map_of (auf_states st) d = Some s" "auf_round s = ?m"
        by (auto simp: active_rounds_def ran_def)
      then have "d \<notin> set ms" using False fl by auto
      then have "(d, s) \<in> set ?aufs" using map_of_SomeD [OF ds(1)] by simp
      then have mem: "?m \<in> active_rounds ?st" using R ds(2) by force
      have "active_rounds ?st \<subseteq> active_rounds st"
        using R active_rounds_set [of st] inv by (auto simp: mrv_inv_def)
      then have "Min (active_rounds ?st) = ?m" using mem by (intro Min_eqI) auto
      with mem same fl show ?thesis by auto
    qed
  qed
  have "auf_ok (reach_threshold st) (frontier_round st) s
      \<and> (\<exists>c. map_of (mrv_store st) d = Some c \<and> cert_round c = auf_round s)"
    if "map_of (auf_states ?st) d = Some s" for d s
    using that mrv_inv_D(3,4) [OF inv] by (simp add: release_batch_lookup split: if_splits)
  with floor dist aufs inv show ?thesis by (simp add: mrv_inv_def)
qed

section \<open>Finalising batches\<close>

lemma mrv_inv_core: "core st' = core st \<Longrightarrow> mrv_inv st \<Longrightarrow> mrv_inv st'"
  using core_fields [of st' st] by (simp add: mrv_inv_def active_rounds_def)

lemma batch_horizon_gen:
  "fold (\<lambda>digest acc. case acc of None \<Rightarrow> None | Some hz \<Rightarrow>
             (case map_of (auf_states st) digest of None \<Rightarrow> None
              | Some s \<Rightarrow> (case horizon s of None \<Rightarrow> None | Some h \<Rightarrow> Some (max hz h)))) ms None = None"
  by (induction ms) auto

lemma batch_horizon_cases:
  assumes inv: "mrv_inv st" and mem: "\<And>d. d \<in> set ms \<Longrightarrow> map_of (auf_states st) d \<noteq> None"
  shows "(\<exists>bh. batch_horizon st ms = Some bh \<and> bh \<le> frontier_round st)
    \<or> batch_horizon st ms = None \<and> (\<exists>d \<in> set ms. \<exists>s. map_of (auf_states st) d = Some s \<and> horizon s = None)"
proof -
  let ?f = "\<lambda>digest acc. case acc of None \<Rightarrow> None | Some hz \<Rightarrow>
             (case map_of (auf_states st) digest of None \<Rightarrow> None
              | Some s \<Rightarrow> (case horizon s of None \<Rightarrow> None | Some h \<Rightarrow> Some (max hz h)))"
  have "(\<exists>bh. fold ?f ms (Some hz) = Some bh \<and> bh \<le> frontier_round st)
    \<or> fold ?f ms (Some hz) = None \<and> (\<exists>d \<in> set ms. \<exists>s. map_of (auf_states st) d = Some s \<and> horizon s = None)"
    if "hz \<le> frontier_round st" for hz
    using that mem
  proof (induction ms arbitrary: hz)
    case (Cons d ms)
    obtain s where s: "map_of (auf_states st) d = Some s" using Cons.prems(2) [of d] by auto
    show ?case
    proof (cases "horizon s")
      case None
      with s show ?thesis by (auto simp: batch_horizon_gen)
    next
      case (Some h)
      then have "max hz h \<le> frontier_round st"
        using mrv_inv_D(3) [OF inv s] Cons.prems(1) by (simp add: auf_ok_def)
      from Cons.IH [OF this Cons.prems(2)] s Some show ?thesis by auto
    qed
  qed simp
  then show ?thesis by (simp add: batch_horizon_def)
qed

lemma send_sorted_ok:
  assumes "set ds \<subseteq> stored st"
  shows "send_sorted ds st =
    (let cs = map (\<lambda>d. the (map_of (mrv_store st) d)) ds in
     case tx_room st of
       None \<Rightarrow> (True, st\<lparr>tx_output := tx_output st @ cs\<rparr>)
     | Some k \<Rightarrow> if length ds \<le> k
         then (True, st\<lparr>tx_output := tx_output st @ cs, tx_room := Some (k - length ds)\<rparr>)
         else (False, st\<lparr>tx_output := tx_output st @ take k cs, tx_room := Some 0\<rparr>))"
  using assms
proof (induction ds arbitrary: st)
  case Nil
  then show ?case by (auto split: option.splits)
next
  case (Cons d ds)
  obtain c where c: "map_of (mrv_store st) d = Some c" using Cons.prems by (auto simp: stored_def)
  have sub: "set ds \<subseteq> stored (st\<lparr>tx_output := out, tx_room := r\<rparr>)" "set ds \<subseteq> stored (st\<lparr>tx_output := out\<rparr>)" for out r
    using Cons.prems by (simp_all add: stored_def)
  show ?case
  proof (cases "tx_room st")
    case None
    with c Cons.IH [OF sub(2)] show ?thesis by (simp add: send_output_def Let_def)
  next
    case (Some k)
    show ?thesis
    proof (cases k)
      case 0
      with Some c show ?thesis by (simp add: send_output_def Let_def)
    next
      case (Suc j)
      with Some c Cons.IH [OF sub(1)] show ?thesis by (simp add: send_output_def Let_def)
    qed
  qed
qed

section \<open>What the executor has done with the batches it was given\<close>

abbreviation digests :: "crypto_lib \<Rightarrow> committed_sub_dag \<Rightarrow> digest list" where
  "digests L b \<equiv> map (cert_digest L) (certificates b)"

text \<open>A released batch: its certificates, in the order sent.\<close>

definition released :: "committed_sub_dag list \<Rightarrow> certificate list list \<Rightarrow> bool" where
  "released bs outs \<longleftrightarrow> list_all2 (\<lambda>b out. mset out = mset (certificates b)) bs outs"

text \<open>
  \<open>progress\<close> relates the state to the history: the batches \<open>rel\<close> are out, one after the other, each a
  rearrangement of its certificates; the batches \<open>pend\<close> are waiting, in the order of their index.
\<close>

definition waiting_ok :: "crypto_lib \<Rightarrow> committed_sub_dag list \<Rightarrow> mrv_state \<Rightarrow> bool" where
  "waiting_ok L pend st \<longleftrightarrow> mrv_inv st
     \<and> batches st = map (\<lambda>b. (batch_index b, \<lparr>b_members = digests L b\<rparr>)) pend
     \<and> sorted_wrt (<) (map batch_index pend)
     \<and> (\<forall>b \<in> set pend. certificates b \<noteq> [])
     \<and> (\<forall>b \<in> set pend. \<forall>c \<in> set (certificates b). map_of (mrv_store st) (cert_digest L c) = Some c)
     \<and> distinct (concat (map (digests L) pend))
     \<and> dom (map_of (auf_states st)) = set (concat (map (digests L) pend))"

definition progress :: "crypto_lib \<Rightarrow> committed_sub_dag list \<Rightarrow> committed_sub_dag list \<Rightarrow> mrv_state \<Rightarrow> bool" where
  "progress L rel pend st \<longleftrightarrow> waiting_ok L pend st \<and> (\<exists>outs. released rel outs \<and> tx_output st = concat outs)"

text \<open>The receiver went away in the middle of the batch \<open>b\<close>.\<close>

definition cut_off :: "committed_sub_dag list \<Rightarrow> committed_sub_dag \<Rightarrow> mrv_state \<Rightarrow> bool" where
  "cut_off rel b st \<longleftrightarrow> tx_room st = Some 0 \<and> (\<exists>outs out k. released rel outs \<and> released [b] [out]
     \<and> k < length out \<and> tx_output st = concat outs @ take k out)"

lemma first_batch_sorted:
  assumes "sorted_wrt (<) (map fst bs)"
  shows "first_batch bs = (case bs of [] \<Rightarrow> None | x # _ \<Rightarrow> Some x)"
proof (cases bs)
  case Nil
  then show ?thesis by (simp add: first_batch_def)
next
  case (Cons x xs)
  have "fold min (map fst xs) (fst x) = Min (set (map fst bs))"
    using Min.set_eq_fold [of "fst x" "map fst xs"] Cons by simp
  also have "\<dots> = fst x" using assms Cons by (intro Min_eqI) auto
  finally show ?thesis using Cons by (cases x) (simp add: first_batch_def)
qed

lemma waiting_ok_D:
  assumes "waiting_ok L (b # pend) st"
  shows "mrv_inv st" "first_batch (batches st) = Some (batch_index b, \<lparr>b_members = digests L b\<rparr>)"
    "certificates b \<noteq> []" "set (digests L b) \<subseteq> stored st"
    "d \<in> set (digests L b) \<Longrightarrow> map_of (auf_states st) d \<noteq> None"
    "map (\<lambda>d. the (map_of (mrv_store st) d)) (digests L b) = certificates b"
    "distinct (digests L b)"
proof -
  show "mrv_inv st" "certificates b \<noteq> []" "distinct (digests L b)"
    using assms unfolding waiting_ok_def by auto
  have "sorted_wrt (<) (map fst (batches st))"
    using assms by (simp add: waiting_ok_def comp_def)
  then show "first_batch (batches st) = Some (batch_index b, \<lparr>b_members = digests L b\<rparr>)"
    using assms first_batch_sorted by (simp add: waiting_ok_def)
  have st: "map_of (mrv_store st) (cert_digest L c) = Some c" if "c \<in> set (certificates b)" for c
    using assms that by (simp add: waiting_ok_def)
  then show "set (digests L b) \<subseteq> stored st" by (auto simp: stored_def)
  show "map (\<lambda>d. the (map_of (mrv_store st) d)) (digests L b) = certificates b"
    using st by (simp add: map_idI)
  show "d \<in> set (digests L b) \<Longrightarrow> map_of (auf_states st) d \<noteq> None"
    using assms by (auto simp: waiting_ok_def dom_def)
qed

lemma waiting_ok_release:
  assumes ok: "waiting_ok L (b # pend) st" and core: "core st' = core st"
  shows "waiting_ok L pend (release_batch (batch_index b) (digests L b) st')"
proof -
  note f = core_fields [OF core]
  have "mrv_inv st'" using mrv_inv_core [OF core] waiting_ok_D(1) [OF ok] by simp
  moreover have "AList.delete (batch_index b) (batches st') = map (\<lambda>b. (batch_index b, \<lparr>b_members = digests L b\<rparr>)) pend"
  proof -
    have "batch_index b \<notin> batch_index ` set pend" using ok by (auto simp: waiting_ok_def)
    then have "AList.delete (batch_index b) (map (\<lambda>b. (batch_index b, \<lparr>b_members = digests L b\<rparr>)) pend)
        = map (\<lambda>b. (batch_index b, \<lparr>b_members = digests L b\<rparr>)) pend"
      by (intro AList.delete_id) (auto simp: image_iff)
    then show ?thesis using ok f by (simp add: waiting_ok_def)
  qed
  moreover have "dom (map_of (auf_states (release_batch (batch_index b) (digests L b) st')))
      = set (concat (map (digests L) pend))"
  proof -
    have "dom (map_of (auf_states (release_batch (batch_index b) (digests L b) st')))
        = dom (map_of (auf_states st)) - set (digests L b)"
      by (auto simp: release_batch_lookup f dom_def split: if_splits)
    also have "\<dots> = set (concat (map (digests L) pend))"
    proof -
      have "dom (map_of (auf_states st)) = set (digests L b) \<union> set (concat (map (digests L) pend))"
        using ok by (simp add: waiting_ok_def)
      moreover have "set (digests L b) \<inter> set (concat (map (digests L) pend)) = {}"
        using ok by (simp add: waiting_ok_def)
      ultimately show ?thesis by blast
    qed
    finally show ?thesis .
  qed
  ultimately show ?thesis using ok f release_batch_inv [of st'] by (simp add: waiting_ok_def)
qed

lemma sort_batch_waiting:
  assumes ok: "waiting_ok L (b # pend) st" and h: "hash_order_ok h"
  shows "\<exists>r. sort_batch h st (digests L b) = Inr r \<and> mset r = mset (digests L b)"
proof -
  note D = waiting_ok_D [OF ok]
  obtain Cs where Cs: "sort_batch h st (digests L b) = Inr (concat Cs)"
    "canonical st (beats st (set (digests L b))) (set (digests L b)) {} Cs"
    using sort_batch_canonical [OF mrv_inv_D(1,2) [OF D(1)] h D(4)] by blast
  have "distinct (concat Cs) \<and> set (concat Cs) = set (digests L b) - {}"
    by (rule canonical_parts [OF _ Cs(2)]) (auto simp: beats_def pred_closed_def)
  then have "mset (concat Cs) = mset (digests L b)"
    using D(7) by (metis Diff_empty set_eq_iff_mset_eq_distinct)
  with Cs(1) show ?thesis by blast
qed

lemma sort_batch_same:
  assumes ok: "waiting_ok L (b # pend) st" and h: "hash_order_ok h" "hash_order_ok h'"
  shows "sort_batch h st (digests L b) = sort_batch h' st (digests L b)"
proof -
  note D = waiting_ok_D [OF ok]
  have E: "beats st (set (digests L b)) \<subseteq> set (digests L b) \<times> set (digests L b)" by (auto simp: beats_def)
  note can = sort_batch_canonical [OF mrv_inv_D(1,2) [OF D(1)] _ D(4)]
  obtain Cs where C: "sort_batch h st (digests L b) = Inr (concat Cs)"
    "canonical st (beats st (set (digests L b))) (set (digests L b)) {} Cs"
    using can [OF h(1)] by blast
  obtain Ds where D': "sort_batch h' st (digests L b) = Inr (concat Ds)"
    "canonical st (beats st (set (digests L b))) (set (digests L b)) {} Ds"
    using can [OF h(2)] by blast
  have "Cs = Ds" by (rule canonical_unique [OF D(4) E C(2) D'(2)])
  with C(1) D'(1) show ?thesis by simp
qed

text \<open>One turn of the loop: wait, or send the sorted batch and release it.\<close>

lemma finalize_step:
  assumes ok: "waiting_ok L (b # pend) st" and h: "hash_order_ok h"
  shows "(\<exists>d \<in> set (digests L b). \<exists>s. map_of (auf_states st) d = Some s \<and> horizon s = None)
      \<and> (\<forall>h. try_finalize_batches h st = Inr (True, st))
    \<or> (\<exists>r. mset r = mset (digests L b) \<and> set r \<subseteq> stored st
      \<and> mset (map (\<lambda>d. the (map_of (mrv_store st) d)) r) = mset (certificates b)
      \<and> (\<forall>h. hash_order_ok h \<longrightarrow> try_finalize_batches h st = (case send_sorted r st of
           (False, st) \<Rightarrow> Inr (False, st)
         | (True, st) \<Rightarrow> try_finalize_batches h (release_batch (batch_index b) (digests L b) st))))"
proof -
  note D = waiting_ok_D [OF ok]
  have "(\<exists>bh. batch_horizon st (digests L b) = Some bh \<and> bh \<le> frontier_round st)
    \<or> batch_horizon st (digests L b) = None
      \<and> (\<exists>d \<in> set (digests L b). \<exists>s. map_of (auf_states st) d = Some s \<and> horizon s = None)"
    by (rule batch_horizon_cases [OF D(1)]) (rule D(5))
  then consider bh where "batch_horizon st (digests L b) = Some bh" "bh \<le> frontier_round st"
    | "batch_horizon st (digests L b) = None"
      "\<exists>d \<in> set (digests L b). \<exists>s. map_of (auf_states st) d = Some s \<and> horizon s = None"
    by (elim disjE exE conjE) (assumption | rule that)+
  then show ?thesis
  proof cases
    case 1
    obtain r where r: "sort_batch h st (digests L b) = Inr r" "mset r = mset (digests L b)"
      using sort_batch_waiting [OF ok h] by blast
    have "sort_batch h' st (digests L b) = Inr r" if "hash_order_ok h'" for h'
      using sort_batch_same [OF ok that h] r by simp
    then have "try_finalize_batches h' st = (case send_sorted r st of
           (False, st) \<Rightarrow> Inr (False, st)
         | (True, st) \<Rightarrow> try_finalize_batches h' (release_batch (batch_index b) (digests L b) st))"
      if "hash_order_ok h'" for h'
      using that 1 D(2,3) by (subst try_finalize_batches.simps) (simp add: leD split: prod.split bool.split)
    moreover have "mset (map (\<lambda>d. the (map_of (mrv_store st) d)) r) = mset (certificates b)"
      by (metis D(6) mset_map r(2))
    moreover have "set r \<subseteq> stored st" using D(4) r(2) by (metis mset_eq_setD)
    ultimately show ?thesis using r(2) by blast
  next
    case 2
    with D(2,3) show ?thesis by (auto simp: try_finalize_batches.simps [of _ st])
  qed
qed

definition quiet :: "mrv_state \<Rightarrow> mrv_state \<Rightarrow> bool" where
  "quiet st st' \<longleftrightarrow> map_of (auf_states st') \<subseteq>\<^sub>m map_of (auf_states st) \<and> mrv_store st' = mrv_store st
     \<and> frontier_round st' = frontier_round st \<and> window_cap st' = window_cap st"

lemma quiet_trans: "quiet a b \<Longrightarrow> quiet b c \<Longrightarrow> quiet a c"
  by (auto simp: quiet_def intro: map_le_trans)

lemma quiet_release: "core st' = core st \<Longrightarrow> quiet st (release_batch k ms st')"
  using core_fields [of st' st] by (auto simp: quiet_def map_le_def release_batch_lookup split: if_splits)

lemma finalize_ok:
  assumes h: "hash_order_ok h"
  shows "waiting_ok L pend st \<Longrightarrow>
    (\<exists>st' k. try_finalize_batches h st = Inr (True, st') \<and> waiting_ok L (drop k pend) st' \<and> quiet st st'
      \<and> (tx_room st = None \<longrightarrow> tx_room st' = None)
      \<and> (\<exists>outs. released (take k pend) outs \<and> tx_output st' = tx_output st @ concat outs)
      \<and> (\<forall>b pend'. drop k pend = b # pend' \<longrightarrow>
           (\<exists>d \<in> set (digests L b). \<exists>s. map_of (auf_states st') d = Some s \<and> horizon s = None)))
    \<or> (\<exists>st' k. try_finalize_batches h st = Inr (False, st') \<and> k < length pend \<and> tx_room st' = Some 0
      \<and> tx_room st \<noteq> None \<and> (\<exists>outs out j. released (take k pend) outs \<and> released [pend ! k] [out] \<and> j < length out
           \<and> tx_output st' = tx_output st @ concat outs @ take j out))"
proof (induction pend arbitrary: st)
  case Nil
  then have "first_batch (batches st) = None" by (simp add: waiting_ok_def first_batch_def)
  then have "try_finalize_batches h st = Inr (True, st)" by (simp add: try_finalize_batches.simps)
  with Nil show ?case by (intro disjI1 exI [of _ st] exI [of _ 0]) (auto simp: quiet_def released_def)
next
  case (Cons b pend)
  from finalize_step [OF Cons.prems h] show ?case
  proof (elim disjE)
    assume "(\<exists>d \<in> set (digests L b). \<exists>s. map_of (auf_states st) d = Some s \<and> horizon s = None)
      \<and> (\<forall>h. try_finalize_batches h st = Inr (True, st))"
    with Cons.prems show ?thesis
      by (intro disjI1 exI [of _ st] exI [of _ 0]) (auto simp: quiet_def released_def)
  next
    assume "\<exists>r. mset r = mset (digests L b) \<and> set r \<subseteq> stored st
      \<and> mset (map (\<lambda>d. the (map_of (mrv_store st) d)) r) = mset (certificates b)
      \<and> (\<forall>h. hash_order_ok h \<longrightarrow> try_finalize_batches h st = (case send_sorted r st of
           (False, st) \<Rightarrow> Inr (False, st)
         | (True, st) \<Rightarrow> try_finalize_batches h (release_batch (batch_index b) (digests L b) st)))"
    then obtain r where r: "set r \<subseteq> stored st"
      and out: "mset (map (\<lambda>d. the (map_of (mrv_store st) d)) r) = mset (certificates b)"
      and fin: "try_finalize_batches h st = (case send_sorted r st of
           (False, st) \<Rightarrow> Inr (False, st)
         | (True, st) \<Rightarrow> try_finalize_batches h (release_batch (batch_index b) (digests L b) st))"
      using h by blast
    let ?cs = "map (\<lambda>d. the (map_of (mrv_store st) d)) r"
    have one: "released [b] [?cs]" using out by (simp add: released_def)
    obtain sent st1 where s: "send_sorted r st = (sent, st1)" by fastforce
    show ?thesis
    proof (cases sent)
      case False
      then obtain j where "j < length ?cs" "tx_output st1 = tx_output st @ take j ?cs" "tx_room st1 = Some 0"
        "tx_room st \<noteq> None"
        using s send_sorted_ok [OF r] by (auto simp: Let_def not_le split: option.splits if_splits)
      with False s fin one show ?thesis
        by (intro disjI2 exI [of _ st1] exI [of _ 0])
          (auto simp: released_def intro!: exI [of _ "[]"] exI [of _ ?cs])
    next
      case True
      have tx: "tx_output st1 = tx_output st @ ?cs" "tx_room st = None \<longleftrightarrow> tx_room st1 = None"
        using True s send_sorted_ok [OF r] by (auto simp: Let_def split: option.splits if_splits)
      have core: "core st1 = core st" using send_sorted_core [of r st] s by simp
      let ?st2 = "release_batch (batch_index b) (digests L b) st1"
      have ok2: "waiting_ok L pend ?st2" by (rule waiting_ok_release [OF Cons.prems core])
      have fin2: "try_finalize_batches h st = try_finalize_batches h ?st2" using fin s True by simp
      have rel: "released (b # bs) (?cs # outs)" if "released bs outs" for bs outs
        using that one by (simp add: released_def)
      from Cons.IH [OF ok2] show ?thesis
      proof (elim disjE exE conjE)
        fix st' k outs
        assume "try_finalize_batches h ?st2 = Inr (True, st')" "waiting_ok L (drop k pend) st'"
          "quiet ?st2 st'" "tx_room ?st2 = None \<longrightarrow> tx_room st' = None" "released (take k pend) outs" "tx_output st' = tx_output ?st2 @ concat outs"
          "\<forall>b pend'. drop k pend = b # pend' \<longrightarrow>
           (\<exists>d \<in> set (digests L b). \<exists>s. map_of (auf_states st') d = Some s \<and> horizon s = None)"
        then show ?thesis
          using fin2 tx rel [of "take k pend" outs] quiet_trans [OF quiet_release [OF core]]
          by (intro disjI1 exI [of _ st'] exI [of _ "Suc k"])
            (auto intro!: exI [of _ "?cs # outs"])
      next
        fix st' k outs out j
        assume "try_finalize_batches h ?st2 = Inr (False, st')" "k < length pend" "tx_room st' = Some 0"
          "tx_room ?st2 \<noteq> None" "released (take k pend) outs" "released [pend ! k] [out]" "j < length out"
          "tx_output st' = tx_output ?st2 @ concat outs @ take j out"
        then show ?thesis
          using fin2 tx rel [of "take k pend" outs]
          by (intro disjI2 exI [of _ st'] exI [of _ "Suc k"])
            (auto intro!: exI [of _ "?cs # outs"] exI [of _ out])
      qed
    qed
  qed
qed

lemma finalize_same:
  assumes h: "hash_order_ok h" "hash_order_ok h'"
  shows "waiting_ok L pend st \<Longrightarrow> try_finalize_batches h st = try_finalize_batches h' st"
proof (induction pend arbitrary: st)
  case Nil
  then have "first_batch (batches st) = None" by (simp add: waiting_ok_def first_batch_def)
  then show ?case by (simp add: try_finalize_batches.simps [of _ st])
next
  case (Cons b pend)
  from finalize_step [OF Cons.prems h(1)] show ?case
  proof (elim disjE exE conjE)
    fix r
    assume fin: "\<forall>h. hash_order_ok h \<longrightarrow> try_finalize_batches h st = (case send_sorted r st of
           (False, st) \<Rightarrow> Inr (False, st)
         | (True, st) \<Rightarrow> try_finalize_batches h (release_batch (batch_index b) (digests L b) st))"
    obtain sent st1 where s: "send_sorted r st = (sent, st1)" by fastforce
    have "core st1 = core st" using send_sorted_core [of r st] s by simp
    from Cons.IH [OF waiting_ok_release [OF Cons.prems this]] fin h s show ?thesis by (cases sent) simp_all
  qed simp
qed

section \<open>Committed batches\<close>

lemma update_seen_fields [simp]:
  "mrv_store (update_seen_for_new_certificate r a d st) = mrv_store st"
  "batches (update_seen_for_new_certificate r a d st) = batches st"
  "tx_output (update_seen_for_new_certificate r a d st) = tx_output st"
  "tx_room (update_seen_for_new_certificate r a d st) = tx_room st"
  "frontier_round (update_seen_for_new_certificate r a d st) = frontier_round st"
  "window_cap (update_seen_for_new_certificate r a d st) = window_cap st"
  by (simp_all add: update_seen_for_new_certificate_def Let_def)

lemma update_seen_dom:
  "dom (map_of (auf_states (update_seen_for_new_certificate r a d st))) = dom (map_of (auf_states st))"
  by (auto simp: dom_def update_seen_lookup)

lemma add_certificate_fields:
  assumes inv: "mrv_inv st" and fresh: "cert_digest L c \<notin> stored st"
  shows "fst (add_certificate L c (ms, st)) = ms @ [cert_digest L c]"
    "map_of (mrv_store (snd (add_certificate L c (ms, st)))) = (map_of (mrv_store st))(cert_digest L c \<mapsto> c)"
    "dom (map_of (auf_states (snd (add_certificate L c (ms, st))))) = insert (cert_digest L c) (dom (map_of (auf_states st)))"
    "batches (snd (add_certificate L c (ms, st))) = batches st"
    "tx_output (snd (add_certificate L c (ms, st))) = tx_output st"
    "tx_room (snd (add_certificate L c (ms, st))) = tx_room st"
    "frontier_round (snd (add_certificate L c (ms, st))) = max (frontier_round st) (cert_round c)"
    "window_cap (snd (add_certificate L c (ms, st))) = window_cap st"
  using fresh_no_auf [OF inv fresh]
  by (simp_all add: add_certificate_def Let_def note_active_round_def AList.update_conv' update_seen_dom)

lemma add_certificates_ok:
  assumes "mrv_inv st" "distinct (map (cert_digest L) cs)" "cert_digest L ` set cs \<inter> stored st = {}"
  shows "\<exists>st'. fold (add_certificate L) cs (ms, st) = (ms @ map (cert_digest L) cs, st') \<and> mrv_inv st'
    \<and> (\<forall>d. d \<notin> cert_digest L ` set cs \<longrightarrow> map_of (mrv_store st') d = map_of (mrv_store st) d)
    \<and> (\<forall>c \<in> set cs. map_of (mrv_store st') (cert_digest L c) = Some c)
    \<and> dom (map_of (auf_states st')) = cert_digest L ` set cs \<union> dom (map_of (auf_states st))
    \<and> batches st' = batches st \<and> tx_output st' = tx_output st \<and> tx_room st' = tx_room st
    \<and> frontier_round st' = fold max (map cert_round cs) (frontier_round st) \<and> window_cap st' = window_cap st"
  using assms
proof (induction cs arbitrary: ms st)
  case Nil
  then show ?case by simp
next
  case (Cons c cs)
  let ?d = "cert_digest L c" and ?s = "add_certificate L c (ms, st)"
  have fresh: "?d \<notin> stored st" using Cons.prems(3) by auto
  note f = add_certificate_fields [OF Cons.prems(1) fresh]
  have inv: "mrv_inv (snd ?s)" by (rule add_certificate_inv [OF Cons.prems(1) fresh])
  have "stored (snd ?s) = insert ?d (stored st)" by (simp add: stored_def f(2) del: fun_upd_apply)
  then have "cert_digest L ` set cs \<inter> stored (snd ?s) = {}" using Cons.prems(2,3) by auto
  from Cons.IH [OF inv _ this, of "fst ?s"] Cons.prems(2) obtain st' where
    st': "fold (add_certificate L) cs (fst ?s, snd ?s) = (fst ?s @ map (cert_digest L) cs, st')" "mrv_inv st'"
    "\<And>d. d \<notin> cert_digest L ` set cs \<Longrightarrow> map_of (mrv_store st') d = map_of (mrv_store (snd ?s)) d"
    "\<And>c. c \<in> set cs \<Longrightarrow> map_of (mrv_store st') (cert_digest L c) = Some c"
    "dom (map_of (auf_states st')) = cert_digest L ` set cs \<union> dom (map_of (auf_states (snd ?s)))"
    "batches st' = batches (snd ?s)" "tx_output st' = tx_output (snd ?s)" "tx_room st' = tx_room (snd ?s)"
    "frontier_round st' = fold max (map cert_round cs) (frontier_round (snd ?s))"
    "window_cap st' = window_cap (snd ?s)"
    by auto
  have "?d \<notin> cert_digest L ` set cs" using Cons.prems(2) by auto
  then have "map_of (mrv_store st') ?d = Some c" using st'(3) [of ?d] by (simp add: f(2))
  moreover have "fold (add_certificate L) (c # cs) (ms, st) = (ms @ map (cert_digest L) (c # cs), st')"
    using st'(1) by (simp add: f(1) del: append.assoc) (simp flip: f(1))
  moreover have "map_of (mrv_store st') d = map_of (mrv_store st) d" if "d \<notin> cert_digest L ` set (c # cs)" for d
    using that st'(3) [of d] by (simp add: f(2))
  ultimately show ?case using st' f by (auto simp: max.commute)
qed

lemma cap_fields [simp]:
  "mrv_store (apply_window_cap st) = mrv_store st" "batches (apply_window_cap st) = batches st"
  "tx_output (apply_window_cap st) = tx_output st" "tx_room (apply_window_cap st) = tx_room st"
  "frontier_round (apply_window_cap st) = frontier_round st" "window_cap (apply_window_cap st) = window_cap st"
  "dom (map_of (auf_states (apply_window_cap st))) = dom (map_of (auf_states st))"
  by (simp_all add: apply_window_cap_lookup dom_def) (simp_all add: apply_window_cap_def)

definition accepted :: "crypto_lib \<Rightarrow> committed_sub_dag \<Rightarrow> mrv_state \<Rightarrow> mrv_state" where
  "accepted L b st =
     (let (ms, st) = fold (add_certificate L) (certificates b) ([], st);
          st = (if ms \<noteq> [] then st\<lparr>batches := AList.update (batch_index b) \<lparr>b_members = ms\<rparr> (batches st)\<rparr> else st)
      in apply_window_cap st)"

lemma on_committed_batch_eq: "on_committed_batch L h b st = try_finalize_batches h (accepted L b st)"
  by (simp add: on_committed_batch_def accepted_def Let_def split: prod.split)

definition queued :: "committed_sub_dag list \<Rightarrow> committed_sub_dag \<Rightarrow> committed_sub_dag list" where
  "queued pend b = (if certificates b = [] then pend else pend @ [b])"

lemma mrv_inv_batches: "mrv_inv st \<Longrightarrow> mrv_inv (st\<lparr>batches := bs\<rparr>)"
  by (simp add: mrv_inv_def active_rounds_def)

lemma accepted_ok:
  assumes ok: "waiting_ok L pend st" and idx: "sorted_wrt (<) (map batch_index (pend @ [b]))"
    and fresh: "distinct (digests L b)" "set (digests L b) \<inter> stored st = {}"
  shows "waiting_ok L (queued pend b) (accepted L b st)"
    "tx_output (accepted L b st) = tx_output st" "tx_room (accepted L b st) = tx_room st"
    "stored (accepted L b st) = stored st \<union> set (digests L b)"
    "frontier_round (accepted L b st) = fold max (map cert_round (certificates b)) (frontier_round st)"
    "window_cap (accepted L b st) = window_cap st"
proof -
  have inv: "mrv_inv st" using ok by (simp add: waiting_ok_def)
  obtain st1 where st1: "fold (add_certificate L) (certificates b) ([], st) = (digests L b, st1)" "mrv_inv st1"
    "\<And>d. d \<notin> set (digests L b) \<Longrightarrow> map_of (mrv_store st1) d = map_of (mrv_store st) d"
    "\<And>c. c \<in> set (certificates b) \<Longrightarrow> map_of (mrv_store st1) (cert_digest L c) = Some c"
    "dom (map_of (auf_states st1)) = set (digests L b) \<union> dom (map_of (auf_states st))"
    "batches st1 = batches st" "tx_output st1 = tx_output st" "tx_room st1 = tx_room st"
    "frontier_round st1 = fold max (map cert_round (certificates b)) (frontier_round st)"
    "window_cap st1 = window_cap st"
    using add_certificates_ok [OF inv fresh(1), of "[]"] fresh(2) by auto
  define st2 where "st2 = (if certificates b = [] then st1
    else st1\<lparr>batches := AList.update (batch_index b) \<lparr>b_members = digests L b\<rparr> (batches st1)\<rparr>)"
  have acc: "accepted L b st = apply_window_cap st2"
    by (simp add: accepted_def st1(1) st2_def)
  have f: "mrv_store st2 = mrv_store st1" "auf_states st2 = auf_states st1" "tx_output st2 = tx_output st"
    "tx_room st2 = tx_room st" "frontier_round st2 = frontier_round st1" "window_cap st2 = window_cap st"
    using st1 by (simp_all add: st2_def)
  show "tx_output (accepted L b st) = tx_output st" "tx_room (accepted L b st) = tx_room st"
    "frontier_round (accepted L b st) = fold max (map cert_round (certificates b)) (frontier_round st)"
    "window_cap (accepted L b st) = window_cap st"
    using st1 f by (simp_all add: acc)
  show "stored (accepted L b st) = stored st \<union> set (digests L b)"
  proof -
    have "d \<in> stored st1 \<longleftrightarrow> d \<in> stored st \<union> set (digests L b)" for d
      using st1(3) [of d] st1(4) by (cases "d \<in> set (digests L b)") (auto simp: stored_def)
    then have "stored st1 = stored st \<union> set (digests L b)" by blast
    then show ?thesis by (simp add: acc stored_def f)
  qed
  have bs: "batches st2 = map (\<lambda>b. (batch_index b, \<lparr>b_members = digests L b\<rparr>)) (queued pend b)"
  proof -
    have "batch_index b \<notin> fst ` set (batches st)"
      using ok idx by (auto simp: waiting_ok_def sorted_wrt_append)
    with ok st1(6) show ?thesis by (simp add: st2_def queued_def update_fresh waiting_ok_def)
  qed
  have pend_stored: "set (digests L b') \<subseteq> stored st" if "b' \<in> set pend" for b'
    using ok that by (auto simp: waiting_ok_def stored_def)
  have "mrv_inv st2" using st1(2) mrv_inv_batches by (simp add: st2_def)
  moreover have "sorted_wrt (<) (map batch_index (queued pend b))"
    using idx by (simp add: queued_def sorted_wrt_append)
  moreover have "\<forall>b' \<in> set (queued pend b). \<forall>c \<in> set (certificates b'). map_of (mrv_store st2) (cert_digest L c) = Some c"
  proof -
    have "map_of (mrv_store st1) (cert_digest L c) = Some c" if "b' \<in> set pend" "c \<in> set (certificates b')" for b' c
    proof -
      have "cert_digest L c \<notin> set (digests L b)" using pend_stored [OF that(1)] that(2) fresh(2) by auto
      with st1(3) ok that show ?thesis by (simp add: waiting_ok_def)
    qed
    then show ?thesis using st1(4) by (auto simp: queued_def f)
  qed
  moreover have "distinct (concat (map (digests L) (queued pend b)))"
    using ok fresh pend_stored by (fastforce simp: queued_def waiting_ok_def)
  moreover have "dom (map_of (auf_states st2)) = set (concat (map (digests L) (queued pend b)))"
    using ok st1(5) by (auto simp: queued_def waiting_ok_def f)
  moreover have "\<forall>b \<in> set (queued pend b). certificates b \<noteq> []"
    using ok by (auto simp: queued_def waiting_ok_def)
  ultimately show "waiting_ok L (queued pend b) (accepted L b st)"
    using bs apply_window_cap_inv unfolding waiting_ok_def acc by simp
qed

text \<open>A waiting batch is young: one of its certificates is less than a window below the frontier.\<close>

definition young :: "mrv_state \<Rightarrow> committed_sub_dag list \<Rightarrow> bool" where
  "young st pend \<longleftrightarrow> (\<forall>b pend'. pend = b # pend' \<longrightarrow>
     (\<exists>c \<in> set (certificates b). frontier_round st < saturating_add_u64 (cert_round c) (window_cap st)))"

lemma cap_state_None:
  "horizon (cap_state f w s) = None \<Longrightarrow> f < saturating_add_u64 (auf_round s) w"
  by (auto simp: cap_state_def Let_def not_le split: if_splits)

lemma queued_sorted:
  assumes "sorted_wrt (<) (map batch_index (pend @ b # bs))"
  shows "sorted_wrt (<) (map batch_index (drop k (queued pend b) @ bs))"
proof -
  let ?q = "queued pend b"
  have "sorted_wrt (<) (map batch_index (?q @ bs))"
    using assms by (auto simp: queued_def sorted_wrt_append)
  moreover have "drop k ?q @ bs = drop (min k (length ?q)) (?q @ bs)" by (cases "k \<le> length ?q") auto
  ultimately show ?thesis by (metis drop_map sorted_wrt_drop)
qed

lemma on_committed_batch_ok:
  assumes ok: "waiting_ok L pend st" and h: "hash_order_ok h"
    and idx: "sorted_wrt (<) (map batch_index (pend @ [b]))"
    and fresh: "distinct (digests L b)" "set (digests L b) \<inter> stored st = {}"
  shows "(\<exists>st' k. on_committed_batch L h b st = Inr (True, st') \<and> waiting_ok L (drop k (queued pend b)) st'
      \<and> stored st' = stored st \<union> set (digests L b) \<and> window_cap st' = window_cap st
      \<and> frontier_round st' = fold max (map cert_round (certificates b)) (frontier_round st)
      \<and> (tx_room st = None \<longrightarrow> tx_room st' = None)
      \<and> (\<exists>outs. released (take k (queued pend b)) outs \<and> tx_output st' = tx_output st @ concat outs)
      \<and> young st' (drop k (queued pend b)))
    \<or> (\<exists>st' k. on_committed_batch L h b st = Inr (False, st') \<and> k < length (queued pend b) \<and> tx_room st' = Some 0
      \<and> tx_room st \<noteq> None \<and> (\<exists>outs out j. released (take k (queued pend b)) outs \<and> released [queued pend b ! k] [out]
           \<and> j < length out \<and> tx_output st' = tx_output st @ concat outs @ take j out))"
proof -
  let ?st = "accepted L b st" and ?q = "queued pend b"
  note acc = accepted_ok [OF ok idx fresh]
  have cap: "frontier_round ?st < saturating_add_u64 (auf_round s) (window_cap ?st)"
    if s: "map_of (auf_states ?st) d = Some s" "horizon s = None" for d s
  proof -
    have "\<exists>st1. ?st = apply_window_cap st1" unfolding accepted_def Let_def split_def by blast
    then obtain st1 where st1: "?st = apply_window_cap st1" by blast
    then obtain s1 where s1: "s = cap_state (frontier_round st1) (window_cap st1) s1"
      using s(1) by (auto simp: apply_window_cap_lookup)
    with cap_state_None [of "frontier_round st1" "window_cap st1" s1] s(2) st1 show ?thesis by simp
  qed
  from finalize_ok [OF h acc(1)] show ?thesis
  proof (elim disjE exE conjE)
    fix st' k outs
    assume fin: "try_finalize_batches h ?st = Inr (True, st')" and ok': "waiting_ok L (drop k ?q) st'"
      and quiet: "quiet ?st st'" and rest: "tx_room ?st = None \<longrightarrow> tx_room st' = None"
      "released (take k ?q) outs" "tx_output st' = tx_output ?st @ concat outs"
      and wait: "\<forall>b pend'. drop k ?q = b # pend' \<longrightarrow>
           (\<exists>d \<in> set (digests L b). \<exists>s. map_of (auf_states st') d = Some s \<and> horizon s = None)"
    have "young st' (drop k ?q)"
      unfolding young_def
    proof (intro allI impI)
      fix b' pend' assume d: "drop k ?q = b' # pend'"
      then obtain c s where c: "c \<in> set (certificates b')" "map_of (auf_states st') (cert_digest L c) = Some s"
        "horizon s = None" using wait by auto
      have "map_of (auf_states ?st) (cert_digest L c) = Some s"
        using quiet c(2) by (metis map_le_def domI quiet_def)
      with cap c(3) quiet have "frontier_round st' < saturating_add_u64 (auf_round s) (window_cap st')"
        by (simp add: quiet_def)
      moreover have "map_of (mrv_store st') (cert_digest L c) = Some c"
        using ok' d c(1) by (simp add: waiting_ok_def)
      then have "auf_round s = cert_round c"
        using ok' c(2) mrv_inv_D(4) [of st'] by (fastforce simp: waiting_ok_def)
      ultimately show "\<exists>c \<in> set (certificates b'). frontier_round st' < saturating_add_u64 (cert_round c) (window_cap st')"
        using c(1) by auto
    qed
    moreover have "stored st' = stored st \<union> set (digests L b)"
      using acc(4) quiet by (simp add: quiet_def stored_def)
    ultimately show ?thesis using fin ok' rest acc quiet
      by (intro disjI1 exI [of _ st'] exI [of _ k]) (auto simp: on_committed_batch_eq quiet_def)
  next
    fix st' k outs out j
    assume "try_finalize_batches h ?st = Inr (False, st')" "k < length ?q" "tx_room st' = Some 0"
      "tx_room ?st \<noteq> None" "released (take k ?q) outs" "released [?q ! k] [out]" "j < length out"
      "tx_output st' = tx_output ?st @ concat outs @ take j out"
    then show ?thesis using acc(2,3)
      by (intro disjI2 exI [of _ st'] exI [of _ k]) (auto simp: on_committed_batch_eq)
  qed
qed

text \<open>The stream of batches the executor relies on: increasing indices, no certificate twice.\<close>

definition stream_ok :: "crypto_lib \<Rightarrow> committed_sub_dag list \<Rightarrow> bool" where
  "stream_ok L bs \<longleftrightarrow> sorted_wrt (<) (map batch_index bs) \<and> distinct (concat (map (digests L) bs))"

definition nonempty :: "committed_sub_dag list \<Rightarrow> committed_sub_dag list" where
  "nonempty bs = filter (\<lambda>b. certificates b \<noteq> []) bs"

lemma released_append: "released xs os \<Longrightarrow> released ys ps \<Longrightarrow> released (xs @ ys) (os @ ps)"
  by (simp add: released_def list_all2_appendI)

lemma queued_nonempty: "queued pend b @ nonempty bs = pend @ nonempty (b # bs)"
  by (simp add: queued_def nonempty_def)

lemma after_prefix:
  "drop (length xs + j) (xs @ ys) = drop j ys" "take (length xs + j) (xs @ ys) = xs @ take j ys"
  "(xs @ ys) ! (length xs + j) = ys ! j"
  by simp_all

lemma fresh_tail:
  assumes "distinct (concat (map (digests L) (b # bs)))" "A \<inter> set (concat (map (digests L) (b # bs))) = {}"
  shows "(A \<union> set (digests L b)) \<inter> set (concat (map (digests L) bs)) = {}"
proof -
  have "distinct (xs @ ys) \<Longrightarrow> A \<inter> set (xs @ ys) = {} \<Longrightarrow> (A \<union> set xs) \<inter> set ys = {}" for xs ys
    by auto
  from this [of "digests L b" "concat (map (digests L) bs)"] assms show ?thesis
    by (simp only: concat.simps list.map)
qed

lemma run_executor_ok:
  assumes h: "hash_order_ok h"
  shows "waiting_ok L pend st \<Longrightarrow> released rel outs \<Longrightarrow> tx_output st = concat outs \<Longrightarrow>
    sorted_wrt (<) (map batch_index (pend @ bs)) \<Longrightarrow> distinct (concat (map (digests L) bs)) \<Longrightarrow>
    stored st \<inter> set (concat (map (digests L) bs)) = {} \<Longrightarrow> young st pend \<Longrightarrow>
    (\<exists>st' k. run_executor L h bs st = Inr (True, st') \<and> waiting_ok L (drop k (pend @ nonempty bs)) st'
      \<and> window_cap st' = window_cap st \<and> (tx_room st = None \<longrightarrow> tx_room st' = None)
      \<and> frontier_round st' = fold max (map cert_round (concat (map certificates bs))) (frontier_round st)
      \<and> (\<exists>outs. released (rel @ take k (pend @ nonempty bs)) outs \<and> tx_output st' = concat outs)
      \<and> young st' (drop k (pend @ nonempty bs)))
    \<or> (\<exists>st' k. run_executor L h bs st = Inr (False, st') \<and> k < length (pend @ nonempty bs)
      \<and> tx_room st \<noteq> None \<and> cut_off (rel @ take k (pend @ nonempty bs)) ((pend @ nonempty bs) ! k) st')"
proof (induction bs arbitrary: pend st rel outs)
  case Nil
  then show ?case by (intro disjI1 exI [of _ st] exI [of _ 0]) (auto simp: nonempty_def)
next
  case (Cons b bs)
  let ?q = "queued pend b" and ?all = "pend @ nonempty (b # bs)"
  have idx: "sorted_wrt (<) (map batch_index (pend @ [b]))" and fresh: "distinct (digests L b)"
    "set (digests L b) \<inter> stored st = {}"
    using Cons.prems(4-6) by (auto simp: sorted_wrt_append)
  from on_committed_batch_ok [OF Cons.prems(1) h idx fresh] show ?case
  proof (elim disjE exE conjE)
    fix st1 k outs1
    assume s1: "on_committed_batch L h b st = Inr (True, st1)" "waiting_ok L (drop k ?q) st1"
      "stored st1 = stored st \<union> set (digests L b)" "window_cap st1 = window_cap st"
      "frontier_round st1 = fold max (map cert_round (certificates b)) (frontier_round st)"
      "tx_room st = None \<longrightarrow> tx_room st1 = None"
      "released (take k ?q) outs1" "tx_output st1 = tx_output st @ concat outs1" "young st1 (drop k ?q)"
    have rel1: "released (rel @ take k ?q) (outs @ outs1)" "tx_output st1 = concat (outs @ outs1)"
      using s1(7,8) Cons.prems(2,3) released_append by auto
    have idx1: "sorted_wrt (<) (map batch_index (drop k ?q @ bs))"
      by (rule queued_sorted [OF Cons.prems(4)])
    have dist1: "distinct (concat (map (digests L) bs))" using Cons.prems(5) by simp
    have fresh1: "stored st1 \<inter> set (concat (map (digests L) bs)) = {}"
      unfolding s1(3) by (rule fresh_tail [OF Cons.prems(5,6)])
    have split: "?all = take k ?q @ drop k ?q @ nonempty bs"
      by (metis append.assoc append_take_drop_id queued_nonempty)
    have len: "length (take k ?q) = min (length ?q) k" by simp
    from Cons.IH [OF s1(2) rel1 idx1 dist1 fresh1 s1(9)] show ?thesis
    proof (elim disjE exE conjE)
      fix st' j outs2
      assume r: "run_executor L h bs st1 = Inr (True, st')" "waiting_ok L (drop j (drop k ?q @ nonempty bs)) st'"
        "window_cap st' = window_cap st1" "tx_room st1 = None \<longrightarrow> tx_room st' = None"
        "frontier_round st' = fold max (map cert_round (concat (map certificates bs))) (frontier_round st1)"
        "released ((rel @ take k ?q) @ take j (drop k ?q @ nonempty bs)) outs2" "tx_output st' = concat outs2"
        "young st' (drop j (drop k ?q @ nonempty bs))"
      let ?m = "length (take k ?q) + j"
      have "drop ?m ?all = drop j (drop k ?q @ nonempty bs)" "take ?m ?all = take k ?q @ take j (drop k ?q @ nonempty bs)"
        unfolding split by (rule after_prefix)+
      then show ?thesis using r s1 by (intro disjI1 exI [of _ st'] exI [of _ ?m]) auto
    next
      fix st' j
      assume r: "run_executor L h bs st1 = Inr (False, st')" "j < length (drop k ?q @ nonempty bs)"
        "tx_room st1 \<noteq> None"
        "cut_off ((rel @ take k ?q) @ take j (drop k ?q @ nonempty bs)) ((drop k ?q @ nonempty bs) ! j) st'"
      let ?m = "length (take k ?q) + j"
      have "?all ! ?m = (drop k ?q @ nonempty bs) ! j" "take ?m ?all = take k ?q @ take j (drop k ?q @ nonempty bs)"
        unfolding split by (rule after_prefix)+
      moreover have "?m < length ?all" unfolding split using r(2) by simp
      ultimately show ?thesis using r s1 by (intro disjI2 exI [of _ st'] exI [of _ ?m]) auto
    qed
  next
    fix st1 k outs1 out j
    assume s1: "on_committed_batch L h b st = Inr (False, st1)" "k < length ?q" "tx_room st1 = Some 0"
      "tx_room st \<noteq> None" "released (take k ?q) outs1" "released [?q ! k] [out]" "j < length out"
      "tx_output st1 = tx_output st @ concat outs1 @ take j out"
    have all: "?all = ?q @ nonempty bs" by (simp add: queued_nonempty)
    have "take k ?all = take k ?q" "?all ! k = ?q ! k" "k < length ?all"
      unfolding all using s1(2) by (simp_all add: nth_append)
    moreover have "cut_off (rel @ take k ?q) (?q ! k) st1"
      unfolding cut_off_def using s1 Cons.prems(2,3) released_append
      by (intro conjI exI [of _ "outs @ outs1"] exI [of _ out] exI [of _ j]) auto
    ultimately show ?thesis using s1
      by (intro disjI2 exI [of _ st1] exI [of _ k]) auto
  qed
qed

lemma run_executor_same:
  assumes h: "hash_order_ok h" "hash_order_ok h'"
  shows "waiting_ok L pend st \<Longrightarrow>
    sorted_wrt (<) (map batch_index (pend @ bs)) \<Longrightarrow> distinct (concat (map (digests L) bs)) \<Longrightarrow>
    stored st \<inter> set (concat (map (digests L) bs)) = {} \<Longrightarrow>
    run_executor L h bs st = run_executor L h' bs st"
proof (induction bs arbitrary: pend st)
  case (Cons b bs)
  let ?q = "queued pend b"
  have idx: "sorted_wrt (<) (map batch_index (pend @ [b]))" and fresh: "distinct (digests L b)"
    "set (digests L b) \<inter> stored st = {}"
    using Cons.prems(2-4) by (auto simp: sorted_wrt_append)
  have same: "on_committed_batch L h b st = on_committed_batch L h' b st"
    unfolding on_committed_batch_eq by (rule finalize_same [OF h accepted_ok(1) [OF Cons.prems(1) idx fresh]])
  from on_committed_batch_ok [OF Cons.prems(1) h(1) idx fresh] show ?case
  proof (elim disjE exE conjE)
    fix st1 k
    assume s1: "on_committed_batch L h b st = Inr (True, st1)" "waiting_ok L (drop k ?q) st1"
      "stored st1 = stored st \<union> set (digests L b)"
    have "sorted_wrt (<) (map batch_index (drop k ?q @ bs))"
      by (rule queued_sorted [OF Cons.prems(2)])
    moreover have "stored st1 \<inter> set (concat (map (digests L) bs)) = {}"
      unfolding s1(3) by (rule fresh_tail [OF Cons.prems(3,4)])
    ultimately have "run_executor L h bs st1 = run_executor L h' bs st1"
      using Cons.IH [OF s1(2)] Cons.prems(3) by simp
    then show ?thesis by (simp add: s1(1) flip: same)
  qed (use same in simp)
qed simp

lemma spawn_ok: "waiting_ok L [] (spawn room n w)" "stored (spawn room n w) = {}" "tx_output (spawn room n w) = []"
  "frontier_round (spawn room n w) = 0" "window_cap (spawn room n w) = max w 1" "tx_room (spawn room n w) = room"
  by (simp_all add: spawn_def Let_def waiting_ok_def mrv_inv_def active_rounds_def stored_def)

lemma run_from_spawn:
  assumes "hash_order_ok h" "stream_ok L bs"
  shows "(\<exists>st k outs. run_executor L h bs (spawn room n w) = Inr (True, st)
      \<and> waiting_ok L (drop k (nonempty bs)) st \<and> window_cap st = max w 1
      \<and> frontier_round st = fold max (map cert_round (concat (map certificates bs))) 0
      \<and> released (take k (nonempty bs)) outs \<and> tx_output st = concat outs
      \<and> young st (drop k (nonempty bs)))
    \<or> (\<exists>st k. run_executor L h bs (spawn room n w) = Inr (False, st) \<and> k < length (nonempty bs)
      \<and> room \<noteq> None \<and> cut_off (take k (nonempty bs)) (nonempty bs ! k) st)"
  using run_executor_ok [OF assms(1) spawn_ok(1), of "[]" "[]" room n w bs] assms(2)
  by (simp only: spawn_ok) (simp add: stream_ok_def released_def young_def, blast)

section \<open>Properties\<close>

definition sample_batch :: committed_sub_dag where
  "sample_batch = \<lparr>batch_index = 1, leader_round = 1, leader_digest = Digest 0, certificates = [sample_cert 1 1]\<rparr>"

lemma sample_stream_ok: "stream_ok sample_lib [sample_batch]"
  by (simp add: stream_ok_def sample_batch_def)

text \<open>C17. The walk over the causal history credits exactly the certificates it should: in a store where
  parents are of earlier rounds, \<open>update_seen_for_new_certificate\<close> counts the new certificate's
  author for an active certificate if and only if that certificate is an ancestor of the new one
  (or the new one itself). Cutting the walk at the lowest active round loses nothing.\<close>

theorem update_seen_exact:
  assumes "mrv_inv st" "ranked (mrv_store st)"
  shows "map_of (auf_states (update_seen_for_new_certificate rnd author digest st)) d =
    map_option (if (digest, d) \<in> (ancestry (mrv_store st))\<^sup>*
                then mark_seen (reach_threshold st) rnd author else (\<lambda>s. s)) (map_of (auf_states st) d)"
proof (cases "map_of (auf_states st) d")
  case None
  then show ?thesis by (simp add: update_seen_lookup)
next
  case (Some s)
  let ?m = "case active_floor_round st of None \<Rightarrow> rnd | Some r \<Rightarrow> r"
  obtain c where c: "map_of (mrv_store st) d = Some c" "cert_round c = auf_round s"
    using mrv_inv_D(4) [OF assms(1) Some] by blast
  have mem: "auf_round s \<in> active_rounds st" using Some by (auto simp: active_rounds_def ran_def)
  then have "active_floor_round st = Some (Min (active_rounds st))" using assms(1) by (auto simp: mrv_inv_def)
  then have "?m \<le> cert_round c" using mem c(2) by simp
  then show ?thesis using marked_ancestry [OF assms(2) c(1)] by (simp add: update_seen_lookup)
qed

lemma update_seen_exact_witness:
  "map_of (auf_states (update_seen_for_new_certificate 1 (PublicKey 7) (Digest 1) sample_state)) (Digest 1)
     = map_option (mark_seen 3 1 (PublicKey 7)) (map_of (auf_states sample_state) (Digest 1))"
proof -
  have "active_rounds sample_state = {1}" by (subst active_rounds_set) (simp_all add: sample_state_def)
  then have "mrv_inv sample_state"
    by (auto simp: mrv_inv_def sample_state_def auf_ok_def sample_cert_def cert_round_def split: if_splits)
  moreover have "ranked (mrv_store sample_state)"
    by (auto simp: ranked_def sample_state_def sample_cert_def header_default_def split: if_splits)
  ultimately show ?thesis
    using update_seen_exact [of sample_state 1 "PublicKey 7" "Digest 1" "Digest 1"]
    by (simp add: sample_state_def)
qed

text \<open>A horizon is fixed once: accepting any further batch neither moves a horizon that is set nor
  turns a capped certificate into a mature one.\<close>

theorem horizon_set_once:
  assumes "map_of (auf_states st) d = Some s" "horizon s = Some hz"
  shows "\<exists>s'. map_of (auf_states (accepted L b st)) d = Some s' \<and> horizon s' = Some hz \<and> mature s' = mature s"
proof -
  let ?P = "\<lambda>aufs. \<exists>s'. map_of aufs d = Some s' \<and> horizon s' = Some hz \<and> mature s' = mature s"
  have seen: "?P (auf_states (update_seen_for_new_certificate r a x st))" if "?P (auf_states st)" for r a x st
    using that by (auto simp: update_seen_lookup)
  have add: "?P (auf_states (snd (add_certificate L c s0)))" if p: "?P (auf_states (snd s0))" for c s0
  proof -
    obtain ms st where s0: "s0 = (ms, st)" by fastforce
    have "?P (auf_states (if map_of (auf_states st) (cert_digest L c) = None
        then (note_active_round r st)\<lparr>auf_states := AList.update (cert_digest L c) (auf_state_new r) (auf_states st)\<rparr> else st))" for r
      using p s0 by (auto simp: AList.update_conv')
    with p s0 show ?thesis
      by (auto simp: add_certificate_def Let_def note_active_round_def intro!: seen)
  qed
  have "?P (auf_states (snd (fold (add_certificate L) cs s0)))" if "?P (auf_states (snd s0))" for cs s0
    using that by (induction cs arbitrary: s0) (simp, simp only: fold.simps comp_apply, blast intro: add)
  then have "?P (auf_states (snd (fold (add_certificate L) (certificates b) ([], st))))"
    using assms by auto
  then show ?thesis
    by (auto simp: accepted_def Let_def apply_window_cap_lookup split: prod.splits)
qed

lemma horizon_set_once_witness:
  "\<exists>s'. map_of (auf_states (accepted sample_lib sample_batch sample_state)) (Digest 1) = Some s'
     \<and> horizon s' = Some 2 \<and> mature s'"
proof -
  obtain s where "map_of (auf_states sample_state) (Digest 1) = Some s" "horizon s = Some 2" "mature s"
    by (simp add: sample_state_def)
  with horizon_set_once [of sample_state "Digest 1" s 2 sample_lib sample_batch] show ?thesis by simp
qed

text \<open>C13. The executor releases the committed batches whole, in the order of their index, none lost and
  none repeated, and it never panics, if the indices of the stream increase and no certificate is in it
  twice (\<open>stream_ok\<close>; \<open>repeated_certificate_blocks\<close> is about a stream that repeats one): what went down the channel is the first \<open>k\<close> non-empty batches, each as a rearrangement of its
  certificates; the others are still queued. If the receiver is dropped, the output ends inside the
  next batch and nothing else is sent.\<close>

theorem executor_releases_in_order:
  assumes "hash_order_ok h" "stream_ok L bs"
  shows "(\<exists>st k outs. run_executor L h bs (spawn room n w) = Inr (True, st)
      \<and> released (take k (nonempty bs)) outs \<and> tx_output st = concat outs
      \<and> map fst (batches st) = map batch_index (drop k (nonempty bs)))
    \<or> (\<exists>st k. run_executor L h bs (spawn room n w) = Inr (False, st) \<and> k < length (nonempty bs)
      \<and> room \<noteq> None \<and> cut_off (take k (nonempty bs)) (nonempty bs ! k) st)"
proof -
  have keys: "map fst (batches st) = map batch_index pend" if "waiting_ok L pend st" for pend st
    using that by (simp add: waiting_ok_def)
  from run_from_spawn [OF assms, of room n w] show ?thesis
  proof
    assume "\<exists>st k outs. run_executor L h bs (spawn room n w) = Inr (True, st)
      \<and> waiting_ok L (drop k (nonempty bs)) st \<and> window_cap st = max w 1
      \<and> frontier_round st = fold max (map cert_round (concat (map certificates bs))) 0
      \<and> released (take k (nonempty bs)) outs \<and> tx_output st = concat outs
      \<and> young st (drop k (nonempty bs))"
    with keys show ?thesis by blast
  qed (rule disjI2)
qed

lemma executor_releases_in_order_witness:
  "(\<exists>st k outs. run_executor sample_lib plain_order [sample_batch] (spawn None 4 2) = Inr (True, st)
      \<and> released (take k [sample_batch]) outs \<and> tx_output st = concat outs
      \<and> map fst (batches st) = map batch_index (drop k [sample_batch]))"
  using executor_releases_in_order [OF orders_ok(1) sample_stream_ok, of None 4 2]
  by (simp add: nonempty_def sample_batch_def)

text \<open>C14. The executor is live on a stream with increasing indices and no certificate twice (\<open>stream_ok\<close>):
  with the receiver in place, the oldest batch that is still queued contains
  a certificate less than \<open>window_cap\<close> rounds below the highest round seen. So every batch is
  released as soon as the frontier is a window above its certificates and those of the batches
  before it.\<close>

theorem executor_waits_a_window:
  assumes "hash_order_ok h" "stream_ok L bs"
  shows "\<exists>st k outs. run_executor L h bs (spawn None n w) = Inr (True, st)
    \<and> released (take k (nonempty bs)) outs \<and> tx_output st = concat outs
    \<and> (k < length (nonempty bs) \<longrightarrow> (\<exists>c \<in> set (certificates (nonempty bs ! k)).
         fold max (map cert_round (concat (map certificates bs))) 0 < saturating_add_u64 (cert_round c) (max w 1)))"
proof -
  have nth: "drop k xs = (xs ! k) # drop (Suc k) xs" if "k < length xs" for k and xs :: "committed_sub_dag list"
    using that by (rule Cons_nth_drop_Suc [symmetric])
  from run_from_spawn [OF assms, of None n w] obtain st k outs where "run_executor L h bs (spawn None n w) = Inr (True, st)"
    "released (take k (nonempty bs)) outs" "tx_output st = concat outs" "window_cap st = max w 1"
    "frontier_round st = fold max (map cert_round (concat (map certificates bs))) 0"
    "young st (drop k (nonempty bs))"
    by blast
  with nth show ?thesis
    by (intro exI [of _ st] exI [of _ k] exI [of _ outs]) (auto simp: young_def)
qed

lemma executor_waits_a_window_witness:
  "\<exists>st k outs. run_executor sample_lib reverse_order [sample_batch] (spawn None 4 2) = Inr (True, st)
    \<and> released (take k [sample_batch]) outs \<and> tx_output st = concat outs"
  using executor_waits_a_window [OF orders_ok(2) sample_stream_ok, of 4 2]
  by (auto simp: nonempty_def sample_batch_def)

text \<open>C16. The executor is deterministic: replicas that are fed the same batches, with increasing indices and no
  certificate twice (\<open>stream_ok\<close>), send the same certificates in the same order, whatever the iteration orders of their
  hash maps.\<close>

theorem executor_deterministic:
  assumes "hash_order_ok h" "hash_order_ok h'" "stream_ok L bs"
  shows "run_executor L h bs (spawn room n w) = run_executor L h' bs (spawn room n w)"
  by (rule run_executor_same [OF assms(1,2), of L "[]"]) (use assms(3) in \<open>auto simp: spawn_ok stream_ok_def\<close>)

lemma executor_deterministic_witness:
  "run_executor sample_lib plain_order [sample_batch] (spawn (Some 5) 4 2)
     = run_executor sample_lib reverse_order [sample_batch] (spawn (Some 5) 4 2)"
  by (rule executor_deterministic [OF orders_ok sample_stream_ok])

text \<open>C19. The state between batches is sound: every mature certificate was seen by \<open>reach_threshold\<close> authorities (which
  \<open>spawn\<close> sets to \<open>2f+1\<close> and nothing changes) in the round of its horizon, no horizon is above the frontier (so the frontier test before the release never
  fails), every active certificate is stored, and \<open>active_floor_round\<close> is the lowest active round.\<close>

theorem executor_state_invariant:
  assumes "hash_order_ok h" "stream_ok L bs" "run_executor L h bs (spawn room n w) = Inr (True, st)"
  shows "(\<forall>d s. map_of (auf_states st) d = Some s \<longrightarrow> auf_ok (reach_threshold st) (frontier_round st) s
       \<and> (\<exists>c. map_of (mrv_store st) d = Some c \<and> cert_round c = auf_round s))
    \<and> active_floor_round st = (if active_rounds st = {} then None else Some (Min (active_rounds st)))"
proof -
  have "mrv_inv st"
    using run_from_spawn [OF assms(1,2), of room n w] assms(3) by (auto simp: waiting_ok_def)
  then show ?thesis by (simp add: mrv_inv_def)
qed

lemma executor_state_invariant_witness:
  "\<exists>st. run_executor sample_lib plain_order [sample_batch] (spawn None 4 2) = Inr (True, st)
    \<and> active_floor_round st = (if active_rounds st = {} then None else Some (Min (active_rounds st)))"
proof -
  obtain st where st: "run_executor sample_lib plain_order [sample_batch] (spawn None 4 2) = Inr (True, st)"
    using run_from_spawn [OF orders_ok(1) sample_stream_ok, of None 4 2] by blast
  with executor_state_invariant [OF orders_ok(1) sample_stream_ok st] show ?thesis by blast
qed

text \<open>What the executor cannot digest: a certificate committed a second time while its first batch is
  queued loses its state with the first release, and the batch that repeats it is then never released.\<close>

theorem repeated_certificate_blocks:
  assumes "first_batch (batches st) = Some (index, batch)" "d \<in> set (b_members batch)"
    and "map_of (auf_states st) d = None"
  shows "try_finalize_batches h st = Inr (True, st)"
proof -
  have "batch_horizon st ms = None" if d: "d \<in> set ms" for ms
  proof -
    obtain xs ys where "ms = xs @ d # ys" using split_list [OF d] by blast
    then show ?thesis using assms(3)
      by (simp add: batch_horizon_def) (simp add: batch_horizon_gen split: option.split)
  qed
  then show ?thesis using assms(1,2) by (cases "b_members batch = []") (simp_all add: try_finalize_batches.simps)
qed

lemma repeated_certificate_blocks_witness:
  "try_finalize_batches plain_order (sample_state\<lparr>auf_states := []\<rparr>) = Inr (True, sample_state\<lparr>auf_states := []\<rparr>)"
  by (rule repeated_certificate_blocks [of _ 0 "\<lparr>b_members = [Digest 1, Digest 2]\<rparr>" "Digest 1"])
    (simp_all add: sample_state_def first_batch_def)

end
