(* ===== verification/Consensus.thy ===== *)
theory Consensus
  imports Commits MrvGraph
begin

text \<open>
  The Tusk commit rule of \<open>consensus/src/lib.rs\<close>: the in-memory DAG and its clean-up, the election of
  leaders, the chain of linked leaders, the flattening of a leader's history, and one turn of the loop
  of \<open>run\<close>.

  The rounds and the authors of the DAG are hash maps; their lists stand for the iteration order. The
  sums of a round and \<open>gc_depth\<close> are taken modulo \<open>2^64\<close>; the subtraction \<open>round - 1\<close>, the remainder by
  the committee size and the two \<open>expect\<close>s on the history are panic branches.
\<close>

section \<open>State\<close>

type_synonym dag_round = "(public_key \<times> digest \<times> certificate) list"
type_synonym dag = "(round \<times> dag_round) list"

record con_state =
  last_committed_round :: round
  last_committed :: "(public_key \<times> round) list"
  dag :: dag

definition con_state_new :: "crypto_lib \<Rightarrow> certificate list \<Rightarrow> con_state" where
  "con_state_new L gen =
     (let gen = fold (\<lambda>x. AList.update (cert_origin x) (cert_digest L x, x)) gen []
      in \<lparr>last_committed_round = 0,
          last_committed = map (\<lambda>(x, _, y). (x, cert_round y)) gen,
          dag = [(0, gen)]\<rparr>)"

text \<open>
  \<open>update\<close>: one \<open>retain\<close> per authority. The map of last committed rounds is not empty, so
  \<open>values().max().unwrap()\<close> is the maximum.
\<close>

definition retain_dag :: "round \<Rightarrow> round \<Rightarrow> public_key \<times> round \<Rightarrow> dag \<Rightarrow> dag" where
  "retain_dag gc_depth lcr e d =
     (let (name, rnd) = e in
      filter (\<lambda>(r, authorities). authorities \<noteq> [] \<and> lcr \<le> r + gc_depth)
        (map (\<lambda>(r, authorities). (r, filter (\<lambda>(n, _). n \<noteq> name \<or> rnd \<le> r) authorities)) d))"

definition con_update :: "round \<Rightarrow> certificate \<Rightarrow> con_state \<Rightarrow> con_state" where
  "con_update gc_depth certificate st =
     (let origin = cert_origin certificate;
          lc = AList.update origin
                 (case map_of (last_committed st) origin of
                    Some r \<Rightarrow> max r (cert_round certificate) | None \<Rightarrow> cert_round certificate)
                 (last_committed st);
          lcr = fold max (map snd lc) 0
      in \<lparr>last_committed_round = lcr, last_committed = lc, dag = fold (retain_dag gc_depth lcr) lc (dag st)\<rparr>)"

section \<open>Leaders\<close>

text \<open>Round-robin: \<open>keys[coin % size]\<close> with \<open>coin = round\<close>.\<close>

definition leader_name :: "committee \<Rightarrow> round \<Rightarrow> public_key res" where
  "leader_name c rnd =
     (let keys = sort (map fst (authorities c))
      in if size_of c = 0 then Inl RemByZero else Inr (keys ! (unat rnd mod size_of c)))"

definition leader :: "committee \<Rightarrow> round \<Rightarrow> dag \<Rightarrow> (digest \<times> certificate) option res" where
  "leader c rnd d =
     bindR (leader_name c rnd) (\<lambda>name.
     Inr (case map_of d rnd of None \<Rightarrow> None | Some x \<Rightarrow> map_of x name))"

abbreviation whole_history :: string where
  "whole_history \<equiv> ''We should have the whole history by now''"

text \<open>The exclusive range \<open>a..b\<close>.\<close>

definition rounds_between :: "round \<Rightarrow> round \<Rightarrow> round list" where
  "rounds_between a b = map of_nat [unat a ..< unat b]"

definition linked_step :: "dag \<Rightarrow> round \<Rightarrow> certificate list \<Rightarrow> certificate list res" where
  "linked_step d r parents =
     bindR (expect whole_history (map_of d r)) (\<lambda>x.
     Inr (map snd (filter (\<lambda>(digest, _). list_ex (\<lambda>x. digest \<in> set (h_parents (c_header x))) parents)
            (map snd x))))"

definition linked :: "certificate \<Rightarrow> certificate \<Rightarrow> dag \<Rightarrow> bool res" where
  "linked ldr prev_leader d =
     bindR (foldR (linked_step d) (rev (rounds_between (cert_round prev_leader) (cert_round ldr))) [ldr]) (\<lambda>parents.
     Inr (list_ex (\<lambda>x. cert_eq x prev_leader) parents))"

definition order_leaders_step :: "committee \<Rightarrow> dag \<Rightarrow> round \<Rightarrow> certificate list \<times> certificate \<Rightarrow>
    (certificate list \<times> certificate) res" where
  "order_leaders_step c d r s =
     (let (to_commit, ldr) = s in
      bindR (leader c r d) (\<lambda>l. case l of
        None \<Rightarrow> Inr (to_commit, ldr)
      | Some (_, prev_leader) \<Rightarrow>
          bindR (linked ldr prev_leader d) (\<lambda>b.
          Inr (if b then (to_commit @ [prev_leader], prev_leader) else (to_commit, ldr)))))"

definition order_leaders :: "committee \<Rightarrow> certificate \<Rightarrow> con_state \<Rightarrow> certificate list res" where
  "order_leaders c ldr st =
     bindR (foldR (order_leaders_step c (dag st))
            (step_by2 (rev (u64_range (last_committed_round st + 2) (cert_round ldr - 2)))) ([ldr], ldr))
       (\<lambda>(to_commit, _). Inr to_commit)"

section \<open>Flattening a history\<close>

definition dag_find :: "dag \<Rightarrow> round \<Rightarrow> digest \<Rightarrow> (digest \<times> certificate) option" where
  "dag_find d r parent =
     (case map_of d r of None \<Rightarrow> None | Some x \<Rightarrow> List.find (\<lambda>(digest, _). digest = parent) (map snd x))"

definition visit_parent :: "con_state \<Rightarrow> certificate \<Rightarrow> digest \<Rightarrow> certificate list \<times> digest set \<Rightarrow>
    certificate list \<times> digest set" where
  "visit_parent st x parent s =
     (let (buffer, already_ordered) = s in
      case dag_find (dag st) (cert_round x - 1) parent of
        None \<Rightarrow> (buffer, already_ordered)
      | Some (digest, certificate) \<Rightarrow>
          if digest \<in> already_ordered
             \<or> map_of (last_committed st) (cert_origin certificate) = Some (cert_round certificate)
          then (buffer, already_ordered)
          else (certificate # buffer, insert digest already_ordered))"

definition dag_digests :: "dag \<Rightarrow> digest set" where
  "dag_digests d = (\<lambda>(_, digest, _). digest) ` (\<Union>(r, x) \<in> set d. set x)"

lemma dag_find_Some:
  assumes "dag_find d r p = Some (dg, cert)"
  shows "dg = p" "\<exists>x n. map_of d r = Some x \<and> (n, dg, cert) \<in> set x" "dg \<in> dag_digests d"
proof -
  obtain x where x: "map_of d r = Some x" "List.find (\<lambda>(digest, _). digest = p) (map snd x) = Some (dg, cert)"
    using assms by (auto simp: dag_find_def split: option.splits)
  then have "(dg, cert) \<in> set (map snd x)" "dg = p"
    using find_SomeD [OF x(2)] by auto
  then show "dg = p" by simp
  from \<open>(dg, cert) \<in> set (map snd x)\<close> obtain n where n: "(n, dg, cert) \<in> set x" by auto
  with x show "\<exists>x n. map_of d r = Some x \<and> (n, dg, cert) \<in> set x" by blast
  show "dg \<in> dag_digests d" using map_of_SomeD [OF x(1)] n by (force simp: dag_digests_def)
qed

lemma finite_dag_digests [simp]: "finite (dag_digests d)"
  by (auto simp: dag_digests_def)

lemma visit_parents_measure:
  "fold (visit_parent st x) ps (buffer, V) = (buffer', V') \<Longrightarrow>
     V \<subseteq> V' \<and> V' - V \<subseteq> dag_digests (dag st) \<and> (V' = V \<longrightarrow> buffer' = buffer)"
proof (induction ps arbitrary: buffer V)
  case (Cons p ps)
  show ?case
  proof (cases "visit_parent st x p (buffer, V) = (buffer, V)")
    case True
    then have "fold (visit_parent st x) ps (buffer, V) = (buffer', V')" using Cons.prems by simp
    then show ?thesis by (rule Cons.IH)
  next
    case False
    then obtain dg cert where f: "dag_find (dag st) (cert_round x - 1) p = Some (dg, cert)" "dg \<notin> V"
      "visit_parent st x p (buffer, V) = (cert # buffer, insert dg V)"
      by (auto simp: visit_parent_def split: option.splits if_splits)
    then have "fold (visit_parent st x) ps (cert # buffer, insert dg V) = (buffer', V')"
      using Cons.prems by simp
    from Cons.IH [OF this] dag_find_Some(3) [OF f(1)] f(2) show ?thesis by auto
  qed
qed simp

function order_dag_loop :: "con_state \<Rightarrow> certificate list \<Rightarrow> digest set \<Rightarrow> certificate list \<Rightarrow> certificate list" where
  "order_dag_loop st [] already_ordered ordered = ordered"
| "order_dag_loop st (x # buffer) already_ordered ordered =
     (let (buffer, already_ordered) = fold (visit_parent st x) (h_parents (c_header x)) (buffer, already_ordered)
      in order_dag_loop st buffer already_ordered (ordered @ [x]))"
  by pat_completeness auto

termination order_dag_loop
proof (relation "inv_image (less_than <*lex*> less_than)
    (\<lambda>(st, buffer, V, ordered). (card (dag_digests (dag st) - V), length buffer))", goal_cases)
  case 1
  show ?case by auto
next
  case (2 st x buffer V ordered s buffer' V')
  then have m: "V \<subseteq> V'" "V' - V \<subseteq> dag_digests (dag st)" "V' = V \<longrightarrow> buffer' = buffer"
    using visit_parents_measure [of st x _ buffer V buffer' V'] by auto
  show ?case
  proof (cases "V' = V")
    case False
    then have "dag_digests (dag st) - V' \<subset> dag_digests (dag st) - V" using m(1,2) by blast
    then have "card (dag_digests (dag st) - V') < card (dag_digests (dag st) - V)"
      by (intro psubset_card_mono) auto
    then show ?thesis by simp
  qed (use m in simp)
qed

definition order_dag :: "round \<Rightarrow> certificate \<Rightarrow> con_state \<Rightarrow> certificate list" where
  "order_dag gc_depth ldr st =
     (let ordered = order_dag_loop st [ldr] {} [];
          ordered = filter (\<lambda>x. last_committed_round st \<le> cert_round x + gc_depth) ordered
      in sort_by (\<lambda>x y. ord_cmp (cert_round x) (cert_round y)) ordered)"

section \<open>The loop of \<open>run\<close>\<close>

text \<open>
  \<open>to_primary\<close> and \<open>to_output\<close> are what went down the two channels; \<open>primary_up\<close> and \<open>output_up\<close> say
  whether their receivers are there (without the first the \<open>expect\<close> panics, without the second the
  batch is lost with a warning).
\<close>

record consensus =
  cstate :: con_state
  next_batch_index :: u64
  to_primary :: "certificate list"
  to_output :: "committed_sub_dag list"
  primary_up :: bool
  output_up :: bool

definition consensus_new :: "crypto_lib \<Rightarrow> committee \<Rightarrow> bool \<Rightarrow> bool \<Rightarrow> consensus" where
  "consensus_new L c up out = \<lparr>cstate = con_state_new L (genesis c), next_batch_index = 0,
     to_primary = [], to_output = [], primary_up = up, output_up = out\<rparr>"

definition commit_leader :: "crypto_lib \<Rightarrow> round \<Rightarrow> certificate \<Rightarrow> consensus \<Rightarrow> consensus res" where
  "commit_leader L gc_depth ldr s =
     (let batch = order_dag gc_depth ldr (cstate s);
          s = s\<lparr>cstate := fold (con_update gc_depth) batch (cstate s)\<rparr>
      in if batch = [] then Inr s
         else
           let s = s\<lparr>next_batch_index := next_batch_index s + 1\<rparr>
           in if \<not> primary_up s then Inl (Expect ''Failed to send certificate to primary'')
              else
                let s = s\<lparr>to_primary := to_primary s @ batch\<rparr>;
                    committed_batch = \<lparr>batch_index = next_batch_index s, leader_round = cert_round ldr,
                                       leader_digest = cert_digest L ldr, certificates = batch\<rparr>
                in Inr (if output_up s then s\<lparr>to_output := to_output s @ [committed_batch]\<rparr> else s))"

definition insert_certificate :: "crypto_lib \<Rightarrow> certificate \<Rightarrow> dag \<Rightarrow> dag" where
  "insert_certificate L cert d =
     AList.update (cert_round cert)
       (AList.update (cert_origin cert) (cert_digest L cert, cert)
          (case map_of d (cert_round cert) of None \<Rightarrow> [] | Some x \<Rightarrow> x)) d"

text \<open>The stake of the certificates of round \<open>r - 1\<close> that have the leader as a parent.\<close>

definition support :: "committee \<Rightarrow> digest \<Rightarrow> dag_round \<Rightarrow> stake" where
  "support c ldr_digest x =
     sum_list (map (\<lambda>(_, y). stake_of c (cert_origin y))
       (filter (\<lambda>(_, y). ldr_digest \<in> set (h_parents (c_header y))) (map snd x)))"

definition process_certificate :: "crypto_lib \<Rightarrow> committee \<Rightarrow> round \<Rightarrow> certificate \<Rightarrow> consensus \<Rightarrow> consensus res" where
  "process_certificate L c gc_depth cert s =
     (let rnd = cert_round cert;
          s = s\<lparr>cstate := (cstate s)\<lparr>dag := insert_certificate L cert (dag (cstate s))\<rparr>\<rparr>
      in if rnd = 0 then Inl Underflow
         else
           let r = rnd - 1 in
           if r mod 2 \<noteq> 0 \<or> r < 4 then Inr s
           else
             let ldr_round = r - 2 in
             if ldr_round \<le> last_committed_round (cstate s) then Inr s
             else bindR (leader c ldr_round (dag (cstate s))) (\<lambda>l. case l of
               None \<Rightarrow> Inr s
             | Some (ldr_digest, ldr) \<Rightarrow>
                 bindR (expect whole_history (map_of (dag (cstate s)) (r - 1))) (\<lambda>x.
                 if support c ldr_digest x < validity_threshold c then Inr s
                 else bindR (order_leaders c ldr (cstate s)) (\<lambda>leaders.
                      foldR (commit_leader L gc_depth) (rev leaders) s))))"

definition run_consensus :: "crypto_lib \<Rightarrow> committee \<Rightarrow> round \<Rightarrow> certificate list \<Rightarrow> consensus \<Rightarrow> consensus res" where
  "run_consensus L c gc_depth certs s = foldR (process_certificate L c gc_depth) certs s"

section \<open>The history of a leader\<close>

lemma insert_by_key_sorted:
  "sorted_wrt (\<lambda>x y. f x \<le> f y) ys \<Longrightarrow>
     sorted_wrt (\<lambda>x y. f x \<le> (f y :: 'b :: linorder)) (insert_by (\<lambda>x y. ord_cmp (f x) (f y)) x ys)"
proof (induction ys)
  case (Cons y ys)
  have "set (insert_by (\<lambda>x y. ord_cmp (f x) (f y)) x ys) = insert x (set ys)"
    by (metis mset_insert_by set_mset_add_mset_insert set_mset_mset)
  with Cons show ?case by auto
qed simp

lemma sort_by_key_sorted:
  "sorted_wrt (\<lambda>x y. f x \<le> (f y :: 'b :: linorder)) (sort_by (\<lambda>x y. ord_cmp (f x) (f y)) xs)"
  by (induction xs) (auto intro: insert_by_key_sorted)

text \<open>A DAG whose entries sit under their own round, author and digest.\<close>

definition dag_entries :: "dag \<Rightarrow> certificate set" where
  "dag_entries d = {cert. \<exists>(r, x) \<in> set d. \<exists>(n, dg, y) \<in> set x. y = cert}"

definition round_wf :: "crypto_lib \<Rightarrow> round \<Rightarrow> dag_round \<Rightarrow> bool" where
  "round_wf L r x \<longleftrightarrow> distinct (map fst x)
     \<and> (\<forall>(n, dg, cert) \<in> set x. n = cert_origin cert \<and> dg = cert_digest L cert \<and> r = cert_round cert)"

definition dag_wf :: "crypto_lib \<Rightarrow> dag \<Rightarrow> bool" where
  "dag_wf L d \<longleftrightarrow> distinct (map fst d) \<and> (\<forall>(r, x) \<in> set d. round_wf L r x)"

lemma dag_wf_D:
  assumes "dag_wf L d" "map_of d r = Some x" "(n, dg, cert) \<in> set x"
  shows "n = cert_origin cert" "dg = cert_digest L cert" "r = cert_round cert" "cert \<in> dag_entries d"
    "distinct (map fst x)"
  using assms map_of_SomeD [OF assms(2)] by (fastforce simp: dag_wf_def round_wf_def dag_entries_def)+

text \<open>One step back in the history that is still to be committed.\<close>

definition hist :: "con_state \<Rightarrow> (certificate \<times> certificate) set" where
  "hist st = {(x, y). \<exists>p \<in> set (h_parents (c_header x)). \<exists>dg. dag_find (dag st) (cert_round x - 1) p = Some (dg, y)
     \<and> map_of (last_committed st) (cert_origin y) \<noteq> Some (cert_round y)}"

lemma hist_D:
  assumes "dag_wf L (dag st)" "(x, y) \<in> hist st"
  shows "cert_round y = cert_round x - 1" "y \<in> dag_entries (dag st)"
    "map_of (last_committed st) (cert_origin y) \<noteq> Some (cert_round y)"
proof -
  obtain p dg where p: "dag_find (dag st) (cert_round x - 1) p = Some (dg, y)"
    "map_of (last_committed st) (cert_origin y) \<noteq> Some (cert_round y)"
    using assms(2) by (auto simp: hist_def)
  obtain xs n where "map_of (dag st) (cert_round x - 1) = Some xs" "(n, dg, y) \<in> set xs"
    using dag_find_Some(2) [OF p(1)] by blast
  with dag_wf_D [OF assms(1) this] p(2) show "cert_round y = cert_round x - 1" "y \<in> dag_entries (dag st)"
    "map_of (last_committed st) (cert_origin y) \<noteq> Some (cert_round y)" by auto
qed

text \<open>The inner loop pushes the steps back that are not yet marked.\<close>

lemma visit_parents_ok:
  assumes wf: "dag_wf L (dag st)"
  shows "fold (visit_parent st x) ps (buffer, V) = (buffer', V') \<Longrightarrow>
    \<exists>new. buffer' = new @ buffer \<and> V' = V \<union> cert_digest L ` set new \<and> distinct (map (cert_digest L) new)
      \<and> cert_digest L ` set new \<inter> V = {}
      \<and> set new \<subseteq> {y. \<exists>p \<in> set ps. \<exists>dg. dag_find (dag st) (cert_round x - 1) p = Some (dg, y)
           \<and> map_of (last_committed st) (cert_origin y) \<noteq> Some (cert_round y)}
      \<and> (\<forall>p \<in> set ps. \<forall>dg y. dag_find (dag st) (cert_round x - 1) p = Some (dg, y) \<longrightarrow>
           map_of (last_committed st) (cert_origin y) \<noteq> Some (cert_round y) \<longrightarrow> cert_digest L y \<in> V')"
proof (induction ps arbitrary: buffer V)
  case Nil
  then show ?case by (intro exI [of _ "[]"]) simp
next
  case (Cons p ps)
  let ?f = "dag_find (dag st) (cert_round x - 1) p"
  show ?case
  proof (cases "\<exists>dg y. ?f = Some (dg, y) \<and> dg \<notin> V
      \<and> map_of (last_committed st) (cert_origin y) \<noteq> Some (cert_round y)")
    case True
    then obtain dg y where y: "?f = Some (dg, y)" "dg \<notin> V"
      "map_of (last_committed st) (cert_origin y) \<noteq> Some (cert_round y)" by blast
    obtain xs n where "map_of (dag st) (cert_round x - 1) = Some xs" "(n, dg, y) \<in> set xs"
      using dag_find_Some(2) [OF y(1)] by blast
    then have dg: "dg = cert_digest L y" using dag_wf_D [OF wf] by blast
    have "visit_parent st x p (buffer, V) = (y # buffer, insert dg V)" using y by (simp add: visit_parent_def)
    then have "fold (visit_parent st x) ps (y # buffer, insert dg V) = (buffer', V')"
      using Cons.prems(1) by simp
    from Cons.IH [OF this] obtain new where new: "buffer' = new @ y # buffer"
      "V' = insert dg V \<union> cert_digest L ` set new" "distinct (map (cert_digest L) new)"
      "cert_digest L ` set new \<inter> insert dg V = {}"
      "set new \<subseteq> {y. \<exists>p \<in> set ps. \<exists>dg. dag_find (dag st) (cert_round x - 1) p = Some (dg, y)
           \<and> map_of (last_committed st) (cert_origin y) \<noteq> Some (cert_round y)}"
      "\<forall>p \<in> set ps. \<forall>dg y. dag_find (dag st) (cert_round x - 1) p = Some (dg, y) \<longrightarrow>
           map_of (last_committed st) (cert_origin y) \<noteq> Some (cert_round y) \<longrightarrow> cert_digest L y \<in> V'"
      by blast
    have "\<forall>q \<in> set (p # ps). \<forall>dg y. dag_find (dag st) (cert_round x - 1) q = Some (dg, y) \<longrightarrow>
           map_of (last_committed st) (cert_origin y) \<noteq> Some (cert_round y) \<longrightarrow> cert_digest L y \<in> V'"
      using new(2,6) y dg by auto
    with new y dg show ?thesis by (intro exI [of _ "new @ [y]"]) auto
  next
    case False
    then have same: "visit_parent st x p (buffer, V) = (buffer, V)"
      by (auto simp: visit_parent_def split: option.splits)
    then have "fold (visit_parent st x) ps (buffer, V) = (buffer', V')" using Cons.prems(1) by simp
    from Cons.IH [OF this] obtain new where new: "buffer' = new @ buffer"
      "V' = V \<union> cert_digest L ` set new" "distinct (map (cert_digest L) new)"
      "cert_digest L ` set new \<inter> V = {}"
      "set new \<subseteq> {y. \<exists>p \<in> set ps. \<exists>dg. dag_find (dag st) (cert_round x - 1) p = Some (dg, y)
           \<and> map_of (last_committed st) (cert_origin y) \<noteq> Some (cert_round y)}"
      "\<forall>p \<in> set ps. \<forall>dg y. dag_find (dag st) (cert_round x - 1) p = Some (dg, y) \<longrightarrow>
           map_of (last_committed st) (cert_origin y) \<noteq> Some (cert_round y) \<longrightarrow> cert_digest L y \<in> V'"
      by blast
    have "cert_digest L y \<in> V'" if f: "?f = Some (dg, y)"
      "map_of (last_committed st) (cert_origin y) \<noteq> Some (cert_round y)" for dg y
    proof -
      obtain xs n where "map_of (dag st) (cert_round x - 1) = Some xs" "(n, dg, y) \<in> set xs"
        using dag_find_Some(2) [OF f(1)] by blast
      then have "dg = cert_digest L y" using dag_wf_D [OF wf] by blast
      with False f new(2) show ?thesis by auto
    qed
    with new show ?thesis by (intro exI [of _ new]) auto
  qed
qed

text \<open>The whole walk finds the history, each certificate once.\<close>

definition walk_inv :: "crypto_lib \<Rightarrow> con_state \<Rightarrow> certificate \<Rightarrow> certificate list \<Rightarrow> digest set \<Rightarrow> certificate list \<Rightarrow> bool" where
  "walk_inv L st ldr buffer V ordered \<longleftrightarrow> distinct (map (cert_digest L) (ordered @ buffer))
     \<and> ldr \<in> set (ordered @ buffer) \<and> set (ordered @ buffer) \<subseteq> (hist st)\<^sup>* `` {ldr}
     \<and> insert (cert_digest L ldr) V = cert_digest L ` set (ordered @ buffer)
     \<and> (\<forall>x \<in> set ordered. \<forall>y. (x, y) \<in> hist st \<longrightarrow> y \<in> set (ordered @ buffer))"

lemma hist_reach:
  assumes "dag_wf L (dag st)" "(ldr, y) \<in> (hist st)\<^sup>*"
  shows "y \<in> insert ldr (dag_entries (dag st))"
  using assms(2) by (induction rule: rtrancl_induct) (auto dest: hist_D(2) [OF assms(1)])

lemma walk_step:
  assumes wf: "dag_wf L (dag st)" and inj: "inj_on (cert_digest L) (insert ldr (dag_entries (dag st)))"
    and ldr: "\<And>x. (ldr, x) \<in> (hist st)\<^sup>* \<Longrightarrow> (x, ldr) \<notin> hist st"
    and inv: "walk_inv L st ldr (x # buffer) V ordered" and nV: "cert_digest L ldr \<notin> V"
    and step: "fold (visit_parent st x) (h_parents (c_header x)) (buffer, V) = (buffer', V')"
  shows "walk_inv L st ldr buffer' V' (ordered @ [x]) \<and> cert_digest L ldr \<notin> V'"
proof -
  let ?H = "insert ldr (dag_entries (dag st))" and ?d = "cert_digest L"
  obtain new where new: "buffer' = new @ buffer" "V' = V \<union> ?d ` set new" "distinct (map ?d new)"
    "?d ` set new \<inter> V = {}"
    "set new \<subseteq> {y. \<exists>p \<in> set (h_parents (c_header x)). \<exists>dg. dag_find (dag st) (cert_round x - 1) p = Some (dg, y)
         \<and> map_of (last_committed st) (cert_origin y) \<noteq> Some (cert_round y)}"
    "\<forall>p \<in> set (h_parents (c_header x)). \<forall>dg y. dag_find (dag st) (cert_round x - 1) p = Some (dg, y) \<longrightarrow>
         map_of (last_committed st) (cert_origin y) \<noteq> Some (cert_round y) \<longrightarrow> ?d y \<in> V'"
    using visit_parents_ok [OF wf step] by blast
  have nh: "(x, y) \<in> hist st" if "y \<in> set new" for y using new(5) that by (auto simp: hist_def)
  have nd: "y \<in> dag_entries (dag st)" if "y \<in> set new" for y using hist_D(2) [OF wf nh [OF that]] .
  have x: "(ldr, x) \<in> (hist st)\<^sup>*" using inv by (auto simp: walk_inv_def)
  have ldr_new: "?d ldr \<notin> ?d ` set new"
  proof
    assume "?d ldr \<in> ?d ` set new"
    then obtain y where y: "y \<in> set new" "?d y = ?d ldr" by auto
    then have "y = ldr" using inj nd [OF y(1)] by (auto simp: inj_on_def)
    with nh [OF y(1)] ldr [OF x] show False by blast
  qed
  have cover: "insert (?d ldr) V = ?d ` set (ordered @ x # buffer)" using inv by (simp add: walk_inv_def)
  have reach: "set (ordered @ x # new @ buffer) \<subseteq> (hist st)\<^sup>* `` {ldr}"
    using inv nh x by (auto simp: walk_inv_def intro: rtrancl_into_rtrancl)
  have closed: "y \<in> set (ordered @ x # new @ buffer)" if xy: "(x, y) \<in> hist st" for y
  proof -
    have "?d y \<in> V'" using xy new(6) by (auto simp: hist_def)
    then have "?d y \<in> ?d ` set (ordered @ x # new @ buffer)" using new(2) cover by auto
    then obtain z where z: "z \<in> set (ordered @ x # new @ buffer)" "?d z = ?d y"
      by (metis (no_types, lifting) imageE)
    have "z \<in> ?H" using reach z(1) hist_reach [OF wf] by blast
    moreover have "y \<in> ?H" using hist_D(2) [OF wf xy] by simp
    ultimately have "z = y" using inj z(2) by (auto simp: inj_on_def)
    with z(1) show ?thesis by simp
  qed
  have "?d ` set new \<inter> ?d ` set (ordered @ x # buffer) = {}"
    unfolding cover [symmetric] Int_insert_right if_not_P [OF ldr_new] by (rule new(4))
  then have "distinct (map ?d ((ordered @ [x]) @ buffer'))"
    using inv new(1,3) by (auto simp: walk_inv_def)
  moreover have "insert (?d ldr) V' = ?d ` set ((ordered @ [x]) @ buffer')"
    using cover new(1,2) by auto
  moreover have "\<forall>z \<in> set (ordered @ [x]). \<forall>y. (z, y) \<in> hist st \<longrightarrow> y \<in> set ((ordered @ [x]) @ buffer')"
  proof (intro ballI allI impI)
    fix z y assume z: "z \<in> set (ordered @ [x])" and zy: "(z, y) \<in> hist st"
    show "y \<in> set ((ordered @ [x]) @ buffer')"
    proof (cases "z = x")
      case True
      with closed zy new(1) show ?thesis by auto
    next
      case False
      then have "y \<in> set (ordered @ x # buffer)" using z zy inv unfolding walk_inv_def by auto
      with new(1) show ?thesis by auto
    qed
  qed
  ultimately have "walk_inv L st ldr buffer' V' (ordered @ [x])"
    using inv reach new(1) unfolding walk_inv_def by auto
  moreover have "?d ldr \<notin> V'" using nV ldr_new new(2) by blast
  ultimately show ?thesis ..
qed

lemma order_dag_loop_ok:
  "walk_inv L st ldr buffer V ordered \<Longrightarrow> cert_digest L ldr \<notin> V \<Longrightarrow>
    dag_wf L (dag st) \<Longrightarrow> inj_on (cert_digest L) (insert ldr (dag_entries (dag st))) \<Longrightarrow>
    (\<And>x. (ldr, x) \<in> (hist st)\<^sup>* \<Longrightarrow> (x, ldr) \<notin> hist st) \<Longrightarrow>
    distinct (map (cert_digest L) (order_dag_loop st buffer V ordered))
    \<and> set (order_dag_loop st buffer V ordered) = (hist st)\<^sup>* `` {ldr}"
proof (induction st buffer V ordered rule: order_dag_loop.induct)
  case (1 st V ordered)
  have "y \<in> set ordered" if "(ldr, y) \<in> (hist st)\<^sup>*" for y
    using that "1.prems"(1) by (induction rule: rtrancl_induct) (auto simp: walk_inv_def)
  with "1.prems"(1) show ?case by (auto simp: walk_inv_def)
next
  case (2 st x buffer V ordered)
  obtain buffer' V' where s: "fold (visit_parent st x) (h_parents (c_header x)) (buffer, V) = (buffer', V')"
    by fastforce
  have "walk_inv L st ldr buffer' V' (ordered @ [x]) \<and> cert_digest L ldr \<notin> V'"
    by (rule walk_step [OF "2.prems"(3,4,5,1,2) s])
  with "2.IH" [OF s [symmetric] refl] "2.prems"(3-5) s show ?case by simp
qed

definition still_young :: "round \<Rightarrow> con_state \<Rightarrow> certificate \<Rightarrow> bool" where
  "still_young gc_depth st x \<longleftrightarrow> last_committed_round st \<le> cert_round x + gc_depth"

lemma order_dag_ok:
  assumes wf: "dag_wf L (dag st)" and inj: "inj_on (cert_digest L) (insert ldr (dag_entries (dag st)))"
    and ldr: "\<And>x. (ldr, x) \<in> (hist st)\<^sup>* \<Longrightarrow> (x, ldr) \<notin> hist st"
  shows "set (order_dag gc_depth ldr st) = {x \<in> (hist st)\<^sup>* `` {ldr}. still_young gc_depth st x}"
    "distinct (map (cert_digest L) (order_dag gc_depth ldr st))"
    "sorted_wrt (\<lambda>x y. cert_round x \<le> cert_round y) (order_dag gc_depth ldr st)"
proof -
  let ?cmp = "\<lambda>x y. ord_cmp (cert_round x) (cert_round y)"
  have "walk_inv L st ldr [ldr] {} []" by (simp add: walk_inv_def)
  from order_dag_loop_ok [OF this _ wf inj ldr] have loop: "distinct (map (cert_digest L) (order_dag_loop st [ldr] {} []))"
    "set (order_dag_loop st [ldr] {} []) = (hist st)\<^sup>* `` {ldr}" by auto
  then show "set (order_dag gc_depth ldr st) = {x \<in> (hist st)\<^sup>* `` {ldr}. still_young gc_depth st x}"
    by (simp add: order_dag_def still_young_def Let_def)
  have "mset (map (cert_digest L) (order_dag gc_depth ldr st))
      = mset (map (cert_digest L) (filter (\<lambda>x. last_committed_round st \<le> cert_round x + gc_depth) (order_dag_loop st [ldr] {} [])))"
    by (simp add: order_dag_def Let_def)
  then show "distinct (map (cert_digest L) (order_dag gc_depth ldr st))"
    using loop(1) by (metis (no_types, lifting) distinct_map_filter mset_eq_imp_distinct_iff)
  have srt: "sorted_wrt (\<lambda>x y. cert_round x \<le> cert_round y) (sort_by ?cmp xs)" for xs
    by (rule sort_by_key_sorted)
  show "sorted_wrt (\<lambda>x y. cert_round x \<le> cert_round y) (order_dag gc_depth ldr st)"
    unfolding order_dag_def Let_def by (rule srt)
qed

text \<open>Rounds fall along the history, unless it starts again below round 0.\<close>

definition grounded :: "certificate set \<Rightarrow> bool" where
  "grounded S \<longleftrightarrow> (\<forall>x \<in> S. cert_round x = 0 \<longrightarrow> h_parents (c_header x) = [])"

lemma word_pred_less: "r \<noteq> 0 \<Longrightarrow> r - 1 < (r :: u64)"
  by uint_arith

lemma hist_less:
  assumes "dag_wf L (dag st)" "grounded S" "x \<in> S" "(x, y) \<in> hist st"
  shows "cert_round y < cert_round x"
proof -
  have "h_parents (c_header x) \<noteq> []" using assms(4) by (auto simp: hist_def)
  then have "cert_round x \<noteq> 0" using assms(2,3) by (auto simp: grounded_def)
  then show ?thesis using hist_D(1) [OF assms(1,4)] word_pred_less by simp
qed

lemma hist_below:
  assumes wf: "dag_wf L (dag st)" and g: "grounded (insert ldr (dag_entries (dag st)))"
    and r: "(ldr, x) \<in> (hist st)\<^sup>*"
  shows "x = ldr \<or> cert_round x < cert_round ldr"
  using r
proof (induction rule: rtrancl_induct)
  case (step y z)
  have "cert_round z < cert_round y"
    by (rule hist_less [OF wf g hist_reach [OF wf step.hyps(1)] step.hyps(2)])
  with step.IH show ?case by auto
qed simp

lemma hist_ldr:
  assumes wf: "dag_wf L (dag st)" and g: "grounded (insert ldr (dag_entries (dag st)))"
    and r: "(ldr, x) \<in> (hist st)\<^sup>*"
  shows "(x, ldr) \<notin> hist st"
  using hist_below [OF wf g r] hist_less [OF wf g hist_reach [OF wf r], of ldr] by auto

section \<open>The clean-up\<close>

lemma dag_entries_iff: "cert \<in> dag_entries d \<longleftrightarrow> (\<exists>r x n dg. (r, x) \<in> set d \<and> (n, dg, cert) \<in> set x)"
  by (fastforce simp: dag_entries_def)

lemma retain_dag_ok:
  assumes "dag_wf L d"
  shows "dag_wf L (retain_dag gc_depth lcr (name, rnd) d)"
    "dag_entries (retain_dag gc_depth lcr (name, rnd) d) \<subseteq> {y \<in> dag_entries d. cert_origin y = name \<longrightarrow> rnd \<le> cert_round y}"
proof -
  let ?f = "\<lambda>(r :: round, authorities). (r, filter (\<lambda>(n, _). n \<noteq> name \<or> rnd \<le> r) authorities)"
  have sub: "\<exists>x'. (r, x') \<in> set d \<and> x = filter (\<lambda>(n, _). n \<noteq> name \<or> rnd \<le> r) x'"
    if "(r, x) \<in> set (retain_dag gc_depth lcr (name, rnd) d)" for r x
    using that by (auto simp: retain_dag_def)
  have keys: "map fst (map ?f d) = map fst d" by auto
  have "distinct (map fst d)" using assms by (simp add: dag_wf_def)
  then have "distinct (map fst (map ?f d))" by (simp only: keys)
  then have "distinct (map fst (retain_dag gc_depth lcr (name, rnd) d))"
    unfolding retain_dag_def Let_def split by (rule distinct_map_filter)
  moreover have "round_wf L r x" if "(r, x) \<in> set (retain_dag gc_depth lcr (name, rnd) d)" for r x
    using sub [OF that] assms by (fastforce simp: dag_wf_def round_wf_def distinct_map_filter)
  ultimately show "dag_wf L (retain_dag gc_depth lcr (name, rnd) d)" by (auto simp: dag_wf_def)
  show "dag_entries (retain_dag gc_depth lcr (name, rnd) d) \<subseteq> {y \<in> dag_entries d. cert_origin y = name \<longrightarrow> rnd \<le> cert_round y}"
  proof
    fix y assume "y \<in> dag_entries (retain_dag gc_depth lcr (name, rnd) d)"
    then obtain r x n dg where y: "(r, x) \<in> set (retain_dag gc_depth lcr (name, rnd) d)" "(n, dg, y) \<in> set x"
      by (auto simp: dag_entries_iff)
    then obtain x' where x': "(r, x') \<in> set d" "(n, dg, y) \<in> set x'" "n \<noteq> name \<or> rnd \<le> r" using sub by fastforce
    then have "n = cert_origin y" "r = cert_round y" using assms by (fastforce simp: dag_wf_def round_wf_def)+
    with x' show "y \<in> {y \<in> dag_entries d. cert_origin y = name \<longrightarrow> rnd \<le> cert_round y}"
      by (auto simp: dag_entries_iff)
  qed
qed

lemma retain_all_ok:
  "dag_wf L d \<Longrightarrow> dag_wf L (fold (retain_dag gc_depth lcr) lc d)
    \<and> dag_entries (fold (retain_dag gc_depth lcr) lc d)
        \<subseteq> {y \<in> dag_entries d. \<forall>r. (cert_origin y, r) \<in> set lc \<longrightarrow> r \<le> cert_round y}"
proof (induction lc arbitrary: d)
  case (Cons e lc)
  obtain name rnd where e: "e = (name, rnd)" by fastforce
  note step = retain_dag_ok [OF Cons.prems, of gc_depth lcr name rnd]
  from Cons.IH [OF step(1)] step(2) show ?case by (auto simp: e)
qed simp

lemma fold_max_0: "r \<in> set rs \<Longrightarrow> r \<le> fold max rs (m :: u64)" "(\<And>r. r \<in> set rs \<Longrightarrow> r \<le> b) \<Longrightarrow> m \<le> b \<Longrightarrow> fold max rs m \<le> b"
proof -
  have eq: "fold max rs m = Max (insert m (set rs))" using Max.set_eq_fold [of m rs] by simp
  show "r \<in> set rs \<Longrightarrow> r \<le> fold max rs m" unfolding eq by simp
  show "(\<And>r. r \<in> set rs \<Longrightarrow> r \<le> b) \<Longrightarrow> m \<le> b \<Longrightarrow> fold max rs m \<le> b" unfolding eq by simp
qed

section \<open>No certificate is committed twice\<close>

text \<open>\<open>C\<close> is what has been committed, with the genesis; \<open>D\<close> is what has been delivered, with the genesis.\<close>

definition commit_inv :: "crypto_lib \<Rightarrow> certificate set \<Rightarrow> certificate set \<Rightarrow> con_state \<Rightarrow> bool" where
  "commit_inv L D C st \<longleftrightarrow> dag_wf L (dag st) \<and> dag_entries (dag st) \<subseteq> D \<and> C \<subseteq> D
     \<and> (\<forall>x \<in> C. \<exists>r. map_of (last_committed st) (cert_origin x) = Some r \<and> cert_round x \<le> r)
     \<and> (\<forall>y \<in> dag_entries (dag st) \<inter> C. map_of (last_committed st) (cert_origin y) = Some (cert_round y))
     \<and> (\<forall>(n, r) \<in> set (last_committed st). r \<le> last_committed_round st)"

lemma commit_inv_round:
  assumes "commit_inv L D C st" "x \<in> C"
  shows "cert_round x \<le> last_committed_round st"
proof -
  obtain r where r: "map_of (last_committed st) (cert_origin x) = Some r" "cert_round x \<le> r"
    using assms by (auto simp: commit_inv_def)
  have "r \<le> last_committed_round st" using map_of_SomeD [OF r(1)] assms(1) by (auto simp: commit_inv_def)
  with r(2) show ?thesis by simp
qed

lemma con_update_inv:
  assumes inv: "commit_inv L D C st" and x: "x \<in> D"
  shows "commit_inv L D (insert x C) (con_update gc_depth x st)"
    "last_committed_round (con_update gc_depth x st) \<le> max (last_committed_round st) (cert_round x)"
proof -
  let ?st = "con_update gc_depth x st"
  let ?new = "case map_of (last_committed st) (cert_origin x) of Some r \<Rightarrow> max r (cert_round x) | None \<Rightarrow> cert_round x"
  have lc: "last_committed ?st = AList.update (cert_origin x) ?new (last_committed st)"
    by (simp add: con_update_def Let_def)
  have lcr: "last_committed_round ?st = fold max (map snd (last_committed ?st)) 0"
    by (simp add: con_update_def Let_def)
  have dag: "dag ?st = fold (retain_dag gc_depth (last_committed_round ?st)) (last_committed ?st) (dag st)"
    by (simp add: con_update_def Let_def)
  have look: "map_of (last_committed ?st) n = (if n = cert_origin x then Some ?new else map_of (last_committed st) n)" for n
    unfolding lc by (simp add: AList.update_conv')
  have wf: "dag_wf L (dag st)" using inv by (simp add: commit_inv_def)
  have ent: "y \<in> dag_entries (dag st)" "(cert_origin y, r) \<in> set (last_committed ?st) \<Longrightarrow> r \<le> cert_round y"
    if "y \<in> dag_entries (dag ?st)" for y r
    using that retain_all_ok [OF wf, of gc_depth "last_committed_round ?st" "last_committed ?st"] unfolding dag by auto
  have le: "cert_round x \<le> ?new" by (auto split: option.split)
  have "\<exists>r. map_of (last_committed ?st) (cert_origin z) = Some r \<and> cert_round z \<le> r" if z: "z \<in> insert x C" for z
  proof (cases "cert_origin z = cert_origin x")
    case True
    have "cert_round z \<le> ?new"
    proof (cases "z = x")
      case False
      then obtain r where "map_of (last_committed st) (cert_origin z) = Some r" "cert_round z \<le> r"
        using z inv by (auto simp: commit_inv_def)
      with True show ?thesis by (auto intro: le_max_iff_disj [THEN iffD2])
    qed (use le in simp)
    with True look show ?thesis by simp
  next
    case False
    with z inv look show ?thesis by (auto simp: commit_inv_def)
  qed
  moreover have "map_of (last_committed ?st) (cert_origin y) = Some (cert_round y)"
    if y: "y \<in> dag_entries (dag ?st)" "y \<in> insert x C" for y
  proof -
    obtain r where r: "map_of (last_committed ?st) (cert_origin y) = Some r" "cert_round y \<le> r"
      using calculation [OF y(2)] by blast
    then have "r \<le> cert_round y" using ent(2) [OF y(1)] map_of_SomeD [OF r(1)] by blast
    with r show ?thesis by simp
  qed
  moreover have "r \<le> last_committed_round ?st" if "(n, r) \<in> set (last_committed ?st)" for n r
    unfolding lcr by (rule fold_max_0(1)) (use that in force)
  moreover have "dag_wf L (dag ?st)" "dag_entries (dag ?st) \<subseteq> D"
    using retain_all_ok [OF wf, of gc_depth "last_committed_round ?st" "last_committed ?st"] ent(1) inv
    by (auto simp: dag commit_inv_def)
  ultimately show "commit_inv L D (insert x C) ?st" using inv x by (auto simp: commit_inv_def)
  show "last_committed_round ?st \<le> max (last_committed_round st) (cert_round x)"
    unfolding lcr
  proof (rule fold_max_0(2))
    fix r assume "r \<in> set (map snd (last_committed ?st))"
    then obtain n where n: "(n, r) \<in> set (last_committed ?st)" by auto
    then consider "r = ?new" | "(n, r) \<in> set (last_committed st)"
      using set_update_subset [of "cert_origin x" ?new "last_committed st"] unfolding lc by blast
    then show "r \<le> max (last_committed_round st) (cert_round x)"
    proof cases
      case 1
      have "r' \<le> last_committed_round st" if "map_of (last_committed st) (cert_origin x) = Some r'" for r'
        using map_of_SomeD [OF that] inv by (auto simp: commit_inv_def)
      with 1 show ?thesis by (auto split: option.splits simp: max.coboundedI1)
    next
      case 2
      then show ?thesis using inv by (auto simp: commit_inv_def max.coboundedI1)
    qed
  qed simp
qed

lemma con_updates_inv:
  "commit_inv L D C st \<Longrightarrow> set batch \<subseteq> D \<Longrightarrow> (\<And>x. x \<in> set batch \<Longrightarrow> cert_round x \<le> b) \<Longrightarrow> last_committed_round st \<le> b \<Longrightarrow>
    commit_inv L D (set batch \<union> C) (fold (con_update gc_depth) batch st)
    \<and> last_committed_round (fold (con_update gc_depth) batch st) \<le> b"
proof (induction batch arbitrary: st C)
  case (Cons x batch)
  have x: "x \<in> D" "cert_round x \<le> b" using Cons.prems by auto
  note step = con_update_inv [OF Cons.prems(1) x(1), of gc_depth]
  have "last_committed_round (con_update gc_depth x st) \<le> b"
    using step(2) x(2) Cons.prems(4) by (meson max.boundedI order_trans)
  with Cons.IH [OF step(1)] Cons.prems(2,3) show ?case by auto
qed simp

text \<open>The output of one leader: its history, all new, in one batch.\<close>

definition known :: "crypto_lib \<Rightarrow> certificate set \<Rightarrow> bool" where
  "known L D \<longleftrightarrow> inj_on (cert_digest L) D \<and> grounded D"

lemma order_dag_known:
  assumes inv: "commit_inv L D C st" and D: "known L D" and ldr: "ldr \<in> D"
  shows "set (order_dag gc_depth ldr st) = {x \<in> (hist st)\<^sup>* `` {ldr}. still_young gc_depth st x}"
    "distinct (map (cert_digest L) (order_dag gc_depth ldr st))"
    "set (order_dag gc_depth ldr st) \<subseteq> D"
    "x \<in> set (order_dag gc_depth ldr st) \<Longrightarrow> cert_round x \<le> cert_round ldr"
    "ldr \<notin> C \<Longrightarrow> set (order_dag gc_depth ldr st) \<inter> C = {}"
proof -
  have wf: "dag_wf L (dag st)" and sub: "insert ldr (dag_entries (dag st)) \<subseteq> D"
    using inv ldr by (auto simp: commit_inv_def)
  have inj: "inj_on (cert_digest L) (insert ldr (dag_entries (dag st)))"
    by (rule inj_on_subset [OF _ sub]) (use D in \<open>simp add: known_def\<close>)
  have g: "grounded (insert ldr (dag_entries (dag st)))" using D sub by (auto simp: known_def grounded_def)
  note ok = order_dag_ok [OF wf inj hist_ldr [OF wf g]]
  show set: "set (order_dag gc_depth ldr st) = {x \<in> (hist st)\<^sup>* `` {ldr}. still_young gc_depth st x}"
    by (rule ok(1))
  show "distinct (map (cert_digest L) (order_dag gc_depth ldr st))" by (rule ok(2))
  show "set (order_dag gc_depth ldr st) \<subseteq> D" using set hist_reach [OF wf] sub by blast
  show "x \<in> set (order_dag gc_depth ldr st) \<Longrightarrow> cert_round x \<le> cert_round ldr"
    using set hist_below [OF wf g] by fastforce
  assume nC: "ldr \<notin> C"
  have "x \<notin> C" if "(ldr, x) \<in> (hist st)\<^sup>*" for x
    using that
  proof (cases rule: rtranclE)
    case (step y)
    then show ?thesis using hist_D [OF wf step(2)] inv by (auto simp: commit_inv_def)
  qed (use nC in simp)
  then show "set (order_dag gc_depth ldr st) \<inter> C = {}" using set by blast
qed

text \<open>
  The state of the loop: \<open>D\<close> delivered, with the genesis \<open>G\<close>; everything that went to the primary is
  committed, without repetition, and the batches for the executor are its parts, numbered from 1.
\<close>

definition run_inv :: "crypto_lib \<Rightarrow> certificate set \<Rightarrow> certificate set \<Rightarrow> consensus \<Rightarrow> bool" where
  "run_inv L G D s \<longleftrightarrow> commit_inv L D (set (to_primary s) \<union> G) (cstate s)
     \<and> distinct (map (cert_digest L) (to_primary s)) \<and> set (to_primary s) \<inter> G = {}
     \<and> (if output_up s
        then concat (map certificates (to_output s)) = to_primary s
          \<and> map batch_index (to_output s) = map of_nat [1..<Suc (length (to_output s))]
          \<and> next_batch_index s = of_nat (length (to_output s))
        else to_output s = [])
     \<and> (\<forall>b \<in> set (to_output s). certificates b \<noteq> [] \<and> sorted_wrt (\<lambda>x y. cert_round x \<le> cert_round y) (certificates b))"

lemma order_dag_sorted: "sorted_wrt (\<lambda>x y. cert_round x \<le> cert_round y) (order_dag gc_depth ldr st)"
  unfolding order_dag_def Let_def by (rule sort_by_key_sorted)

lemma commit_leader_inv:
  assumes inv: "run_inv L G D s" and D: "known L D" and ldr: "ldr \<in> D"
    and new: "last_committed_round (cstate s) < cert_round ldr"
    and step: "commit_leader L gc_depth ldr s = Inr s'"
  shows "run_inv L G D s' \<and> last_committed_round (cstate s') \<le> cert_round ldr
    \<and> output_up s' = output_up s"
proof -
  let ?batch = "order_dag gc_depth ldr (cstate s)" and ?C = "set (to_primary s) \<union> G"
  have ci: "commit_inv L D ?C (cstate s)" using inv by (simp add: run_inv_def)
  have nC: "ldr \<notin> ?C" using commit_inv_round [OF ci, of ldr] new by fastforce
  note ok = order_dag_known [OF ci D ldr, where gc_depth = gc_depth]
  have upd: "commit_inv L D (set ?batch \<union> ?C) (fold (con_update gc_depth) ?batch (cstate s))
    \<and> last_committed_round (fold (con_update gc_depth) ?batch (cstate s)) \<le> cert_round ldr"
    using new ok(3,4) by (intro con_updates_inv [OF ci]) auto
  show ?thesis
  proof (cases "?batch = []")
    case True
    with step inv new show ?thesis by (auto simp: commit_leader_def Let_def)
  next
    case False
    have disj: "set ?batch \<inter> ?C = {}" by (rule ok(5) [OF nC])
    have "cert_digest L ` set (to_primary s) \<inter> cert_digest L ` set ?batch = {}"
    proof -
      have "inj_on (cert_digest L) D" using D by (simp add: known_def)
      moreover have "set (to_primary s) \<subseteq> D" using ci by (auto simp: commit_inv_def)
      ultimately have "cert_digest L ` (set (to_primary s) \<inter> set ?batch)
          = cert_digest L ` set (to_primary s) \<inter> cert_digest L ` set ?batch"
        using ok(3) by (intro inj_on_image_Int)
      with disj show ?thesis by auto
    qed
    then have dist: "distinct (map (cert_digest L) (to_primary s @ ?batch))"
      using inv ok(2) by (simp add: run_inv_def)
    have primary: "to_primary s' = to_primary s @ ?batch" "output_up s' = output_up s"
      "cstate s' = fold (con_update gc_depth) ?batch (cstate s)"
      using step False by (auto simp: commit_leader_def Let_def split: if_splits)
    have out: "to_output s' = (if output_up s then to_output s @ [\<lparr>batch_index = next_batch_index s + 1,
        leader_round = cert_round ldr, leader_digest = cert_digest L ldr, certificates = ?batch\<rparr>] else to_output s)"
      "next_batch_index s' = next_batch_index s + 1"
      using step False by (auto simp: commit_leader_def Let_def split: if_splits)
    have "commit_inv L D (set (to_primary s') \<union> G) (cstate s')"
      using upd primary by (simp add: Un_ac)
    then show ?thesis
      using inv primary out dist disj upd False order_dag_sorted [of gc_depth ldr "cstate s"]
      by (auto simp: run_inv_def)
  qed
qed

lemma commit_leaders_inv:
  assumes D: "known L D"
  shows "run_inv L G D s \<Longrightarrow> set ls \<subseteq> D \<Longrightarrow> sorted_wrt (\<lambda>x y. cert_round x < cert_round y) ls \<Longrightarrow>
    (\<And>x. x \<in> set ls \<Longrightarrow> last_committed_round (cstate s) < cert_round x) \<Longrightarrow>
    foldR (commit_leader L gc_depth) ls s = Inr s' \<Longrightarrow> run_inv L G D s' \<and> output_up s' = output_up s"
proof (induction ls arbitrary: s)
  case (Cons l ls)
  obtain s1 where s1: "commit_leader L gc_depth l s = Inr s1" "foldR (commit_leader L gc_depth) ls s1 = Inr s'"
    using Cons.prems(5) by (auto simp: bindR_Inr_iff)
  have step: "run_inv L G D s1" "last_committed_round (cstate s1) \<le> cert_round l" "output_up s1 = output_up s"
    using commit_leader_inv [OF Cons.prems(1) D _ _ s1(1)] Cons.prems(2,4) by auto
  have "last_committed_round (cstate s1) < cert_round x" if "x \<in> set ls" for x
    using that Cons.prems(3) step(2) by (auto intro: le_less_trans)
  from Cons.IH [OF step(1) _ _ this s1(2)] Cons.prems(2,3) step(3) show ?case by auto
qed simp

section \<open>The chain of leaders\<close>

lemma leader_Some:
  assumes "leader c r d = Inr (Some (dg, y))" "dag_wf L d"
  shows "y \<in> dag_entries d" "cert_round y = r" "dg = cert_digest L y"
    "leader_name c r = Inr (cert_origin y)"
proof -
  obtain name x where x: "leader_name c r = Inr name" "map_of d r = Some x" "map_of x name = Some (dg, y)"
    using assms(1) by (auto simp: leader_def bindR_Inr_iff split: option.splits)
  with dag_wf_D [OF assms(2) x(2) map_of_SomeD [OF x(3)]]
  show "y \<in> dag_entries d" "cert_round y = r" "dg = cert_digest L y" "leader_name c r = Inr (cert_origin y)"
    by auto
qed

lemma order_leaders_step_cases:
  assumes "order_leaders_step c d r (ks, y) = Inr s"
  obtains "s = (ks, y)" | dg prev where "leader c r d = Inr (Some (dg, prev))" "s = (ks @ [prev], prev)"
  using assms by (auto simp: order_leaders_step_def bindR_Inr_iff split: option.splits if_splits)

lemma order_leaders_gen:
  assumes wf: "dag_wf L d"
  shows "foldR (order_leaders_step c d) rs (ls, ldr) = Inr (ls', ldr') \<Longrightarrow> sorted_wrt (>) rs \<Longrightarrow>
    (\<And>r. r \<in> set rs \<Longrightarrow> r < cert_round ldr) \<Longrightarrow>
    \<exists>tail. ls' = ls @ tail \<and> sorted_wrt (\<lambda>x y. cert_round y < cert_round x) (ldr # tail)
      \<and> set tail \<subseteq> dag_entries d \<and> cert_round ` set tail \<subseteq> set rs"
proof (induction rs arbitrary: ls ldr)
  case (Cons r rs)
  obtain s1 where s1: "order_leaders_step c d r (ls, ldr) = Inr s1"
    "foldR (order_leaders_step c d) rs s1 = Inr (ls', ldr')"
    using Cons.prems(1) by (auto simp: bindR_Inr_iff)
  have srt: "sorted_wrt (>) rs" "\<And>r'. r' \<in> set rs \<Longrightarrow> r' < r" using Cons.prems(2) by auto
  from s1(1) show ?case
  proof (cases rule: order_leaders_step_cases)
    case 1
    from Cons.IH [OF s1(2) [unfolded 1] srt(1)] Cons.prems(3) show ?thesis by fastforce
  next
    case (2 dg prev)
    note l = leader_Some [OF 2(1) wf]
    obtain tail where tail: "ls' = (ls @ [prev]) @ tail"
      "sorted_wrt (\<lambda>x y. cert_round y < cert_round x) (prev # tail)" "set tail \<subseteq> dag_entries d"
      "cert_round ` set tail \<subseteq> set rs"
      using Cons.IH [OF s1(2) [unfolded 2(2)] srt(1)] srt(2) l(2) by blast
    have "cert_round prev < cert_round ldr" using l(2) Cons.prems(3) by simp
    with tail l show ?thesis by (intro exI [of _ "prev # tail"]) (auto intro: less_trans)
  qed
qed simp

lemma u64_range_sorted: "sorted_wrt (<) (u64_range a b)"
proof -
  have "sorted_wrt (\<lambda>i j. (of_nat i :: u64) < of_nat j) [m ..< Suc (unat b)]" for m
  proof (rule sorted_wrt_mono_rel [OF _ sorted_wrt_upt])
    fix i j assume ij: "i \<in> set [m ..< Suc (unat b)]" "j \<in> set [m ..< Suc (unat b)]" "i < j"
    have b: "unat b < 2 ^ LENGTH(64)" by (rule unsigned_less)
    have le: "i \<le> unat b" "j \<le> unat b" using ij by auto
    have "unat (of_nat k :: u64) = k" if "k \<le> unat b" for k
      using that b by (simp add: unat_of_nat)
    from this [OF le(1)] this [OF le(2)] ij(3) show "(of_nat i :: u64) < of_nat j" by (simp add: word_less_nat_alt)
  qed
  then show ?thesis unfolding u64_range_def sorted_wrt_map .
qed

lemma leader_rounds_between:
  fixes lcr R :: u64
  assumes "lcr < R" "R < R + 2" "r \<in> set (step_by2 (rev (u64_range (lcr + 2) (R - 2))))" "2 \<le> R"
  shows "lcr < r" "r < R"
proof -
  have "r \<in> {lcr + 2..R - 2}" using assms(3) set_step_by2 by fastforce
  then have "lcr + 2 \<le> r" "r \<le> R - 2" by auto
  with assms(1,2,4) show "lcr < r" "r < R" by uint_arith+
qed

lemma order_leaders_ok:
  assumes ls: "order_leaders c ldr st = Inr ls" and wf: "dag_wf L (dag st)"
    and r: "last_committed_round st < cert_round ldr" "cert_round ldr < cert_round ldr + 2" "2 \<le> cert_round ldr"
  shows "\<exists>tail. ls = ldr # tail \<and> sorted_wrt (\<lambda>x y. cert_round y < cert_round x) ls
    \<and> set tail \<subseteq> dag_entries (dag st) \<and> (\<forall>x \<in> set ls. last_committed_round st < cert_round x)"
proof -
  let ?rs = "step_by2 (rev (u64_range (last_committed_round st + 2) (cert_round ldr - 2)))"
  have srt: "sorted_wrt (>) ?rs"
    by (rule sorted_step_by2) (simp add: sorted_wrt_rev u64_range_sorted)
  note between = leader_rounds_between [OF r(1,2) _ r(3)]
  obtain ldr' where "foldR (order_leaders_step c (dag st)) ?rs ([ldr], ldr) = Inr (ls, ldr')"
    using ls by (auto simp: order_leaders_def bindR_Inr_iff)
  from order_leaders_gen [OF wf this srt] between(2) obtain tail where
    tail: "ls = [ldr] @ tail" "sorted_wrt (\<lambda>x y. cert_round y < cert_round x) (ldr # tail)"
    "set tail \<subseteq> dag_entries (dag st)" "cert_round ` set tail \<subseteq> set ?rs" by blast
  with between(1) r(1) show ?thesis by (intro exI [of _ tail]) auto
qed

lemma round_wf_update:
  assumes "round_wf L (cert_round cert) x"
  shows "round_wf L (cert_round cert) (AList.update (cert_origin cert) (cert_digest L cert, cert) x)"
proof -
  have "e \<in> insert (cert_origin cert, cert_digest L cert, cert) (set x)"
    if "e \<in> set (AList.update (cert_origin cert) (cert_digest L cert, cert) x)" for e
    using that set_update_subset [of "cert_origin cert" "(cert_digest L cert, cert)" x] by blast
  with assms show ?thesis by (fastforce simp: round_wf_def distinct_update)
qed

lemma dag_wf_update:
  assumes "dag_wf L d" "round_wf L r x"
  shows "dag_wf L (AList.update r x d)"
proof -
  have "e \<in> insert (r, x) (set d)" if "e \<in> set (AList.update r x d)" for e
    using that set_update_subset [of r x d] by blast
  with assms show ?thesis by (fastforce simp: dag_wf_def distinct_update)
qed

lemma insert_certificate_ok:
  assumes wf: "dag_wf L d"
  shows "dag_wf L (insert_certificate L cert d)"
    "dag_entries (insert_certificate L cert d) \<subseteq> insert cert (dag_entries d)"
proof -
  let ?x = "case map_of d (cert_round cert) of None \<Rightarrow> [] | Some x \<Rightarrow> x"
  let ?y = "AList.update (cert_origin cert) (cert_digest L cert, cert) ?x"
  have x: "round_wf L (cert_round cert) ?x"
    using wf by (auto simp: dag_wf_def round_wf_def split: option.split dest!: map_of_SomeD)
  have xd: "set (case map_of d (cert_round cert) of None \<Rightarrow> [] | Some x \<Rightarrow> x) \<subseteq> {e. snd (snd e) \<in> dag_entries d}"
  proof (cases "map_of d (cert_round cert)")
    case (Some x)
    have "z \<in> dag_entries d" if "(n, dg, z) \<in> set x" for n dg z
      unfolding dag_entries_iff using that map_of_SomeD [OF Some] by blast
    with Some show ?thesis by auto
  qed simp
  have y: "set ?y \<subseteq> insert (cert_origin cert, cert_digest L cert, cert) (set ?x)" by (rule set_update_subset)
  show "dag_wf L (insert_certificate L cert d)"
    unfolding insert_certificate_def by (rule dag_wf_update [OF wf round_wf_update [OF x]])
  show "dag_entries (insert_certificate L cert d) \<subseteq> insert cert (dag_entries d)"
  proof
    fix z assume "z \<in> dag_entries (insert_certificate L cert d)"
    then obtain r w n dg where w: "(r, w) \<in> set (AList.update (cert_round cert) ?y d)" "(n, dg, z) \<in> set w"
      by (auto simp: dag_entries_iff insert_certificate_def)
    then consider "w = ?y" | "(r, w) \<in> set d" using set_update_subset [of "cert_round cert" ?y d] by blast
    then show "z \<in> insert cert (dag_entries d)"
    proof cases
      case 1
      then have "(n, dg, z) \<in> insert (cert_origin cert, cert_digest L cert, cert) (set ?x)" using w(2) y by blast
      then show ?thesis using xd by auto
    next
      case 2
      then show ?thesis using w(2) by (auto simp: dag_entries_iff)
    qed
  qed
qed

lemma even_round:
  assumes "(r :: u64) mod 2 = 0" "\<not> r < 4"
  shows "r - 2 < r - 2 + 2" "2 \<le> r - 2"
proof -
  have "r \<noteq> - 1" "r \<noteq> 0" "r \<noteq> 1" using assms by auto
  with assms(2) show "r - 2 < r - 2 + 2" "2 \<le> r - 2" by uint_arith+
qed

lemma process_certificate_inv:
  assumes inv: "run_inv L G D s" and D: "known L (insert cert D)" and new: "cert \<notin> D"
    and step: "process_certificate L c gc_depth cert s = Inr s'"
  shows "run_inv L G (insert cert D) s' \<and> output_up s' = output_up s"
proof -
  let ?s = "s\<lparr>cstate := (cstate s)\<lparr>dag := insert_certificate L cert (dag (cstate s))\<rparr>\<rparr>"
  have ci: "commit_inv L D (set (to_primary s) \<union> G) (cstate s)" using inv by (simp add: run_inv_def)
  have wf: "dag_wf L (dag (cstate s))" using ci by (simp add: commit_inv_def)
  have "cert \<notin> set (to_primary s) \<union> G" using ci new by (auto simp: commit_inv_def)
  then have "commit_inv L (insert cert D) (set (to_primary s) \<union> G) (cstate ?s)"
    using ci insert_certificate_ok [OF wf, of cert] unfolding commit_inv_def by auto
  then have inv1: "run_inv L G (insert cert D) ?s" using inv by (simp add: run_inv_def)
  let ?r = "cert_round cert - 1"
  have rnd: "cert_round cert \<noteq> 0" using step by (auto simp: process_certificate_def Let_def)
  show ?thesis
  proof (cases "s' = ?s")
    case True
    with inv1 show ?thesis by simp
  next
    case False
    then obtain dg ldr ls where ldr: "\<not> (?r mod 2 \<noteq> 0 \<or> ?r < 4)" "\<not> ?r - 2 \<le> last_committed_round (cstate ?s)"
      "leader c (?r - 2) (dag (cstate ?s)) = Inr (Some (dg, ldr))"
      "order_leaders c ldr (cstate ?s) = Inr ls" "foldR (commit_leader L gc_depth) (rev ls) ?s = Inr s'"
      using step rnd by (auto simp: process_certificate_def Let_def bindR_Inr_iff split: if_splits option.splits prod.splits)
    have wf1: "dag_wf L (dag (cstate ?s))" and ent: "dag_entries (dag (cstate ?s)) \<subseteq> insert cert D"
      using inv1 by (auto simp: run_inv_def commit_inv_def)
    note l = leader_Some [OF ldr(3) wf1]
    have r: "last_committed_round (cstate ?s) < cert_round ldr" "cert_round ldr < cert_round ldr + 2" "2 \<le> cert_round ldr"
      using ldr(1,2) even_round [of ?r] l(2) by (auto simp: not_le)
    obtain tail where ls: "ls = ldr # tail" "sorted_wrt (\<lambda>x y. cert_round y < cert_round x) ls"
      "set tail \<subseteq> dag_entries (dag (cstate ?s))" "\<forall>x \<in> set ls. last_committed_round (cstate ?s) < cert_round x"
      using order_leaders_ok [OF ldr(4) wf1 r] by blast
    have "sorted_wrt (\<lambda>x y. cert_round x < cert_round y) (rev ls)" using ls(2) by (simp add: sorted_wrt_rev)
    moreover have "set (rev ls) \<subseteq> insert cert D" using ls(1,3) l(1) ent by auto
    ultimately show ?thesis
      using commit_leaders_inv [OF D inv1 _ _ _ ldr(5)] ls(4) by auto
  qed
qed

text \<open>What the consensus relies on: no certificate is delivered twice, nor again from the genesis, and
  the hash tells the certificates apart. (Round 0 is refused by a panic.)\<close>

definition delivery_ok :: "crypto_lib \<Rightarrow> committee \<Rightarrow> certificate list \<Rightarrow> bool" where
  "delivery_ok L c certs \<longleftrightarrow> distinct certs \<and> set certs \<inter> set (genesis c) = {}
     \<and> inj_on (cert_digest L) (set certs \<union> set (genesis c)) \<and> (\<forall>x \<in> set certs. cert_round x \<noteq> 0)"

lemma genesis_entries:
  assumes "x \<in> set (genesis c)"
  shows "cert_round x = 0" "h_parents (c_header x) = []"
  using assms by (auto simp: genesis_def cert_round_def header_default_def)

lemma run_consensus_gen:
  "run_inv L G D s \<Longrightarrow> distinct certs \<Longrightarrow> set certs \<inter> D = {} \<Longrightarrow> known L (set certs \<union> D) \<Longrightarrow>
    run_consensus L c gc_depth certs s = Inr s' \<Longrightarrow> run_inv L G (set certs \<union> D) s' \<and> output_up s' = output_up s"
proof (induction certs arbitrary: s D)
  case Nil
  then show ?case by (simp add: run_consensus_def)
next
  case (Cons x certs)
  obtain s1 where s1: "process_certificate L c gc_depth x s = Inr s1" "run_consensus L c gc_depth certs s1 = Inr s'"
    using Cons.prems(5) by (auto simp: run_consensus_def bindR_Inr_iff)
  have "known L (insert x D)"
    using Cons.prems(4) by (auto simp: known_def grounded_def intro: inj_on_subset)
  from process_certificate_inv [OF Cons.prems(1) this _ s1(1)] Cons.prems(3)
  have step: "run_inv L G (insert x D) s1" "output_up s1 = output_up s" by auto
  have "run_inv L G (set certs \<union> insert x D) s' \<and> output_up s' = output_up s1"
    by (rule Cons.IH [OF step(1) _ _ _ s1(2)]) (use Cons.prems in auto)
  with step(2) show ?case by simp
qed

lemma fold_update_entries:
  "distinct (map fst m) \<Longrightarrow> distinct (map fst (fold (\<lambda>x. AList.update (f x) (g x)) xs m))"
  "set (fold (\<lambda>x. AList.update (f x) (g x)) xs m) \<subseteq> set m \<union> (\<lambda>x. (f x, g x)) ` set xs"
  "f ` set xs \<subseteq> fst ` set (fold (\<lambda>x. AList.update (f x) (g x)) xs m)"
proof -
  show "distinct (map fst m) \<Longrightarrow> distinct (map fst (fold (\<lambda>x. AList.update (f x) (g x)) xs m))"
    by (induction xs arbitrary: m) (auto simp: distinct_update)
  show "set (fold (\<lambda>x. AList.update (f x) (g x)) xs m) \<subseteq> set m \<union> (\<lambda>x. (f x, g x)) ` set xs"
  proof (induction xs arbitrary: m)
    case (Cons x xs)
    show ?case using Cons.IH [of "AList.update (f x) (g x) m"] set_update_subset [of "f x" "g x" m] by auto
  qed simp
  have keep: "fst ` set m \<subseteq> fst ` set (fold (\<lambda>x. AList.update (f x) (g x)) xs m)" for xs m
  proof (induction xs arbitrary: m)
    case (Cons x xs)
    have "fst ` set m \<subseteq> fst ` set (AList.update (f x) (g x) m)" by (auto simp: dom_update)
    with Cons.IH [of "AList.update (f x) (g x) m"] show ?case by auto
  qed simp
  show "f ` set xs \<subseteq> fst ` set (fold (\<lambda>x. AList.update (f x) (g x)) xs m)"
  proof (induction xs arbitrary: m)
    case (Cons x xs)
    have "f x \<in> fst ` set (AList.update (f x) (g x) m)" by (simp add: dom_update)
    with Cons.IH [of "AList.update (f x) (g x) m"] keep [of "AList.update (f x) (g x) m" xs] show ?case by auto
  qed simp
qed

lemma consensus_new_inv:
  "run_inv L (set (genesis c)) (set (genesis c)) (consensus_new L c up out)"
proof -
  define gen where "gen = fold (\<lambda>x. AList.update (cert_origin x) (cert_digest L x, x)) (genesis c) []"
  have st: "con_state_new L (genesis c) = \<lparr>last_committed_round = 0,
      last_committed = map (\<lambda>(x, _, y). (x, cert_round y)) gen, dag = [(0, gen)]\<rparr>"
    by (simp only: con_state_new_def gen_def Let_def)
  note f = fold_update_entries [where m = "[]" and f = cert_origin and g = "\<lambda>x. (cert_digest L x, x)"
      and xs = "genesis c", folded gen_def]
  have ent: "n = cert_origin y \<and> dg = cert_digest L y \<and> y \<in> set (genesis c) \<and> cert_round y = 0"
    if "(n, dg, y) \<in> set gen" for n dg y
    using that f(2) genesis_entries(1) [of y c] by auto
  have wf: "dag_wf L [(0, gen)]" using f(1) ent by (auto simp: dag_wf_def round_wf_def)
  have "dag_entries [(0, gen)] \<subseteq> set (genesis c)" using ent by (auto simp: dag_entries_def)
  moreover have zero: "r = 0" if "(n, r) \<in> set (map (\<lambda>(x, _, y). (x, cert_round y)) gen)" for n r
    using that ent by force
  have key: "map_of (map (\<lambda>(x, _, y). (x, cert_round y)) gen) (cert_origin x) = Some 0" if "x \<in> set (genesis c)" for x
  proof -
    have "cert_origin x \<in> fst ` set gen" using that f(3) by auto
    then have "cert_origin x \<in> set (map fst (map (\<lambda>(x, _, y). (x, cert_round y)) gen))" by (force simp: image_iff)
    from iffD2 [OF map_of_Some_iff this] obtain r
      where r: "map_of (map (\<lambda>(x, _, y). (x, cert_round y)) gen) (cert_origin x) = Some r" ..
    with zero [OF map_of_SomeD [OF r]] show ?thesis by simp
  qed
  moreover have "\<exists>r. map_of (map (\<lambda>(x, _, y). (x, cert_round y)) gen) (cert_origin x) = Some r \<and> cert_round x \<le> r"
    if "x \<in> set (genesis c)" for x
    using key [OF that] genesis_entries(1) [OF that] by simp
  moreover have "map_of (map (\<lambda>(x, _, y). (x, cert_round y)) gen) (cert_origin x) = Some (cert_round x)"
    if "x \<in> set (genesis c)" for x
    using key [OF that] genesis_entries(1) [OF that] by simp
  ultimately have "commit_inv L (set (genesis c)) (set (genesis c)) (con_state_new L (genesis c))"
    using wf zero unfolding commit_inv_def st con_state.select_convs by blast
  then show ?thesis by (simp add: run_inv_def consensus_new_def)
qed

lemma run_consensus_inv:
  assumes "delivery_ok L c certs" "run_consensus L c gc_depth certs (consensus_new L c up out) = Inr s"
  shows "run_inv L (set (genesis c)) (set certs \<union> set (genesis c)) s" "output_up s = out"
proof -
  have "known L (set certs \<union> set (genesis c))"
    using assms(1) genesis_entries by (auto simp: delivery_ok_def known_def grounded_def)
  from run_consensus_gen [OF consensus_new_inv _ _ this assms(2)] assms(1)
  show "run_inv L (set (genesis c)) (set certs \<union> set (genesis c)) s" "output_up s = out"
    by (auto simp: delivery_ok_def consensus_new_def)
qed

section \<open>The commit rule is safe\<close>

text \<open>A certificate whose parents in the DAG hold a quorum of the stake.\<close>

definition quorum_parents :: "committee \<Rightarrow> dag \<Rightarrow> certificate \<Rightarrow> bool" where
  "quorum_parents c d y \<longleftrightarrow> (\<exists>x Q. map_of d (cert_round y - 1) = Some x \<and> finite Q
     \<and> unat (quorum_threshold c) \<le> sum (stake_nat c) Q
     \<and> (\<forall>n \<in> Q. \<exists>dg z. (n, dg, z) \<in> set x \<and> dg \<in> set (h_parents (c_header y))))"

definition supporters :: "digest \<Rightarrow> dag_round \<Rightarrow> public_key set" where
  "supporters dg x = fst ` {e \<in> set x. dg \<in> set (h_parents (c_header (snd (snd e))))}"

lemma support_unat:
  assumes c: "sane_stake c" and x: "round_wf L r x"
  shows "unat (support c dg x) = sum (stake_nat c) (supporters dg x)"
proof -
  let ?P = "\<lambda>e. dg \<in> set (h_parents (c_header (snd (snd e))))"
  let ?ns = "map fst (filter ?P x)"
  have "support c dg x = sum_list (map (\<lambda>e. stake_of c (cert_origin (snd (snd e)))) (filter ?P x))"
    by (simp add: support_def filter_map comp_def split_def)
  also have "map (\<lambda>e. stake_of c (cert_origin (snd (snd e)))) (filter ?P x) = map (stake_of c) ?ns"
    using x by (auto simp: round_wf_def)
  finally have "support c dg x = sum_list (map (stake_of c) ?ns)" .
  moreover have "distinct ?ns" using x by (simp add: round_wf_def distinct_map_filter)
  ultimately show ?thesis using sum_list_stake_unat [OF c, of ?ns] by (simp add: supporters_def)
qed

lemma linked_step_ok:
  assumes "map_of d r = Some x"
  shows "\<exists>ps'. linked_step d r ps = Inr ps'
    \<and> set ps' = {z. \<exists>n dg y. (n, dg, z) \<in> set x \<and> y \<in> set ps \<and> dg \<in> set (h_parents (c_header y))}"
  using assms by (force simp: linked_step_def list_ex_iff)

lemma rev_rounds_between:
  assumes "unat a \<le> m" "m < unat b"
  shows "rev (map of_nat [m..<unat b]) = rev (map of_nat [Suc m..<unat b]) @ [of_nat m :: round]"
  using assms by (simp add: upt_conv_Cons)

lemma of_nat_pred:
  fixes y :: round
  assumes "unat y = Suc m"
  shows "of_nat m = y - 1"
proof -
  have "y = of_nat (unat y)" by simp
  then have "y = of_nat (Suc m)" unfolding assms .
  then show ?thesis by simp
qed

text \<open>Going down from a certificate along quorums of parents, the walk never gets stuck.\<close>

lemma linked_down:
  assumes wf: "dag_wf L d" and c: "sane_stake c"
    and q: "quorum_parents c d ldr"
      "\<And>y. y \<in> dag_entries d \<Longrightarrow> low < unat (cert_round y) \<Longrightarrow> cert_round y < cert_round ldr \<Longrightarrow> quorum_parents c d y"
    and m: "low < m" "m \<le> unat (cert_round ldr)"
  shows "\<exists>ps. foldR (linked_step d) (rev (map of_nat [m..<unat (cert_round ldr)])) [ldr] = Inr ps \<and> ps \<noteq> []
    \<and> (\<forall>y \<in> set ps. unat (cert_round y) = m \<and> quorum_parents c d y)"
  using m(2,1)
proof (induction m rule: inc_induct)
  case base
  with q(1) show ?case by simp
next
  case (step m)
  then obtain ps where ps: "foldR (linked_step d) (rev (map of_nat [Suc m..<unat (cert_round ldr)])) [ldr] = Inr ps"
    "ps \<noteq> []" "\<forall>y \<in> set ps. unat (cert_round y) = Suc m \<and> quorum_parents c d y" by auto
  obtain y where y: "y \<in> set ps" using ps(2) by (cases ps) auto
  then have r: "cert_round y - 1 = of_nat m" using ps(3) of_nat_pred by metis
  obtain x Q where x: "map_of d (of_nat m) = Some x" "finite Q" "unat (quorum_threshold c) \<le> sum (stake_nat c) Q"
    "\<And>n. n \<in> Q \<Longrightarrow> \<exists>dg z. (n, dg, z) \<in> set x \<and> dg \<in> set (h_parents (c_header y))"
    using ps(3) y unfolding quorum_parents_def r [symmetric] by metis
  obtain ps' where ps': "linked_step d (of_nat m) ps = Inr ps'"
    "set ps' = {z. \<exists>n dg y. (n, dg, z) \<in> set x \<and> y \<in> set ps \<and> dg \<in> set (h_parents (c_header y))}"
    using linked_step_ok [OF x(1)] by blast
  have "Q \<noteq> {}" using x(3) com.quorum_pos [OF c] by auto
  then have "ps' \<noteq> []" using x(4) y ps'(2) by fastforce
  moreover have "unat (cert_round z) = m \<and> quorum_parents c d z" if z: "z \<in> set ps'" for z
  proof -
    obtain n dg where "(n, dg, z) \<in> set x" using z ps'(2) by blast
    from dag_wf_D [OF wf x(1) this] have e: "cert_round z = of_nat m" "z \<in> dag_entries d" by auto
    have "unat (cert_round ldr) < 2 ^ LENGTH(64)" by (rule unsigned_less)
    then have "m < 2 ^ LENGTH(64)" using step.hyps(2) by linarith
    then have "unat (cert_round z) = m" using e(1) by (simp add: unat_of_nat)
    with q(2) [OF e(2)] step.hyps(2) step.prems show ?thesis by (simp add: word_less_nat_alt)
  qed
  ultimately show ?case
    using ps(1) ps'(1) step.hyps(2) by (simp add: upt_conv_Cons foldR_append)
qed

lemma linked_supported:
  assumes wf: "dag_wf L d" and c: "sane_stake c" and inj: "inj_on (cert_digest L) (dag_entries d)"
    and prev: "prev \<in> dag_entries d" "map_of d (cert_round prev) \<noteq> None"
    and sup: "map_of d (cert_round prev + 1) = Some x" "validity_threshold c \<le> support c (cert_digest L prev) x"
    and q: "quorum_parents c d ldr"
      "\<And>y. y \<in> dag_entries d \<Longrightarrow> unat (cert_round prev) + 1 < unat (cert_round y) \<Longrightarrow> cert_round y < cert_round ldr \<Longrightarrow> quorum_parents c d y"
    and far: "unat (cert_round prev) + 2 \<le> unat (cert_round ldr)"
  shows "linked ldr prev d = Inr True"
proof -
  let ?R = "unat (cert_round prev)" and ?T = "unat (cert_round ldr)" and ?dg = "cert_digest L prev"
  have bound: "?T < 2 ^ LENGTH(64)" by (rule unsigned_less)
  obtain ps where ps: "foldR (linked_step d) (rev (map of_nat [?R + 2..<?T])) [ldr] = Inr ps" "ps \<noteq> []"
    "\<forall>y \<in> set ps. unat (cert_round y) = ?R + 2 \<and> quorum_parents c d y"
    using linked_down [OF wf c q(1), of "?R + 1" "?R + 2"] q(2) far by auto
  obtain y where y: "y \<in> set ps" using ps(2) by (cases ps) auto
  have r1: "cert_round y - 1 = cert_round prev + 1"
    using of_nat_pred [of "cert_round y" "?R + 1"] ps(3) y by simp
  obtain Q where Q: "finite Q" "unat (quorum_threshold c) \<le> sum (stake_nat c) Q"
    "\<And>n. n \<in> Q \<Longrightarrow> \<exists>dg z. (n, dg, z) \<in> set x \<and> dg \<in> set (h_parents (c_header y))"
    using ps(3) y sup(1) unfolding quorum_parents_def r1 [symmetric] by fastforce
  have xw: "round_wf L (cert_round prev + 1) x" using wf map_of_SomeD [OF sup(1)] by (auto simp: dag_wf_def)
  have "unat (validity_threshold c) \<le> sum (stake_nat c) (supporters ?dg x)"
    using sup(2) support_unat [OF c xw] by (simp add: word_le_nat_alt)
  then obtain n where n: "n \<in> Q" "n \<in> supporters ?dg x"
    using com.quorum_meets_validity [OF c Q(1) _ Q(2), of "supporters ?dg x"] by (auto simp: supporters_def)
  obtain dg z where z: "(n, dg, z) \<in> set x" "dg \<in> set (h_parents (c_header y))" using Q(3) [OF n(1)] by blast
  have "?dg \<in> set (h_parents (c_header z))"
  proof -
    obtain dg' z' where z': "(n, dg', z') \<in> set x" "?dg \<in> set (h_parents (c_header z'))"
      using n(2) by (auto simp: supporters_def)
    then have "(dg', z') = (dg, z)" using z(1) xw by (auto simp: round_wf_def dest: eq_key_imp_eq_value)
    with z'(2) show ?thesis by simp
  qed
  moreover obtain ps1 where ps1: "linked_step d (cert_round prev + 1) ps = Inr ps1" "z \<in> set ps1"
    using linked_step_ok [OF sup(1), of ps] z y by blast
  moreover obtain x0 where x0: "map_of d (cert_round prev) = Some x0" using prev(2) by auto
  moreover have pe: "(cert_origin prev, ?dg, prev) \<in> set x0"
  proof -
    obtain r w k dg where w: "(r, w) \<in> set d" "(k, dg, prev) \<in> set w" using prev(1) by (auto simp: dag_entries_iff)
    then have e: "r = cert_round prev" "k = cert_origin prev" "dg = ?dg" using wf by (fastforce simp: dag_wf_def round_wf_def)+
    then have "map_of d (cert_round prev) = Some w" using w(1) wf by (simp add: dag_wf_def)
    with x0 w(2) e show ?thesis by simp
  qed
  ultimately obtain ps0 where ps0: "linked_step d (cert_round prev) ps1 = Inr ps0" "prev \<in> set ps0"
    using linked_step_ok [OF x0, of ps1] by blast
  have "[?R..<?T] = [?R, ?R + 1] @ [?R + 2..<?T]" using far by (simp add: upt_conv_Cons)
  then have "rev (rounds_between (cert_round prev) (cert_round ldr))
      = rev (map of_nat [?R + 2..<?T]) @ [cert_round prev + 1, cert_round prev]"
    by (simp add: rounds_between_def add.commute)
  then have "foldR (linked_step d) (rev (rounds_between (cert_round prev) (cert_round ldr))) [ldr] = Inr ps0"
    using ps(1) ps1(1) ps0(1) by (simp add: foldR_append)
  then show ?thesis using ps0(2) by (auto simp: linked_def list_ex_iff cert_eq_def)
qed

end
