(* ===== verification/ConsensusSafety.thy ===== *)
theory ConsensusSafety
  imports Consensus
begin

text \<open>
  What the Tusk commit rule guarantees. Under \<open>delivery_ok\<close> (no certificate is delivered twice) nothing is
  committed twice. Under \<open>causal\<close> delivery (parents first, no equivocation) no lookup of the history
  panics, and a leader with \<open>f+1\<close> of support is committed with every later leader. The theorems
  end with runs of a committee of one, on which their hypotheses hold.
\<close>

section \<open>A sample run\<close>

text \<open>The sample: a committee of one, whose chain of certificates is committed from round 5 on.\<close>

definition solo_committee :: committee where
  "solo_committee = \<lparr>authorities = [(PublicKey 1, \<lparr>auth_stake = 1,
     auth_primary = \<lparr>primary_to_primary = SocketAddr 0 0, worker_to_primary = SocketAddr 0 1\<rparr>,
     auth_workers = []\<rparr>)]\<rparr>"

definition solo_cert :: "round \<Rightarrow> certificate" where
  "solo_cert r = \<lparr>c_header = \<lparr>h_author = PublicKey 1, h_round = r, h_payload = [],
     h_parents = [Digest (ucast (r - 1))], h_id = Digest (ucast r), h_sig = signature_default\<rparr>, c_votes = []\<rparr>"

lemma solo_cert_simps [simp]:
  "cert_round (solo_cert r) = r" "cert_origin (solo_cert r) = PublicKey 1"
  "cert_digest sample_lib (solo_cert r) = Digest (ucast r)"
  "h_parents (c_header (solo_cert r)) = [Digest (ucast (r - 1))]"
  "h_id (c_header (solo_cert r)) = Digest (ucast r)"
  by (simp_all add: solo_cert_def cert_round_def cert_origin_def sample_lib_cert_digest)

lemma solo_simps [simp]:
  "leader_name solo_committee r = Inr (PublicKey 1)"
  "genesis solo_committee = [\<lparr>c_header = header_default\<lparr>h_author := PublicKey 1\<rparr>, c_votes = []\<rparr>]"
  "stake_of solo_committee (PublicKey 1) = 1"
  "validity_threshold solo_committee = 1" "quorum_threshold solo_committee = 1"
  by (simp_all add: leader_name_def size_of_def solo_committee_def genesis_def stake_of_def validity_threshold_def
      quorum_threshold_def total_votes_def)

lemma solo_cert_inj [simp]: "solo_cert a = solo_cert b \<longleftrightarrow> a = b"
  by (metis solo_cert_simps(1))

lemma solo_delivery: "delivery_ok sample_lib solo_committee (map solo_cert [1, 2, 3, 4, 5])"
  by (auto simp: delivery_ok_def inj_on_def sample_lib_cert_digest header_default_def digest_default_def
      dest: arg_cong [where f = "\<lambda>c. h_id (c_header c)"])

lemma solo_sane: "sane_stake solo_committee"
  by (simp add: sane_stake_def wf_committee_def total_stake_def solo_committee_def)

definition solo_new :: consensus where
  "solo_new = consensus_new sample_lib solo_committee True True"

lemmas solo_eval = run_consensus_def process_certificate_def consensus_new_def con_state_new_def
  sample_lib_cert_digest insert_certificate_def Let_def leader_def support_def order_leaders_def u64_range_def
  header_default_def digest_default_def commit_leader_def order_dag_def visit_parent_def dag_find_def
  con_update_def retain_dag_def ord_cmp_def solo_new_def
  cert_origin_def [of "\<lparr>c_header = _, c_votes = _\<rparr>"] cert_round_def [of "\<lparr>c_header = _, c_votes = _\<rparr>"]

lemma solo_run:
  "\<exists>s. run_consensus sample_lib solo_committee 50 (map solo_cert [1, 2, 3, 4, 5]) solo_new = Inr s
     \<and> to_primary s = [solo_cert 1, solo_cert 2]"
  by (simp add: solo_eval)

text \<open>After round 4 nothing is committed yet.\<close>

lemma solo_run4:
  "\<exists>s. run_consensus sample_lib solo_committee 50 (map solo_cert [1, 2, 3, 4]) solo_new = Inr s
     \<and> last_committed_round (cstate s) = 0 \<and> map_of (dag (cstate s)) 2 = Some [(PublicKey 1, Digest 2, solo_cert 2)]
     \<and> map_of (dag (cstate s)) 3 = Some [(PublicKey 1, Digest 3, solo_cert 3)]"
  by (simp add: solo_eval)

section \<open>Nothing is committed twice\<close>

text \<open>C10. If no certificate is delivered twice, then whatever is committed was delivered and is committed
  once: the certificates that went to the primary have distinct digests and are among the delivered
  ones, so the genesis is never committed. \<open>delivery_ok\<close> assumes that the deliveries are distinct certificates, none of them
  of the genesis or of round 0, with different digests. The code does not check this; without it a certificate can be
  committed twice (\<open>replay_commits_twice\<close>).\<close>

theorem consensus_commits_once:
  assumes "delivery_ok L c certs" "run_consensus L c gc_depth certs (consensus_new L c up out) = Inr s"
  shows "distinct (map (cert_digest L) (to_primary s)) \<and> set (to_primary s) \<subseteq> set certs"
  using run_consensus_inv [OF assms] by (auto simp: run_inv_def commit_inv_def)

lemma consensus_commits_once_witness:
  "\<exists>s. run_consensus sample_lib solo_committee 50 (map solo_cert [1, 2, 3, 4, 5]) solo_new = Inr s
     \<and> to_primary s = [solo_cert 1, solo_cert 2]
     \<and> distinct (map (cert_digest sample_lib) (to_primary s)) \<and> set (to_primary s) \<subseteq> set (map solo_cert [1, 2, 3, 4, 5])"
  using solo_run consensus_commits_once [OF solo_delivery, of 50 True True] unfolding solo_new_def by blast

text \<open>The batches for the executor are exactly what went to the primary, cut into non-empty parts
  that are numbered from 1 without a gap, each sorted by round.\<close>

theorem consensus_numbers_batches:
  assumes "delivery_ok L c certs" "run_consensus L c gc_depth certs (consensus_new L c up True) = Inr s"
  shows "concat (map certificates (to_output s)) = to_primary s
    \<and> map batch_index (to_output s) = map of_nat [1..<Suc (length (to_output s))]
    \<and> (\<forall>b \<in> set (to_output s). certificates b \<noteq> [] \<and> sorted_wrt (\<lambda>x y. cert_round x \<le> cert_round y) (certificates b))"
  using run_consensus_inv [OF assms] by (simp add: run_inv_def)

lemma consensus_numbers_batches_witness:
  "\<exists>s. run_consensus sample_lib solo_committee 50 (map solo_cert [1, 2, 3, 4, 5]) solo_new = Inr s
     \<and> to_primary s = [solo_cert 1, solo_cert 2] \<and> concat (map certificates (to_output s)) = [solo_cert 1, solo_cert 2]
     \<and> map batch_index (to_output s) = map of_nat [1..<Suc (length (to_output s))]"
proof -
  obtain s where s: "run_consensus sample_lib solo_committee 50 (map solo_cert [1, 2, 3, 4, 5]) solo_new = Inr s"
    "to_primary s = [solo_cert 1, solo_cert 2]"
    using solo_run by blast
  from consensus_numbers_batches [OF solo_delivery s(1) [unfolded solo_new_def]] s show ?thesis by metis
qed

text \<open>C11. The sub-DAG of a leader is its uncommitted history: in any state the consensus reaches,
  \<open>order_dag\<close> returns each certificate that the leader reaches through parents not yet committed, once,
  less those a \<open>gc_depth\<close> below the last committed round, by increasing round.\<close>

theorem order_dag_history:
  assumes "delivery_ok L c certs" "run_consensus L c gc_depth certs (consensus_new L c up out) = Inr s"
    and "ldr \<in> set certs"
  shows "set (order_dag gc_depth ldr (cstate s))
      = {x. (ldr, x) \<in> (hist (cstate s))\<^sup>* \<and> last_committed_round (cstate s) \<le> cert_round x + gc_depth}
    \<and> distinct (order_dag gc_depth ldr (cstate s))
    \<and> sorted_wrt (\<lambda>x y. cert_round x \<le> cert_round y) (order_dag gc_depth ldr (cstate s))"
proof -
  let ?D = "set certs \<union> set (genesis c)"
  have "known L ?D" using assms(1) genesis_entries by (auto simp: delivery_ok_def known_def grounded_def)
  moreover have "commit_inv L ?D (set (to_primary s) \<union> set (genesis c)) (cstate s)"
    using run_consensus_inv(1) [OF assms(1,2)] by (simp add: run_inv_def)
  moreover have "ldr \<in> ?D" using assms(3) by simp
  ultimately have "set (order_dag gc_depth ldr (cstate s)) = {x \<in> (hist (cstate s))\<^sup>* `` {ldr}. still_young gc_depth (cstate s) x}"
    "distinct (map (cert_digest L) (order_dag gc_depth ldr (cstate s)))"
    using order_dag_known by blast+
  then show ?thesis using order_dag_sorted [of gc_depth ldr "cstate s"] by (auto simp: still_young_def distinct_map)
qed

lemma order_dag_history_witness:
  "\<exists>s. run_consensus sample_lib solo_committee 50 (map solo_cert [1, 2, 3, 4, 5]) solo_new = Inr s
     \<and> distinct (order_dag 50 (solo_cert 5) (cstate s))"
  using solo_run order_dag_history [OF solo_delivery, of 50 True True] unfolding solo_new_def by auto

lemma process_certificate_eq:
  assumes "cert_round x \<noteq> 0" and s1: "s1 = s\<lparr>cstate := (cstate s)\<lparr>dag := insert_certificate L x (dag (cstate s))\<rparr>\<rparr>"
  shows "process_certificate L c gc_depth x s =
      (if (cert_round x - 1) mod 2 \<noteq> 0 \<or> cert_round x - 1 < 4 \<or> cert_round x - 1 - 2 \<le> last_committed_round (cstate s1)
       then Inr s1
       else bindR (leader c (cert_round x - 1 - 2) (dag (cstate s1))) (\<lambda>l. case l of
               None \<Rightarrow> Inr s1
             | Some (ldr_digest, ldr) \<Rightarrow>
                 bindR (expect whole_history (map_of (dag (cstate s1)) (cert_round x - 1 - 1))) (\<lambda>y.
                 if support c ldr_digest y < validity_threshold c then Inr s1
                 else bindR (order_leaders c ldr (cstate s1)) (\<lambda>leaders.
                      foldR (commit_leader L gc_depth) (rev leaders) s1))))"
  unfolding process_certificate_def Let_def s1 [symmetric]
  by (cases "(cert_round x - 1) mod 2 \<noteq> 0 \<or> cert_round x - 1 < 4"; cases "cert_round x - 1 - 2 \<le> last_committed_round (cstate s1)";
      simp only: assms(1) simp_thms if_True if_False)

text \<open>Nothing is committed without support: when a certificate of round \<open>r\<close> makes the consensus commit,
  \<open>r\<close> is odd, the leader of round \<open>r - 3\<close> is in the DAG and not yet committed, and certificates of
  round \<open>r - 2\<close> that hold the validity threshold name it as a parent.\<close>

theorem commit_needs_support:
  assumes "process_certificate L c gc_depth x s = Inr s'" "to_primary s' \<noteq> to_primary s"
  shows "\<exists>dg ldr y. leader c (cert_round x - 3) (insert_certificate L x (dag (cstate s))) = Inr (Some (dg, ldr))
    \<and> odd (unat (cert_round x)) \<and> 5 \<le> cert_round x \<and> last_committed_round (cstate s) < cert_round x - 3
    \<and> map_of (insert_certificate L x (dag (cstate s))) (cert_round x - 2) = Some y
    \<and> validity_threshold c \<le> support c dg y"
proof -
  let ?s = "s\<lparr>cstate := (cstate s)\<lparr>dag := insert_certificate L x (dag (cstate s))\<rparr>\<rparr>"
  have nz: "cert_round x \<noteq> 0" using assms(1) by (auto simp: process_certificate_def Let_def)
  let ?guard = "(cert_round x - 1) mod 2 \<noteq> 0 \<or> cert_round x - 1 < 4 \<or> cert_round x - 1 - 2 \<le> last_committed_round (cstate ?s)"
  note step = assms(1) [unfolded process_certificate_eq [OF nz refl]]
  have ne: "s' \<noteq> ?s" using assms(2) by auto
  have guard: "\<not> ?guard"
  proof
    assume ?guard
    with step have "(Inr ?s :: consensus res) = Inr s'" by (simp only: if_True)
    with ne show False by blast
  qed
  then have rnd: "(cert_round x - 1) mod 2 = 0" "\<not> cert_round x - 1 < 4"
    "last_committed_round (cstate s) < cert_round x - 3" by auto
  define d where "d = insert_certificate L x (dag (cstate s))"
  define s1 where "s1 = ?s"
  have commit: "bindR (leader c (cert_round x - 3) d) (\<lambda>l. case l of
               None \<Rightarrow> Inr s1
             | Some (ldr_digest, ldr) \<Rightarrow>
                 bindR (expect whole_history (map_of d (cert_round x - 2))) (\<lambda>y.
                 if support c ldr_digest y < validity_threshold c then Inr s1
                 else bindR (order_leaders c ldr (cstate s1)) (\<lambda>leaders.
                      foldR (commit_leader L gc_depth) (rev leaders) s1))) = Inr s'"
    using step unfolding if_not_P [OF guard] d_def s1_def by simp
  have ne1: "s' \<noteq> s1" using ne by (simp only: s1_def not_False_eq_True)
  obtain l where l: "leader c (cert_round x - 3) d = Inr l" using commit by (cases "leader c (cert_round x - 3) d") auto
  obtain dg ldr where l2: "l = Some (dg, ldr)" using commit ne1 l by (cases l) auto
  obtain y where y: "map_of d (cert_round x - 2) = Some y"
    using commit l l2 by (cases "map_of d (cert_round x - 2)") auto
  have "validity_threshold c \<le> support c dg y"
    using commit l l2 y ne1 by (cases "support c dg y < validity_threshold c") auto
  note pc = nz rnd l [unfolded l2 d_def] y [unfolded d_def] this
  have "unat (cert_round x - 1) mod 2 = 0" using arg_cong [OF pc(2), of unat] by (simp add: unat_mod)
  moreover have "unat (cert_round x - 1) = unat (cert_round x) - 1" "0 < unat (cert_round x)"
    using pc(1) by (simp_all add: unat_sub word_le_nat_alt unat_gt_0 Suc_le_eq)
  ultimately have "odd (unat (cert_round x))" by presburger
  moreover have "5 \<le> cert_round x" using pc(1,3) by uint_arith
  ultimately show ?thesis using pc(4-7) by blast
qed

lemma commit_needs_support_witness:
  "\<exists>s dg ldr. run_consensus sample_lib solo_committee 50 (map solo_cert [1, 2, 3, 4]) solo_new = Inr s
     \<and> leader solo_committee 2 (insert_certificate sample_lib (solo_cert 5) (dag (cstate s))) = Inr (Some (dg, ldr))"
proof -
  obtain s s' where s: "run_consensus sample_lib solo_committee 50 (map solo_cert [1, 2, 3, 4]) solo_new = Inr s"
    "process_certificate sample_lib solo_committee 50 (solo_cert 5) s = Inr s'" "to_primary s' \<noteq> to_primary s"
    by (simp add: solo_eval)
  from commit_needs_support [OF s(2,3)] s(1) show ?thesis by auto
qed

section \<open>The consensus never panics\<close>

text \<open>
  The primary delivers a certificate after its parents. \<open>parents_in\<close> says that a quorum of authorities
  has certificates of the previous round in \<open>D\<close> that the header names; \<open>causal\<close> says it of a
  sequence of deliveries, without equivocation and with room for \<open>gc_depth\<close> above every round.
\<close>

definition slot :: "certificate \<Rightarrow> round \<times> public_key" where
  "slot x = (cert_round x, cert_origin x)"

definition parents_in :: "crypto_lib \<Rightarrow> committee \<Rightarrow> certificate set \<Rightarrow> certificate \<Rightarrow> bool" where
  "parents_in L c D x \<longleftrightarrow> (\<exists>Q. finite Q \<and> unat (quorum_threshold c) \<le> sum (stake_nat c) Q
     \<and> (\<forall>n \<in> Q. \<exists>z \<in> D. cert_origin z = n \<and> cert_round z = cert_round x - 1
            \<and> cert_digest L z \<in> set (h_parents (c_header x))))"

fun causal :: "crypto_lib \<Rightarrow> committee \<Rightarrow> round \<Rightarrow> certificate set \<Rightarrow> certificate list \<Rightarrow> bool" where
  "causal L c gc_depth D [] \<longleftrightarrow> True"
| "causal L c gc_depth D (x # xs) \<longleftrightarrow> cert_round x \<noteq> 0 \<and> unat (cert_round x) + unat gc_depth < 2 ^ 64
     \<and> slot x \<notin> slot ` D \<and> parents_in L c D x \<and> causal L c gc_depth (insert x D) xs"

text \<open>Nothing at or above the last committed round has been cleaned up.\<close>

definition hold_inv :: "crypto_lib \<Rightarrow> committee \<Rightarrow> round \<Rightarrow> certificate set \<Rightarrow> con_state \<Rightarrow> bool" where
  "hold_inv L c gc_depth D st \<longleftrightarrow> dag_wf L (dag st) \<and> dag_entries (dag st) \<subseteq> D
     \<and> (\<forall>z \<in> D. last_committed_round st \<le> cert_round z \<longrightarrow> z \<in> dag_entries (dag st))
     \<and> last_committed_round st = fold max (map snd (last_committed st)) 0
     \<and> (\<forall>z \<in> D. unat (cert_round z) + unat gc_depth < 2 ^ 64)
     \<and> (\<forall>y \<in> D. cert_round y \<noteq> 0 \<longrightarrow> parents_in L c D y)"

lemma parents_in_mono: "parents_in L c D x \<Longrightarrow> D \<subseteq> E \<Longrightarrow> parents_in L c E x"
  unfolding parents_in_def by (meson subsetD)

lemma entry_lookup:
  assumes "dag_wf L d" "z \<in> dag_entries d"
  shows "\<exists>x. map_of d (cert_round z) = Some x \<and> (cert_origin z, cert_digest L z, z) \<in> set x
    \<and> map_of x (cert_origin z) = Some (cert_digest L z, z)"
proof -
  obtain r w n dg where w: "(r, w) \<in> set d" "(n, dg, z) \<in> set w" using assms(2) by (auto simp: dag_entries_iff)
  then have "r = cert_round z" "n = cert_origin z" "dg = cert_digest L z" "distinct (map fst w)"
    using assms(1) by (fastforce simp: dag_wf_def round_wf_def)+
  moreover have "map_of d r = Some w" using w(1) assms(1) by (simp add: dag_wf_def)
  ultimately show ?thesis using w(2) by simp
qed

lemma hold_quorum:
  assumes hold: "hold_inv L c gc_depth D st" and c: "sane_stake c"
    and y: "y \<in> D" "last_committed_round st < cert_round y"
  shows "quorum_parents c (dag st) y"
proof -
  have wf: "dag_wf L (dag st)" using hold by (simp add: hold_inv_def)
  have "cert_round y \<noteq> 0" using y(2) by auto
  then have "parents_in L c D y" using hold y(1) by (simp add: hold_inv_def)
  then obtain Q where Q: "finite Q" "unat (quorum_threshold c) \<le> sum (stake_nat c) Q"
    "\<And>n. n \<in> Q \<Longrightarrow> \<exists>z \<in> D. cert_origin z = n \<and> cert_round z = cert_round y - 1
            \<and> cert_digest L z \<in> set (h_parents (c_header y))"
    unfolding parents_in_def by blast
  have le: "last_committed_round st \<le> cert_round y - 1" using y(2) by uint_arith
  have mem: "\<exists>x dg z. map_of (dag st) (cert_round y - 1) = Some x \<and> (n, dg, z) \<in> set x \<and> dg \<in> set (h_parents (c_header y))"
    if n: "n \<in> Q" for n
  proof -
    obtain z where z: "z \<in> D" "cert_origin z = n" "cert_round z = cert_round y - 1" "cert_digest L z \<in> set (h_parents (c_header y))"
      using Q(3) [OF n] by blast
    then have "z \<in> dag_entries (dag st)" using hold le by (simp add: hold_inv_def)
    from entry_lookup [OF wf this] z show ?thesis by auto
  qed
  have "Q \<noteq> {}" using Q(2) com.quorum_pos [OF c] by auto
  with mem obtain x where x: "map_of (dag st) (cert_round y - 1) = Some x" by blast
  have "\<exists>dg z. (n, dg, z) \<in> set x \<and> dg \<in> set (h_parents (c_header y))" if "n \<in> Q" for n
    using mem [OF that] x by auto
  with Q(1,2) x show ?thesis unfolding quorum_parents_def by blast
qed

lemma retain_dag_holds:
  assumes d: "dag_wf L d" and z: "z \<in> dag_entries d" "lcr \<le> cert_round z" "cert_round z \<le> cert_round z + gc_depth"
    and e: "snd e \<le> cert_round z"
  shows "z \<in> dag_entries (retain_dag gc_depth lcr e d)"
proof -
  obtain name rnd where nr: "e = (name, rnd)" by fastforce
  obtain r w n dg where w: "(r, w) \<in> set d" "(n, dg, z) \<in> set w" using z(1) by (auto simp: dag_entries_iff)
  have r: "r = cert_round z" using w d by (fastforce simp: dag_wf_def round_wf_def)
  let ?w = "filter (\<lambda>(n, _). n \<noteq> name \<or> rnd \<le> r) w"
  have m: "(n, dg, z) \<in> set ?w" using w(2) e r nr by simp
  have "lcr \<le> r + gc_depth" using order_trans [OF z(2,3)] r by simp
  moreover have "?w \<noteq> []" using m by (metis empty_iff list.set(1))
  moreover have "(r, ?w) \<in> set (map (\<lambda>(r, authorities). (r, filter (\<lambda>(n, _). n \<noteq> name \<or> rnd \<le> r) authorities)) d)"
    using w(1) by force
  ultimately have "(r, ?w) \<in> set (retain_dag gc_depth lcr e d)" by (simp add: retain_dag_def nr)
  with m show ?thesis unfolding dag_entries_iff by blast
qed

lemma retain_all_holds:
  "dag_wf L d \<Longrightarrow> z \<in> dag_entries d \<Longrightarrow> lcr \<le> cert_round z \<Longrightarrow> cert_round z \<le> cert_round z + gc_depth \<Longrightarrow>
    (\<And>e. e \<in> set lc \<Longrightarrow> snd e \<le> cert_round z) \<Longrightarrow> z \<in> dag_entries (fold (retain_dag gc_depth lcr) lc d)"
proof (induction lc arbitrary: d)
  case (Cons e lc)
  have "dag_wf L (retain_dag gc_depth lcr e d)" using retain_dag_ok(1) [OF Cons.prems(1)] by (cases e) auto
  moreover have "z \<in> dag_entries (retain_dag gc_depth lcr e d)"
    using Cons.prems by (intro retain_dag_holds) auto
  ultimately show ?case using Cons.IH Cons.prems(3-5) by simp
qed simp

lemma snd_update_le:
  fixes m :: "('k \<times> u64) list"
  shows "(\<And>v'. map_of m k = Some v' \<Longrightarrow> v' \<le> v) \<Longrightarrow> r \<in> snd ` set m \<Longrightarrow> \<exists>r' \<in> snd ` set (AList.update k v m). r \<le> r'"
proof (induction m)
  case (Cons e m)
  show ?case
  proof (cases "fst e = k")
    case True
    then have "snd e \<le> v" using Cons.prems(1) [of "snd e"] by (cases e) auto
    with Cons.prems(2) True show ?thesis by (cases e) auto
  next
    case False
    then have "map_of m k = Some v' \<Longrightarrow> v' \<le> v" for v' using Cons.prems(1) by (cases e) auto
    with Cons.IH Cons.prems(2) False show ?thesis by (cases e) auto
  qed
qed simp

lemma con_update_holds:
  assumes "hold_inv L c gc_depth D st"
  shows "hold_inv L c gc_depth D (con_update gc_depth x st)"
proof -
  let ?st = "con_update gc_depth x st"
  let ?new = "case map_of (last_committed st) (cert_origin x) of Some r \<Rightarrow> max r (cert_round x) | None \<Rightarrow> cert_round x"
  have lc: "last_committed ?st = AList.update (cert_origin x) ?new (last_committed st)"
    and lcr: "last_committed_round ?st = fold max (map snd (last_committed ?st)) 0"
    and dag: "dag ?st = fold (retain_dag gc_depth (last_committed_round ?st)) (last_committed ?st) (dag st)"
    by (simp_all add: con_update_def Let_def)
  have wf: "dag_wf L (dag st)" and old: "last_committed_round st = fold max (map snd (last_committed st)) 0"
    using assms by (auto simp: hold_inv_def)
  have mono: "last_committed_round st \<le> last_committed_round ?st"
    unfolding old
  proof (rule fold_max_0(2))
    fix r assume "r \<in> set (map snd (last_committed st))"
    then obtain r' where r': "r' \<in> snd ` set (last_committed ?st)" "r \<le> r'"
      using snd_update_le [of "last_committed st" "cert_origin x" ?new r] unfolding lc by force
    have "r' \<le> last_committed_round ?st" unfolding lcr by (rule fold_max_0(1)) (use r'(1) in simp)
    with r'(2) show "r \<le> last_committed_round ?st" by simp
  qed simp
  have "z \<in> dag_entries (dag ?st)" if z: "z \<in> D" "last_committed_round ?st \<le> cert_round z" for z
    unfolding dag
  proof (rule retain_all_holds [OF wf _ z(2)])
    have "last_committed_round st \<le> cert_round z" using mono z(2) by order
    then show "z \<in> dag_entries (dag st)" using assms z(1) unfolding hold_inv_def by blast
    have "unat (cert_round z) + unat gc_depth < 2 ^ 64" using assms z(1) unfolding hold_inv_def by blast
    then show "cert_round z \<le> cert_round z + gc_depth" by (simp add: word_le_nat_alt unat_word_ariths)
    fix e assume "e \<in> set (last_committed ?st)"
    then have "snd e \<le> last_committed_round ?st" unfolding lcr by (intro fold_max_0(1)) auto
    with z(2) show "snd e \<le> cert_round z" by order
  qed
  moreover have "dag_wf L (dag ?st)" "dag_entries (dag ?st) \<subseteq> dag_entries (dag st)"
    unfolding dag using retain_all_ok [OF wf] by blast+
  ultimately show ?thesis using assms lcr unfolding hold_inv_def by blast
qed

lemma con_updates_hold:
  "hold_inv L c gc_depth D st \<Longrightarrow> hold_inv L c gc_depth D (fold (con_update gc_depth) batch st)"
  by (induction batch arbitrary: st) (auto intro: con_update_holds)

lemma insert_keeps:
  assumes wf: "dag_wf L d" and z: "z \<in> dag_entries d" "slot z \<noteq> slot x"
  shows "z \<in> dag_entries (insert_certificate L x d)"
proof -
  obtain w where w: "map_of d (cert_round z) = Some w" "map_of w (cert_origin z) = Some (cert_digest L z, z)"
    using entry_lookup [OF wf z(1)] by blast
  let ?w = "case map_of d (cert_round x) of None \<Rightarrow> [] | Some x \<Rightarrow> x"
  let ?y = "AList.update (cert_origin x) (cert_digest L x, x) ?w"
  show ?thesis
  proof (cases "cert_round z = cert_round x")
    case True
    then have "map_of ?y (cert_origin z) = Some (cert_digest L z, z)"
      using w z(2) by (simp add: slot_def update_conv)
    moreover have "map_of (insert_certificate L x d) (cert_round x) = Some ?y"
      by (simp add: insert_certificate_def update_conv)
    ultimately show ?thesis unfolding dag_entries_iff by (blast dest: map_of_SomeD)
  next
    case False
    then have "map_of (insert_certificate L x d) (cert_round z) = Some w"
      using w by (simp add: insert_certificate_def update_conv)
    with w(2) show ?thesis unfolding dag_entries_iff by (blast dest: map_of_SomeD)
  qed
qed

lemma insert_there: "x \<in> dag_entries (insert_certificate L x d)"
proof -
  let ?y = "AList.update (cert_origin x) (cert_digest L x, x) (case map_of d (cert_round x) of None \<Rightarrow> [] | Some x \<Rightarrow> x)"
  have "map_of (insert_certificate L x d) (cert_round x) = Some ?y"
    "map_of ?y (cert_origin x) = Some (cert_digest L x, x)"
    by (simp_all add: insert_certificate_def update_conv)
  then show ?thesis unfolding dag_entries_iff by (blast dest: map_of_SomeD)
qed

lemma insert_holds:
  assumes hold: "hold_inv L c gc_depth D st" and x: "slot x \<notin> slot ` D" "parents_in L c D x"
    "unat (cert_round x) + unat gc_depth < 2 ^ 64"
  shows "hold_inv L c gc_depth (insert x D) (st\<lparr>dag := insert_certificate L x (dag st)\<rparr>)"
proof -
  let ?d = "insert_certificate L x (dag st)"
  have wf: "dag_wf L (dag st)" using hold by (simp add: hold_inv_def)
  have "z \<in> dag_entries ?d" if z: "z \<in> insert x D" "last_committed_round st \<le> cert_round z" for z
  proof (cases "z = x")
    case False
    then have "z \<in> D" using z(1) by simp
    then have "slot z \<noteq> slot x" using x(1) by (metis image_eqI)
    moreover have "z \<in> dag_entries (dag st)" using \<open>z \<in> D\<close> hold z(2) unfolding hold_inv_def by blast
    ultimately show ?thesis using insert_keeps [OF wf] by blast
  qed (simp add: insert_there)
  moreover have "parents_in L c (insert x D) y" if "y \<in> insert x D" "cert_round y \<noteq> 0" for y
  proof (cases "y = x")
    case True
    with parents_in_mono [OF x(2)] show ?thesis by blast
  next
    case False
    then have "parents_in L c D y" using that hold by (auto simp: hold_inv_def)
    then show ?thesis by (rule parents_in_mono) blast
  qed
  ultimately show ?thesis
    using hold x(3) insert_certificate_ok [OF wf, of x] unfolding hold_inv_def by auto
qed

text \<open>The lookups that panic when the history is not there all succeed.\<close>

lemma parents_in_size:
  assumes "sane_stake c" "parents_in L c D x"
  shows "size_of c \<noteq> 0"
proof
  assume "size_of c = 0"
  then have "stake_nat c n = 0" for n by (simp add: size_of_def stake_nat_def stake_of_def)
  then have "sum (stake_nat c) Q = 0" for Q by simp
  with assms com.quorum_pos [OF assms(1)] show False by (auto simp: parents_in_def)
qed

lemma leader_total: "size_of c \<noteq> 0 \<Longrightarrow> \<exists>l. leader c r d = Inr l"
  by (simp add: leader_def leader_name_def)

lemma hold_linked:
  assumes hold: "hold_inv L c gc_depth D st" and c: "sane_stake c"
    and ldr: "ldr \<in> D" "cert_round prev < cert_round ldr" and prev: "last_committed_round st < cert_round prev"
  shows "\<exists>b. linked ldr prev (dag st) = Inr b"
proof -
  have wf: "dag_wf L (dag st)" and sub: "dag_entries (dag st) \<subseteq> D" using hold by (auto simp: hold_inv_def)
  have "quorum_parents c (dag st) y" if "y \<in> D" "unat (last_committed_round st) < unat (cert_round y)" for y
    using hold_quorum [OF hold c] that by (simp add: word_less_nat_alt)
  then obtain ps where "foldR (linked_step (dag st)) (rev (rounds_between (cert_round prev) (cert_round ldr))) [ldr] = Inr ps"
    using linked_down [OF wf c, of ldr "unat (last_committed_round st)" "unat (cert_round prev)"] sub ldr prev
    unfolding rounds_between_def by (auto simp: word_less_nat_alt)
  then show ?thesis by (simp add: linked_def)
qed

lemma hold_order_leaders:
  assumes hold: "hold_inv L c gc_depth D st" and c: "sane_stake c" "size_of c \<noteq> 0"
    and ldr: "ldr \<in> D" "last_committed_round st < cert_round ldr" "cert_round ldr < cert_round ldr + 2" "2 \<le> cert_round ldr"
  shows "\<exists>ls. order_leaders c ldr st = Inr ls"
proof -
  have wf: "dag_wf L (dag st)" and sub: "dag_entries (dag st) \<subseteq> D" using hold by (auto simp: hold_inv_def)
  let ?step = "order_leaders_step c (dag st)"
  let ?rs = "step_by2 (rev (u64_range (last_committed_round st + 2) (cert_round ldr - 2)))"
  have tot: "\<exists>s'. foldR ?step rs (ls, y) = Inr s'"
    if "sorted_wrt (>) rs" "\<And>r. r \<in> set rs \<Longrightarrow> r < cert_round y \<and> last_committed_round st < r" "y \<in> D" for rs ls y
    using that
  proof (induction rs arbitrary: ls y)
    case (Cons r rs)
    obtain l where l: "leader c r (dag st) = Inr l" using leader_total [OF c(2)] by blast
    have srt: "sorted_wrt (>) rs" "\<And>r'. r' \<in> set rs \<Longrightarrow> r' < r" using Cons.prems(1) by auto
    have lo: "last_committed_round st < r'" if "r' \<in> set (r # rs)" for r' using Cons.prems(2) that by blast
    show ?case
    proof (cases l)
      case None
      with l have "order_leaders_step c (dag st) r (ls, y) = Inr (ls, y)" by (simp add: order_leaders_step_def)
      with Cons.IH [OF srt(1) _ Cons.prems(3), of ls] Cons.prems(2) show ?thesis by simp
    next
      case (Some p)
      obtain dg prev where p: "l = Some (dg, prev)" using Some by (cases p) auto
      note ps = leader_Some [OF l [unfolded p] wf]
      obtain b where b: "linked y prev (dag st) = Inr b"
        using hold_linked [OF hold c(1) Cons.prems(3), of prev] ps(2) Cons.prems(2) by auto
      have "order_leaders_step c (dag st) r (ls, y) = Inr (if b then (ls @ [prev], prev) else (ls, y))"
        using l p b by (simp add: order_leaders_step_def)
      moreover have "\<exists>s'. foldR ?step rs (ls @ [prev], prev) = Inr s'" "\<exists>s'. foldR ?step rs (ls, y) = Inr s'"
        using Cons.IH [OF srt(1), of prev "ls @ [prev]"] Cons.IH [OF srt(1) _ Cons.prems(3), of ls]
          Cons.prems(2) srt(2) lo ps(1,2) sub by auto
      ultimately show ?thesis by (cases b) auto
    qed
  qed simp
  have "sorted_wrt (>) ?rs" by (rule sorted_step_by2) (simp add: sorted_wrt_rev u64_range_sorted)
  from tot [OF this _ ldr(1), of "[ldr]"] leader_rounds_between [OF ldr(2,3) _ ldr(4)]
  obtain s' where "foldR ?step ?rs ([ldr], ldr) = Inr s'" by blast
  then show ?thesis by (cases s') (simp add: order_leaders_def)
qed

lemma commit_leader_total:
  assumes "primary_up s"
  shows "\<exists>s'. commit_leader L gc_depth ldr s = Inr s' \<and> primary_up s'
    \<and> cstate s' = fold (con_update gc_depth) (order_dag gc_depth ldr (cstate s)) (cstate s)"
  using assms by (auto simp: commit_leader_def Let_def)

lemma commit_leaders_total:
  "primary_up s \<Longrightarrow> hold_inv L c gc_depth D (cstate s) \<Longrightarrow>
    \<exists>s'. foldR (commit_leader L gc_depth) ls s = Inr s' \<and> primary_up s' \<and> hold_inv L c gc_depth D (cstate s')"
proof (induction ls arbitrary: s)
  case (Cons l ls)
  obtain s1 where "commit_leader L gc_depth l s = Inr s1" "primary_up s1"
    "cstate s1 = fold (con_update gc_depth) (order_dag gc_depth l (cstate s)) (cstate s)"
    using commit_leader_total [OF Cons.prems(1)] by blast
  with Cons.IH [of s1] con_updates_hold [OF Cons.prems(2)] show ?case by simp
qed simp

lemma quorum_parents_some:
  assumes "quorum_parents c d y" "sane_stake c" "dag_wf L d"
  shows "\<exists>z \<in> dag_entries d. cert_round z = cert_round y - 1"
proof -
  obtain x Q where x: "map_of d (cert_round y - 1) = Some x" "unat (quorum_threshold c) \<le> sum (stake_nat c) Q"
    "\<forall>n \<in> Q. \<exists>dg z. (n, dg, z) \<in> set x \<and> dg \<in> set (h_parents (c_header y))"
    using assms(1) unfolding quorum_parents_def by blast
  have "Q \<noteq> {}" using x(2) com.quorum_pos [OF assms(2)] by auto
  then obtain n dg z where "(n, dg, z) \<in> set x" using x(3) by blast
  with dag_wf_D [OF assms(3) x(1)] show ?thesis by metis
qed

lemma process_certificate_total:
  assumes up: "primary_up s" and hold: "hold_inv L c gc_depth D (cstate s)" and c: "sane_stake c"
    and x: "cert_round x \<noteq> 0" "slot x \<notin> slot ` D" "parents_in L c D x" "unat (cert_round x) + unat gc_depth < 2 ^ 64"
  shows "\<exists>s'. process_certificate L c gc_depth x s = Inr s' \<and> primary_up s' \<and> hold_inv L c gc_depth (insert x D) (cstate s')"
proof -
  define s1 where "s1 = s\<lparr>cstate := (cstate s)\<lparr>dag := insert_certificate L x (dag (cstate s))\<rparr>\<rparr>"
  let ?D = "insert x D" and ?r = "cert_round x - 1"
  have up1: "primary_up s1" and hold1: "hold_inv L c gc_depth ?D (cstate s1)"
    using up insert_holds [OF hold x(2-4)] by (simp_all add: s1_def)
  have wf: "dag_wf L (dag (cstate s1))" and sub: "dag_entries (dag (cstate s1)) \<subseteq> ?D"
    using hold1 by (auto simp: hold_inv_def)
  have size: "size_of c \<noteq> 0" by (rule parents_in_size [OF c x(3)])
  note pc = process_certificate_eq [OF x(1) s1_def, of c gc_depth]
  show ?thesis
  proof (cases "?r mod 2 \<noteq> 0 \<or> ?r < 4 \<or> ?r - 2 \<le> last_committed_round (cstate s1)")
    case True
    with pc up1 hold1 show ?thesis by simp
  next
    case False
    then have r: "?r mod 2 = 0" "\<not> ?r < 4" "last_committed_round (cstate s1) < ?r - 2" by auto
    have lt: "?r - 2 < ?r - 1" "?r - 1 < ?r" "?r < cert_round x"
      using r(2) x(1) by uint_arith+
    have lc: "last_committed_round (cstate s1) < cert_round x" "last_committed_round (cstate s1) < ?r"
      using r(3) lt by (meson less_trans)+
    obtain z where z: "z \<in> dag_entries (dag (cstate s1))" "cert_round z = ?r"
      using quorum_parents_some [OF hold_quorum [OF hold1 c] c wf, of x] lc by auto
    obtain w where w: "w \<in> dag_entries (dag (cstate s1))" "cert_round w = ?r - 1"
      using quorum_parents_some [OF hold_quorum [OF hold1 c] c wf, of z] lc z sub by auto
    then obtain y where y: "map_of (dag (cstate s1)) (?r - 1) = Some y" using entry_lookup [OF wf] by metis
    obtain l where l: "leader c (?r - 2) (dag (cstate s1)) = Inr l" using leader_total [OF size] by blast
    show ?thesis
    proof (cases l)
      case None
      with pc False l up1 hold1 show ?thesis by simp
    next
      case (Some p)
      obtain dg ldr where p: "l = Some (dg, ldr)" using Some by (cases p) auto
      note ls = leader_Some [OF l [unfolded p] wf]
      obtain leaders where leaders: "order_leaders c ldr (cstate s1) = Inr leaders"
        using hold_order_leaders [OF hold1 c size, of ldr] ls(1,2) sub r(3) even_round [OF r(1,2)] by auto
      obtain s' where "foldR (commit_leader L gc_depth) (rev leaders) s1 = Inr s'" "primary_up s'"
        "hold_inv L c gc_depth ?D (cstate s')"
        using commit_leaders_total [OF up1 hold1] by blast
      with pc False l p y leaders up1 hold1 show ?thesis by auto
    qed
  qed
qed

lemma run_consensus_total:
  "primary_up s \<Longrightarrow> hold_inv L c gc_depth D (cstate s) \<Longrightarrow> sane_stake c \<Longrightarrow> causal L c gc_depth D certs \<Longrightarrow>
    \<exists>s'. run_consensus L c gc_depth certs s = Inr s' \<and> primary_up s' \<and> hold_inv L c gc_depth (set certs \<union> D) (cstate s')"
proof (induction certs arbitrary: s D)
  case (Cons x certs)
  obtain s1 where s1: "process_certificate L c gc_depth x s = Inr s1" "primary_up s1"
    "hold_inv L c gc_depth (insert x D) (cstate s1)"
    using process_certificate_total [OF Cons.prems(1-3), of x] Cons.prems(4) by auto
  from Cons.IH [OF s1(2,3) Cons.prems(3)] Cons.prems(4) s1(1) show ?case by (simp add: run_consensus_def)
qed (simp add: run_consensus_def)

lemma fold_update_all:
  "distinct (map f xs) \<Longrightarrow> f ` set xs \<inter> fst ` set m = {} \<Longrightarrow>
    fold (\<lambda>x. AList.update (f x) (g x)) xs m = m @ map (\<lambda>x. (f x, g x)) xs"
proof (induction xs arbitrary: m)
  case (Cons x xs)
  then have "AList.update (f x) (g x) m = m @ [(f x, g x)]" by (intro update_fresh) auto
  with Cons show ?case by auto
qed simp

lemma consensus_new_holds:
  assumes "wf_committee c"
  shows "hold_inv L c gc_depth (set (genesis c)) (cstate (consensus_new L c up out))"
proof -
  let ?gen = "map (\<lambda>x. (cert_origin x, (cert_digest L x, x))) (genesis c)"
  have "map cert_origin (genesis c) = map fst (authorities c)"
    by (simp add: genesis_def cert_origin_def comp_def)
  then have d: "distinct (map cert_origin (genesis c))" using wf_distinct [OF assms] by simp
  have gen: "fold (\<lambda>x. AList.update (cert_origin x) (cert_digest L x, x)) (genesis c) [] = ?gen"
    using fold_update_all [OF d, of "[]" "\<lambda>x. (cert_digest L x, x)"] by simp
  have st: "cstate (consensus_new L c up out) = \<lparr>last_committed_round = 0,
      last_committed = map (\<lambda>(x, _, y). (x, cert_round y)) ?gen, dag = [(0, ?gen)]\<rparr>"
    by (simp add: consensus_new_def con_state_new_def gen)
  have "dag_wf L [(0, ?gen)]" using d genesis_entries(1) by (auto simp: dag_wf_def round_wf_def comp_def)
  moreover have "dag_entries [(0, ?gen)] = set (genesis c)" by (force simp: dag_entries_iff)
  moreover have "fold max (map snd (map (\<lambda>(x, _, y). (x, cert_round y)) ?gen)) 0 = (0 :: round)"
  proof -
    have "fold max (map snd (map (\<lambda>(x, _, y). (x, cert_round y)) ?gen)) 0 \<le> (0 :: round)"
      by (rule fold_max_0(2)) (auto simp: genesis_entries(1))
    then show ?thesis by simp
  qed
  moreover have "unat gc_depth < 2 ^ 64" using unsigned_less [of gc_depth] by simp
  ultimately show ?thesis using genesis_entries(1) unfolding st hold_inv_def by simp
qed

text \<open>C9. When every certificate is delivered after a quorum of its parents, once per round and author,
  and \<open>gc_depth\<close> fits above every round, no \<open>expect\<close> of the consensus fails: the history it looks up
  is always there, whatever the clean-up removed.\<close>

theorem consensus_never_panics:
  assumes "sane_stake c" "causal L c gc_depth (set (genesis c)) certs"
  shows "\<exists>s. run_consensus L c gc_depth certs (consensus_new L c True out) = Inr s"
proof -
  have "wf_committee c" using assms(1) by (simp add: sane_stake_def)
  from run_consensus_total [OF _ consensus_new_holds [OF this] assms] show ?thesis
    by (auto simp: consensus_new_def)
qed

lemma causal_prefix: "causal L c gc_depth D (xs @ ys) \<Longrightarrow> causal L c gc_depth D xs"
  by (induction xs arbitrary: D) auto

lemma solo_causal5:
  "causal sample_lib solo_committee 50 (set (genesis solo_committee)) (map solo_cert [1, 2, 3, 4, 5])"
proof -
  have "parents_in sample_lib solo_committee D (solo_cert r)"
    if "z \<in> D" "cert_origin z = PublicKey 1" "cert_round z = r - 1" "cert_digest sample_lib z = Digest (ucast (r - 1))" for D z r
    unfolding parents_in_def using that
    by (intro exI [of _ "{PublicKey 1}"]) (auto simp: stake_nat_def)
  note step = this
  let ?g = "\<lparr>c_header = header_default\<lparr>h_author := PublicKey 1\<rparr>, c_votes = []\<rparr>"
  have g: "cert_origin ?g = PublicKey 1" "cert_round ?g = 0" "cert_digest sample_lib ?g = Digest 0"
    by (simp_all add: cert_origin_def cert_round_def sample_lib_cert_digest header_default_def digest_default_def)
  have "parents_in sample_lib solo_committee {?g} (solo_cert 1)" by (rule step [of ?g]) (simp_all add: g)
  moreover have "parents_in sample_lib solo_committee {solo_cert 1, ?g} (solo_cert 2)"
    by (rule step [of "solo_cert 1"]) simp_all
  moreover have "parents_in sample_lib solo_committee {solo_cert 2, solo_cert 1, ?g} (solo_cert 3)"
    by (rule step [of "solo_cert 2"]) simp_all
  moreover have "parents_in sample_lib solo_committee {solo_cert 3, solo_cert 2, solo_cert 1, ?g} (solo_cert 4)"
    by (rule step [of "solo_cert 3"]) simp_all
  moreover have "parents_in sample_lib solo_committee {solo_cert 4, solo_cert 3, solo_cert 2, solo_cert 1, ?g} (solo_cert 5)"
    by (rule step [of "solo_cert 4"]) simp_all
  ultimately show ?thesis by (simp add: slot_def g)
qed

lemma solo_causal:
  "causal sample_lib solo_committee 50 (set (genesis solo_committee)) (map solo_cert [1, 2, 3, 4])"
  using causal_prefix [of _ _ _ _ "map solo_cert [1, 2, 3, 4]" "[solo_cert 5]"] solo_causal5 by simp

lemma consensus_never_panics_witness:
  "\<exists>s. run_consensus sample_lib solo_committee 50 (map solo_cert [1, 2, 3, 4, 5]) solo_new = Inr s"
  using consensus_never_panics [OF solo_sane solo_causal5, of True] by (simp add: solo_new_def)

section \<open>Supported leaders are committed\<close>

lemma set_step_by2_rev: "set (step_by2 (rev [m..<Suc n])) = {k. m \<le> k \<and> k \<le> n \<and> even (n - k)}"
proof (induction n rule: less_induct)
  case (less n)
  consider "n < m" | "n = m" | "m < n" by linarith
  then show ?case
  proof cases
    case 3
    show ?thesis
    proof (cases "n = 1")
      case True
      with 3 show ?thesis by (auto simp: le_Suc_eq)
    next
      case False
      with 3 obtain k where k: "n = Suc (Suc k)" by (metis One_nat_def less_nat_zero_code old.nat.exhaust)
      then have "rev [m..<Suc n] = n # Suc k # rev [m..<Suc k]" using 3 by simp
      then have "set (step_by2 (rev [m..<Suc n])) = insert n {j. m \<le> j \<and> j \<le> k \<and> even (k - j)}"
        using less.IH [of k] k by simp
      also have "\<dots> = {j. m \<le> j \<and> j \<le> n \<and> even (n - j)}"
        using 3 k by (auto simp: Suc_diff_le le_Suc_eq)
      finally show ?thesis .
    qed
  qed (auto simp: le_antisym)
qed

lemma map_step_by2: "step_by2 (map f xs) = map f (step_by2 xs)"
  by (induction xs rule: step_by2.induct) auto

lemma step_by2_gap:
  "sorted_wrt (\<lambda>a b. b < (a :: u64)) xs \<Longrightarrow> sorted_wrt (\<lambda>a b. unat b + 2 \<le> unat a) (step_by2 xs)"
proof (induction xs rule: step_by2.induct)
  case (3 x y xs)
  have "unat z + 2 \<le> unat x" if "z \<in> set (step_by2 xs)" for z
  proof -
    have "z < y" "y < x" using that 3(2) set_step_by2 [of xs] by auto
    then show ?thesis by (simp add: word_less_nat_alt)
  qed
  with 3 show ?case by simp
qed simp_all

lemma leader_rounds_mem:
  fixes a b r :: u64
  assumes "a \<le> r" "r \<le> b" "even (unat b - unat r)"
  shows "r \<in> set (step_by2 (rev (u64_range a b)))"
proof -
  have "unat r \<in> set (step_by2 (rev [unat a..<Suc (unat b)]))"
    using assms by (simp add: set_step_by2_rev word_le_nat_alt del: upt_Suc)
  then have "of_nat (unat r) \<in> set (map (of_nat :: nat \<Rightarrow> u64) (step_by2 (rev [unat a..<Suc (unat b)])))"
    unfolding set_map by (rule imageI)
  then show ?thesis by (simp add: u64_range_def rev_map map_step_by2 del: upt_Suc)
qed

text \<open>A leader with support \<open>f+1\<close> one round up, as the commit rule looks it up.\<close>

definition supported_leader :: "committee \<Rightarrow> dag \<Rightarrow> certificate \<Rightarrow> bool" where
  "supported_leader c d prev \<longleftrightarrow> (\<exists>dg x. leader c (cert_round prev) d = Inr (Some (dg, prev))
     \<and> map_of d (cert_round prev + 1) = Some x \<and> validity_threshold c \<le> support c dg x)"

lemma hold_linked_supported:
  assumes hold: "hold_inv L c gc_depth D st" and c: "sane_stake c" and inj: "inj_on (cert_digest L) D"
    and y: "y \<in> D" "unat (cert_round prev) + 2 \<le> unat (cert_round y)"
    and prev: "supported_leader c (dag st) prev" "last_committed_round st < cert_round prev"
  shows "linked y prev (dag st) = Inr True"
proof -
  have wf: "dag_wf L (dag st)" and sub: "dag_entries (dag st) \<subseteq> D" using hold by (auto simp: hold_inv_def)
  obtain dg x where x: "leader c (cert_round prev) (dag st) = Inr (Some (dg, prev))"
    "map_of (dag st) (cert_round prev + 1) = Some x" "validity_threshold c \<le> support c dg x"
    using prev(1) by (auto simp: supported_leader_def)
  note l = leader_Some [OF x(1) wf]
  have "last_committed_round st < cert_round z"
    if "unat (cert_round prev) \<le> unat (cert_round z)" for z
    using prev(2) that by (simp add: word_less_nat_alt)
  then have q: "quorum_parents c (dag st) z" if "z \<in> D" "unat (cert_round prev) \<le> unat (cert_round z)" for z
    using hold_quorum [OF hold c that(1)] that(2) by blast
  have "inj_on (cert_digest L) (dag_entries (dag st))" using inj sub by (rule inj_on_subset)
  moreover have "map_of (dag st) (cert_round prev) \<noteq> None" using entry_lookup [OF wf l(1)] by auto
  ultimately show ?thesis
    using linked_supported [OF wf c _ l(1) _ x(2) x(3) [unfolded l(3)], of y] q y sub by (auto simp: subset_iff)
qed

lemma order_leaders_step_keeps:
  "foldR (order_leaders_step c d) rs (ks, y) = Inr (ks', y') \<Longrightarrow> set ks \<subseteq> set ks'"
proof (induction rs arbitrary: ks y)
  case (Cons r rs)
  obtain s1 where s1: "order_leaders_step c d r (ks, y) = Inr s1" "foldR (order_leaders_step c d) rs s1 = Inr (ks', y')"
    using Cons.prems by (auto simp: bindR_Inr_iff)
  from s1(1) show ?case
  proof (cases rule: order_leaders_step_cases)
    case 1
    with Cons.IH s1(2) show ?thesis by simp
  next
    case (2 dg prev)
    with Cons.IH [of "ks @ [prev]" prev] s1(2) show ?thesis by simp
  qed
qed simp

lemma order_leaders_step_supported:
  assumes hold: "hold_inv L c gc_depth D st" and c: "sane_stake c" and inj: "inj_on (cert_digest L) D"
    and prev: "supported_leader c (dag st) prev" "last_committed_round st < cert_round prev"
  shows "foldR (order_leaders_step c (dag st)) rs (ks, y) = Inr (ks', y') \<Longrightarrow>
      sorted_wrt (\<lambda>a b. unat b + 2 \<le> unat a) rs \<Longrightarrow>
      (\<And>r. r \<in> set rs \<Longrightarrow> unat r + 2 \<le> unat (cert_round y)) \<Longrightarrow> y \<in> D \<Longrightarrow> cert_round prev \<in> set rs \<Longrightarrow>
      prev \<in> set ks'"
proof (induction rs arbitrary: ks y)
  case (Cons r rs)
  have wf: "dag_wf L (dag st)" and sub: "dag_entries (dag st) \<subseteq> D" using hold by (auto simp: hold_inv_def)
  obtain dg where ldr: "leader c (cert_round prev) (dag st) = Inr (Some (dg, prev))"
    using prev(1) by (auto simp: supported_leader_def)
  obtain s1 where s1: "order_leaders_step c (dag st) r (ks, y) = Inr s1"
    "foldR (order_leaders_step c (dag st)) rs s1 = Inr (ks', y')"
    using Cons.prems(1) by (auto simp: bindR_Inr_iff)
  show ?case
  proof (cases "r = cert_round prev")
    case True
    have "linked y prev (dag st) = Inr True"
      using hold_linked_supported [OF hold c inj Cons.prems(4) _ prev] Cons.prems(3) True by simp
    with s1(1) ldr True have "s1 = (ks @ [prev], prev)" by (simp add: order_leaders_step_def)
    with order_leaders_step_keeps [of c "dag st" rs "ks @ [prev]" prev] s1(2) show ?thesis by auto
  next
    case False
    then have mem: "cert_round prev \<in> set rs" using Cons.prems(5) by simp
    from s1(1) show ?thesis
    proof (cases rule: order_leaders_step_cases)
      case 1
      show ?thesis
        by (rule Cons.IH [OF s1(2) [unfolded 1] _ _ Cons.prems(4) mem]) (use Cons.prems(2,3) in auto)
    next
      case (2 dg z)
      note z = leader_Some [OF 2(1) wf]
      show ?thesis
        by (rule Cons.IH [OF s1(2) [unfolded 2(2)] _ _ _ mem]) (use Cons.prems(2) z(1,2) sub in auto)
    qed
  qed
qed simp

text \<open>C8. The commit rule is safe: in any state the consensus reaches, a leader that has \<open>f+1\<close> of
  support is committed with every later leader, because each later certificate has a quorum of parents
  and so reaches a supporter of it.\<close>

theorem supported_leader_committed:
  assumes "sane_stake c" "causal L c gc_depth (set (genesis c)) certs"
    and "inj_on (cert_digest L) (set certs \<union> set (genesis c))"
    and "run_consensus L c gc_depth certs (consensus_new L c True out) = Inr s"
    and "ldr \<in> set certs" "even (unat (cert_round ldr))" "unat (cert_round ldr) + 2 < 2 ^ 64"
    and "supported_leader c (dag (cstate s)) prev" "even (unat (cert_round prev))"
    and "unat (last_committed_round (cstate s)) + 2 \<le> unat (cert_round prev)"
    and "unat (cert_round prev) + 2 \<le> unat (cert_round ldr)"
  shows "\<exists>ls. order_leaders c ldr (cstate s) = Inr ls \<and> prev \<in> set ls"
proof -
  let ?st = "cstate s" and ?D = "set certs \<union> set (genesis c)"
  have wf: "wf_committee c" using assms(1) by (simp add: sane_stake_def)
  have hold: "hold_inv L c gc_depth ?D ?st"
    using run_consensus_total [OF _ consensus_new_holds [OF wf] assms(1,2), of True out] assms(4)
    by (auto simp: consensus_new_def)
  have "unat (last_committed_round ?st + 2) = unat (last_committed_round ?st) + 2"
    "unat (cert_round ldr + 2) = unat (cert_round ldr) + 2" "unat (cert_round ldr - 2) = unat (cert_round ldr) - 2"
    using assms(7,10,11) by (simp_all add: unat_word_ariths unat_sub word_le_nat_alt)
  then have r: "last_committed_round ?st < cert_round ldr" "cert_round ldr < cert_round ldr + 2" "2 \<le> cert_round ldr"
    "last_committed_round ?st + 2 \<le> cert_round prev" "cert_round prev \<le> cert_round ldr - 2"
    "last_committed_round ?st < cert_round prev" "even (unat (cert_round ldr - 2) - unat (cert_round prev))"
    using assms(6,9,10,11) by (simp_all add: word_less_nat_alt word_le_nat_alt)
  have ldr: "ldr \<in> ?D" using assms(5) by simp
  obtain x xs where "certs = x # xs" using assms(5) by (cases certs) auto
  then have "size_of c \<noteq> 0" using parents_in_size [OF assms(1)] assms(2) by auto
  then obtain ls where ls: "order_leaders c ldr ?st = Inr ls"
    using hold_order_leaders [OF hold assms(1) _ ldr r(1-3)] by blast
  let ?rs = "step_by2 (rev (u64_range (last_committed_round ?st + 2) (cert_round ldr - 2)))"
  obtain y' where fold: "foldR (order_leaders_step c (dag ?st)) ?rs ([ldr], ldr) = Inr (ls, y')"
    using ls by (auto simp: order_leaders_def bindR_Inr_iff)
  have srt: "sorted_wrt (\<lambda>a b. unat b + 2 \<le> unat a) ?rs"
    by (rule step_by2_gap) (simp add: sorted_wrt_rev u64_range_sorted)
  have below: "unat q + 2 \<le> unat (cert_round ldr)" if "q \<in> set ?rs" for q
  proof -
    have "q \<le> cert_round ldr - 2" using that set_step_by2 by fastforce
    then show ?thesis using r(3) by (simp add: word_le_nat_alt unat_sub)
  qed
  have "prev \<in> set ls"
    by (rule order_leaders_step_supported [OF hold assms(1,3,8) r(6) fold srt below ldr leader_rounds_mem [OF r(4,5,7)]])
  with ls show ?thesis by blast
qed

lemma supported_leader_committed_witness:
  "\<exists>s ls. run_consensus sample_lib solo_committee 50 (map solo_cert [1, 2, 3, 4]) solo_new = Inr s
     \<and> order_leaders solo_committee (solo_cert 4) (cstate s) = Inr ls \<and> solo_cert 2 \<in> set ls"
proof -
  obtain s where s: "run_consensus sample_lib solo_committee 50 (map solo_cert [1, 2, 3, 4]) solo_new = Inr s"
    "last_committed_round (cstate s) = 0" "map_of (dag (cstate s)) 2 = Some [(PublicKey 1, Digest 2, solo_cert 2)]"
    "map_of (dag (cstate s)) 3 = Some [(PublicKey 1, Digest 3, solo_cert 3)]"
    using solo_run4 by blast
  have "supported_leader solo_committee (dag (cstate s)) (solo_cert 2)"
    using s(3,4) by (simp add: supported_leader_def leader_def support_def)
  moreover have "inj_on (cert_digest sample_lib) (set (map solo_cert [1, 2, 3, 4]) \<union> set (genesis solo_committee))"
    using solo_delivery unfolding delivery_ok_def by (auto intro: inj_on_subset)
  ultimately have "\<exists>ls. order_leaders solo_committee (solo_cert 4) (cstate s) = Inr ls \<and> solo_cert 2 \<in> set ls"
    using s(1,2) by (intro supported_leader_committed [OF solo_sane solo_causal]) (simp_all add: solo_new_def)
  with s(1) show ?thesis by blast
qed

text \<open>Causal deliveries are deliveries without repetition.\<close>

lemma causal_delivered:
  "causal L c gc_depth D certs \<Longrightarrow> distinct certs \<and> set certs \<inter> D = {} \<and> (\<forall>x \<in> set certs. cert_round x \<noteq> 0)"
proof (induction certs arbitrary: D)
  case (Cons x certs)
  then have "slot x \<notin> slot ` D" "distinct certs \<and> set certs \<inter> insert x D = {} \<and> (\<forall>x \<in> set certs. cert_round x \<noteq> 0)"
    "cert_round x \<noteq> 0" by auto
  then show ?case by auto
qed simp

lemma causal_delivery_ok:
  assumes "causal L c gc_depth (set (genesis c)) certs" "inj_on (cert_digest L) (set certs \<union> set (genesis c))"
  shows "delivery_ok L c certs"
  using causal_delivered [OF assms(1)] assms(2) by (auto simp: delivery_ok_def)

end
