(* ===== verification/CoreProperties.thy ===== *)
theory CoreProperties
  imports CoreDelivery PrimaryDemo
begin

text \<open>
  The properties of the primary's core, with a sample run of two rounds, and the two runs in which the
  clean-up of the core's maps makes it misbehave.
\<close>

section \<open>A sample run\<close>

definition demo_events :: "node_event list" where
  "demo_events =
     [PayloadTurn (Digest 99) 7,
      CoreTurn (FromHeaderWaiter (demo_header 2 11 1 (- 1) [(Digest 99, 7)])) 0,
      CoreTurn (FromCertificateWaiter (demo_cert 2 11 1 (- 1) [(Digest 99, 7)])) 0,
      CoreTurn (FromHeaderWaiter (demo_header 2 12 2 (- 12) [])) 0,
      CoreTurn (FromCertificateWaiter (demo_cert 2 12 2 (- 12) [])) 1]"

lemmas depth_eval =
  process_header.simps(2) [of 6, unfolded Suc_numeral add_num_simps] process_header.simps(2) [of 4, unfolded Suc_numeral add_num_simps]
  process_vote.simps(2) [of 6, unfolded Suc_numeral add_num_simps] process_vote.simps(2) [of 5, unfolded Suc_numeral add_num_simps]
  process_vote.simps(2) [of 3, unfolded Suc_numeral add_num_simps] process_certificate.simps(2) [of 6, unfolded Suc_numeral add_num_simps]
  process_certificate.simps(2) [of 5, unfolded Suc_numeral add_num_simps] process_certificate.simps(2) [of 4, unfolded Suc_numeral add_num_simps]

lemma demo_sync_genesis [simp]:
  "sync_genesis demo_node = [(Digest (- 1), \<lparr>c_header = header_default\<lparr>h_author := PublicKey 2\<rparr>, c_votes = []\<rparr>),
     (Digest (- 1), \<lparr>c_header = header_default\<lparr>h_author := PublicKey 3\<rparr>, c_votes = []\<rparr>)]"
  by (simp add: sync_genesis_def)

lemma demo_genesis_cert [simp]:
  "cert_round \<lparr>c_header = header_default\<lparr>h_author := k\<rparr>, c_votes = []\<rparr> = 0"
  "cert_origin \<lparr>c_header = header_default\<lparr>h_author := k\<rparr>, c_votes = []\<rparr> = k"
  by (simp_all add: cert_round_def cert_origin_def header_default_def)

lemma payload_key_iff [simp]: "payload_key d w = payload_key d' w' \<longleftrightarrow> d = d' \<and> w = w'"
  using le_bytes_inj [of 4 w w'] by (auto simp: payload_key_def)

lemmas act_simps = bindA_def retA_def liftA_def modifyA_def expectA_def panicA_def

lemmas demo_eval = node_run_def core_turn_def core_depth_def depth_eval act_simps with_sync_def get_parents_def
  read_parent_def parents_stake_def ensure_def missing_payload_def check_batch_def core_write_def voted_insert_def
  vote_new_def send_reliably_def append_certificate_def certificates_append_def certificates_aggregator_new_def
  send_proposer_def send_consensus_def deliver_certificate_def is_processing_def core_cleanup_def core_new_def
  synchronizer_new_def Let_def payload_receive_def entry_update_def payload_key_other payload_key_other [symmetric]

lemma demo_run:
  "\<exists>s. node_run demo_node demo_events (core_new Map.empty) = Inr s
    \<and> tx_consensus s = [demo_cert 2 11 1 (- 1) [(Digest 99, 7)], demo_cert 2 12 2 (- 12) []]
    \<and> vote_slots s = [(1, PublicKey 2), (2, PublicKey 2)]"
  by (simp add: demo_events_def demo_eval vote_slots_def)

text \<open>The headers that a run hands to the core, alone or in certificates; a message of another primary must pass the checks.\<close>

definition handed :: "'db node \<Rightarrow> node_event list \<Rightarrow> header set" where
  "handed N es = {h. \<exists>ev rnd. CoreTurn ev rnd \<in> set es \<and> (\<forall>m. ev = FromPrimaries m \<longrightarrow> passes N m)
     \<and> (event_header ev = Some h \<or> event_certificate ev = Some h)}"

lemma handed_simps [simp]:
  "handed N [] = {}" "handed N (PayloadTurn d w # es) = handed N es"
  "handed N (CoreTurn ev rnd # es) = (if \<forall>m. ev = FromPrimaries m \<longrightarrow> passes N m
     then set_option (event_header ev) \<union> set_option (event_certificate ev) else {}) \<union> handed N es"
  unfolding handed_def by auto

lemma demo_handed: "handed N demo_events = {demo_header 2 11 1 (- 1) [(Digest 99, 7)], demo_header 2 12 2 (- 12) []}"
  by (simp add: demo_events_def) blast

lemma demo_apart: "list_all (apart_event demo_node (handed demo_node demo_events)) demo_events"
  unfolding demo_handed by (simp add: demo_events_def apart_def labelled_def is_genesis_def)

lemma demo_timely: "events_timely demo_node 0 demo_events"
  by (simp add: demo_events_def timely_def next_gc_def)

lemma demo_empty: "\<forall>k. store_read demo_node k (store_new Map.empty) = Inr None"
  by simp

section \<open>Votes\<close>

text \<open>C20. Over a run of the core with its clean-ups in which all events are timely, a node votes at most once for each round and
author. \<open>events_timely\<close> assumes that the waiters send no header or certificate of another author back whose round is below that of the
clean-up, that the round of the consensus does not go back, and that the proposer makes the node's own headers. The code does not
check the first again; \<open>late_loopback_votes_twice\<close> is a run in which it fails and the node votes twice.\<close>

theorem core_votes_once:
  assumes "events_timely N 0 es" "node_run N es (core_new d) = Inr s"
  shows "distinct (vote_slots s)"
proof -
  have "vote_inv N 0 (core_new d)" by (simp add: vote_inv_def core_new_def header_default_def vote_slots_def)
  from vote_inv_run [OF this assms] show ?thesis by (auto simp: vote_inv_def)
qed

lemma core_votes_once_witness:
  "\<exists>s. node_run demo_node demo_events (core_new Map.empty) = Inr s
    \<and> vote_slots s = [(1, PublicKey 2), (2, PublicKey 2)] \<and> distinct (vote_slots s)"
  using demo_run core_votes_once [OF demo_timely, of Map.empty] by blast

text \<open>C21. Every vote that the core has sent to another node is for a header that it was handed in that run, by the
network (where the header, or the certificate around it, passed the checks) or by a waiter: its parents are distinct
genesis certificates or certificates that the core handed to the consensus, all from the round before the
header's, with a quorum of stake, and its payload is stored. Assumed are that no parent of a certificate is the id
of a header that was handed over, and that the parents of a header are a set, as their type is.\<close>

theorem core_votes_justified:
  assumes "rocks_ok N" "codec_ok N" "\<forall>k. store_read N k (store_new d) = Inr None"
    and "list_all (apart_event N (handed N es)) es" "\<forall>h \<in> handed N es. distinct (h_parents h)"
    and "node_run N es (core_new d) = Inr s" "(a, PVote v) \<in> set (net s)"
  shows "\<exists>h \<in> handed N es. v = vote_new (lib N) (my_secret N) h (my_name N) \<and> h_author h \<noteq> my_name N
    \<and> vouched (lib N) (committee_of N) (set (genesis (committee_of N)) \<union> set (tx_consensus s)) h
    \<and> payload_stored N (core_store s) h"
proof -
  have "justified N (handed N es) (tx_consensus s) (core_store s) v"
    using node_inv_run [OF node_inv_new [OF assms(1-3)] assms(4,6)] assms(7) by (simp add: node_inv_def)
  with assms(5) show ?thesis unfolding justified_def vouched_backed by blast
qed

lemma core_votes_justified_witness:
  "\<exists>s. node_run demo_node demo_events (core_new Map.empty) = Inr s
    \<and> (\<exists>a v. (a, PVote v) \<in> set (net s) \<and> v_round v = 2 \<and> v = vote_new flip_lib [] (demo_header 2 12 2 (- 12) []) (PublicKey 3)
       \<and> vouched flip_lib demo_committee (set (genesis demo_committee) \<union> set (tx_consensus s)) (demo_header 2 12 2 (- 12) []))"
proof -
  obtain s where s: "node_run demo_node demo_events (core_new Map.empty) = Inr s"
    "vote_slots s = [(1, PublicKey 2), (2, PublicKey 2)]" using demo_run by blast
  then have "(2, PublicKey 2) \<in> set (vote_slots s)" by simp
  then obtain a v where v: "(a, PVote v) \<in> set (net s)" "v_round v = 2"
    by (auto simp: vote_slots_def split: primary_message.splits)
  have "\<forall>h \<in> handed demo_node demo_events. distinct (h_parents h)" by (simp add: demo_handed)
  from core_votes_justified [OF demo_ok demo_empty demo_apart this s(1) v(1)]
  obtain h where h: "h \<in> handed demo_node demo_events" "v = vote_new flip_lib [] h (PublicKey 3)"
    "vouched flip_lib demo_committee (set (genesis demo_committee) \<union> set (tx_consensus s)) h" by auto
  have "h_round h = 2" using h(2) v(2) by (simp add: vote_new_def Let_def)
  then have "h = demo_header 2 12 2 (- 12) []" using h(1) by (auto simp: demo_handed)
  with s(1) v h show ?thesis by blast
qed

section \<open>Certificates\<close>



section \<open>The clean-up and late messages\<close>

definition demo_vote :: vote where
  "demo_vote = \<lparr>v_id = Digest 21, v_round = 1, v_origin = PublicKey 3, v_author = PublicKey 2, v_sig = signature_default\<rparr>"

lemma round_1_old: "\<not> (10 :: round) \<le> 1"
  by (simp add: word_le_nat_alt)

lemma demo_vote_simps [simp]:
  "v_id demo_vote = Digest 21" "v_round demo_vote = 1" "v_origin demo_vote = PublicKey 3" "v_author demo_vote = PublicKey 2"
  by (simp_all add: demo_vote_def)

lemma demo_verify: "vote_verify flip_lib demo_committee demo_vote = Inr ()"
  by (simp add: vote_verify_def bindR_Inr_iff demo_vote_def signature_verify_def flip_lib_def sample_lib_def)

lemma cleanup_forgets:
  assumes "gc_depth_of N < rnd" "r < rnd - gc_depth_of N"
  shows "map_of (processing (core_cleanup N rnd t)) r = None" "map_of (last_voted (core_cleanup N rnd t)) r = None"
  using assms by (simp_all add: core_cleanup_def map_of_retain Let_def)

lemma own_vote_reused:
  "v_author v \<in> va_used (votes_agg s) \<Longrightarrow> process_vote (Suc n) N v s = Inr (Inl (AuthorityReuse (v_author v)), s)"
  by (simp add: act_simps append_vote_def votes_append_def Let_def insert_absorb)

lemma own_header_again:
  assumes "h_author h = my_name N" "map_of (last_voted s) (h_round h) = None" "my_name N \<in> va_used (votes_agg s)"
    and "foldR (read_parent N (core_store s)) (h_parents h) ([], []) = Inr ([], ps)" "ps \<noteq> []"
    and "parents_stake (committee_of N) h ps = Inr w" "quorum_threshold (committee_of N) \<le> w"
  shows "process_header (Suc (Suc n)) N h s = Inl (Expect ''Failed to process our own vote'')"
  using assms own_vote_reused [of "vote_new (lib N) (my_secret N) h (my_name N)" _ n N]
  by (simp add: process_header.simps(2) act_simps with_sync_def get_parents_def missing_payload_def ensure_def core_write_def
      voted_insert_def vote_new_def Let_def del: process_vote.simps)

text \<open>C38. A node whose own header \<open>h\<close> is still current, with its own vote counted and its parents there, and whose clean-up
  has passed the round of \<open>h\<close>: whatever else its state and the committee are, the vote of another authority that
  completes the quorum, which passes all the checks, makes the core panic. It processes the header again (the
  \<open>processing\<close> entry is gone), votes for it again (so is the \<open>last_voted\<close> entry), and \<open>expect\<close>s that its own vote is
  not refused as a reuse.
\<close>

theorem late_quorum_panics:
  assumes own: "current_header t = h" "h_author h = my_name N" "my_name N \<in> va_used (votes_agg t)"
    and parents: "foldR (read_parent N (core_store t)) (h_parents h) ([], []) = Inr ([], ps)" "ps \<noteq> []"
      "parents_stake (committee_of N) h ps = Inr w" "quorum_threshold (committee_of N) \<le> w"
    and late: "gc_depth_of N < rnd" "h_round h < rnd - gc_depth_of N"
    and vote: "v_id v = h_id h" "v_origin v = h_author h" "v_round v = h_round h" "passes N (PVote v)"
      "v_author v \<notin> va_used (votes_agg t)" "quorum_threshold (committee_of N) \<le> va_weight (votes_agg t) + stake_of (committee_of N) (v_author v)"
  shows "core_turn N (FromPrimaries (PVote v), now) (core_cleanup N rnd t) = Inl (Expect ''Failed to process our own vote'')"
proof -
  let ?s = "core_cleanup N rnd t"
  have agg: "votes_agg ?s = votes_agg t" by (simp add: core_cleanup_def Let_def)
  note gone = cleanup_forgets [OF late, of t]
  show ?thesis
    using own parents vote gone agg
    by (simp add: core_turn_def sanitize_vote_def core_depth_def process_vote.simps(2) [of 6, unfolded Suc_numeral add_num_simps]
      process_certificate.simps(2) [of 5, unfolded Suc_numeral add_num_simps] act_simps ensure_def
      append_vote_def votes_append_def Let_def send_reliably_def is_processing_def own_header_again [where n = 3, unfolded Suc_numeral add_num_simps, of h N _ ps w])
qed
text \<open>Its own header and the header of the other author, after which the clean-up reaches round 10.\<close>

lemma stake_1_small: "\<not> (3 :: stake) \<le> 1"
  by (simp add: word_le_nat_alt)

lemma late_own_header:
  "\<exists>s. node_run demo_node
       [CoreTurn (FromProposer (demo_header 3 21 1 (- 1) [])) 0, CoreTurn (FromHeaderWaiter (demo_header 2 11 1 (- 1) [])) 60]
       (core_new Map.empty) = Inr s
    \<and> current_header s = demo_header 3 21 1 (- 1) [] \<and> va_used (votes_agg s) = {PublicKey 3} \<and> va_weight (votes_agg s) = 1"
  by (simp add: demo_eval process_own_header_def other_primaries_def append_vote_def votes_append_def votes_aggregator_new_def
      retain_from_def round_1_old stake_1_small)

lemma turn_cleanup:
  assumes "core_turn N (ev, rnd) s = Inr s'"
  shows "\<exists>t. s' = core_cleanup N rnd t"
proof (cases "core_handle N ev s")
  case (Inr p)
  then have "(case fst p of Inl (StoreError err) \<Rightarrow> Inl (Expect ''Storage failure: killing node.'')
       | _ \<Rightarrow> Inr (core_cleanup N rnd (snd p))) = Inr s'"
    using assms unfolding core_turn_def prod.sel by (simp add: split_beta)
  then show ?thesis by (cases "fst p") (auto split: dag_error.split_asm)
qed (use assms in \<open>simp add: core_turn_def\<close>)

lemma late_quorum_panics_witness:
  "\<exists>s. node_run demo_node
       [CoreTurn (FromProposer (demo_header 3 21 1 (- 1) [])) 0, CoreTurn (FromHeaderWaiter (demo_header 2 11 1 (- 1) [])) 60]
       (core_new Map.empty) = Inr s
    \<and> core_turn demo_node (FromPrimaries (PVote demo_vote), 60) s = Inl (Expect ''Failed to process our own vote'')"
proof -
  let ?h = "demo_header 3 21 1 (- 1) []" and ?x = "\<lparr>c_header = header_default\<lparr>h_author := PublicKey 2\<rparr>, c_votes = []\<rparr>"
  obtain s where s: "node_run demo_node
       [CoreTurn (FromProposer ?h) 0, CoreTurn (FromHeaderWaiter (demo_header 2 11 1 (- 1) [])) 60] (core_new Map.empty) = Inr s"
    "current_header s = ?h" "va_used (votes_agg s) = {PublicKey 3}" "va_weight (votes_agg s) = 1"
    using late_own_header by blast
  then obtain s1 where "core_turn demo_node (FromHeaderWaiter (demo_header 2 11 1 (- 1) []), 60) s1 = Inr s"
    by (auto simp: node_run_def bindR_Inr_iff)
  then obtain t where "s = core_cleanup demo_node 60 t" using turn_cleanup by blast
  then have t: "s = core_cleanup demo_node 60 t" "current_header t = ?h" "va_used (votes_agg t) = {PublicKey 3}"
    "va_weight (votes_agg t) = 1" using s(2-) by (auto simp: core_cleanup_def Let_def)
  have "foldR (read_parent demo_node (core_store t)) (h_parents ?h) ([], []) = Inr ([], [?x])"
    "parents_stake (committee_of demo_node) ?h [?x] = Inr 3"
    by (simp_all add: read_parent_def parents_stake_def ensure_def)
  from late_quorum_panics [OF t(2) _ _ this(1) _ this(2), of 60 demo_vote 60] s(1) t show ?thesis
    by (simp add: demo_verify)
qed

text \<open>A header that comes back from the waiter after the clean-up is not checked against the clean-up round:
  the core votes for a second header of the same author and round.
\<close>

theorem late_loopback_votes_twice:
  "\<exists>s. node_run demo_node
     [CoreTurn (FromHeaderWaiter (demo_header 2 11 1 (- 1) [])) 60,
      CoreTurn (FromHeaderWaiter (demo_header 2 13 1 (- 1) [])) 60] (core_new Map.empty) = Inr s
    \<and> vote_slots s = [(1, PublicKey 2), (1, PublicKey 2)]"
  by (simp add: demo_eval retain_from_def vote_slots_def round_1_old)

end
