(* ===== verification/NodePipeline.thy ===== *)
theory NodePipeline
  imports MrvExecutor ConsensusSafety CoreProperties
begin

text \<open>
  The stages of a node one after the other: what the core of the primary hands over is a causal sequence
  of deliveries for the consensus, and what the consensus commits is a stream the executor accepts.
\<close>

section \<open>From the core to the consensus\<close>

lemma causal_nth:
  "(\<And>i. i < length xs \<Longrightarrow> cert_round (xs ! i) \<noteq> 0 \<and> unat (cert_round (xs ! i)) + unat g < 2 ^ 64
      \<and> slot (xs ! i) \<notin> slot ` (D \<union> set (take i xs)) \<and> parents_in L c (D \<union> set (take i xs)) (xs ! i))
   \<Longrightarrow> causal L c g D xs"
proof (induction xs arbitrary: D)
  case (Cons x xs)
  have "causal L c g (insert x D) xs"
  proof (rule Cons.IH, goal_cases)
    case (1 i)
    then show ?case using Cons.prems [of "Suc i"] by simp
  qed
  with Cons.prems [of 0] show ?case by simp
qed simp

lemma vouched_parents_in:
  assumes v: "vouched L c P (c_header x)" and inj: "inj_on (cert_digest L) P" and sub: "E \<subseteq> P"
    and there: "\<forall>d \<in> set (h_parents (c_header x)). \<exists>z \<in> E. cert_digest L z = d"
    and slots: "inj_on slot E" and sane: "sane_stake c"
  shows "parents_in L c E x"
proof -
  obtain ps where ps: "map (cert_digest L) ps = h_parents (c_header x)" "set ps \<subseteq> P"
    "\<forall>y \<in> set ps. cert_round y + 1 = cert_round x"
    "quorum_threshold c \<le> sum_list (map (stake_of c \<circ> cert_origin) ps)" and d: "distinct (h_parents (c_header x))"
    using v by (auto simp: vouched_def cert_round_def)
  have E: "y \<in> E" if y: "y \<in> set ps" for y
  proof -
    have "cert_digest L y \<in> set (h_parents (c_header x))" using y ps(1) by (metis image_eqI set_map)
    then obtain z where "z \<in> E" "cert_digest L z = cert_digest L y" using there by auto
    then show ?thesis using inj_onD [OF inj] sub ps(2) y by blast
  qed
  have "distinct ps" using d ps(1) by (metis distinct_map)
  moreover have "inj_on cert_origin (set ps)"
  proof (rule inj_onI)
    fix y z assume yz: "y \<in> set ps" "z \<in> set ps" "cert_origin y = cert_origin z"
    then have "slot y = slot z" using ps(3) by (metis add_right_cancel slot_def)
    then show "y = z" using inj_onD [OF slots] E yz by blast
  qed
  ultimately have dist: "distinct (map cert_origin ps)" by (simp add: distinct_map)
  have "unat (quorum_threshold c) \<le> unat (sum_list (map (stake_of c) (map cert_origin ps)))"
    using ps(4) by (simp add: word_le_nat_alt)
  also have "\<dots> = sum (stake_nat c) (set (map cert_origin ps))"
    using sane dist by (intro sum_list_stake_unat)
  finally have "unat (quorum_threshold c) \<le> sum (stake_nat c) (set (map cert_origin ps))" .
  moreover have "\<forall>n \<in> set (map cert_origin ps). \<exists>z \<in> E. cert_origin z = n \<and> cert_round z = cert_round x - 1
      \<and> cert_digest L z \<in> set (h_parents (c_header x))"
  proof
    fix n assume "n \<in> set (map cert_origin ps)"
    then obtain y where y: "y \<in> set ps" "cert_origin y = n" by auto
    have "cert_digest L y \<in> set (h_parents (c_header x))" using y ps(1) by (metis image_eqI set_map)
    moreover have "cert_round y = cert_round x - 1" using ps(3) y(1) by (metis add_diff_cancel)
    ultimately show "\<exists>z \<in> E. cert_origin z = n \<and> cert_round z = cert_round x - 1 \<and> cert_digest L z \<in> set (h_parents (c_header x))"
      using E [OF y(1)] y(2) by blast
  qed
  ultimately show ?thesis unfolding parents_in_def by (intro exI [of _ "set (map cert_origin ps)"]) simp
qed

lemma genesis_slots:
  assumes "wf_committee c"
  shows "inj_on slot (set (genesis c))"
  using assms by (auto simp: inj_on_def genesis_def slot_def cert_round_def cert_origin_def header_default_def)

lemma core_causal:
  assumes del: "delivered_causally N xs" and sane: "sane_stake (committee_of N)"
    and inj: "inj_on (cert_digest (lib N)) P" and P: "set (genesis (committee_of N)) \<union> set xs \<subseteq> P"
    and certs: "\<forall>x \<in> set xs. vouched (lib N) (committee_of N) P (c_header x) \<and> cert_round x \<noteq> 0 \<and> unat (cert_round x) + unat g < 2 ^ 64"
    and slots: "distinct (map slot xs)"
  shows "causal (lib N) (committee_of N) g (set (genesis (committee_of N))) xs"
proof (rule causal_nth)
  fix i assume i: "i < length xs"
  let ?G = "set (genesis (committee_of N))"
  let ?E = "?G \<union> set (take i xs)"
  have x: "xs ! i \<in> set xs" using i by simp
  have later: "slot y \<noteq> slot z" if "y \<in> ?G" "z \<in> set xs" for y z
    using that certs genesis_entries(1) by (auto simp: slot_def)
  have "map slot xs = map slot (take i xs) @ slot (xs ! i) # map slot (drop (Suc i) xs)"
    using id_take_nth_drop [OF i] by (metis list.simps(9) map_append)
  then have dist: "distinct (map slot (take i xs))" "slot (xs ! i) \<notin> slot ` set (take i xs)" using slots by auto
  have sub: "?E \<subseteq> P" using P set_take_subset [of i xs] by blast
  have "inj_on slot ?E"
    using genesis_slots [of "committee_of N"] dist(1) sane later [OF _ set_mp [OF set_take_subset]]
    by (fastforce simp: inj_on_Un distinct_map sane_stake_def)
  moreover have "\<forall>d \<in> set (h_parents (c_header (xs ! i))). \<exists>z \<in> ?E. cert_digest (lib N) z = d"
  proof
    fix d assume "d \<in> set (h_parents (c_header (xs ! i)))"
    then consider "is_genesis N d" | j where "j < i" "cert_digest (lib N) (xs ! j) = d"
      using del i unfolding delivered_causally_def by blast
    then show "\<exists>z \<in> ?E. cert_digest (lib N) z = d"
    proof cases
      case 1
      then show ?thesis by (auto simp: is_genesis_def sync_genesis_def)
    next
      case (2 j)
      then have "xs ! j \<in> set (take i xs)" using i by (auto simp: in_set_conv_nth intro: exI [of _ j])
      with 2 show ?thesis by blast
    qed
  qed
  ultimately have "parents_in (lib N) (committee_of N) ?E (xs ! i)"
    using certs x by (intro vouched_parents_in [OF _ inj sub _ _ sane]) auto
  moreover have "slot (xs ! i) \<notin> slot ` ?E" using dist(2) later [OF _ x] by fastforce
  ultimately show "cert_round (xs ! i) \<noteq> 0 \<and> unat (cert_round (xs ! i)) + unat g < 2 ^ 64
      \<and> slot (xs ! i) \<notin> slot ` ?E \<and> parents_in (lib N) (committee_of N) ?E (xs ! i)"
    using certs x by simp
qed

section \<open>From the consensus to the executor\<close>

lemma numbered_sorted:
  assumes "n < 2 ^ 64"
  shows "sorted_wrt (<) (map (of_nat :: nat \<Rightarrow> u64) [1..<Suc n])"
  unfolding sorted_wrt_map
proof (rule sorted_wrt_mono_rel [OF _ sorted_wrt_upt])
  fix i j assume ij: "i \<in> set [1..<Suc n]" "j \<in> set [1..<Suc n]" "i < j"
  have small: "i < 2 ^ LENGTH(64)" "j < 2 ^ LENGTH(64)" using ij assms by auto
  then show "(of_nat i :: u64) < of_nat j" using ij(3) by (simp add: word_less_nat_alt unat_of_nat)
qed

lemma length_concat_ge: "(\<And>b. b \<in> set bs \<Longrightarrow> f b \<noteq> []) \<Longrightarrow> length bs \<le> length (concat (map f bs))"
proof (induction bs)
  case (Cons b bs)
  then have "f b \<noteq> []" "length bs \<le> length (concat (map f bs))" by simp_all
  then show ?case by (cases "f b") auto
qed simp

text \<open>What the consensus hands over is a stream the executor accepts.\<close>

lemma consensus_stream_ok:
  assumes del: "delivery_ok L c certs" and len: "length certs < 2 ^ 64"
    and run: "run_consensus L c gc_depth certs (consensus_new L c up True) = Inr s"
  shows "stream_ok L (to_output s) \<and> nonempty (to_output s) = to_output s"
proof -
  note inv = run_consensus_inv [OF del run]
  have parts: "concat (map certificates (to_output s)) = to_primary s"
    and idx: "map batch_index (to_output s) = map of_nat [1..<Suc (length (to_output s))]"
    and ne: "\<And>b. b \<in> set (to_output s) \<Longrightarrow> certificates b \<noteq> []"
    and dist: "distinct (map (cert_digest L) (to_primary s))"
    and sub: "set (to_primary s) \<subseteq> set certs"
    using inv by (auto simp: run_inv_def commit_inv_def simp del: upt_Suc)
  have "length (to_output s) \<le> length (to_primary s)" using length_concat_ge [of "to_output s" certificates] ne parts by simp
  also have "\<dots> = card (set (to_primary s))" using dist by (simp add: distinct_map distinct_card)
  also have "\<dots> \<le> length certs" using card_mono [OF _ sub] card_length [of certs] by auto
  finally have "length (to_output s) < 2 ^ 64" using len by simp
  then have "sorted_wrt (<) (map batch_index (to_output s))" unfolding idx by (rule numbered_sorted)
  moreover have "concat (map (digests L) (to_output s)) = map (cert_digest L) (to_primary s)"
    unfolding parts [symmetric] by (simp add: map_concat comp_def)
  moreover have "nonempty (to_output s) = to_output s" using ne by (simp add: nonempty_def)
  ultimately show ?thesis using dist by (simp add: stream_ok_def)
qed

lemma stages_compose:
  assumes "sane_stake c" "causal L c gc_depth (set (genesis c)) certs"
    and "inj_on (cert_digest L) (set certs \<union> set (genesis c))" "length certs < 2 ^ 64" "hash_order_ok h"
  shows "\<exists>s st k outs. run_consensus L c gc_depth certs (consensus_new L c True True) = Inr s
    \<and> run_executor L h (to_output s) (spawn None n w) = Inr (True, st)
    \<and> released (take k (to_output s)) outs \<and> tx_output st = concat outs
    \<and> to_primary s = concat (map certificates (to_output s)) \<and> distinct (to_primary s)
    \<and> set (to_primary s) \<subseteq> set certs
    \<and> (k < length (to_output s) \<longrightarrow> (\<exists>x \<in> set (certificates (to_output s ! k)).
         fold max (map cert_round (to_primary s)) 0 < saturating_add_u64 (cert_round x) (max w 1)))"
proof -
  obtain s where s: "run_consensus L c gc_depth certs (consensus_new L c True True) = Inr s"
    using run_consensus_total [OF _ consensus_new_holds _ assms(2)] assms(1)
    by (auto simp: sane_stake_def consensus_new_def)
  note del = causal_delivery_ok [OF assms(2,3)]
  note stream = consensus_stream_ok [OF del assms(4) s]
  have parts: "to_primary s = concat (map certificates (to_output s))" "distinct (to_primary s)"
    using run_consensus_inv [OF del s] by (auto simp: run_inv_def distinct_map)
  have sub: "set (to_primary s) \<subseteq> set certs"
    using run_consensus_inv [OF del s] by (auto simp: run_inv_def commit_inv_def)
  obtain st k outs where st: "run_executor L h (to_output s) (spawn None n w) = Inr (True, st)"
    "window_cap st = max w 1"
    "frontier_round st = fold max (map cert_round (concat (map certificates (to_output s)))) 0"
    "released (take k (to_output s)) outs" "tx_output st = concat outs" "young st (drop k (to_output s))"
    using run_from_spawn [OF assms(5) conjunct1 [OF stream], of None n w] conjunct2 [OF stream] by auto
  have "drop k (to_output s) = (to_output s ! k) # drop (Suc k) (to_output s)" if "k < length (to_output s)"
    using that by (rule Cons_nth_drop_Suc [symmetric])
  with s st parts sub show ?thesis
    by (intro exI [of _ s] exI [of _ st] exI [of _ k] exI [of _ outs]) (auto simp: young_def)
qed

section \<open>A node for the sample run\<close>

text \<open>The demo node with a hash that also tells the two authors apart, so that no two certificates of the run
  have the same digest.\<close>

definition pair_lib :: crypto_lib where
  "pair_lib = flip_lib\<lparr>sha512 := (\<lambda>bs. if last bs = 3 then replicate 64 0 else map NOT (take 64 bs))\<rparr>"

definition pair_node :: "(bytes \<rightharpoonup> bytes) node" where
  "pair_node = demo_node\<lparr>lib := pair_lib\<rparr>"

lemma last_key_bytes: "last (key_bytes (PublicKey k)) = ucast k"
  by (simp add: key_bytes_def be_bytes_def last_rev le_bytes_def hd_map)

lemma last_cert_bytes: "cert_origin x = PublicKey k \<Longrightarrow> last (cert_bytes x) = ucast k"
proof -
  assume k: "cert_origin x = PublicKey k"
  have "length (key_bytes (PublicKey k)) = 32" by (simp add: key_bytes_def be_bytes_def)
  then have "key_bytes (PublicKey k) \<noteq> []" by force
  then show ?thesis using last_key_bytes by (simp add: cert_bytes_def k)
qed

lemma pair_digest:
  "cert_origin x = PublicKey 3 \<Longrightarrow> cert_digest pair_lib x = Digest 0"
  "cert_origin x = PublicKey 2 \<Longrightarrow> cert_digest pair_lib x = cert_digest flip_lib x"
proof -
  have "take 32 (replicate 64 0) = be_bytes 32 (0 :: 256 word)"
    by (simp add: be_bytes_def le_bytes_def map_replicate_const)
  then show "cert_origin x = PublicKey 3 \<Longrightarrow> cert_digest pair_lib x = Digest 0"
    by (simp add: cert_digest_def hash_digest_def pair_lib_def last_cert_bytes from_be_bytes_be_bytes)
  show "cert_origin x = PublicKey 2 \<Longrightarrow> cert_digest pair_lib x = cert_digest flip_lib x"
    by (simp add: cert_digest_def hash_digest_def pair_lib_def last_cert_bytes flip_lib_def)
qed

lemma pair_simps [simp]:
  "lib pair_node = pair_lib" "my_name pair_node = PublicKey 3" "committee_of pair_node = demo_committee"
  "my_secret pair_node = []" "gc_depth_of pair_node = 50" "ser_header pair_node = ser_header demo_node"
  "ser_certificate pair_node = ser_certificate demo_node" "de_certificate pair_node = de_certificate demo_node"
  "store_read pair_node = store_read demo_node" "store_write pair_node = store_write demo_node"
  "cert_digest pair_lib (demo_cert 2 i r p ws) = Digest (NOT i)"
  "cert_digest pair_lib \<lparr>c_header = header_default\<lparr>h_author := PublicKey 2\<rparr>, c_votes = []\<rparr> = Digest (- 1)"
  "cert_digest pair_lib \<lparr>c_header = header_default\<lparr>h_author := PublicKey 3\<rparr>, c_votes = []\<rparr> = Digest 0"
  by (simp_all add: pair_node_def pair_digest) (simp_all add: fun_eq_iff demo_node_def store_read_def store_write_def store_step.simps)

lemma pair_ok: "rocks_ok pair_node" "codec_ok pair_node"
  using demo_ok by (simp_all add: rocks_ok_def codec_ok_def pair_node_def)

lemma pair_sync_genesis [simp]:
  "sync_genesis pair_node = [(Digest (- 1), \<lparr>c_header = header_default\<lparr>h_author := PublicKey 2\<rparr>, c_votes = []\<rparr>),
     (Digest 0, \<lparr>c_header = header_default\<lparr>h_author := PublicKey 3\<rparr>, c_votes = []\<rparr>)]"
  by (simp add: sync_genesis_def)

lemma pair_run:
  "\<exists>s. node_run pair_node demo_events (core_new Map.empty) = Inr s
    \<and> tx_consensus s = [demo_cert 2 11 1 (- 1) [(Digest 99, 7)], demo_cert 2 12 2 (- 12) []]"
  by (simp add: demo_events_def demo_eval vote_slots_def)

lemma pair_apart: "list_all (apart_event pair_node (handed pair_node demo_events)) demo_events"
  unfolding demo_handed by (simp add: demo_events_def apart_def labelled_def is_genesis_def)

end
