(* ===== verification/PrimaryNode.thy ===== *)
theory PrimaryNode
  imports CoreChannels Proposer Waiters NodePipeline
begin

text \<open>
  A whole primary: \<open>Primary::spawn\<close> of \<open>primary/src/primary.rs\<close> with its tasks, the channels between them, the store
  they share and the round that the garbage collector publishes. What a task sends stays in the list it is
  sent to; a counter says how much of it the reader has taken. The channels that come from outside are queues. One
  step is one turn of one task, or something that comes from outside: a message of another primary or of a
  worker, or (\<open>primary_feed\<close>) a certificate that the consensus has committed.
\<close>

section \<open>State\<close>

record 'db primary_node =
  pn_listening :: "socket_addr list"
  pn_core :: "'db core"
  pn_messages :: "primary_message list"
  pn_requests :: "(digest list \<times> public_key) list"
  pn_our_digests :: "(digest \<times> worker_id) list"
  pn_others_digests :: "(digest \<times> worker_id) list"
  pn_committed :: "certificate list"
  pn_hw :: header_waiter
  pn_cw :: certificate_waiter
  pn_proposer :: proposer
  pn_waiting :: bool
  pn_gc :: garbage_collector
  pn_replies :: "(socket_addr \<times> primary_message) list"
  pn_sync_headers :: nat
  pn_sync_certificates :: nat
  pn_headers_loopback :: nat
  pn_certificates_loopback :: nat
  pn_headers :: nat
  pn_parents :: nat
  pn_network :: "primary_message list"
  pn_workers :: "worker_primary_message list"

definition own_primary :: "'db node \<Rightarrow> primary_addresses res" where
  "own_primary N = (case primary_of (committee_of N) (my_name N) of
     Inl e \<Rightarrow> Inl (Expect ''Our public key or worker id is not in the committee'') | Inr a \<Rightarrow> Inr a)"

definition primary_spawn :: "'db node \<Rightarrow> parameters \<Rightarrow> 'db \<Rightarrow> instant \<Rightarrow> 'db primary_node res" where
  "primary_spawn N p d now =
     bindR (own_primary N) (\<lambda>a.
     bindR (own_primary N) (\<lambda>b.
     bindR (garbage_collector_spawn (committee_of N) (my_name N)) (\<lambda>gc.
     Inr \<lparr>pn_listening = [unspecified (port (primary_to_primary a)), unspecified (port (worker_to_primary b))],
       pn_core = core_new d, pn_messages = [], pn_requests = [], pn_our_digests = [], pn_others_digests = [], pn_committed = [],
       pn_hw = header_waiter_new (par_sync_retry_delay p) (par_sync_retry_nodes p), pn_cw = certificate_waiter_new,
       pn_proposer = proposer_new N (par_header_size p) (par_max_header_delay p) now, pn_waiting = False, pn_gc = gc, pn_replies = [],
       pn_sync_headers = 0, pn_sync_certificates = 0, pn_headers_loopback = 0, pn_certificates_loopback = 0,
       pn_headers = 0, pn_parents = 0, pn_network = [], pn_workers = []\<rparr>)))"

section \<open>Steps\<close>

abbreviation pn_store :: "'db primary_node \<Rightarrow> 'db store" where
  "pn_store s \<equiv> core_store (pn_core s)"

abbreviation to_header_waiter :: "'db primary_node \<Rightarrow> waiter_message list" where
  "to_header_waiter s \<equiv> tx_header_waiter (core_sync (pn_core s))"

abbreviation to_certificate_waiter :: "'db primary_node \<Rightarrow> certificate list" where
  "to_certificate_waiter s \<equiv> tx_certificate_waiter (core_sync (pn_core s))"

text \<open>
  An iteration of the proposer checks whether a header is due and then waits for an input; \<open>pn_waiting\<close> tells the
  two apart. The timer ends the wait once its deadline has passed.
\<close>

inductive primary_step :: "'db node \<Rightarrow> 'db primary_node \<Rightarrow> 'db primary_node \<Rightarrow> bool" for N where
  from_network: "primary_dispatch m (pn_messages s, pn_requests s) = (ms, rs) \<Longrightarrow>
    primary_step N s (s\<lparr>pn_messages := ms, pn_requests := rs, pn_network := pn_network s @ [m]\<rparr>)"
| from_worker: "worker_dispatch w (pn_our_digests s, pn_others_digests s) = (ours, others) \<Longrightarrow>
    primary_step N s (s\<lparr>pn_our_digests := ours, pn_others_digests := others, pn_workers := pn_workers s @ [w]\<rparr>)"
| core_message: "pn_messages s = m # rest \<Longrightarrow> core_turn N (FromPrimaries m, consensus_round (pn_gc s)) (pn_core s) = Inr c \<Longrightarrow>
    primary_step N s (s\<lparr>pn_messages := rest, pn_core := c\<rparr>)"
| core_header: "pn_headers_loopback s < length (hw_core (pn_hw s)) \<Longrightarrow>
    core_turn N (FromHeaderWaiter (hw_core (pn_hw s) ! pn_headers_loopback s), consensus_round (pn_gc s)) (pn_core s) = Inr c \<Longrightarrow>
    primary_step N s (s\<lparr>pn_headers_loopback := pn_headers_loopback s + 1, pn_core := c\<rparr>)"
| core_certificate: "pn_certificates_loopback s < length (cw_core (pn_cw s)) \<Longrightarrow>
    core_turn N (FromCertificateWaiter (cw_core (pn_cw s) ! pn_certificates_loopback s), consensus_round (pn_gc s)) (pn_core s) = Inr c \<Longrightarrow>
    primary_step N s (s\<lparr>pn_certificates_loopback := pn_certificates_loopback s + 1, pn_core := c\<rparr>)"
| core_own: "pn_headers s < length (p_core (pn_proposer s)) \<Longrightarrow>
    core_turn N (FromProposer (p_core (pn_proposer s) ! pn_headers s), consensus_round (pn_gc s)) (pn_core s) = Inr c \<Longrightarrow>
    primary_step N s (s\<lparr>pn_headers := pn_headers s + 1, pn_core := c\<rparr>)"
| payload: "pn_others_digests s = e # rest \<Longrightarrow>
    primary_step N s (s\<lparr>pn_others_digests := rest, pn_core := (pn_core s)\<lparr>core_store := payload_receive N e (pn_store s)\<rparr>\<rparr>)"
| sync_header: "pn_sync_headers s < length (to_header_waiter s) \<Longrightarrow>
    hw_turn N (pn_store s) (HwMessage (to_header_waiter s ! pn_sync_headers s) now, consensus_round (pn_gc s)) (pn_hw s) = Inr hw \<Longrightarrow>
    primary_step N s (s\<lparr>pn_sync_headers := pn_sync_headers s + 1, pn_hw := hw\<rparr>)"
| header_future: "(\<forall>m now. e \<noteq> HwMessage m now) \<Longrightarrow> hw_enabled N (pn_store s) (pn_hw s) e \<Longrightarrow>
    hw_turn N (pn_store s) (e, consensus_round (pn_gc s)) (pn_hw s) = Inr hw \<Longrightarrow> primary_step N s (s\<lparr>pn_hw := hw\<rparr>)"
| sync_certificate: "pn_sync_certificates s < length (to_certificate_waiter s) \<Longrightarrow>
    primary_step N s (s\<lparr>pn_sync_certificates := pn_sync_certificates s + 1,
      pn_cw := cw_receive (to_certificate_waiter s ! pn_sync_certificates s) (pn_cw s)\<rparr>)"
| certificate_future: "i < length (cw_waiting (pn_cw s)) \<Longrightarrow> join_reads N (pn_store s) (fst (cw_waiting (pn_cw s) ! i)) \<noteq> JoinPending \<Longrightarrow>
    cw_next N (pn_store s) i (pn_cw s) = Inr cw \<Longrightarrow> primary_step N s (s\<lparr>pn_cw := cw\<rparr>)"
| propose: "\<not> pn_waiting s \<Longrightarrow> propose_check N now (pn_proposer s) = Inr q \<Longrightarrow>
    primary_step N s (s\<lparr>pn_waiting := True, pn_proposer := q\<rparr>)"
| propose_parents: "pn_waiting s \<Longrightarrow> pn_parents s < length (tx_proposer (pn_core s)) \<Longrightarrow> tx_proposer (pn_core s) ! pn_parents s = (ps, r) \<Longrightarrow>
    primary_step N s (s\<lparr>pn_waiting := False, pn_parents := pn_parents s + 1,
      pn_proposer := propose_select (CoreParents ps r) (pn_proposer s)\<rparr>)"
| propose_digest: "pn_waiting s \<Longrightarrow> pn_our_digests s = (d, w) # rest \<Longrightarrow>
    primary_step N s (s\<lparr>pn_waiting := False, pn_our_digests := rest, pn_proposer := propose_select (OwnDigest d w) (pn_proposer s)\<rparr>)"
| propose_timer: "pn_waiting s \<Longrightarrow> deadline (pn_proposer s) \<le> now \<Longrightarrow>
    primary_step N s (s\<lparr>pn_waiting := False, pn_proposer := propose_select TimerFired (pn_proposer s)\<rparr>)"
| collect: "pn_committed s = x # rest \<Longrightarrow>
    primary_step N s (s\<lparr>pn_committed := rest, pn_gc := gc_receive x (pn_gc s)\<rparr>)"
| help_peer: "pn_requests s = req # rest \<Longrightarrow> helper_request N (pn_store s) req (pn_replies s) = Inr out \<Longrightarrow>
    primary_step N s (s\<lparr>pn_requests := rest, pn_replies := out\<rparr>)"

definition primary_feed :: "certificate list \<Rightarrow> 'db primary_node \<Rightarrow> 'db primary_node" where
  "primary_feed xs s = s\<lparr>pn_committed := pn_committed s @ xs\<rparr>"

definition primary_move :: "'db node \<Rightarrow> 'db primary_node \<Rightarrow> 'db primary_node \<Rightarrow> bool" where
  "primary_move N s s' \<longleftrightarrow> primary_step N s s' \<or> (\<exists>xs. s' = primary_feed xs s)"

text \<open>The garbage collection depth of the parameters is the field \<open>gc_depth_of\<close> of the node.\<close>

definition primary_reach :: "'db node \<Rightarrow> parameters \<Rightarrow> 'db primary_node \<Rightarrow> bool" where
  "primary_reach N p s \<longleftrightarrow> gc_depth_of N = par_gc_depth p \<and> (\<exists>d now s0. (\<forall>k. store_read N k (store_new d) = Inr None)
     \<and> primary_spawn N p d now = Inr s0 \<and> (primary_move N)\<^sup>*\<^sup>* s0 s)"

section \<open>What the tasks keep together\<close>

lemma take_grows: "prefix xs ys \<Longrightarrow> n \<le> length xs \<Longrightarrow> take n ys = take n xs \<and> n \<le> length ys"
  by (auto simp: prefix_def)

text \<open>The inputs of the proposer, as the trace that \<open>prop_inv\<close> is about.\<close>

definition our_batches :: "worker_primary_message list \<Rightarrow> (digest \<times> worker_id) list" where
  "our_batches ws = concat (map (\<lambda>m. case m of OurBatch d w \<Rightarrow> [(d, w)] | OthersBatch d w \<Rightarrow> []) ws)"

definition proposer_fed :: "'db node \<Rightarrow> 'db primary_node \<Rightarrow> bool" where
  "proposer_fed N s \<longleftrightarrow> (\<exists>es. prop_inv N es (pn_proposer s) \<and> quorums es = set (take (pn_parents s) (tx_proposer (pn_core s)))
     \<and> own_digests es @ pn_our_digests s = our_batches (pn_workers s))"

definition tasks_inv :: "'db node \<Rightarrow> 'db primary_node \<Rightarrow> bool" where
  "tasks_inv N s \<longleftrightarrow> quorum_inv N (pn_core s)
     \<and> pn_sync_headers s \<le> length (to_header_waiter s) \<and> pn_sync_certificates s \<le> length (to_certificate_waiter s)
     \<and> pn_parents s \<le> length (tx_proposer (pn_core s))
     \<and> hw_inv N (take (pn_sync_headers s) (to_header_waiter s)) (pn_store s) (pn_hw s)
     \<and> cw_inv N (take (pn_sync_certificates s) (to_certificate_waiter s)) (pn_store s) (pn_cw s)
     \<and> proposer_fed N s \<and> set (pn_messages s) \<subseteq> set (pn_network s) \<and> gc_inv (pn_gc s)"

lemma cw_inv_grows:
  "cw_inv N xs st s \<Longrightarrow> (\<And>k. st.has N k st \<Longrightarrow> st.has N k st') \<Longrightarrow> cw_inv N xs st' s"
  by (auto simp: cw_inv_def)

text \<open>A step that only changes the core, in a way in which the channels and the store grow.\<close>

lemma tasks_inv_core:
  assumes I: "tasks_inv N s" and grows: "core_grows N (pn_core s) c" and q: "quorum_inv N c"
    and s': "pn_core s' = c" "pn_sync_headers s' = pn_sync_headers s" "pn_sync_certificates s' = pn_sync_certificates s"
      "pn_parents s' = pn_parents s" "pn_hw s' = pn_hw s" "pn_cw s' = pn_cw s" "pn_proposer s' = pn_proposer s"
      "pn_our_digests s' = pn_our_digests s" "pn_workers s' = pn_workers s" "pn_gc s' = pn_gc s"
      "set (pn_messages s') \<subseteq> set (pn_network s')"
  shows "tasks_inv N s'"
proof -
  have le: "pn_sync_headers s \<le> length (to_header_waiter s)" "pn_sync_certificates s \<le> length (to_certificate_waiter s)"
    "pn_parents s \<le> length (tx_proposer (pn_core s))" using I by (auto simp: tasks_inv_def)
  have hs: "prefix (to_header_waiter s) (tx_header_waiter (core_sync c))" and cs: "prefix (to_certificate_waiter s) (tx_certificate_waiter (core_sync c))"
    and ps: "prefix (tx_proposer (pn_core s)) (tx_proposer c)" and st: "\<And>k. st.has N k (pn_store s) \<Longrightarrow> st.has N k (core_store c)"
    using grows by (auto simp: core_grows_def)
  have "hw_inv N (take (pn_sync_headers s) (tx_header_waiter (core_sync c))) (core_store c) (pn_hw s)"
    using I take_grows [OF hs le(1)] by (auto simp: tasks_inv_def intro: hw_inv_grows st)
  moreover have "cw_inv N (take (pn_sync_certificates s) (tx_certificate_waiter (core_sync c))) (core_store c) (pn_cw s)"
    using I take_grows [OF cs le(2)] by (auto simp: tasks_inv_def intro: cw_inv_grows st)
  moreover have "proposer_fed N s'"
    using I take_grows [OF ps le(3)] s' by (auto simp: tasks_inv_def proposer_fed_def)
  ultimately show ?thesis
    using I q s' take_grows [OF hs le(1)] take_grows [OF cs le(2)] take_grows [OF ps le(3)] by (simp add: tasks_inv_def)
qed

lemma tasks_inv_turn:
  assumes I: "tasks_inv N s" and ok: "rocks_ok N" and turn: "core_turn N (ev, rnd) (pn_core s) = Inr c"
    and s': "pn_core s' = c" "pn_sync_headers s' = pn_sync_headers s" "pn_sync_certificates s' = pn_sync_certificates s"
      "pn_parents s' = pn_parents s" "pn_hw s' = pn_hw s" "pn_cw s' = pn_cw s" "pn_proposer s' = pn_proposer s"
      "pn_our_digests s' = pn_our_digests s" "pn_workers s' = pn_workers s" "pn_gc s' = pn_gc s"
      "set (pn_messages s') \<subseteq> set (pn_network s')"
  shows "tasks_inv N s'"
  by (rule tasks_inv_core [OF I core_turn_grows [OF ok turn] _ s'], rule quorum_inv_turn [OF _ turn])
    (use I in \<open>simp add: tasks_inv_def\<close>)

lemma proposer_fed_select:
  assumes fed: "proposer_fed N s" and small: "\<forall>ps r. e = CoreParents ps r \<longrightarrow> r + 1 \<noteq> 0"
    and s': "pn_proposer s' = propose_select e (pn_proposer s)"
      "set (take (pn_parents s') (tx_proposer (pn_core s'))) = set (take (pn_parents s) (tx_proposer (pn_core s)))
         \<union> (case e of CoreParents ps r \<Rightarrow> {(ps, r)} | _ \<Rightarrow> {})"
      "pn_our_digests s = (case e of OwnDigest d w \<Rightarrow> [(d, w)] | _ \<Rightarrow> []) @ pn_our_digests s'" "pn_workers s' = pn_workers s"
  shows "proposer_fed N s'"
proof -
  obtain es where es: "prop_inv N es (pn_proposer s)" "quorums es = set (take (pn_parents s) (tx_proposer (pn_core s)))"
    "own_digests es @ pn_our_digests s = our_batches (pn_workers s)" using fed by (auto simp: proposer_fed_def)
  have "prop_inv N (es @ [(0, e)]) (pn_proposer s')" unfolding s'(1) by (rule propose_select_inv [OF es(1) small])
  moreover have "quorums (es @ [(0, e)]) = quorums es \<union> (case e of CoreParents ps r \<Rightarrow> {(ps, r)} | _ \<Rightarrow> {})"
    by (auto simp: quorums_def split: p_event.split)
  moreover have "own_digests (es @ [(0, e)]) @ pn_our_digests s' = own_digests es @ pn_our_digests s"
    using s'(3) by (simp add: own_digests_def)
  ultimately show ?thesis using es(2,3) s'(2,4) unfolding proposer_fed_def by (intro exI [of _ "es @ [(0, e)]"]) simp
qed


lemma tasks_inv_same:
  assumes I: "tasks_inv N s" and s': "pn_core s' = pn_core s" "pn_sync_headers s' = pn_sync_headers s"
      "pn_sync_certificates s' = pn_sync_certificates s" "pn_parents s' = pn_parents s" "pn_hw s' = pn_hw s" "pn_cw s' = pn_cw s"
      "proposer_fed N s'" "set (pn_messages s') \<subseteq> set (pn_network s')" "gc_inv (pn_gc s')"
  shows "tasks_inv N s'"
  using assms by (simp add: tasks_inv_def)

lemma proposer_fed_same:
  "proposer_fed N s \<Longrightarrow> pn_core s' = pn_core s \<Longrightarrow> pn_parents s' = pn_parents s \<Longrightarrow> pn_proposer s' = pn_proposer s \<Longrightarrow>
   pn_our_digests s' = pn_our_digests s \<Longrightarrow> pn_workers s' = pn_workers s \<Longrightarrow> proposer_fed N s'"
  by (simp add: proposer_fed_def)

lemma dispatch_messages:
  "primary_dispatch m (ms, rs) = (ms', rs') \<Longrightarrow> set ms' \<subseteq> insert m (set ms)"
  by (cases m) (auto simp: primary_dispatch_def)

lemma worker_digests:
  "worker_dispatch w (ours, others) = (ours', others') \<Longrightarrow> ours' = ours @ our_batches [w]"
  by (cases w) (auto simp: worker_dispatch_def our_batches_def)

lemma our_batches_snoc: "our_batches (ws @ [w]) = our_batches ws @ our_batches [w]"
  by (simp add: our_batches_def)

lemma gc_receive_inv: "gc_inv s \<Longrightarrow> gc_inv (gc_receive x s)"
  by (simp add: gc_inv_def gc_receive_def Let_def)

text \<open>The round of an entry for the proposer is the round of certificates that were delivered.\<close>

lemma quorum_entry_round:
  assumes "quorum_entry N xs (ps, r)" "quorum_threshold (committee_of N) \<noteq> 0"
  shows "r \<in> cert_round ` set xs \<and> ps \<noteq> []"
proof -
  obtain cs where cs: "round_of xs r cs" "ps = map (cert_digest (lib N)) cs" "quorum_threshold (committee_of N) \<le> stake_sum (committee_of N) cs"
    using assms(1) by (auto simp: quorum_entry_def)
  have "cs \<noteq> []"
  proof
    assume "cs = []"
    with cs(3) assms(2) show False by (simp add: stake_sum_def)
  qed
  with cs show ?thesis by (cases cs) (auto simp: round_of_def)
qed

definition rounds_small :: "'db core \<Rightarrow> bool" where
  "rounds_small s \<longleftrightarrow> (\<forall>x \<in> set (tx_consensus s). cert_round x + 1 \<noteq> 0)"

lemma tasks_inv_step:
  assumes step: "primary_step N s s'" and I: "tasks_inv N s" and ok: "rocks_ok N"
    and q: "quorum_threshold (committee_of N) \<noteq> 0" and small: "rounds_small (pn_core s)"
  shows "tasks_inv N s'"
proof -
  have fed: "proposer_fed N s" and msgs: "set (pn_messages s) \<subseteq> set (pn_network s)" and gc: "gc_inv (pn_gc s)"
    and qi: "quorum_inv N (pn_core s)"
    and hw: "hw_inv N (take (pn_sync_headers s) (to_header_waiter s)) (pn_store s) (pn_hw s)"
    and cw: "cw_inv N (take (pn_sync_certificates s) (to_certificate_waiter s)) (pn_store s) (pn_cw s)"
    using I by (auto simp: tasks_inv_def)
  from step show ?thesis
  proof cases
    case (from_network m ms rs)
    then show ?thesis using dispatch_messages [OF from_network(2)] msgs gc
      by (intro tasks_inv_same [OF I]) (auto intro: proposer_fed_same [OF fed])
  next
    case (from_worker w ours others)
    have "proposer_fed N s'" using fed worker_digests [OF from_worker(2)] from_worker(1)
      by (auto simp: proposer_fed_def our_batches_snoc)
    then show ?thesis using from_worker(1) msgs gc by (intro tasks_inv_same [OF I]) auto
  next
    case (core_message m rest c)
    then show ?thesis using msgs by (intro tasks_inv_turn [OF I ok core_message(3)]) auto
  next
    case (core_header c)
    then show ?thesis using msgs by (intro tasks_inv_turn [OF I ok core_header(3)]) auto
  next
    case (core_certificate c)
    then show ?thesis using msgs by (intro tasks_inv_turn [OF I ok core_certificate(3)]) auto
  next
    case (core_own c)
    then show ?thesis using msgs by (intro tasks_inv_turn [OF I ok core_own(3)]) auto
  next
    case (payload e rest)
    have "core_grows N (pn_core s) ((pn_core s)\<lparr>core_store := payload_receive N e (pn_store s)\<rparr>)"
      using payload_receive_has(2) [OF ok] by (simp add: core_grows_def)
    moreover have "quorum_inv N ((pn_core s)\<lparr>core_store := payload_receive N e (pn_store s)\<rparr>)" using qi by (simp add: quorum_inv_def)
    ultimately show ?thesis using payload(1) msgs by (intro tasks_inv_core [OF I]) auto
  next
    case (sync_header now w)
    have "hw_inv N (take (pn_sync_headers s) (to_header_waiter s) @ [to_header_waiter s ! pn_sync_headers s]) (pn_store s) w"
      using hw_turn_inv [OF hw _ sync_header(3)] by simp
    then show ?thesis using I sync_header(1,2)
      by (auto simp: tasks_inv_def take_Suc_conv_app_nth intro: proposer_fed_same)
  next
    case (header_future e w)
    have "(case e of HwMessage m now \<Rightarrow> [m] | _ \<Rightarrow> []) = []" using header_future(2) by (cases e) auto
    then have "hw_inv N (take (pn_sync_headers s) (to_header_waiter s)) (pn_store s) w"
      using hw_turn_inv [OF hw header_future(3,4)] by simp
    then show ?thesis using I header_future(1) by (auto simp: tasks_inv_def intro: proposer_fed_same)
  next
    case sync_certificate
    have "cw_inv N (take (pn_sync_certificates s) (to_certificate_waiter s) @ [to_certificate_waiter s ! pn_sync_certificates s])
        (pn_store s) (cw_receive (to_certificate_waiter s ! pn_sync_certificates s) (pn_cw s))"
      using cw by (auto simp: cw_inv_def cw_receive_def)
    then show ?thesis using I sync_certificate
      by (auto simp: tasks_inv_def take_Suc_conv_app_nth intro: proposer_fed_same)
  next
    case (certificate_future i w)
    then show ?thesis using I cw_next_inv [OF cw certificate_future(2,3,4)] by (auto simp: tasks_inv_def intro: proposer_fed_same)
  next
    case (propose now p)
    obtain es where es: "prop_inv N es (pn_proposer s)" "quorums es = set (take (pn_parents s) (tx_proposer (pn_core s)))"
      "own_digests es @ pn_our_digests s = our_batches (pn_workers s)" using fed by (auto simp: proposer_fed_def)
    have "prop_inv N es p" using propose_check_inv [OF es(1), of now] propose(3) by auto
    then have "proposer_fed N s'" using es(2,3) propose(1) by (auto simp: proposer_fed_def)
    then show ?thesis using propose(1) msgs gc by (intro tasks_inv_same [OF I]) auto
  next
    case (propose_parents ps r)
    have "(ps, r) \<in> set (tx_proposer (pn_core s))" using propose_parents(3,4) nth_mem by metis
    then have "quorum_entry N (tx_consensus (pn_core s)) (ps, r)" using qi by (simp add: quorum_inv_def)
    then have "r + 1 \<noteq> 0" using quorum_entry_round [OF _ q] small by (auto simp: rounds_small_def)
    then have "proposer_fed N s'"
      using propose_parents by (intro proposer_fed_select [OF fed, of "CoreParents ps r"]) (auto simp: take_Suc_conv_app_nth)
    then show ?thesis using I propose_parents(1,3) by (simp add: tasks_inv_def)
  next
    case (propose_digest d w rest)
    then have "proposer_fed N s'" by (intro proposer_fed_select [OF fed, of "OwnDigest d w"]) auto
    then show ?thesis using propose_digest(1) msgs gc by (intro tasks_inv_same [OF I]) auto
  next
    case (propose_timer now)
    then have "proposer_fed N s'" by (intro proposer_fed_select [OF fed, of TimerFired]) auto
    then show ?thesis using propose_timer(1) msgs gc by (intro tasks_inv_same [OF I]) auto
  next
    case (collect x rest)
    then show ?thesis using msgs gc by (intro tasks_inv_same [OF I]) (auto intro: proposer_fed_same [OF fed] gc_receive_inv)
  next
    case (help_peer req rest out)
    then show ?thesis using msgs gc by (intro tasks_inv_same [OF I]) (auto intro: proposer_fed_same [OF fed])
  qed
qed

lemma tasks_inv_feed: "tasks_inv N s \<Longrightarrow> tasks_inv N (primary_feed xs s)"
  by (simp add: tasks_inv_def proposer_fed_def primary_feed_def)

lemma tasks_inv_spawn:
  assumes "primary_spawn N p d now = Inr s"
  shows "tasks_inv N s"
proof -
  have "prop_inv N [] (proposer_new N hsize delay now)" for hsize delay
    by (auto simp: prop_inv_def proposer_new_def own_digests_def Let_def)
  then have "proposer_fed N s"
    using assms by (auto simp: primary_spawn_def bindR_Inr_iff proposer_fed_def our_batches_def quorums_def own_digests_def
        intro!: exI [of _ "[]"])
  moreover have "gc_inv (pn_gc s)"
    using assms by (auto simp: primary_spawn_def bindR_Inr_iff garbage_collector_spawn_def gc_inv_def split: sum.splits)
  ultimately show ?thesis
    using assms by (auto simp: primary_spawn_def bindR_Inr_iff tasks_inv_def quorum_inv_def core_new_def synchronizer_new_def
        hw_inv_def header_waiter_new_def cw_inv_def certificate_waiter_new_def)
qed


section \<open>What the primary has seen\<close>

fun message_headers :: "primary_message \<Rightarrow> header list" where
  "message_headers (PHeader h) = [h]"
| "message_headers (PCertificate x) = [c_header x]"
| "message_headers m = []"

text \<open>The headers of the messages that pass the checks, and the own ones; then those that name parents.\<close>

definition seen_headers :: "'db node \<Rightarrow> 'db primary_node \<Rightarrow> header list" where
  "seen_headers N s = concat (map message_headers (filter (passes N) (pn_network s))) @ p_core (pn_proposer s)"

definition linked_headers :: "'db node \<Rightarrow> 'db primary_node \<Rightarrow> header set" where
  "linked_headers N s = {h \<in> set (seen_headers N s). h_parents h \<noteq> []}"

text \<open>
  \<open>H\<close> has the headers with parents that the primary has seen, and the digests of certificates are apart from their ids:
  those of the certificates that were delivered, and those that an accepted certificate of the network names as its parents.
\<close>

definition run_apart :: "'db node \<Rightarrow> header set \<Rightarrow> 'db primary_node \<Rightarrow> bool" where
  "run_apart N H s \<longleftrightarrow> linked_headers N s \<subseteq> H
     \<and> (\<forall>x. PCertificate x \<in> set (pn_network s) \<and> passes N (PCertificate x) \<longrightarrow>
          (\<forall>d \<in> set (h_parents (c_header x)). is_genesis N d \<or> d \<notin> h_id ` H))
     \<and> (\<forall>x \<in> set (tx_consensus (pn_core s)). cert_digest (lib N) x \<notin> h_id ` H) \<and> rounds_small (pn_core s)"

definition primary_grows :: "'db primary_node \<Rightarrow> 'db primary_node \<Rightarrow> bool" where
  "primary_grows s s' \<longleftrightarrow> prefix (pn_network s) (pn_network s') \<and> prefix (p_core (pn_proposer s)) (p_core (pn_proposer s'))
     \<and> prefix (tx_consensus (pn_core s)) (tx_consensus (pn_core s'))"

lemma propose_grows:
  "propose_check N now q = Inr q' \<Longrightarrow> prefix (p_core q) (p_core q')" "p_core (propose_select e q) = p_core q"
  by (auto simp: propose_check_def make_header_def Let_def bindR_Inr_iff split: if_splits) (cases e; simp)

lemma primary_step_grows:
  assumes "primary_step N s s'" "rocks_ok N"
  shows "primary_grows s s'"
  using assms
proof (induction rule: primary_step.induct)
  case (propose s now q)
  then show ?case using propose_grows(1) by (auto simp: primary_grows_def)
qed (auto simp: primary_grows_def propose_grows(2) simp del: propose_select.simps dest: core_turn_grows [unfolded core_grows_def])

lemma primary_move_grows: "primary_move N s s' \<Longrightarrow> rocks_ok N \<Longrightarrow> primary_grows s s'"
  using primary_step_grows [of N s s'] by (auto simp: primary_move_def primary_feed_def primary_grows_def)

lemma prefix_set: "prefix xs ys \<Longrightarrow> set xs \<subseteq> set ys"
  by (auto simp: prefix_def)

lemma run_apart_back:
  assumes "primary_grows s s'" "run_apart N H s'"
  shows "run_apart N H s"
proof -
  have sub: "set (pn_network s) \<subseteq> set (pn_network s')" "set (p_core (pn_proposer s)) \<subseteq> set (p_core (pn_proposer s'))"
    "set (tx_consensus (pn_core s)) \<subseteq> set (tx_consensus (pn_core s'))"
    using assms(1) by (auto simp: primary_grows_def dest: prefix_set)
  then have "linked_headers N s \<subseteq> linked_headers N s'" by (auto simp: linked_headers_def seen_headers_def)
  with assms(2) sub show ?thesis unfolding run_apart_def rounds_small_def by blast
qed

text \<open>The parents of an own header: the genesis, or a quorum of certificates that were delivered.\<close>

lemma own_header_parents:
  assumes I: "tasks_inv N s" and h: "h \<in> set (p_core (pn_proposer s))"
  shows "h_author h = my_name N \<and> (\<exists>ps r. h_round h = r + 1 \<and> h_parents h = btree_set ps \<and> ps \<noteq> []
    \<and> ((ps, r) = (map (cert_digest (lib N)) (genesis (committee_of N)), 0) \<or> quorum_entry N (tx_consensus (pn_core s)) (ps, r)))"
proof -
  obtain es where es: "prop_inv N es (pn_proposer s)" "quorums es = set (take (pn_parents s) (tx_proposer (pn_core s)))"
    using I by (auto simp: tasks_inv_def proposer_fed_def)
  let ?Q = "insert (map (cert_digest (lib N)) (genesis (committee_of N)), 0) (quorums es)"
  obtain chunks where "list_all2 (own_header_of N ?Q) chunks (p_core (pn_proposer s))"
    using es(1) by (auto simp: prop_inv_def Let_def)
  then obtain chunk where "own_header_of N ?Q chunk h" using list_all2_in [OF _ h] by blast
  then obtain ps r where ps: "(ps, r) \<in> ?Q" "ps \<noteq> []"
    "h = header_new (lib N) (my_secret N) (my_name N) (r + 1) (btree_map chunk) (btree_set ps)" by (auto simp: own_header_of_def)
  have "quorum_entry N (tx_consensus (pn_core s)) p" if "p \<in> quorums es" for p
    using that es(2) I by (auto simp: tasks_inv_def quorum_inv_def dest: in_set_takeD)
  with ps show ?thesis by (intro conjI exI [of _ ps] exI [of _ r]) auto
qed

lemma own_header_apart:
  assumes I: "tasks_inv N s" and ap: "run_apart N H s" and h: "h \<in> set (p_core (pn_proposer s))"
  shows "apart N H h"
proof -
  obtain ps r where ps: "h_parents h = btree_set ps"
    "(ps, r) = (map (cert_digest (lib N)) (genesis (committee_of N)), 0) \<or> quorum_entry N (tx_consensus (pn_core s)) (ps, r)"
    using own_header_parents [OF I h] by blast
  have "is_genesis N d \<or> d \<notin> h_id ` H" if d: "d \<in> set ps" for d
    using ps(2)
  proof
    assume "(ps, r) = (map (cert_digest (lib N)) (genesis (committee_of N)), 0)"
    with d show ?thesis by (auto simp: is_genesis_def sync_genesis_def image_image)
  next
    assume "quorum_entry N (tx_consensus (pn_core s)) (ps, r)"
    then obtain cs where "round_of (tx_consensus (pn_core s)) r cs" "ps = map (cert_digest (lib N)) cs" by (auto simp: quorum_entry_def)
    with d obtain x where "x \<in> set (tx_consensus (pn_core s))" "d = cert_digest (lib N) x" by (auto simp: round_of_def)
    with ap show ?thesis by (auto simp: run_apart_def)
  qed
  moreover have "labelled H h" using ap h by (auto simp: run_apart_def linked_headers_def seen_headers_def labelled_def)
  ultimately show ?thesis using ps(1) by (simp add: apart_def)
qed

section \<open>The core inside the primary\<close>

lemma waiter_certificates:
  assumes I: "tasks_inv N s" and x: "x \<in> set (cw_core (pn_cw s))"
  shows "x \<in> set (to_certificate_waiter s)"
proof -
  have "mset (map snd (cw_waiting (pn_cw s))) + mset (cw_core (pn_cw s)) = mset (take (pn_sync_certificates s) (to_certificate_waiter s))"
    using I unfolding tasks_inv_def cw_inv_def by (elim conjE)
  then have "set_mset (mset (map snd (cw_waiting (pn_cw s))) + mset (cw_core (pn_cw s)))
    = set (take (pn_sync_certificates s) (to_certificate_waiter s))" by (simp only: set_mset_mset)
  then have "x \<in> set (take (pn_sync_certificates s) (to_certificate_waiter s))" using x by auto
  then show ?thesis by (auto dest: in_set_takeD)
qed

text \<open>What the waiters and the proposer hand to the core needs no hypothesis: it came from the core.\<close>

lemma core_event_apart:
  assumes I: "tasks_inv N s" and nd: "node_inv N H (pn_core s)" and ap: "run_apart N H s"
  shows "m \<in> set (pn_messages s) \<Longrightarrow> apart_event N H (CoreTurn (FromPrimaries m) rnd)"
    and "h \<in> set (hw_core (pn_hw s)) \<Longrightarrow> apart_event N H (CoreTurn (FromHeaderWaiter h) rnd)"
    and "x \<in> set (cw_core (pn_cw s)) \<Longrightarrow> apart_event N H (CoreTurn (FromCertificateWaiter x) rnd)"
    and "g \<in> set (p_core (pn_proposer s)) \<Longrightarrow> apart_event N H (CoreTurn (FromProposer g) rnd)"
proof -
  have ids: "labelled H h" if "h \<in> set (seen_headers N s)" for h
    using that ap by (auto simp: run_apart_def linked_headers_def labelled_def)
  have hw: "hw_inv N (take (pn_sync_headers s) (to_header_waiter s)) (pn_store s) (pn_hw s)"
    using I by (auto simp: tasks_inv_def)
  show "apart_event N H (CoreTurn (FromPrimaries m) rnd)" if m: "m \<in> set (pn_messages s)"
  proof -
    have net: "m \<in> set (pn_network s)" using m I by (auto simp: tasks_inv_def)
    have "h \<in> set (seen_headers N s)" if "passes N m" "h \<in> set (message_headers m)" for h
      using that net by (auto simp: seen_headers_def)
    with ids net ap show ?thesis by (cases m) (auto simp: apart_def run_apart_def)
  qed
  show "apart_event N H (CoreTurn (FromHeaderWaiter h) rnd)" if h: "h \<in> set (hw_core (pn_hw s))"
  proof -
    obtain m where "m \<in> set (take (pn_sync_headers s) (to_header_waiter s))" "message_header m = h"
      using hw h unfolding hw_inv_def by metis
    then have "m \<in> set (to_header_waiter s)" "message_header m = h" by (auto dest: in_set_takeD)
    with nd show ?thesis by (auto simp: node_inv_def)
  qed
  show "apart_event N H (CoreTurn (FromCertificateWaiter x) rnd)" if "x \<in> set (cw_core (pn_cw s))"
  proof -
    have "x \<in> set (to_certificate_waiter s)" by (rule waiter_certificates [OF I that])
    with nd show ?thesis by (auto simp: node_inv_def)
  qed
  show "apart_event N H (CoreTurn (FromProposer g) rnd)" if "g \<in> set (p_core (pn_proposer s))"
    using own_header_apart [OF I ap that] by (auto simp: apart_def)
qed

lemma node_inv_step:
  assumes step: "primary_step N s s'" and I: "tasks_inv N s" and nd: "node_inv N H (pn_core s)" and ap: "run_apart N H s"
  shows "node_inv N H (pn_core s')"
proof -
  note ev = core_event_apart [OF I nd ap]
  from step show ?thesis
  proof cases
    case (core_message m rest c)
    then show ?thesis using node_inv_turn [OF nd ev(1) core_message(3)] by simp
  next
    case (core_header c)
    then show ?thesis using node_inv_turn [OF nd ev(2) core_header(3)] by simp
  next
    case (core_certificate c)
    then show ?thesis using node_inv_turn [OF nd ev(3) core_certificate(3)] by simp
  next
    case (core_own c)
    then show ?thesis using node_inv_turn [OF nd ev(4) core_own(3)] by simp
  next
    case (payload e rest)
    then show ?thesis using node_inv_payload [OF nd, of "fst e" "snd e"] by simp
  qed (use nd in simp_all)
qed

lemma primary_reach_inv:
  assumes "primary_reach N p s" "rocks_ok N" "codec_ok N" "quorum_threshold (committee_of N) \<noteq> 0" "run_apart N H s"
  shows "tasks_inv N s \<and> node_inv N H (pn_core s)"
proof -
  obtain d now s0 where start: "\<forall>k. store_read N k (store_new d) = Inr None" "primary_spawn N p d now = Inr s0"
    and run: "(primary_move N)\<^sup>*\<^sup>* s0 s" using assms(1) by (auto simp: primary_reach_def)
  from run assms(5) show ?thesis
  proof (induction rule: rtranclp_induct)
    case base
    have "pn_core s0 = core_new d" using start(2) by (auto simp: primary_spawn_def bindR_Inr_iff)
    then show ?case using tasks_inv_spawn [OF start(2)] node_inv_new [OF assms(2,3) start(1)] by simp
  next
    case (step s s')
    have ap: "run_apart N H s" by (rule run_apart_back [OF primary_move_grows [OF step(2) assms(2)] step(4)])
    then have small: "rounds_small (pn_core s)" by (simp add: run_apart_def)
    have I: "tasks_inv N s" "node_inv N H (pn_core s)" using step(3) [OF ap] by auto
    from step(2) consider "primary_step N s s'" | xs where "s' = primary_feed xs s" by (auto simp: primary_move_def)
    then show ?case
    proof cases
      case 1
      with I ap small assms(2,4) tasks_inv_step [OF 1] node_inv_step [OF 1] show ?thesis by blast
    next
      case (2 xs)
      with I tasks_inv_feed [OF I(1)] show ?thesis by (simp add: primary_feed_def)
    qed
  qed
qed


text \<open>A certificate that the core delivers was received and passed the checks, or is for an own header.\<close>

definition cert_headers :: "'db node \<Rightarrow> 'db primary_node \<Rightarrow> header set" where
  "cert_headers N s = {header_default} \<union> {c_header x | x. PCertificate x \<in> set (pn_network s) \<and> passes N (PCertificate x)}
     \<union> set (p_core (pn_proposer s))"

lemma cert_headers_grow: "primary_grows s s' \<Longrightarrow> cert_headers N s \<subseteq> cert_headers N s'"
  by (auto simp: primary_grows_def cert_headers_def dest: prefix_set)

lemma origin_inv_step:
  assumes step: "primary_step N s s'" and I: "tasks_inv N s" and og: "origin_inv H (pn_core s)" and H: "cert_headers N s \<subseteq> H"
  shows "origin_inv H (pn_core s')"
proof -
  have received: "h \<in> H" if m: "m \<in> set (pn_messages s)" "event_certificate (FromPrimaries m) = Some h" "passes N m" for m h
  proof -
    obtain x where "m = PCertificate x" "h = c_header x" using m(2) by (cases m) auto
    moreover have "m \<in> set (pn_network s)" using m(1) I by (auto simp: tasks_inv_def)
    ultimately have "h \<in> cert_headers N s" using m(3) unfolding cert_headers_def by blast
    with H show ?thesis by blast
  qed
  have own: "h \<in> H" if "h \<in> set (p_core (pn_proposer s))" for h using that H by (auto simp: cert_headers_def)
  from step show ?thesis
  proof cases
    case (core_message m rest c)
    have "m \<in> set (pn_messages s)" using core_message(2) by simp
    then have "origin_inv H c" by (intro origin_inv_turn [OF og core_message(3)]) (use received in blast)
    with core_message(1) show ?thesis by simp
  next
    case (core_header c)
    then show ?thesis using origin_inv_turn [OF og core_header(3)] by simp
  next
    case (core_certificate c)
    have "c_header (cw_core (pn_cw s) ! pn_certificates_loopback s) \<in> H"
      using og waiter_certificates [OF I nth_mem [OF core_certificate(2)]] by (simp add: origin_inv_def)
    with core_certificate show ?thesis using origin_inv_turn [OF og core_certificate(3)] by simp
  next
    case (core_own c)
    with own [OF nth_mem [OF core_own(2)]] show ?thesis using origin_inv_turn [OF og core_own(3)] by simp
  qed (use og in \<open>simp_all add: origin_inv_def\<close>)
qed

lemma primary_reach_origin:
  assumes reach: "primary_reach N p s" and ok: "rocks_ok N" "codec_ok N" "quorum_threshold (committee_of N) \<noteq> 0" and ap: "run_apart N H0 s"
  shows "\<forall>x \<in> set (tx_consensus (pn_core s)). c_header x \<in> cert_headers N s"
proof -
  obtain d now s0 where start: "\<forall>k. store_read N k (store_new d) = Inr None" "primary_spawn N p d now = Inr s0"
    and run: "(primary_move N)\<^sup>*\<^sup>* s0 s" and par: "gc_depth_of N = par_gc_depth p" using reach by (auto simp: primary_reach_def)
  have "run_apart N H0 s \<longrightarrow> cert_headers N s \<subseteq> H \<longrightarrow> origin_inv H (pn_core s)" for H
    using run
  proof (induction rule: rtranclp_induct)
    case base
    have "pn_core s0 = core_new d" using start(2) by (auto simp: primary_spawn_def bindR_Inr_iff)
    then show ?case by (auto simp: origin_inv_def core_new_def synchronizer_new_def cert_headers_def)
  next
    case (step s s')
    show ?case
    proof (intro impI)
      assume ap: "run_apart N H0 s'" and H: "cert_headers N s' \<subseteq> H"
      note grows = primary_move_grows [OF step(2) ok(1)]
      have ap': "run_apart N H0 s" by (rule run_apart_back [OF grows ap])
      have H': "cert_headers N s \<subseteq> H" using cert_headers_grow [OF grows] H by blast
      have "primary_reach N p s" using start step(1) par unfolding primary_reach_def by blast
      then have I: "tasks_inv N s" using primary_reach_inv [OF _ ok ap'] by blast
      from step(2) consider "primary_step N s s'" | xs where "s' = primary_feed xs s" by (auto simp: primary_move_def)
      then show "origin_inv H (pn_core s')"
      proof cases
        case 1
        with origin_inv_step [OF 1 I] step(3) ap' H' show ?thesis by blast
      next
        case (2 xs)
        with step(3) ap' H' show ?thesis by (simp add: primary_feed_def)
      qed
    qed
  qed
  with ap show ?thesis by (simp add: origin_inv_def)
qed

section \<open>What the primary vouches for\<close>

lemma genesis_origins: "map cert_origin (genesis c) = map fst (authorities c)"
  by (simp add: genesis_def comp_def cert_origin_def header_default_def split_beta)

lemma genesis_quorum:
  assumes "sane_stake c" "0 < total_stake c"
  shows "quorum_threshold c \<le> stake_sum c (genesis c)"
proof -
  have d: "distinct (map cert_origin (genesis c))" using assms(1) wf_distinct by (simp add: genesis_origins sane_stake_def)
  have "unat (stake_sum c (genesis c)) = sum (stake_nat c) (set (map cert_origin (genesis c)))"
    using sum_list_stake_unat [OF assms(1) d] by (simp add: stake_sum_def)
  also have "set (map cert_origin (genesis c)) = members c" by (simp only: genesis_origins members_def set_map)
  finally have u: "unat (stake_sum c (genesis c)) = sum (stake_nat c) (members c)" .
  have "sum (stake_nat c) (members c) = total_stake c" using assms(1) members_total by (simp add: sane_stake_def)
  with com.quorum_le [OF assms(1)] assms(2) u show ?thesis by (simp add: word_le_nat_alt)
qed

text \<open>The digests of distinct certificates, in the order of the \<open>BTreeSet\<close>.\<close>

lemma btree_set_digests:
  assumes "inj_on f (set cs)" "distinct cs"
  shows "btree_set (map f cs) = map f (sort_key f cs)"
proof -
  have "distinct (map f cs)" using assms by (simp add: distinct_map)
  moreover have "sort (map f cs) = map f (sort_key f cs)" by (rule properties_for_sort) simp_all
  ultimately show ?thesis by (simp add: btree_set_def distinct_remdups_id)
qed

lemma vouched_sorted:
  assumes inj: "inj_on (cert_digest L) P" and cs: "set cs \<subseteq> P" "distinct cs" "\<forall>x \<in> set cs. cert_round x = r"
    and q: "quorum_threshold c \<le> stake_sum c cs"
    and h: "h_round h = r + 1" "h_parents h = btree_set (map (cert_digest L) cs)"
  shows "vouched L c P h"
proof -
  let ?ps = "sort_key (cert_digest L) cs"
  have "stake_sum c ?ps = stake_sum c cs"
    unfolding stake_sum_def sum_mset_sum_list [symmetric] by simp
  moreover have "map (cert_digest L) ?ps = h_parents h"
    unfolding h(2) by (rule btree_set_digests [symmetric]) (use inj cs in \<open>auto intro: inj_on_subset\<close>)
  moreover have "distinct (h_parents h)" using h(2) btree_set_sorted [of "map (cert_digest L) cs"] by (simp add: strict_sorted_iff)
  ultimately show ?thesis using cs(1,3) q h(1)
    unfolding vouched_def stake_sum_def by (intro conjI exI [of _ ?ps]) auto
qed

lemma own_header_vouched:
  assumes I: "tasks_inv N s" and h: "h \<in> set (p_core (pn_proposer s))"
    and sane: "sane_stake (committee_of N)" "0 < total_stake (committee_of N)"
    and inj: "inj_on (cert_digest (lib N)) P" and P: "set (genesis (committee_of N)) \<union> set (tx_consensus (pn_core s)) \<subseteq> P"
  shows "vouched (lib N) (committee_of N) P h"
proof -
  obtain ps r where r: "h_round h = r + 1" and ps: "h_parents h = btree_set ps"
    "(ps, r) = (map (cert_digest (lib N)) (genesis (committee_of N)), 0) \<or> quorum_entry N (tx_consensus (pn_core s)) (ps, r)"
    using own_header_parents [OF I h] by blast
  from ps(2) show ?thesis
  proof
    assume e: "(ps, r) = (map (cert_digest (lib N)) (genesis (committee_of N)), 0)"
    have "distinct (map cert_origin (genesis (committee_of N)))" using sane(1) wf_distinct by (simp add: genesis_origins sane_stake_def)
    then have d: "distinct (genesis (committee_of N))" by (simp add: distinct_map)
    have "\<forall>x \<in> set (genesis (committee_of N)). cert_round x = r" using e genesis_entries(1) by auto
    then show ?thesis using vouched_sorted [OF inj _ d _ genesis_quorum [OF sane] r] P ps(1) e by auto
  next
    assume "quorum_entry N (tx_consensus (pn_core s)) (ps, r)"
    then obtain cs where cs: "round_of (tx_consensus (pn_core s)) r cs" "ps = map (cert_digest (lib N)) cs"
      "quorum_threshold (committee_of N) \<le> stake_sum (committee_of N) cs" by (auto simp: quorum_entry_def)
    then show ?thesis using vouched_sorted [OF inj _ _ _ cs(3) r] P ps(1) by (auto simp: round_of_def distinct_map)
  qed
qed

end
