(* ===== verification/PrimaryProperties.thy ===== *)
theory PrimaryProperties
  imports PrimaryNode
begin

text \<open>
  What a whole primary promises: the headers it makes and the votes it sends vouch for certificates that it delivered,
  and it delivers certificates in causal order, if the certificates it receives were vouched for in turn.
\<close>

section \<open>The assumption about the others\<close>

text \<open>
  \<open>P\<close> are the certificates of the system. The digests of different ones differ, and none is the id of a header that this
  node has accepted. A certificate that the network brings and that passes \<open>Certificate::verify\<close> is a genesis certificate or
  is vouched for; nothing is assumed of what the checks refuse.
\<close>

definition primary_world :: "'db node \<Rightarrow> certificate set \<Rightarrow> 'db primary_node \<Rightarrow> bool" where
  "primary_world N P s \<longleftrightarrow> set (genesis (committee_of N)) \<union> set (tx_consensus (pn_core s)) \<subseteq> P
     \<and> inj_on (cert_digest (lib N)) P \<and> cert_digest (lib N) ` P \<inter> h_id ` linked_headers N s = {}
     \<and> (\<forall>x. PCertificate x \<in> set (pn_network s) \<and> passes N (PCertificate x) \<longrightarrow>
          c_header x \<in> c_header ` set (genesis (committee_of N)) \<or> vouched (lib N) (committee_of N) P (c_header x))
     \<and> rounds_small (pn_core s)"

lemma genesis_header: "h \<in> c_header ` set (genesis c) \<Longrightarrow> h_parents h = [] \<and> h_round h = 0"
  by (auto simp: genesis_def header_default_def)

lemma vouched_parents: "vouched L c P h \<Longrightarrow> set (h_parents h) \<subseteq> cert_digest L ` P"
  unfolding vouched_def by (metis image_mono set_map)

lemma world_apart:
  assumes "primary_world N P s"
  shows "run_apart N (linked_headers N s) s"
proof -
  have apart: "d \<notin> h_id ` linked_headers N s" if "d \<in> cert_digest (lib N) ` P" for d
    using assms that unfolding primary_world_def by blast
  have "d \<notin> h_id ` linked_headers N s" if x: "PCertificate x \<in> set (pn_network s)" "passes N (PCertificate x)"
    "d \<in> set (h_parents (c_header x))" for x d
  proof -
    have "vouched (lib N) (committee_of N) P (c_header x)"
    proof -
      have "h_parents (c_header x) \<noteq> []" using x(3) by auto
      then have "c_header x \<notin> c_header ` set (genesis (committee_of N))" using genesis_header by blast
      moreover have "c_header x \<in> c_header ` set (genesis (committee_of N)) \<or> vouched (lib N) (committee_of N) P (c_header x)"
        using assms x(1,2) by (simp add: primary_world_def)
      ultimately show ?thesis by blast
    qed
    from apart [OF subsetD [OF vouched_parents [OF this] x(3)]] show ?thesis .
  qed
  moreover have "set (tx_consensus (pn_core s)) \<subseteq> P" "rounds_small (pn_core s)" using assms by (auto simp: primary_world_def)
  ultimately show ?thesis using apart unfolding run_apart_def by blast
qed

lemma quorum_nonzero: "sane_stake c \<Longrightarrow> quorum_threshold c \<noteq> 0"
  using com.quorum_pos [of c] by auto

lemma world_inv:
  assumes "primary_reach N p s" "rocks_ok N" "codec_ok N" "sane_stake (committee_of N)" "primary_world N P s"
  shows "tasks_inv N s" "node_inv N (linked_headers N s) (pn_core s)" "\<forall>x \<in> set (tx_consensus (pn_core s)). c_header x \<in> cert_headers N s"
  using primary_reach_inv [OF assms(1-3) quorum_nonzero [OF assms(4)] world_apart [OF assms(5)]]
    primary_reach_origin [OF assms(1-3) quorum_nonzero [OF assms(4)] world_apart [OF assms(5)]] by auto

lemma delivered_vouched:
  assumes "primary_reach N p s" "rocks_ok N" "codec_ok N" "sane_stake (committee_of N)" "0 < total_stake (committee_of N)" "primary_world N P s"
    and x: "x \<in> set (tx_consensus (pn_core s))" "cert_round x \<noteq> 0"
  shows "vouched (lib N) (committee_of N) P (c_header x)"
proof -
  note inv = world_inv [OF assms(1-4,6)]
  have "c_header x \<noteq> header_default" using x(2) by (auto simp: cert_round_def header_default_def)
  then consider y where "PCertificate y \<in> set (pn_network s)" "passes N (PCertificate y)" "c_header y = c_header x" | "c_header x \<in> set (p_core (pn_proposer s))"
    using inv(3) x(1) unfolding cert_headers_def by fastforce
  then show ?thesis
  proof cases
    case (1 y)
    moreover have "c_header y \<notin> c_header ` set (genesis (committee_of N))"
      using 1(3) x(2) genesis_header [of "c_header y" "committee_of N"] by (auto simp: cert_round_def)
    ultimately show ?thesis using assms(6) unfolding primary_world_def by metis
  next
    case 2
    with own_header_vouched [OF inv(1) 2 assms(4,5)] assms(6) show ?thesis by (simp add: primary_world_def)
  qed
qed

section \<open>What this node vouches for\<close>

text \<open>C6. A whole primary, with all its tasks, queues and waiters: the headers it makes have increasing rounds, and
  each has the digests of a quorum of certificates of the round before as parents, which are genesis
  certificates or were delivered. Every vote it sends is for a header of another author that the network brought, alone or in a
  certificate, in a message that passed the checks; that header has such parents, too, and its payload is stored.
  So what is assumed of the certificates it receives (\<open>primary_world\<close>) is what it gives to the others. The parents of
  a header in a message are a set, as their type is.\<close>

theorem primary_vouches:
  assumes "primary_reach N p s" "rocks_ok N" "codec_ok N" "sane_stake (committee_of N)" "0 < total_stake (committee_of N)"
    and "primary_world N P s" and sets: "\<forall>m \<in> set (pn_network s). \<forall>h \<in> set (message_headers m). distinct (h_parents h)"
  shows "sorted_wrt (<) (map h_round (p_core (pn_proposer s)))
    \<and> (\<forall>h \<in> set (p_core (pn_proposer s)). h_author h = my_name N
         \<and> vouched (lib N) (committee_of N) (set (genesis (committee_of N)) \<union> set (tx_consensus (pn_core s))) h)
    \<and> (\<forall>a v. (a, PVote v) \<in> set (net (pn_core s)) \<longrightarrow> (\<exists>m \<in> set (pn_network s). \<exists>h \<in> set (message_headers m). passes N m
         \<and> v = vote_new (lib N) (my_secret N) h (my_name N) \<and> h_author h \<noteq> my_name N
         \<and> vouched (lib N) (committee_of N) (set (genesis (committee_of N)) \<union> set (tx_consensus (pn_core s))) h
         \<and> payload_stored N (pn_store s) h))"
proof (intro conjI ballI allI impI)
  let ?P = "set (genesis (committee_of N)) \<union> set (tx_consensus (pn_core s))"
  note inv = world_inv [OF assms(1-4,6)]
  have inj: "inj_on (cert_digest (lib N)) ?P" using assms(6) inj_on_subset unfolding primary_world_def by blast
  show "sorted_wrt (<) (map h_round (p_core (pn_proposer s)))"
    using inv(1) by (auto simp: tasks_inv_def proposer_fed_def prop_inv_def Let_def)
  show own: "h_author h = my_name N" if "h \<in> set (p_core (pn_proposer s))" for h
    using own_header_parents [OF inv(1) that] by blast
  show "vouched (lib N) (committee_of N) ?P h" if "h \<in> set (p_core (pn_proposer s))" for h
    by (rule own_header_vouched [OF inv(1) that assms(4,5) inj]) simp
  show "\<exists>m \<in> set (pn_network s). \<exists>h \<in> set (message_headers m). passes N m
      \<and> v = vote_new (lib N) (my_secret N) h (my_name N) \<and> h_author h \<noteq> my_name N
      \<and> vouched (lib N) (committee_of N) ?P h \<and> payload_stored N (pn_store s) h"
    if "(a, PVote v) \<in> set (net (pn_core s))" for a v
  proof -
    have "justified N (linked_headers N s) (tx_consensus (pn_core s)) (pn_store s) v" using inv(2) that unfolding node_inv_def by blast
    then obtain h where h: "h \<in> set (seen_headers N s)" "v = vote_new (lib N) (my_secret N) h (my_name N)" "h_author h \<noteq> my_name N"
      "backed (lib N) (committee_of N) ?P h" "payload_stored N (pn_store s) h" by (auto simp: justified_def linked_headers_def)
    then obtain m where "m \<in> set (pn_network s)" "passes N m" "h \<in> set (message_headers m)"
      using own by (auto simp: seen_headers_def)
    with h sets show ?thesis unfolding vouched_backed by blast
  qed
qed

section \<open>From the primary to the consensus\<close>

lemma causal_take: "causal L c g D xs \<Longrightarrow> causal L c g D (take n xs)"
proof (induction xs arbitrary: D n)
  case (Cons x xs)
  then show ?case by (cases n) auto
qed simp

lemma primary_causal:
  assumes "primary_reach N p s" "rocks_ok N" "codec_ok N" "sane_stake (committee_of N)" "0 < total_stake (committee_of N)"
    and "primary_world N P s"
    and "\<forall>x \<in> set (tx_consensus (pn_core s)). cert_round x \<noteq> 0 \<and> unat (cert_round x) + unat g < 2 ^ 64"
    and "distinct (map slot (tx_consensus (pn_core s)))"
  shows "causal (lib N) (committee_of N) g (set (genesis (committee_of N))) (tx_consensus (pn_core s))"
proof -
  have "delivered_causally N (tx_consensus (pn_core s))" using world_inv(2) [OF assms(1-4,6)] by (simp add: node_inv_def)
  moreover have "inj_on (cert_digest (lib N)) P" "set (genesis (committee_of N)) \<union> set (tx_consensus (pn_core s)) \<subseteq> P"
    using assms(6) unfolding primary_world_def by auto
  ultimately show ?thesis using core_causal [OF _ assms(4) _ _ _ assms(8)] delivered_vouched [OF assms(1-6)] assms(7) by blast
qed


section \<open>A sample run\<close>

text \<open>The first authority of the pair has a quorum alone: its header of round 1 becomes a certificate at once, and the next
  header has it as a parent.\<close>

definition self_node :: "(bytes \<rightharpoonup> bytes) node" where
  "self_node = pair_node\<lparr>my_name := PublicKey 2\<rparr>"

lemma self_simps [simp]:
  "lib self_node = pair_lib" "my_name self_node = PublicKey 2" "committee_of self_node = demo_committee"
  "my_secret self_node = []" "gc_depth_of self_node = 50" "ser_header self_node = ser_header demo_node"
  "ser_certificate self_node = ser_certificate demo_node" "de_certificate self_node = de_certificate demo_node"
  "store_read self_node = store_read demo_node" "store_write self_node = store_write demo_node"
  "sync_genesis self_node = sync_genesis pair_node"
  by (simp_all add: self_node_def sync_genesis_def) (simp_all add: fun_eq_iff pair_node_def demo_node_def store_read_def store_write_def store_step.simps)

lemma self_ok: "rocks_ok self_node" "codec_ok self_node"
  using pair_ok by (simp_all add: self_node_def rocks_ok_def codec_ok_def)

lemma pair_flips: "last bs \<noteq> 3 \<Longrightarrow> hash_digest pair_lib bs = hash_digest flip_lib bs"
  by (simp add: hash_digest_def pair_lib_def flip_lib_def)

lemma self_id:
  assumes "last (header_bytes h) \<noteq> 3" "h_author h = PublicKey 2"
  shows "header_digest pair_lib h = Digest (NOT 2)"
proof -
  have "header_bytes h = digest_to_vec (Digest 2) @ le_bytes 8 (h_round h)
     @ concat (map (\<lambda>(x, y). digest_to_vec x @ le_bytes 4 y) (h_payload h)) @ concat (map digest_to_vec (h_parents h))"
    using assms(2) by (simp add: header_bytes_def key_bytes_def digest_to_vec_def)
  with pair_flips [OF assms(1)] flip_lib_digest [of 2] show ?thesis by (simp add: header_digest_def)
qed

lemma last_digest_bytes: "last (digest_to_vec (Digest k)) = ucast k"
  using last_key_bytes [of k] by (simp add: key_bytes_def digest_to_vec_def)

definition self_header :: "round \<Rightarrow> digest list \<Rightarrow> header" where
  "self_header r ps = header_new pair_lib [] (PublicKey 2) r [] ps"

lemma self_header_simps [simp]:
  "h_round (self_header r ps) = r" "h_author (self_header r ps) = PublicKey 2" "h_payload (self_header r ps) = []"
  "h_parents (self_header r ps) = ps"
  by (simp_all add: self_header_def)

lemma self_header_id:
  assumes "(ucast k :: u8) \<noteq> 3"
  shows "h_id (self_header r (ps @ [Digest k])) = Digest (NOT 2)"
proof -
  let ?h = "\<lparr>h_author = PublicKey 2, h_round = r, h_payload = [], h_parents = ps @ [Digest k], h_id = digest_default, h_sig = signature_default\<rparr>"
  have ne: "digest_to_vec (Digest k) \<noteq> []" using digest_size_def by (simp add: digest_to_vec_def be_bytes_def le_bytes_def)
  have "last (header_bytes ?h) = ucast k" using ne by (simp add: header_bytes_def last_digest_bytes)
  with assms have "last (header_bytes ?h) \<noteq> 3" by simp
  then have "header_digest pair_lib ?h = Digest (NOT 2)" by (rule self_id) simp
  then show ?thesis by (simp add: self_header_def header_new_def Let_def)
qed

definition self_first :: header where
  "self_first = self_header 1 [Digest 0, Digest (- 1)]"

lemma self_first_simps [simp]:
  "h_round self_first = 1" "h_author self_first = PublicKey 2" "h_payload self_first = []"
  "h_parents self_first = [Digest 0, Digest (- 1)]" "h_id self_first = Digest (NOT 2)"
proof -
  have "(ucast (- 1 :: 256 word) :: u8) \<noteq> 3" by (simp add: unsigned_minus_1_eq_mask mask_eq_exp_minus_1)
  then show "h_id self_first = Digest (NOT 2)" using self_header_id [of "- 1" 1 "[Digest 0]"] by (simp add: self_first_def)
qed (simp_all add: self_first_def)

lemma self_cert_digest: "c_header x = self_first \<Longrightarrow> cert_digest pair_lib x = Digest 2"
  using flip_lib_cert_digest [of x "NOT 2"] pair_digest(2) [of x] by (simp add: cert_origin_def)

lemma self_core:
  "\<exists>c x. core_turn self_node (FromProposer self_first, 0) (core_new Map.empty) = Inr c \<and> c_header x = self_first
    \<and> tx_consensus c = [x] \<and> tx_proposer c = [([Digest 2], 1)]"
  by (simp add: demo_eval process_own_header_def process_header.simps(2) [of 5, unfolded Suc_numeral add_num_simps]
      append_vote_def votes_append_def votes_aggregator_new_def self_cert_digest cert_round_def cert_origin_def header_default_def)


lemma self_spawn:
  "\<exists>s. primary_spawn self_node parameters_default Map.empty 0 = Inr s \<and> pn_core s = core_new Map.empty \<and> \<not> pn_waiting s
    \<and> pn_proposer s = proposer_new self_node 1000 100 0 \<and> pn_headers s = 0 \<and> pn_parents s = 0 \<and> pn_network s = []
    \<and> consensus_round (pn_gc s) = 0"
  by (simp add: primary_spawn_def own_primary_def garbage_collector_spawn_def our_workers_def parameters_default_def)
    (simp add: demo_committee_def)

lemma self_new: "proposer_new self_node 1000 100 0 = \<lparr>p_round = 1, last_parents = [Digest (- 1), Digest 0], p_digests = [],
  payload_size = 0, header_size = 1000, max_header_delay = 100, deadline = 100, p_core = [], p_core_up = True\<rparr>"
  by (simp add: proposer_new_def)

lemma self_sorted: "btree_set [Digest (- 1), Digest 0] = [Digest 0, Digest (- 1)]" "btree_set [Digest 2] = [Digest 2]" "btree_map [] = []"
  by (simp_all add: btree_set_def btree_map_def less_eq_digest_def)

lemma self_proposals:
  "propose_check self_node 100 (proposer_new self_node 1000 100 0) = Inr \<lparr>p_round = 1, last_parents = [], p_digests = [],
     payload_size = 0, header_size = 1000, max_header_delay = 100, deadline = 200, p_core = [self_first], p_core_up = True\<rparr>"
  "propose_check self_node 500 \<lparr>p_round = 2, last_parents = [Digest 2], p_digests = [], payload_size = 0, header_size = 1000,
     max_header_delay = 100, deadline = 200, p_core = [self_first], p_core_up = True\<rparr>
   = Inr \<lparr>p_round = 2, last_parents = [], p_digests = [], payload_size = 0, header_size = 1000,
     max_header_delay = 100, deadline = 600, p_core = [self_first, self_header 2 [Digest 2]], p_core_up = True\<rparr>"
  by (simp_all add: propose_check_def make_header_def self_new Let_def self_sorted self_first_def self_header_def)

lemma self_steps:
  assumes s0: "pn_core s0 = core_new Map.empty" "\<not> pn_waiting s0" "pn_proposer s0 = proposer_new self_node 1000 100 0"
    "pn_headers s0 = 0" "pn_parents s0 = 0" "pn_network s0 = []" "consensus_round (pn_gc s0) = 0"
  shows "\<exists>s x. (primary_step self_node)\<^sup>*\<^sup>* s0 s \<and> p_core (pn_proposer s) = [self_first, self_header 2 [Digest 2]]
    \<and> tx_consensus (pn_core s) = [x] \<and> c_header x = self_first \<and> pn_network s = []"
proof -
  obtain c x where c: "core_turn self_node (FromProposer self_first, 0) (core_new Map.empty) = Inr c" "c_header x = self_first"
    "tx_consensus c = [x]" "tx_proposer c = [([Digest 2], 1)]" using self_core by blast
  let ?p1 = "\<lparr>p_round = 1, last_parents = [], p_digests = [], payload_size = 0, header_size = 1000, max_header_delay = 100,
    deadline = 200, p_core = [self_first], p_core_up = True\<rparr>"
  let ?p2 = "?p1\<lparr>p_round := 2, last_parents := [Digest 2]\<rparr>"
  let ?p3 = "?p2\<lparr>last_parents := [], deadline := 600, p_core := [self_first, self_header 2 [Digest 2]]\<rparr>"
  let ?s1 = "s0\<lparr>pn_waiting := True, pn_proposer := ?p1\<rparr>"
  let ?s2 = "?s1\<lparr>pn_headers := 1, pn_core := c\<rparr>"
  let ?s3 = "?s2\<lparr>pn_waiting := False, pn_parents := 1, pn_proposer := ?p2\<rparr>"
  let ?s4 = "?s3\<lparr>pn_waiting := True, pn_proposer := ?p3\<rparr>"
  have 1: "primary_step self_node s0 ?s1" using propose [of s0 self_node 100 ?p1] s0 self_proposals(1) by simp
  have 2: "primary_step self_node ?s1 ?s2" using core_own [of ?s1 self_node c] c(1) s0 by simp
  have 3: "primary_step self_node ?s2 ?s3" using propose_parents [of ?s2 "[Digest 2]" 1 self_node] c(4) s0 by simp
  have 4: "primary_step self_node ?s3 ?s4" using propose [of ?s3 self_node 500 ?p3] self_proposals(2) by simp
  have "(primary_step self_node)\<^sup>*\<^sup>* s0 ?s4" using 1 2 3 4 by (meson r_into_rtranclp rtranclp.rtrancl_into_rtrancl)
  with c(2,3) s0(6) show ?thesis by (intro exI [of _ ?s4] exI [of _ x]) simp
qed

lemma self_start: "(\<forall>k. store_read self_node k (store_new Map.empty) = Inr None) \<and> gc_depth_of self_node = par_gc_depth parameters_default"
  by (simp add: parameters_default_def)

lemma self_run:
  "\<exists>s x. primary_reach self_node parameters_default s \<and> p_core (pn_proposer s) = [self_first, self_header 2 [Digest 2]]
    \<and> tx_consensus (pn_core s) = [x] \<and> c_header x = self_first \<and> pn_network s = []"
proof -
  obtain s0 where s0: "primary_spawn self_node parameters_default Map.empty 0 = Inr s0" "pn_core s0 = core_new Map.empty" "\<not> pn_waiting s0"
    "pn_proposer s0 = proposer_new self_node 1000 100 0" "pn_headers s0 = 0" "pn_parents s0 = 0" "pn_network s0 = []"
    "consensus_round (pn_gc s0) = 0" using self_spawn by blast
  obtain s x where s: "(primary_step self_node)\<^sup>*\<^sup>* s0 s" "p_core (pn_proposer s) = [self_first, self_header 2 [Digest 2]]"
    "tx_consensus (pn_core s) = [x]" "c_header x = self_first" "pn_network s = []" using self_steps [OF s0(2-8)] by blast
  have "(primary_move self_node)\<^sup>*\<^sup>* s0 s"
    by (rule rtranclp_mono [THEN predicate2D, OF _ s(1)]) (auto simp: primary_move_def)
  then have "primary_reach self_node parameters_default s" using s0(1) self_start unfolding primary_reach_def by blast
  with s show ?thesis by blast
qed

lemma self_world:
  assumes "p_core (pn_proposer s) = [self_first, self_header 2 [Digest 2]]" "tx_consensus (pn_core s) = [x]" "c_header x = self_first"
    and "pn_network s = []"
  shows "primary_world self_node (set (genesis demo_committee) \<union> {x}) s"
proof -
  have id2: "h_id (self_header 2 [Digest 2]) = Digest (NOT 2)" using self_header_id [of 2 2 "[]"] by simp
  have "linked_headers self_node s = {self_first, self_header 2 [Digest 2]}"
    using assms(1,4) by (auto simp: seen_headers_def linked_headers_def)
  then have "h_id ` linked_headers self_node s = {Digest (- 3)}" using id2 by simp
  moreover have "x \<noteq> \<lparr>c_header = header_default\<lparr>h_author := k\<rparr>, c_votes = []\<rparr>" for k
  proof
    assume "x = \<lparr>c_header = header_default\<lparr>h_author := k\<rparr>, c_votes = []\<rparr>"
    then have "h_round (c_header x) = 0" by (simp add: header_default_def)
    with assms(3) show False by simp
  qed
  moreover have "rounds_small (pn_core s)" using assms(2,3) by (simp add: rounds_small_def cert_round_def)
  ultimately show ?thesis using assms(2,4) self_cert_digest [OF assms(3)] by (simp add: primary_world_def) auto
qed

lemma self_sane: "sane_stake demo_committee" "0 < total_stake demo_committee"
  by (simp_all add: sane_stake_def wf_committee_def total_stake_def demo_committee_def less_public_key_def)

text \<open>The second authority gets the first one's header of round 1 from the network, and votes for it.\<close>

lemma self_first_digest: "header_digest pair_lib self_first = Digest (NOT 2)"
proof -
  have ne: "digest_to_vec (Digest (- 1)) \<noteq> []" using digest_size_def by (simp add: digest_to_vec_def be_bytes_def le_bytes_def)
  have "(ucast (- 1 :: 256 word) :: u8) \<noteq> 3" by (simp add: unsigned_minus_1_eq_mask mask_eq_exp_minus_1)
  then have "last (header_bytes self_first) \<noteq> 3" using ne by (simp add: header_bytes_def last_digest_bytes)
  then show ?thesis by (rule self_id) simp
qed

lemma self_first_passes: "passes pair_node (PHeader self_first)"
proof -
  have "signature_verify pair_lib sg d k = Inr ()" for sg d k
    by (simp add: signature_verify_def pair_lib_def flip_lib_def sample_lib_def)
  then show ?thesis by (simp add: header_verify_def self_first_digest ensure_def bindR_Inr_iff Let_def)
qed

lemma pair_vote:
  "\<exists>c a. core_turn pair_node (FromPrimaries (PHeader self_first), 0) (core_new Map.empty) = Inr c \<and> tx_consensus c = []
    \<and> net c = [(a, PVote (vote_new pair_lib [] self_first (PublicKey 3)))]"
  using self_first_passes by (simp add: demo_eval sanitize_header_def cert_round_def cert_origin_def header_default_def)

lemma pair_address:
  "primary_of demo_committee (PublicKey 3) = Inr \<lparr>primary_to_primary = SocketAddr 3 0, worker_to_primary = SocketAddr 3 1\<rparr>"
  by (simp add: primary_of_def demo_committee_def)

lemma pair_spawn:
  "\<exists>s. primary_spawn pair_node parameters_default Map.empty 0 = Inr s \<and> pn_core s = core_new Map.empty \<and> pn_messages s = []
    \<and> pn_network s = [] \<and> p_core (pn_proposer s) = [] \<and> consensus_round (pn_gc s) = 0"
  by (simp add: primary_spawn_def own_primary_def garbage_collector_spawn_def our_workers_def parameters_default_def proposer_new_def
      pair_address) (simp add: demo_committee_def)

lemma pair_primary:
  "\<exists>s a. primary_reach pair_node parameters_default s \<and> pn_network s = [PHeader self_first] \<and> p_core (pn_proposer s) = []
    \<and> tx_consensus (pn_core s) = [] \<and> net (pn_core s) = [(a, PVote (vote_new pair_lib [] self_first (PublicKey 3)))]"
proof -
  obtain s0 where s0: "primary_spawn pair_node parameters_default Map.empty 0 = Inr s0" "pn_core s0 = core_new Map.empty"
    "pn_messages s0 = []" "pn_network s0 = []" "p_core (pn_proposer s0) = []" "consensus_round (pn_gc s0) = 0" using pair_spawn by blast
  obtain c a where c: "core_turn pair_node (FromPrimaries (PHeader self_first), 0) (core_new Map.empty) = Inr c" "tx_consensus c = []"
    "net c = [(a, PVote (vote_new pair_lib [] self_first (PublicKey 3)))]" using pair_vote by blast
  let ?s1 = "s0\<lparr>pn_messages := [PHeader self_first], pn_requests := pn_requests s0, pn_network := [PHeader self_first]\<rparr>"
  let ?s2 = "?s1\<lparr>pn_messages := [], pn_core := c\<rparr>"
  have 1: "primary_step pair_node s0 ?s1" using from_network [of "PHeader self_first" s0 _ _ pair_node] s0(3,4) by (simp add: primary_dispatch_def)
  have 2: "primary_step pair_node ?s1 ?s2" using core_message [of ?s1 _ "[]" pair_node c] s0(2,6) c(1) by simp
  have "primary_move pair_node s0 ?s1" "primary_move pair_node ?s1 ?s2" using 1 2 unfolding primary_move_def by blast+
  then have "(primary_move pair_node)\<^sup>*\<^sup>* s0 ?s2" by (meson r_into_rtranclp rtranclp.rtrancl_into_rtrancl)
  moreover have "gc_depth_of pair_node = par_gc_depth parameters_default" "\<forall>k. store_read pair_node k (store_new Map.empty) = Inr None"
    by (simp_all add: parameters_default_def)
  ultimately have "primary_reach pair_node parameters_default ?s2" using s0(1) unfolding primary_reach_def by blast
  with c(2,3) s0(5) show ?thesis by (intro exI [of _ ?s2] exI [of _ a]) simp
qed

lemma pair_world:
  assumes "pn_network s = [PHeader self_first]" "p_core (pn_proposer s) = []" "tx_consensus (pn_core s) = []"
  shows "primary_world pair_node (set (genesis demo_committee)) s"
proof -
  have "h_id ` linked_headers pair_node s = {Digest (- 3)}"
    using assms(1,2) self_first_passes by (auto simp: linked_headers_def seen_headers_def)
  moreover have "inj_on (cert_digest pair_lib) (set (genesis demo_committee))" by (auto simp: inj_on_def)
  ultimately show ?thesis using assms by (simp add: primary_world_def rounds_small_def)
qed

lemma primary_vouches_witness:
  "(\<exists>s x. primary_reach self_node parameters_default s \<and> tx_consensus (pn_core s) = [x] \<and> map h_round (p_core (pn_proposer s)) = [1, 2]
      \<and> (\<forall>h \<in> set (p_core (pn_proposer s)). vouched pair_lib demo_committee (set (genesis demo_committee) \<union> {x}) h))
   \<and> (\<exists>s a. primary_reach pair_node parameters_default s \<and> pn_network s = [PHeader self_first]
      \<and> net (pn_core s) = [(a, PVote (vote_new pair_lib [] self_first (PublicKey 3)))]
      \<and> vouched pair_lib demo_committee (set (genesis demo_committee)) self_first)"
proof
  obtain s x where s: "primary_reach self_node parameters_default s" "p_core (pn_proposer s) = [self_first, self_header 2 [Digest 2]]"
    "tx_consensus (pn_core s) = [x]" "c_header x = self_first" "pn_network s = []" using self_run by blast
  have "\<forall>h \<in> set (p_core (pn_proposer s)). vouched pair_lib demo_committee (set (genesis demo_committee) \<union> {x}) h"
    using primary_vouches [OF s(1) self_ok _ _ self_world [OF s(2-5)]] self_sane s(3,5) unfolding self_simps by simp
  with s(1-3) show "\<exists>s x. primary_reach self_node parameters_default s \<and> tx_consensus (pn_core s) = [x]
      \<and> map h_round (p_core (pn_proposer s)) = [1, 2]
      \<and> (\<forall>h \<in> set (p_core (pn_proposer s)). vouched pair_lib demo_committee (set (genesis demo_committee) \<union> {x}) h)"
    by (intro exI [of _ s] exI [of _ x]) simp
next
  obtain s a where s: "primary_reach pair_node parameters_default s" "pn_network s = [PHeader self_first]" "p_core (pn_proposer s) = []"
    "tx_consensus (pn_core s) = []" "net (pn_core s) = [(a, PVote (vote_new pair_lib [] self_first (PublicKey 3)))]"
    using pair_primary by blast
  have "vouched pair_lib demo_committee (set (genesis demo_committee)) self_first"
    using primary_vouches [OF s(1) pair_ok _ _ pair_world [OF s(2-4)]] self_sane s(2-5) unfolding pair_simps by simp
  with s show "\<exists>s a. primary_reach pair_node parameters_default s \<and> pn_network s = [PHeader self_first]
      \<and> net (pn_core s) = [(a, PVote (vote_new pair_lib [] self_first (PublicKey 3)))]
      \<and> vouched pair_lib demo_committee (set (genesis demo_committee)) self_first" by blast
qed

end
