(* ===== verification/NodeMain.thy ===== *)
theory NodeMain
  imports PrimaryProperties
begin

text \<open>
  The process of a primary in \<open>node/src/main.rs\<close>: \<open>run\<close> spawns the primary, the consensus and the MRV executor and
  connects them. The primary's certificates go to the consensus, what the consensus commits goes back to the primary's
  garbage collector and, in batches, on to the executor, whose output the application reads. As in \<open>PrimaryNode\<close>,
  what was sent stays in the sender's list and a counter tells how much of it was taken.
\<close>

section \<open>The process\<close>

record 'db validator =
  v_primary :: "'db primary_node"
  v_consensus :: consensus
  v_executor :: mrv_state
  v_certificates :: nat
  v_feedback :: nat
  v_batches :: nat

definition validator_spawn :: "'db node \<Rightarrow> parameters \<Rightarrow> 'db \<Rightarrow> instant \<Rightarrow> 'db validator res" where
  "validator_spawn N p d now =
     bindR (primary_spawn N p d now) (\<lambda>pr.
     Inr \<lparr>v_primary = pr, v_consensus = consensus_new (lib N) (committee_of N) True True,
       v_executor = spawn None (size_of (committee_of N)) (par_gc_depth p), v_certificates = 0, v_feedback = 0, v_batches = 0\<rparr>)"

abbreviation new_certificates :: "'db validator \<Rightarrow> certificate list" where
  "new_certificates v \<equiv> tx_consensus (pn_core (v_primary v))"

inductive validator_step :: "'db node \<Rightarrow> hash_order \<Rightarrow> 'db validator \<Rightarrow> 'db validator \<Rightarrow> bool" for N h where
  primary_turn: "primary_step N (v_primary v) s \<Longrightarrow> validator_step N h v (v\<lparr>v_primary := s\<rparr>)"
| consensus_turn: "v_certificates v < length (new_certificates v) \<Longrightarrow>
    Consensus.process_certificate (lib N) (committee_of N) (gc_depth_of N) (new_certificates v ! v_certificates v) (v_consensus v) = Inr k \<Longrightarrow>
    validator_step N h v (v\<lparr>v_certificates := v_certificates v + 1, v_consensus := k\<rparr>)"
| feedback_turn: "v_feedback v < length (to_primary (v_consensus v)) \<Longrightarrow>
    validator_step N h v (v\<lparr>v_feedback := v_feedback v + 1,
      v_primary := primary_feed [to_primary (v_consensus v) ! v_feedback v] (v_primary v)\<rparr>)"
| executor_turn: "v_batches v < length (to_output (v_consensus v)) \<Longrightarrow>
    on_committed_batch (lib N) h (to_output (v_consensus v) ! v_batches v) (v_executor v) = Inr (True, e) \<Longrightarrow>
    validator_step N h v (v\<lparr>v_batches := v_batches v + 1, v_executor := e\<rparr>)"

definition validator_reach :: "'db node \<Rightarrow> parameters \<Rightarrow> hash_order \<Rightarrow> 'db validator \<Rightarrow> bool" where
  "validator_reach N p h v \<longleftrightarrow> gc_depth_of N = par_gc_depth p \<and> (\<exists>d now v0. (\<forall>k. store_read N k (store_new d) = Inr None)
     \<and> validator_spawn N p d now = Inr v0 \<and> (validator_step N h)\<^sup>*\<^sup>* v0 v)"

section \<open>The stages as runs\<close>

lemma commit_leader_grows:
  "commit_leader L g ldr s = Inr s' \<Longrightarrow> prefix (to_output s) (to_output s') \<and> prefix (to_primary s) (to_primary s')"
  by (auto simp: commit_leader_def Let_def split: if_splits)

lemma commit_leaders_grow:
  "foldR (commit_leader L g) ls s = Inr s' \<Longrightarrow> prefix (to_output s) (to_output s') \<and> prefix (to_primary s) (to_primary s')"
proof (induction ls arbitrary: s)
  case (Cons l ls)
  then obtain t where "commit_leader L g l s = Inr t" "foldR (commit_leader L g) ls t = Inr s'" by (auto simp: bindR_Inr_iff)
  with Cons.IH commit_leader_grows show ?case by (meson prefix_order.trans)
qed simp

lemma consensus_turn_grows:
  assumes "Consensus.process_certificate L c g x s = Inr s'"
  shows "prefix (to_output s) (to_output s') \<and> prefix (to_primary s) (to_primary s')"
proof -
  let ?s = "s\<lparr>cstate := (cstate s)\<lparr>dag := insert_certificate L x (dag (cstate s))\<rparr>\<rparr>"
  have "s' = ?s \<or> (\<exists>ls. foldR (commit_leader L g) ls ?s = Inr s')"
    using assms by (auto simp: Consensus.process_certificate_def Let_def bindR_Inr_iff split: if_splits option.splits)
  then show ?thesis using commit_leaders_grow [of L g _ ?s s'] by auto
qed

lemma run_consensus_snoc:
  "run_consensus L c g xs s = Inr t \<Longrightarrow> Consensus.process_certificate L c g x t = Inr u \<Longrightarrow> run_consensus L c g (xs @ [x]) s = Inr u"
  by (simp add: run_consensus_def foldR_append)

lemma run_executor_append:
  "run_executor L h (xs @ ys) st = bindR (run_executor L h xs st) (\<lambda>(ok, st). if ok then run_executor L h ys st else Inr (False, st))"
proof (induction xs arbitrary: st)
  case (Cons b xs)
  then show ?case by (cases "on_committed_batch L h b st") (auto split: prod.split)
qed simp

definition stages_inv :: "'db node \<Rightarrow> hash_order \<Rightarrow> parameters \<Rightarrow> 'db validator \<Rightarrow> bool" where
  "stages_inv N h p v \<longleftrightarrow> v_certificates v \<le> length (new_certificates v) \<and> v_batches v \<le> length (to_output (v_consensus v))
     \<and> run_consensus (lib N) (committee_of N) (gc_depth_of N) (take (v_certificates v) (new_certificates v))
         (consensus_new (lib N) (committee_of N) True True) = Inr (v_consensus v)
     \<and> run_executor (lib N) h (take (v_batches v) (to_output (v_consensus v))) (spawn None (size_of (committee_of N)) (par_gc_depth p))
         = Inr (True, v_executor v)"

lemma stages_inv_step:
  assumes step: "validator_step N h v v'" and I: "stages_inv N h p v" and ok: "rocks_ok N"
  shows "stages_inv N h p v'"
  using step
proof cases
  case (primary_turn s)
  have "prefix (new_certificates v) (tx_consensus (pn_core s))"
    using primary_step_grows [OF primary_turn(2) ok] by (simp add: primary_grows_def)
  with take_grows [OF this] I primary_turn(1) show ?thesis by (auto simp: stages_inv_def)
next
  case (consensus_turn k)
  note grows = consensus_turn_grows [OF consensus_turn(3)]
  have "take (v_certificates v + 1) (new_certificates v) = take (v_certificates v) (new_certificates v) @ [new_certificates v ! v_certificates v]"
    using consensus_turn(2) by (simp add: take_Suc_conv_app_nth)
  moreover have "run_consensus (lib N) (committee_of N) (gc_depth_of N) (take (v_certificates v) (new_certificates v) @ [new_certificates v ! v_certificates v])
      (consensus_new (lib N) (committee_of N) True True) = Inr k"
    using I by (intro run_consensus_snoc [OF _ consensus_turn(3)]) (simp add: stages_inv_def)
  ultimately show ?thesis using I consensus_turn(1,2) take_grows [of "to_output (v_consensus v)" "to_output k" "v_batches v"] grows
    by (simp add: stages_inv_def)
next
  case feedback_turn
  then show ?thesis using I by (simp add: stages_inv_def primary_feed_def)
next
  case (executor_turn e)
  have "take (v_batches v + 1) (to_output (v_consensus v)) = take (v_batches v) (to_output (v_consensus v)) @ [to_output (v_consensus v) ! v_batches v]"
    using executor_turn(2) by (simp add: take_Suc_conv_app_nth)
  with I executor_turn show ?thesis by (simp add: stages_inv_def run_executor_append)
qed

lemma validator_parts:
  assumes "validator_reach N p h v" "rocks_ok N"
  shows "primary_reach N p (v_primary v) \<and> stages_inv N h p v"
proof -
  obtain d now v0 where par: "gc_depth_of N = par_gc_depth p" and start: "\<forall>k. store_read N k (store_new d) = Inr None"
    "validator_spawn N p d now = Inr v0" and run: "(validator_step N h)\<^sup>*\<^sup>* v0 v" using assms(1) by (auto simp: validator_reach_def)
  have pr0: "primary_spawn N p d now = Inr (v_primary v0)" using start(2) by (auto simp: validator_spawn_def bindR_Inr_iff)
  have "(primary_move N)\<^sup>*\<^sup>* (v_primary v0) (v_primary v) \<and> stages_inv N h p v"
    using run
  proof (induction rule: rtranclp_induct)
    case base
    then show ?case using start(2) by (auto simp: validator_spawn_def bindR_Inr_iff stages_inv_def run_consensus_def)
  next
    case (step v v')
    from step(2) have "v_primary v' = v_primary v \<or> primary_move N (v_primary v) (v_primary v')"
      by cases (auto simp: primary_move_def)
    with step stages_inv_step [OF step(2) _ assms(2)] show ?case by (auto intro: rtranclp.rtrancl_into_rtrancl)
  qed
  with par start(1) pr0 show ?thesis unfolding primary_reach_def by blast
qed


section \<open>Every stage of the process\<close>

lemma stream_ok_take: "stream_ok L bs \<Longrightarrow> stream_ok L (take n bs)"
  unfolding stream_ok_def
  by (metis append_take_drop_id concat_append distinct_append map_append sorted_wrt_append)

lemma consensus_turn_total:
  assumes "causal L c g (set (genesis c)) (xs @ [x])" "sane_stake c" "run_consensus L c g xs (consensus_new L c True True) = Inr s"
  shows "\<exists>k. Consensus.process_certificate L c g x s = Inr k"
proof -
  have "wf_committee c" using assms(2) by (simp add: sane_stake_def)
  then obtain k where "run_consensus L c g (xs @ [x]) (consensus_new L c True True) = Inr k"
    using run_consensus_total [OF _ consensus_new_holds assms(2,1)] by (auto simp: consensus_new_def)
  with assms(3) show ?thesis by (auto simp: run_consensus_def foldR_append bindR_Inr_iff)
qed

text \<open>The executor over the first batches of a stream: it does not panic, its receiver is there, and it has released some of them.\<close>

lemma executor_prefix:
  assumes "hash_order_ok h" "stream_ok L bs" "\<forall>b \<in> set bs. certificates b \<noteq> []"
  shows "\<exists>e k outs. run_executor L h bs (spawn None n w) = Inr (True, e) \<and> released (take k bs) outs \<and> tx_output e = concat outs"
proof -
  have "nonempty bs = bs" using assms(3) by (simp add: nonempty_def)
  with run_from_spawn [OF assms(1,2), of None n w] show ?thesis by auto
qed

lemma executor_turn_total:
  assumes "hash_order_ok h" "stream_ok L (bs @ [b])" "\<forall>b \<in> set (bs @ [b]). certificates b \<noteq> []"
    and "run_executor L h bs (spawn None n w) = Inr (True, e)"
  shows "\<exists>e'. on_committed_batch L h b e = Inr (True, e')"
proof -
  obtain e2 where "run_executor L h (bs @ [b]) (spawn None n w) = Inr (True, e2)" using executor_prefix [OF assms(1-3)] by blast
  with assms(4) show ?thesis by (auto simp: run_executor_append bindR_Inr_iff split: if_splits)
qed

lemma consensus_output:
  assumes "causal L c g (set (genesis c)) xs" "inj_on (cert_digest L) (set xs \<union> set (genesis c))" "length xs < 2 ^ 64"
    and "run_consensus L c g xs (consensus_new L c True True) = Inr s"
  shows "distinct (to_primary s) \<and> set (to_primary s) \<subseteq> set xs \<and> to_primary s = concat (map certificates (to_output s))
    \<and> stream_ok L (to_output s) \<and> (\<forall>b \<in> set (to_output s). certificates b \<noteq> [])"
proof -
  note del = causal_delivery_ok [OF assms(1,2)]
  note stream = consensus_stream_ok [OF del assms(3,4)]
  have "run_inv L (set (genesis c)) (set xs \<union> set (genesis c)) s" using run_consensus_inv(1) [OF del assms(4)] .
  then have "distinct (to_primary s)" "to_primary s = concat (map certificates (to_output s))"
    using run_consensus_inv(2) [OF del assms(4)] by (auto simp: run_inv_def distinct_map)
  moreover have "set (to_primary s) \<subseteq> set xs"
    using run_consensus_inv(1) [OF del assms(4)] by (auto simp: run_inv_def commit_inv_def)
  moreover have "filter (\<lambda>b. certificates b \<noteq> []) (to_output s) = to_output s" using stream by (simp add: nonempty_def)
  then have "\<forall>b \<in> set (to_output s). certificates b \<noteq> []" by (simp only: filter_id_conv)
  ultimately show ?thesis using stream by blast
qed

lemma validator_stages:
  assumes "validator_reach N p h v" "rocks_ok N" "codec_ok N" "sane_stake (committee_of N)" "0 < total_stake (committee_of N)"
    and "primary_world N P (v_primary v)" "hash_order_ok h"
    and "\<forall>x \<in> set (new_certificates v). cert_round x \<noteq> 0 \<and> unat (cert_round x) + unat (gc_depth_of N) < 2 ^ 64"
    and "distinct (map slot (new_certificates v))" "length (new_certificates v) < 2 ^ 64"
  shows "distinct (to_primary (v_consensus v)) \<and> set (to_primary (v_consensus v)) \<subseteq> set (new_certificates v)
    \<and> to_primary (v_consensus v) = concat (map certificates (to_output (v_consensus v)))
    \<and> (\<exists>k outs. k \<le> v_batches v \<and> released (take k (to_output (v_consensus v))) outs \<and> tx_output (v_executor v) = concat outs)
    \<and> (v_certificates v < length (new_certificates v) \<longrightarrow> (\<exists>k. Consensus.process_certificate (lib N) (committee_of N) (gc_depth_of N)
          (new_certificates v ! v_certificates v) (v_consensus v) = Inr k))
    \<and> (v_batches v < length (to_output (v_consensus v)) \<longrightarrow> (\<exists>e. on_committed_batch (lib N) h
          (to_output (v_consensus v) ! v_batches v) (v_executor v) = Inr (True, e)))"
proof -
  let ?L = "lib N" and ?c = "committee_of N" and ?g = "gc_depth_of N" and ?xs = "new_certificates v" and ?bs = "to_output (v_consensus v)"
  note parts = validator_parts [OF assms(1,2)]
  have run: "run_consensus ?L ?c ?g (take (v_certificates v) ?xs) (consensus_new ?L ?c True True) = Inr (v_consensus v)"
    and exec: "run_executor ?L h (take (v_batches v) ?bs) (spawn None (size_of ?c) (par_gc_depth p)) = Inr (True, v_executor v)"
    using parts by (auto simp: stages_inv_def)
  note causal = primary_causal [OF conjunct1 [OF parts] assms(2-6,8,9)]
  have sub: "set (take (v_certificates v) ?xs) \<union> set (genesis ?c) \<subseteq> P"
    using assms(6) set_take_subset [of "v_certificates v" ?xs] unfolding primary_world_def by blast
  have inj: "inj_on (cert_digest ?L) (set (take (v_certificates v) ?xs) \<union> set (genesis ?c))"
    using assms(6) inj_on_subset [OF _ sub] unfolding primary_world_def by blast
  have len: "length (take (v_certificates v) ?xs) < 2 ^ 64" using assms(10) by simp
  note out = consensus_output [OF causal_take [OF causal] inj len run]
  have ne: "\<forall>b \<in> set (take n ?bs). certificates b \<noteq> []" for n using out set_take_subset [of n ?bs] by blast
  have stream: "stream_ok ?L (take n ?bs)" for n using out stream_ok_take by blast
  obtain k outs where "released (take k (take (v_batches v) ?bs)) outs" "tx_output (v_executor v) = concat outs"
    using executor_prefix [OF assms(7) stream ne, of "v_batches v" "size_of ?c" "par_gc_depth p"] exec by auto
  then have "released (take (min k (v_batches v)) ?bs) outs \<and> tx_output (v_executor v) = concat outs" by (simp add: take_take)
  then have "\<exists>k outs. k \<le> v_batches v \<and> released (take k ?bs) outs \<and> tx_output (v_executor v) = concat outs"
    by (intro exI [of _ "min k (v_batches v)"] exI [of _ outs]) simp
  moreover have "\<exists>k. Consensus.process_certificate ?L ?c ?g (?xs ! v_certificates v) (v_consensus v) = Inr k" if "v_certificates v < length ?xs"
    using consensus_turn_total [OF _ assms(4) run] causal_take [OF causal, of "Suc (v_certificates v)"] that
    by (simp add: take_Suc_conv_app_nth)
  moreover have "\<exists>e. on_committed_batch ?L h (?bs ! v_batches v) (v_executor v) = Inr (True, e)" if "v_batches v < length ?bs"
    using executor_turn_total [OF assms(7) _ _ exec, of "?bs ! v_batches v"] stream [of "Suc (v_batches v)"] ne [of "Suc (v_batches v)"] that
    by (simp add: take_Suc_conv_app_nth)
  moreover have "set (to_primary (v_consensus v)) \<subseteq> set ?xs" using out set_take_subset [of "v_certificates v" ?xs] by blast
  ultimately show ?thesis using out by blast
qed


text \<open>The turns of the primary are turns of the process.\<close>

lemma primary_turns:
  "(primary_step N)\<^sup>*\<^sup>* s s' \<Longrightarrow> (validator_step N h)\<^sup>*\<^sup>* (v\<lparr>v_primary := s\<rparr>) (v\<lparr>v_primary := s'\<rparr>)"
proof (induction rule: rtranclp_induct)
  case (step t u)
  have "validator_step N h (v\<lparr>v_primary := t\<rparr>) (v\<lparr>v_primary := t\<rparr>\<lparr>v_primary := u\<rparr>)" by (rule primary_turn) (simp add: step(2))
  with step(3) show ?case by (simp add: rtranclp.rtrancl_into_rtrancl)
qed simp

end
