(* ===== verification/WorkerTasks.thy ===== *)
theory WorkerTasks
  imports PrimaryBase Aggregators
begin

text \<open>
  The tasks of a worker: \<open>batch_maker.rs\<close>, \<open>quorum_waiter.rs\<close>, \<open>processor.rs\<close>, \<open>helper.rs\<close>,
  \<open>primary_connector.rs\<close> and the network handlers of \<open>worker.rs\<close>, under \<open>worker/src\<close>. A batch and the
  requests between workers travel as bytes (\<open>ser_message\<close> and \<open>de_message\<close> stand for bincode); the digest
  messages for the primary are kept as values.
\<close>

section \<open>The parameters of a worker\<close>

type_synonym transaction = bytes

datatype worker_message =
    Batch "transaction list"
  | BatchRequest "digest list" public_key

record 'db worker = "'db rocks" +
  w_lib :: crypto_lib
  w_name :: public_key
  w_id :: worker_id
  w_committee :: committee
  w_gc_depth :: round
  ser_message :: "worker_message \<Rightarrow> bytes"
  de_message :: "bytes \<Rightarrow> worker_message option"

definition wire_ok :: "'db worker \<Rightarrow> bool" where
  "wire_ok W \<longleftrightarrow> (\<forall>m. de_message W (ser_message W m) = Some m)"

section \<open>Batch maker\<close>

text \<open>A cancel handler is the position in \<open>bm_net\<close> of the message it belongs to.\<close>

record quorum_waiter_message =
  qw_batch :: bytes
  qw_handlers :: "(public_key \<times> nat) list"

record batch_maker =
  batch_size :: u64
  max_batch_delay :: u64
  workers_addresses :: "(public_key \<times> socket_addr) list"
  current_batch :: "transaction list"
  current_batch_size :: u64
  bm_deadline :: "128 word"
  bm_net :: "(socket_addr \<times> bytes) list"
  bm_messages :: "quorum_waiter_message list"
  bm_up :: bool

definition batch_maker_new :: "u64 \<Rightarrow> u64 \<Rightarrow> (public_key \<times> socket_addr) list \<Rightarrow> 128 word \<Rightarrow> batch_maker" where
  "batch_maker_new bsize delay addresses start = \<lparr>batch_size = bsize, max_batch_delay = delay, workers_addresses = addresses,
     current_batch = [], current_batch_size = 0, bm_deadline = start + ucast delay, bm_net = [], bm_messages = [], bm_up = True\<rparr>"

definition seal :: "'db worker \<Rightarrow> batch_maker \<Rightarrow> batch_maker res" where
  "seal W s =
     (let batch = current_batch s;
          s = s\<lparr>current_batch_size := 0, current_batch := []\<rparr>;
          serialized = ser_message W (Batch batch);
          names = map fst (workers_addresses s);
          addresses = map snd (workers_addresses s);
          handlers = [length (bm_net s) ..< length (bm_net s) + length addresses];
          s = s\<lparr>bm_net := bm_net s @ map (\<lambda>a. (a, serialized)) addresses\<rparr>
      in if bm_up s then Inr (s\<lparr>bm_messages := bm_messages s @ [\<lparr>qw_batch = serialized, qw_handlers = zip names handlers\<rparr>]\<rparr>)
         else Inl (Expect ''Failed to deliver batch''))"

definition bm_reset :: "128 word \<Rightarrow> batch_maker \<Rightarrow> batch_maker" where
  "bm_reset now s = s\<lparr>bm_deadline := now + ucast (max_batch_delay s)\<rparr>"

text \<open>A transaction, or the timer, which fires at a time that has reached the deadline.\<close>

datatype bm_event =
    BmTransaction transaction "128 word"
  | BmTimer "128 word"

fun bm_turn :: "'db worker \<Rightarrow> bm_event \<Rightarrow> batch_maker \<Rightarrow> batch_maker res" where
  "bm_turn W (BmTransaction tx now) s =
     (let s = s\<lparr>current_batch_size := current_batch_size s + of_nat (length tx), current_batch := current_batch s @ [tx]\<rparr>
      in if current_batch_size s \<ge> batch_size s then bindR (seal W s) (\<lambda>s. Inr (bm_reset now s)) else Inr s)"
| "bm_turn W (BmTimer now) s =
     bindR (if current_batch s \<noteq> [] then seal W s else Inr s) (\<lambda>s. Inr (bm_reset now s))"

fun bm_enabled :: "batch_maker \<Rightarrow> bm_event \<Rightarrow> bool" where
  "bm_enabled s (BmTransaction tx now) = True"
| "bm_enabled s (BmTimer now) = (bm_deadline s \<le> now)"

definition bm_run :: "'db worker \<Rightarrow> bm_event list \<Rightarrow> batch_maker \<Rightarrow> batch_maker res" where
  "bm_run W es s = foldR (bm_turn W) es s"

section \<open>Quorum waiter\<close>

text \<open>
  The futures of the handlers give the stake of their authority when they complete. \<open>acks\<close> are the
  handlers in the order of their completion; when they run out \<open>next\<close> gives \<open>None\<close> (or never returns, if
  a handler does not complete).
\<close>

fun ack_loop :: "'db worker \<Rightarrow> bytes \<Rightarrow> stake \<Rightarrow> (public_key \<times> nat) list \<Rightarrow> bytes list \<Rightarrow> bytes list" where
  "ack_loop W batch weight [] out = out"
| "ack_loop W batch weight ((name, handler) # acks) out =
     (let weight = weight + stake_of (w_committee W) name
      in if weight \<ge> quorum_threshold (w_committee W) then out @ [batch]
         else ack_loop W batch weight acks out)"

definition quorum_wait :: "'db worker \<Rightarrow> stake \<Rightarrow> quorum_waiter_message \<Rightarrow> (public_key \<times> nat) list \<Rightarrow> bytes list \<Rightarrow> bytes list" where
  "quorum_wait W own m acks out = ack_loop W (qw_batch m) own acks out"

section \<open>Processor\<close>

definition processor_step :: "'db worker \<Rightarrow> bool \<Rightarrow> bytes \<Rightarrow> 'db store \<times> worker_primary_message list \<Rightarrow>
    'db store \<times> worker_primary_message list" where
  "processor_step W own_digest batch s =
     (let (st, out) = s;
          digest = hash_digest (w_lib W) batch;
          st = store_write W (digest_to_vec digest) batch st;
          message = (if own_digest then OurBatch digest (w_id W) else OthersBatch digest (w_id W))
      in (st, out @ [message]))"

definition processor_run :: "'db worker \<Rightarrow> bool \<Rightarrow> bytes list \<Rightarrow> 'db store \<times> worker_primary_message list \<Rightarrow>
    'db store \<times> worker_primary_message list" where
  "processor_run W own_digest batches s = fold (processor_step W own_digest) batches s"

section \<open>Helper, connector and network handlers\<close>

definition batch_reply :: "'db worker \<Rightarrow> 'db store \<Rightarrow> socket_addr \<Rightarrow> digest \<Rightarrow> (socket_addr \<times> bytes) list \<Rightarrow> (socket_addr \<times> bytes) list" where
  "batch_reply W st address digest out =
     (case store_read W (digest_to_vec digest) st of
        Inr (Some data) \<Rightarrow> out @ [(address, data)]
      | Inr None \<Rightarrow> out
      | Inl e \<Rightarrow> out)"

definition batch_request :: "'db worker \<Rightarrow> 'db store \<Rightarrow> digest list \<times> public_key \<Rightarrow> (socket_addr \<times> bytes) list \<Rightarrow> (socket_addr \<times> bytes) list" where
  "batch_request W st req out =
     (let (digests, origin) = req in
      case worker_of (w_committee W) origin (w_id W) of
        Inl e \<Rightarrow> out
      | Inr a \<Rightarrow> fold (batch_reply W st (worker_to_worker a)) digests out)"

definition connector_step :: "socket_addr \<Rightarrow> worker_primary_message \<Rightarrow> (socket_addr \<times> worker_primary_message) list \<Rightarrow>
    (socket_addr \<times> worker_primary_message) list" where
  "connector_step primary_address m out = out @ [(primary_address, m)]"

text \<open>\<open>WorkerReceiverHandler\<close>: what does not deserialize is logged and dropped.\<close>

definition worker_receive :: "'db worker \<Rightarrow> bytes \<Rightarrow> (digest list \<times> public_key) list \<times> bytes list \<Rightarrow>
    (digest list \<times> public_key) list \<times> bytes list" where
  "worker_receive W serialized chans =
     (let (tx_helper, tx_processor) = chans in
      case de_message W serialized of
        Some (Batch b) \<Rightarrow> (tx_helper, tx_processor @ [serialized])
      | Some (BatchRequest missing requestor) \<Rightarrow> (tx_helper @ [(missing, requestor)], tx_processor)
      | None \<Rightarrow> chans)"

definition transaction_receive :: "bytes \<Rightarrow> transaction list \<Rightarrow> transaction list" where
  "transaction_receive message tx_batch_maker = tx_batch_maker @ [message]"

section \<open>Batches\<close>

definition bytes_of :: "transaction list \<Rightarrow> nat" where
  "bytes_of txs = sum_list (map length txs)"

definition transactions_of :: "bm_event list \<Rightarrow> transaction list" where
  "transactions_of es = concat (map (\<lambda>e. case e of BmTransaction tx now \<Rightarrow> [tx] | BmTimer now \<Rightarrow> []) es)"

text \<open>A batch that is sealed is not empty, and without its last transaction it had not reached the size.\<close>

definition batch_ok :: "u64 \<Rightarrow> transaction list \<Rightarrow> bool" where
  "batch_ok bsize b \<longleftrightarrow> b \<noteq> [] \<and> (butlast b = [] \<or> bytes_of (butlast b) < unat bsize)"

definition bm_inv :: "'db worker \<Rightarrow> bm_event list \<Rightarrow> transaction list list \<Rightarrow> batch_maker \<Rightarrow> bool" where
  "bm_inv W es bs s \<longleftrightarrow> bm_up s \<and> concat bs @ current_batch s = transactions_of es
     \<and> map qw_batch (bm_messages s) = map (\<lambda>b. ser_message W (Batch b)) bs
     \<and> (\<forall>b \<in> set bs. batch_ok (batch_size s) b)
     \<and> unat (current_batch_size s) = bytes_of (current_batch s)
     \<and> (current_batch s = [] \<or> bytes_of (current_batch s) < unat (batch_size s))"

lemma bytes_of_append [simp]: "bytes_of (a @ b) = bytes_of a + bytes_of b"
  by (simp add: bytes_of_def)

lemma bytes_of_single [simp]: "bytes_of [tx] = length tx"
  by (simp add: bytes_of_def)

lemma transactions_of_snoc:
  "transactions_of (es @ [BmTransaction tx now]) = transactions_of es @ [tx]"
  "transactions_of (es @ [BmTimer now]) = transactions_of es"
  by (simp_all add: transactions_of_def)

lemma seal_ok:
  assumes "bm_up s"
  shows "\<exists>s'. seal W s = Inr s' \<and> bm_up s' \<and> current_batch s' = [] \<and> current_batch_size s' = 0 \<and> batch_size s' = batch_size s
    \<and> map qw_batch (bm_messages s') = map qw_batch (bm_messages s) @ [ser_message W (Batch (current_batch s))]"
  using assms by (simp add: seal_def Let_def)

lemma bm_turn_inv:
  assumes inv: "bm_inv W es bs s" and small: "bytes_of (transactions_of (es @ [e])) < 2 ^ 64"
  shows "\<exists>s' bs'. bm_turn W e s = Inr s' \<and> bm_inv W (es @ [e]) bs' s' \<and> batch_size s' = batch_size s"
proof (cases e)
  case (BmTransaction tx now)
  let ?s = "s\<lparr>current_batch_size := current_batch_size s + of_nat (length tx), current_batch := current_batch s @ [tx]\<rparr>"
  have tot: "bytes_of (current_batch s @ [tx]) < 2 ^ LENGTH(64)"
  proof -
    have "bytes_of (concat bs @ current_batch s @ [tx]) < 2 ^ 64"
      using small inv BmTransaction by (simp add: bm_inv_def transactions_of_snoc flip: append_assoc)
    then show ?thesis by simp
  qed
  have "unat (current_batch_size s + of_nat (length tx)) = bytes_of (current_batch s @ [tx])"
    using tot inv by (simp add: bm_inv_def unat_word_ariths unat_of_nat take_bit_nat_eq_self)
  then have sz: "unat (current_batch_size ?s) = bytes_of (current_batch ?s)" by simp
  show ?thesis
  proof (cases "batch_size s \<le> current_batch_size ?s")
    case True
    obtain s' where s': "seal W ?s = Inr s'" "bm_up s'" "current_batch s' = []" "current_batch_size s' = 0" "batch_size s' = batch_size s"
      "map qw_batch (bm_messages s') = map qw_batch (bm_messages s) @ [ser_message W (Batch (current_batch s @ [tx]))]"
      using seal_ok [of ?s W] inv by (auto simp: bm_inv_def)
    have "batch_ok (batch_size s) (current_batch s @ [tx])" using inv by (auto simp: batch_ok_def bm_inv_def)
    then have "bm_inv W (es @ [e]) (bs @ [current_batch s @ [tx]]) (bm_reset now s')"
      using s' inv BmTransaction by (auto simp: bm_inv_def bm_reset_def transactions_of_snoc bytes_of_def)
    moreover have "bm_turn W e s = Inr (bm_reset now s')" using BmTransaction True s'(1) by simp
    ultimately show ?thesis using s'(5) by (auto simp: bm_reset_def)
  next
    case False
    then have "bm_turn W e s = Inr ?s" using BmTransaction by simp
    moreover have "bytes_of (current_batch ?s) < unat (batch_size s)" using False sz by (simp add: not_le word_less_nat_alt)
    then have "bm_inv W (es @ [e]) bs ?s" using inv sz BmTransaction by (auto simp: bm_inv_def transactions_of_snoc)
    ultimately show ?thesis by auto
  qed
next
  case (BmTimer now)
  show ?thesis
  proof (cases "current_batch s = []")
    case True
    then have "bm_turn W e s = Inr (bm_reset now s)" using BmTimer by simp
    moreover have "bm_inv W (es @ [e]) bs (bm_reset now s)" using inv BmTimer by (auto simp: bm_inv_def bm_reset_def transactions_of_snoc)
    ultimately show ?thesis by (auto simp: bm_reset_def)
  next
    case False
    obtain s' where s': "seal W s = Inr s'" "bm_up s'" "current_batch s' = []" "current_batch_size s' = 0" "batch_size s' = batch_size s"
      "map qw_batch (bm_messages s') = map qw_batch (bm_messages s) @ [ser_message W (Batch (current_batch s))]"
      using seal_ok [of s W] inv by (auto simp: bm_inv_def)
    have "bytes_of (butlast (current_batch s)) \<le> bytes_of (current_batch s)"
      using append_butlast_last_id [OF False] by (metis bytes_of_append le_add1)
    then have "batch_ok (batch_size s) (current_batch s)" using inv False by (auto simp: batch_ok_def bm_inv_def)
    then have "bm_inv W (es @ [e]) (bs @ [current_batch s]) (bm_reset now s')"
      using s' inv BmTimer by (auto simp: bm_inv_def bm_reset_def transactions_of_snoc bytes_of_def)
    moreover have "bm_turn W e s = Inr (bm_reset now s')" using BmTimer False s'(1) by simp
    ultimately show ?thesis using s'(5) by (auto simp: bm_reset_def)
  qed
qed

lemma bm_run_inv:
  "bm_inv W es0 bs s \<Longrightarrow> bytes_of (transactions_of (es0 @ es)) < 2 ^ 64 \<Longrightarrow>
    \<exists>s' bs'. bm_run W es s = Inr s' \<and> bm_inv W (es0 @ es) bs' s' \<and> batch_size s' = batch_size s"
proof (induction es arbitrary: es0 bs s)
  case (Cons e es)
  have "bytes_of (transactions_of (es0 @ [e])) \<le> bytes_of (transactions_of (es0 @ e # es))"
    by (simp add: transactions_of_def)
  then obtain s1 bs1 where "bm_turn W e s = Inr s1" "bm_inv W (es0 @ [e]) bs1 s1" "batch_size s1 = batch_size s"
    using bm_turn_inv [OF Cons.prems(1)] Cons.prems(2) by (meson le_less_trans)
  with Cons.IH [of "es0 @ [e]" bs1 s1] Cons.prems(2) show ?case by (auto simp: bm_run_def)
qed (auto simp: bm_run_def)

text \<open>The batch maker cuts the stream of transactions into batches: none is lost, repeated or
reordered; no batch is empty; and a batch is sealed as soon as it reaches the preferred size.\<close>

theorem batch_maker_partitions:
  assumes "bytes_of (transactions_of es) < 2 ^ 64"
  shows "\<exists>s bs. bm_run W es (batch_maker_new bsize delay addresses start) = Inr s
    \<and> concat bs @ current_batch s = transactions_of es \<and> map qw_batch (bm_messages s) = map (\<lambda>b. ser_message W (Batch b)) bs
    \<and> (\<forall>b \<in> set bs. batch_ok bsize b) \<and> (current_batch s = [] \<or> bytes_of (current_batch s) < unat bsize)"
proof -
  have "bm_inv W [] [] (batch_maker_new bsize delay addresses start)"
    by (simp add: bm_inv_def batch_maker_new_def transactions_of_def bytes_of_def)
  from bm_run_inv [OF this, of es] assms obtain s bs where "bm_run W es (batch_maker_new bsize delay addresses start) = Inr s"
    "bm_inv W es bs s" "batch_size s = bsize" by (auto simp: batch_maker_new_def)
  then show ?thesis by (intro exI [of _ s] exI [of _ bs]) (auto simp: bm_inv_def)
qed

section \<open>Acknowledgements\<close>

lemma ack_loop_out: "ack_loop W b w acks out = out \<or> ack_loop W b w acks out = out @ [b]"
  by (induction W b w acks out rule: ack_loop.induct) (auto simp: Let_def)

lemma ack_loop_gen:
  assumes "sane_stake (w_committee W)" "distinct (map fst acks)" "finite S" "S \<inter> fst ` set acks = {}"
    and "unat w = sum (stake_nat (w_committee W)) S" "w < quorum_threshold (w_committee W) \<or> acks \<noteq> []"
  shows "ack_loop W b w acks out = (if acks \<noteq> [] \<and> unat (quorum_threshold (w_committee W)) \<le>
      sum (stake_nat (w_committee W)) (S \<union> fst ` set acks) then out @ [b] else out)"
  using assms
proof (induction acks arbitrary: w S)
  case (Cons a acks)
  obtain n k where a: "a = (n, k)" by fastforce
  let ?c = "w_committee W" and ?w = "w + stake_of (w_committee W) n"
  have u: "unat ?w = sum (stake_nat ?c) (insert n S)"
    using Cons.prems a by (intro weight_step_unat) auto
  have un: "insert n S \<union> fst ` set acks = S \<union> fst ` set (a # acks)" using a by auto
  show ?case
  proof (cases "?w \<ge> quorum_threshold ?c")
    case True
    have "sum (stake_nat ?c) (insert n S) \<le> sum (stake_nat ?c) (S \<union> fst ` set (a # acks))"
      using Cons.prems a by (intro sum_mono2) auto
    with True u show ?thesis by (simp add: a word_le_nat_alt)
  next
    case False
    have "ack_loop W b ?w acks out = (if acks \<noteq> [] \<and> unat (quorum_threshold ?c) \<le>
      sum (stake_nat ?c) (insert n S \<union> fst ` set acks) then out @ [b] else out)"
      using Cons.prems a u False by (intro Cons.IH) auto
    moreover have "\<not> unat (quorum_threshold ?c) \<le> sum (stake_nat ?c) (insert n S)" using False u by (simp add: word_le_nat_alt)
    ultimately show ?thesis using False un by (cases "acks = []") (auto simp: a Let_def)
  qed
qed simp

text \<open>\<open>acks\<close> are handlers of the message, each at most once.\<close>

definition acked_by :: "quorum_waiter_message \<Rightarrow> (public_key \<times> nat) list \<Rightarrow> bool" where
  "acked_by m acks \<longleftrightarrow> mset acks \<subseteq># mset (qw_handlers m)"

lemma mset_sub_distinct:
  assumes "mset xs \<subseteq># mset ys" "distinct ys"
  shows "distinct xs"
proof -
  obtain zs where "mset ys = mset xs + mset zs" using assms(1) by (metis mset_subset_eq_exists_conv ex_mset)
  then have "mset ys = mset (xs @ zs)" by simp
  then have "distinct (xs @ zs)" using assms(2) mset_eq_imp_distinct_iff by blast
  then show ?thesis by simp
qed

lemma acked_by_distinct:
  assumes "acked_by m acks" "distinct (map fst (qw_handlers m))"
  shows "distinct (map fst acks)" and "fst ` set acks \<subseteq> fst ` set (qw_handlers m)"
proof -
  have "mset (map fst acks) \<subseteq># mset (map fst (qw_handlers m))"
    using assms(1) by (simp add: acked_by_def image_mset_subseteq_mono)
  then show "distinct (map fst acks)" by (rule mset_sub_distinct [OF _ assms(2)])
  show "fst ` set acks \<subseteq> fst ` set (qw_handlers m)"
    using set_mset_mono [OF assms(1) [unfolded acked_by_def]] by (auto simp del: set_mset_mono)
qed

lemma quorum_wait_exact:
  assumes "sane_stake (w_committee W)" "distinct (map fst (qw_handlers m))" "w_name W \<notin> fst ` set (qw_handlers m)" "acked_by m acks"
  shows "quorum_wait W (stake_of (w_committee W) (w_name W)) m acks out
    = (if acks \<noteq> [] \<and> unat (quorum_threshold (w_committee W)) \<le> sum (stake_nat (w_committee W)) (insert (w_name W) (fst ` set acks))
       then out @ [qw_batch m] else out)"
proof (cases "acks = []")
  case False
  note acks = acked_by_distinct [OF assms(4,2)]
  have "ack_loop W (qw_batch m) (stake_of (w_committee W) (w_name W)) acks out
    = (if acks \<noteq> [] \<and> unat (quorum_threshold (w_committee W)) \<le> sum (stake_nat (w_committee W)) ({w_name W} \<union> fst ` set acks)
       then out @ [qw_batch m] else out)"
    by (rule ack_loop_gen [OF assms(1) acks(1)]) (use assms(3) acks(2) False in \<open>auto simp: stake_nat_def\<close>)
  then show ?thesis by (simp add: quorum_wait_def)
qed (simp add: quorum_wait_def)

text \<open>The quorum waiter delivers a batch at most once, and exactly when one acknowledgement came and the
stake of the worker's authority and of those that acknowledged reaches the quorum.\<close>

theorem quorum_waiter_delivers:
  assumes "sane_stake (w_committee W)" "distinct (map fst (qw_handlers m))" "w_name W \<notin> fst ` set (qw_handlers m)" "acked_by m acks"
  shows "quorum_wait W (stake_of (w_committee W) (w_name W)) m acks out
    = (if acks \<noteq> [] \<and> unat (quorum_threshold (w_committee W)) \<le> sum (stake_nat (w_committee W)) (insert (w_name W) (fst ` set acks))
       then out @ [qw_batch m] else out)"
  by (rule quorum_wait_exact [OF assms])

section \<open>Content addressing\<close>

lemma processor_runs:
  assumes "rocks_ok W" "inj_on (hash_digest (w_lib W)) (set bs)" "processor_run W own bs (st, out) = (st', out')"
  shows "out' = out @ map (\<lambda>b. if own then OurBatch (hash_digest (w_lib W) b) (w_id W) else OthersBatch (hash_digest (w_lib W) b) (w_id W)) bs
    \<and> (\<forall>b \<in> set bs. store_read W (digest_to_vec (hash_digest (w_lib W) b)) st' = Inr (Some b))
    \<and> (\<forall>k. k \<notin> (\<lambda>b. digest_to_vec (hash_digest (w_lib W) b)) ` set bs \<longrightarrow> store_read W k st' = store_read W k st)"
  using assms(2,3)
proof (induction bs arbitrary: st out)
  case (Cons b bs)
  let ?d = "hash_digest (w_lib W) b"
  let ?m = "if own then OurBatch ?d (w_id W) else OthersBatch ?d (w_id W)"
  have run: "processor_run W own bs (store_write W (digest_to_vec ?d) b st, out @ [?m]) = (st', out')"
    using Cons.prems(2) by (simp add: processor_run_def processor_step_def Let_def)
  have inj: "inj_on (hash_digest (w_lib W)) (set bs)" using Cons.prems(1) by (rule inj_on_subset) auto
  note IH = Cons.IH [OF inj run]
  have "store_read W (digest_to_vec ?d) st' = Inr (Some b)"
  proof (cases "?d \<in> hash_digest (w_lib W) ` set bs")
    case True
    then obtain b' where "b' \<in> set bs" "hash_digest (w_lib W) b' = ?d" by auto
    with IH Cons.prems(1) show ?thesis by (auto simp: inj_on_def)
  next
    case False
    then have "digest_to_vec ?d \<notin> (\<lambda>b. digest_to_vec (hash_digest (w_lib W) b)) ` set bs" by auto
    with IH show ?thesis by (simp add: st.rd_wr [OF assms(1)])
  qed
  with IH show ?case by (auto simp: st.rd_wr [OF assms(1)])
qed (simp add: processor_run_def)

text \<open>C34. What the processor reports to the primary is stored under the reported digest, byte for byte, and the
helper answers requests of other workers with exactly these bytes, which their worker then hands to its
own processor; so a batch travels unchanged and is stored under the same digest everywhere.\<close>

theorem batch_reaches_requestor:
  assumes "rocks_ok W" "rocks_ok V" "w_lib V = w_lib W" "inj_on (hash_digest (w_lib W)) (set bs)" "b \<in> set bs"
    and "processor_run W True bs (st, []) = (st', ms)" "de_message V b = Some (Batch txs)"
    and "worker_of (w_committee W) requestor (w_id W) = Inr a"
  shows "OurBatch (hash_digest (w_lib W) b) (w_id W) \<in> set ms
    \<and> batch_request W st' ([hash_digest (w_lib W) b], requestor) [] = [(worker_to_worker a, b)]
    \<and> worker_receive V b ([], []) = ([], [b])
    \<and> store_read V (digest_to_vec (hash_digest (w_lib W) b)) (fst (processor_run V False [b] (sv, []))) = Inr (Some b)"
  using processor_runs [OF assms(1,4,6)] assms(2,3,5,7,8)
  by (auto simp: batch_request_def batch_reply_def worker_receive_def processor_run_def processor_step_def Let_def st.rd_wr)

section \<open>Sample runs\<close>

definition lone_committee :: committee where
  "lone_committee = \<lparr>authorities = map (\<lambda>k. (PublicKey k, \<lparr>auth_stake = 1,
     auth_primary = \<lparr>primary_to_primary = SocketAddr 0 0, worker_to_primary = SocketAddr 0 1\<rparr>,
     auth_workers = [(7, \<lparr>transactions = SocketAddr 9 0, worker_to_worker = SocketAddr 9 1, primary_to_worker = SocketAddr 9 2\<rparr>)]\<rparr>))
     [1, 2, 3, 4]\<rparr>"

definition sample_worker :: "(bytes \<rightharpoonup> bytes) worker" where
  "sample_worker = \<lparr>db_get = (\<lambda>d k. Inr (d k)), db_put = (\<lambda>d k v. (Inr (), d(k \<mapsto> v))), w_lib = sample_lib,
     w_name = PublicKey 1, w_id = 7, w_committee = lone_committee, w_gc_depth = 50,
     ser_message = (\<lambda>m. case m of Batch txs \<Rightarrow> concat txs | BatchRequest ds k \<Rightarrow> []), de_message = (\<lambda>bs. Some (Batch [bs]))\<rparr>"

lemma sample_worker_simps [simp]:
  "w_lib sample_worker = sample_lib" "w_name sample_worker = PublicKey 1" "w_id sample_worker = 7"
  "w_committee sample_worker = lone_committee" "rocks_ok sample_worker" "de_message sample_worker bs = Some (Batch [bs])"
  "worker_of lone_committee (PublicKey 2) 7
     = Inr \<lparr>transactions = SocketAddr 9 0, worker_to_worker = SocketAddr 9 1, primary_to_worker = SocketAddr 9 2\<rparr>"
  by (simp_all add: sample_worker_def rocks_ok_def worker_of_def lone_committee_def)

lemma lone_simps [simp]:
  "stake_of lone_committee (PublicKey 1) = 1" "stake_of lone_committee (PublicKey 2) = 1" "stake_of lone_committee (PublicKey 3) = 1"
  "quorum_threshold lone_committee = 3"
  by (simp_all add: lone_committee_def stake_of_def quorum_threshold_def total_votes_def)

lemma lone_sane: "sane_stake lone_committee"
  by (simp add: sane_stake_def wf_committee_def total_stake_def) (simp add: lone_committee_def less_public_key_def word_less_nat_alt)

lemma batch_maker_partitions_witness:
  "\<exists>s bs. bm_run sample_worker [BmTransaction [1, 2] 0, BmTransaction [3, 4] 1, BmTransaction [5] 2, BmTimer 101]
      (batch_maker_new 4 100 [] 0) = Inr s \<and> concat bs @ current_batch s = [[1, 2], [3, 4], [5]]"
  using batch_maker_partitions [of "[BmTransaction [1, 2] 0, BmTransaction [3, 4] 1, BmTransaction [5] 2, BmTimer 101]"
      sample_worker 4 100 "[]" 0]
  by (auto simp: transactions_of_def bytes_of_def)

definition sample_message :: quorum_waiter_message where
  "sample_message = \<lparr>qw_batch = [8], qw_handlers = [(PublicKey 2, 0), (PublicKey 3, 1), (PublicKey 4, 2)]\<rparr>"

lemma quorum_waiter_delivers_witness:
  "quorum_wait sample_worker (stake_of (w_committee sample_worker) (w_name sample_worker)) sample_message
     [(PublicKey 3, 1), (PublicKey 2, 0)] [] = [[8]]"
proof -
  have "acked_by sample_message [(PublicKey 3, 1), (PublicKey 2, 0)]" by (simp add: acked_by_def sample_message_def)
  from quorum_waiter_delivers [OF _ _ _ this, of sample_worker "[]"] lone_sane show ?thesis
    by (simp add: stake_nat_def sample_message_def)
qed

lemma batch_reaches_requestor_witness:
  "batch_request sample_worker (fst (processor_run sample_worker True [[8]] (store_new Map.empty, [])))
     ([hash_digest sample_lib [8]], PublicKey 2) [] = [(SocketAddr 9 1, [8])]"
proof -
  obtain st ms where r: "processor_run sample_worker True [[8]] (store_new Map.empty, []) = (st, ms)" by fastforce
  show ?thesis
    using batch_reaches_requestor [OF _ _ _ _ _ r, where V = sample_worker and b = "[8]" and requestor = "PublicKey 2"] by (simp add: r)
qed

text \<open>
  A worker whose authority holds a quorum alone, or that has no peers, never delivers a batch: the
  stake is compared only after an acknowledgement.
\<close>

theorem no_peer_no_batch:
  "quorum_wait W own m [] out = out"
  by (simp add: quorum_wait_def)

end
