(* ===== verification/WorkerSync.thy ===== *)
theory WorkerSync
  imports WorkerTasks
begin

text \<open>
  The \<open>Synchronizer\<close> of \<open>worker/src/synchronizer.rs\<close>: it fetches the batches its primary misses from the
  other workers. As in \<open>Waiters\<close>, a future of the pool is one \<open>notify_read\<close>, ready when its key is stored
  and cancelled when its number is not in \<open>ws_pending\<close> any more; the choices of \<open>select!\<close> are the events.
\<close>

section \<open>State and operations\<close>

type_synonym millis = "128 word"

record worker_sync =
  ws_retry_delay :: u64
  ws_retry_nodes :: nat
  ws_round :: round
  ws_pending :: "(digest \<times> round \<times> nat \<times> millis) list"
  ws_waiting :: "(nat \<times> digest) list"
  ws_fresh :: nat
  ws_net :: "(socket_addr \<times> worker_message) list"

definition worker_sync_new :: "u64 \<Rightarrow> nat \<Rightarrow> worker_sync" where
  "worker_sync_new delay nodes = \<lparr>ws_retry_delay = delay, ws_retry_nodes = nodes, ws_round = 0, ws_pending = [],
     ws_waiting = [], ws_fresh = 0, ws_net = []\<rparr>"

definition ws_register :: "digest \<Rightarrow> millis \<Rightarrow> worker_sync \<Rightarrow> worker_sync" where
  "ws_register digest now s =
     s\<lparr>ws_waiting := ws_waiting s @ [(ws_fresh s, digest)], ws_fresh := Suc (ws_fresh s),
       ws_pending := AList.update digest (ws_round s, ws_fresh s, now) (ws_pending s)\<rparr>"

definition sync_digest :: "'db worker \<Rightarrow> 'db store \<Rightarrow> millis \<Rightarrow> digest \<Rightarrow> digest list \<times> worker_sync \<Rightarrow> digest list \<times> worker_sync" where
  "sync_digest W st now digest acc =
     (let (missing, s) = acc in
      if map_of (ws_pending s) digest \<noteq> None then acc
      else case store_read W (digest_to_vec digest) st of
        Inr None \<Rightarrow> (missing @ [digest], ws_register digest now s)
      | Inr (Some _) \<Rightarrow> (missing, ws_register digest now s)
      | Inl e \<Rightarrow> acc)"

definition ws_synchronize :: "'db worker \<Rightarrow> 'db store \<Rightarrow> millis \<Rightarrow> digest list \<Rightarrow> public_key \<Rightarrow> worker_sync \<Rightarrow> worker_sync" where
  "ws_synchronize W st now digests target s =
     (let (missing, s) = fold (sync_digest W st now) digests ([], s) in
      case worker_of (w_committee W) target (w_id W) of
        Inl e \<Rightarrow> s
      | Inr a \<Rightarrow> s\<lparr>ws_net := ws_net s @ [(worker_to_worker a, BatchRequest missing (w_name W))]\<rparr>)"

definition ws_cleanup :: "'db worker \<Rightarrow> round \<Rightarrow> worker_sync \<Rightarrow> worker_sync" where
  "ws_cleanup W rnd s =
     (let s = s\<lparr>ws_round := rnd\<rparr> in
      if rnd < w_gc_depth W then s
      else s\<lparr>ws_pending := filter (\<lambda>(_, (r, _)). r > rnd - w_gc_depth W) (ws_pending s)\<rparr>)"

definition ws_retry :: "'db worker \<Rightarrow> millis \<Rightarrow> socket_addr list \<Rightarrow> worker_sync \<Rightarrow> worker_sync" where
  "ws_retry W now picked s =
     (let retry = map fst (filter (\<lambda>(digest, (_, _, timestamp)). timestamp + ucast (ws_retry_delay s) < now) (ws_pending s))
      in if retry = [] then s
         else s\<lparr>ws_net := ws_net s @ map (\<lambda>a. (a, BatchRequest retry (w_name W))) picked\<rparr>)"

datatype ws_event =
    WsMessage primary_worker_message millis
  | WsStored nat
  | WsCancelled nat
  | WsTimer millis "socket_addr list"

text \<open>A completed future leaves the pool; a read error is logged.\<close>

fun ws_turn :: "'db worker \<Rightarrow> 'db store \<Rightarrow> ws_event \<Rightarrow> worker_sync \<Rightarrow> worker_sync" where
  "ws_turn W st (WsMessage (Synchronize digests target) now) s = ws_synchronize W st now digests target s"
| "ws_turn W st (WsMessage (Cleanup rnd) now) s = ws_cleanup W rnd s"
| "ws_turn W st (WsStored n) s =
     (case map_of (ws_waiting s) n of
        None \<Rightarrow> s
      | Some digest \<Rightarrow>
          (let s = s\<lparr>ws_waiting := AList.delete n (ws_waiting s)\<rparr> in
           case store_read W (digest_to_vec digest) st of
             Inl e \<Rightarrow> s
           | Inr _ \<Rightarrow> s\<lparr>ws_pending := AList.delete digest (ws_pending s)\<rparr>))"
| "ws_turn W st (WsCancelled n) s = s\<lparr>ws_waiting := AList.delete n (ws_waiting s)\<rparr>"
| "ws_turn W st (WsTimer now picked) s = ws_retry W now picked s"

fun ws_enabled :: "'db worker \<Rightarrow> 'db store \<Rightarrow> worker_sync \<Rightarrow> ws_event \<Rightarrow> bool" where
  "ws_enabled W st s (WsMessage m now) = True"
| "ws_enabled W st s (WsStored n) =
     (case map_of (ws_waiting s) n of None \<Rightarrow> False | Some digest \<Rightarrow> store_read W (digest_to_vec digest) st \<noteq> Inr None)"
| "ws_enabled W st s (WsCancelled n) = (n \<in> fst ` set (ws_waiting s) \<and> n \<notin> (\<lambda>(_, _, m, _). m) ` set (ws_pending s))"
| "ws_enabled W st s (WsTimer now picked) =
     (let addresses = map (worker_to_worker \<circ> snd) (others_workers (w_committee W) (w_name W) (w_id W))
      in mset picked \<subseteq># mset addresses \<and> length picked = min (ws_retry_nodes s) (length addresses))"

inductive ws_reach :: "'db worker \<Rightarrow> 'db store \<Rightarrow> worker_sync \<Rightarrow> bool" for W where
  ws_start: "ws_reach W (store_new d) (worker_sync_new delay nodes)"
| ws_write: "ws_reach W st s \<Longrightarrow> ws_reach W (store_write W k v st) s"
| ws_step: "ws_reach W st s \<Longrightarrow> ws_enabled W st s e \<Longrightarrow> ws_reach W st (ws_turn W st e s)"

section \<open>What it keeps\<close>

definition ws_inv :: "worker_sync \<Rightarrow> bool" where
  "ws_inv s \<longleftrightarrow> distinct (map fst (ws_waiting s)) \<and> (\<forall>n \<in> fst ` set (ws_waiting s). n < ws_fresh s)
     \<and> (\<forall>(d, r, n, t) \<in> set (ws_pending s). (n, d) \<in> set (ws_waiting s))"

lemma ws_delete_set: "e \<in> set (AList.delete k m) \<longleftrightarrow> e \<in> set m \<and> fst e \<noteq> k"
  by (auto simp: AList.delete_eq)

lemma ws_register_inv: "ws_inv s \<Longrightarrow> ws_inv (ws_register d now s)"
  using set_update_subset [of d "(ws_round s, ws_fresh s, now)" "ws_pending s"]
  by (fastforce simp: ws_inv_def ws_register_def)

text \<open>The loop over the digests: what is requested and what is pending afterwards.\<close>

definition synced :: "'db worker \<Rightarrow> 'db store \<Rightarrow> digest list \<Rightarrow> worker_sync \<Rightarrow> digest list \<Rightarrow> worker_sync \<Rightarrow> bool" where
  "synced W st ds s missing s' \<longleftrightarrow> ws_inv s' \<and> ws_net s' = ws_net s \<and> distinct missing
     \<and> set missing = {d \<in> set ds. map_of (ws_pending s) d = None \<and> \<not> st.has W (digest_to_vec d) st}
     \<and> dom (map_of (ws_pending s')) = dom (map_of (ws_pending s)) \<union> set ds"

definition reads_ok :: "'db worker \<Rightarrow> bool" where
  "reads_ok W \<longleftrightarrow> (\<forall>st k e. store_read W k st \<noteq> Inl e)"

lemma synced_step:
  assumes "reads_ok W" and s1: "synced W st ds s missing s1"
  shows "case sync_digest W st now d (missing, s1) of (missing', s') \<Rightarrow> synced W st (ds @ [d]) s missing' s'"
proof (cases "map_of (ws_pending s1) d = None")
  case False
  have "d \<in> dom (map_of (ws_pending s)) \<union> set ds" using False s1 by (auto simp: synced_def)
  with False s1 show ?thesis by (auto simp: sync_digest_def synced_def)
next
  case True
  then have new: "map_of (ws_pending s) d = None" "d \<notin> set ds" using s1 unfolding synced_def by (auto simp: domIff)
  have reg: "ws_inv (ws_register d now s1)" "ws_net (ws_register d now s1) = ws_net s1"
    using s1 ws_register_inv by (auto simp: synced_def ws_register_def)
  have dom: "dom (map_of (ws_pending (ws_register d now s1))) = insert d (dom (map_of (ws_pending s1)))"
    by (simp add: ws_register_def update_conv')
  show ?thesis
  proof (cases "store_read W (digest_to_vec d) st")
    case (Inl e)
    with assms(1) show ?thesis by (simp add: reads_ok_def)
  next
    case (Inr v)
    then show ?thesis using True new s1 reg dom
      by (cases v) (auto simp: sync_digest_def synced_def st.has_def)
  qed
qed

lemma sync_digests:
  assumes "reads_ok W" "ws_inv s"
  shows "case fold (sync_digest W st now) ds ([], s) of (missing, s') \<Rightarrow> synced W st ds s missing s'"
proof (induction ds rule: rev_induct)
  case Nil
  then show ?case using assms(2) by (simp add: synced_def)
next
  case (snoc d ds)
  obtain missing s1 where s1: "fold (sync_digest W st now) ds ([], s) = (missing, s1)" by fastforce
  with snoc have "synced W st ds s missing s1" by simp
  from synced_step [OF assms(1) this] s1 show ?case by simp
qed

lemma fold_sync_inv:
  "ws_inv (snd acc) \<Longrightarrow> ws_inv (snd (fold (sync_digest W st now) ds acc))"
proof (induction ds arbitrary: acc)
  case (Cons d ds)
  have "ws_inv (snd (sync_digest W st now d acc))"
    using Cons.prems ws_register_inv by (auto simp: sync_digest_def split: prod.splits sum.splits option.splits)
  with Cons.IH show ?case by simp
qed simp

lemma ws_net_inv: "ws_inv (s\<lparr>ws_net := ms\<rparr>) = ws_inv s"
  by (simp add: ws_inv_def)

lemma ws_turn_inv:
  assumes inv: "ws_inv s" and en: "ws_enabled W st s e" and "reads_ok W"
  shows "ws_inv (ws_turn W st e s)"
proof (cases e)
  case (WsMessage m now)
  show ?thesis
  proof (cases m)
    case (Synchronize digests target)
    have "ws_inv (snd (fold (sync_digest W st now) digests ([], s)))" by (rule fold_sync_inv) (simp add: inv)
    then show ?thesis
      unfolding WsMessage Synchronize by (auto simp: ws_synchronize_def ws_net_inv split: prod.splits sum.split)
  next
    case (Cleanup rnd)
    then show ?thesis using inv WsMessage by (auto simp: ws_cleanup_def ws_inv_def Let_def)
  qed
next
  case (WsStored n)
  then obtain d where d: "map_of (ws_waiting s) n = Some d" "(n, d) \<in> set (ws_waiting s)"
    using en by (auto split: option.splits dest: map_of_SomeD)
  have uniq: "d' = d" if "(n, d') \<in> set (ws_waiting s)" for d'
    using that d(1) inv by (simp add: ws_inv_def)
  show ?thesis
  proof (cases "store_read W (digest_to_vec d) st")
    case (Inr v)
    have turn: "ws_turn W st e s = s\<lparr>ws_waiting := AList.delete n (ws_waiting s), ws_pending := AList.delete d (ws_pending s)\<rparr>"
      using d(1) Inr WsStored by simp
    have "\<forall>(d', r, m, t) \<in> set (ws_pending s). d' \<noteq> d \<longrightarrow> m \<noteq> n" using inv uniq by (auto simp: ws_inv_def)
    then show ?thesis using inv unfolding turn by (fastforce simp: ws_inv_def ws_delete_set distinct_delete)
  next
    case (Inl err)
    with assms(3) show ?thesis by (simp add: reads_ok_def)
  qed
next
  case (WsCancelled n)
  have "m \<noteq> n" if "(d, r, m, t) \<in> set (ws_pending s)" for d r m t
    using that en WsCancelled by force
  then show ?thesis using inv WsCancelled by (auto simp: ws_inv_def ws_delete_set distinct_delete)
next
  case (WsTimer now picked)
  then show ?thesis using inv by (simp add: ws_retry_def Let_def ws_net_inv)
qed


lemma ws_reach_inv: "ws_reach W st s \<Longrightarrow> reads_ok W \<Longrightarrow> ws_inv s"
proof (induction rule: ws_reach.induct)
  case (ws_step st s e)
  then show ?case by (blast intro: ws_turn_inv)
qed (auto simp: ws_inv_def worker_sync_new_def)

text \<open>On a request of the primary the worker asks the target's worker for exactly the batches that it
neither has nor waits for already, each once, and then waits for all of the primary's digests.\<close>

theorem sync_requests_exact:
  assumes "reads_ok W" "ws_reach W st s" "worker_of (w_committee W) target (w_id W) = Inr a"
  shows "\<exists>missing. ws_net (ws_turn W st (WsMessage (Synchronize digests target) now) s)
        = ws_net s @ [(worker_to_worker a, BatchRequest missing (w_name W))]
    \<and> distinct missing \<and> set missing = {d \<in> set digests. map_of (ws_pending s) d = None \<and> \<not> st.has W (digest_to_vec d) st}
    \<and> dom (map_of (ws_pending (ws_turn W st (WsMessage (Synchronize digests target) now) s)))
        = dom (map_of (ws_pending s)) \<union> set digests"
proof -
  obtain missing s1 where s1: "fold (sync_digest W st now) digests ([], s) = (missing, s1)" by fastforce
  with sync_digests [OF assms(1) ws_reach_inv [OF assms(2,1)], where now = now and ds = digests and st = st] have "synced W st digests s missing s1" by simp
  then show ?thesis using s1 assms(3) by (intro exI [of _ missing]) (simp add: ws_synchronize_def synced_def)
qed

text \<open>No request is forgotten: a pending digest has its future, and once its batch is stored the turn that
completes the future takes the digest off the list, so it is not requested again.\<close>

theorem pending_batch_completes:
  assumes "reads_ok W" "ws_reach W st s" "(d, r, n, t) \<in> set (ws_pending s)" "st.has W (digest_to_vec d) st"
  shows "ws_enabled W st s (WsStored n) \<and> map_of (ws_pending (ws_turn W st (WsStored n) s)) d = None"
proof -
  have "(n, d) \<in> set (ws_waiting s)" "distinct (map fst (ws_waiting s))"
    using ws_reach_inv [OF assms(2,1)] assms(3) by (auto simp: ws_inv_def)
  then have "map_of (ws_waiting s) n = Some d" by simp
  with assms(4) show ?thesis by (auto simp: st.has_def delete_conv')
qed

section \<open>A sample run\<close>

lemma sample_reads_ok: "reads_ok sample_worker"
  by (simp add: reads_ok_def store_read_def sample_worker_def)

abbreviation stored_one :: "(bytes \<rightharpoonup> bytes) store" where
  "stored_one \<equiv> store_write sample_worker (digest_to_vec (Digest 1)) [8] (store_new Map.empty)"

lemma stored_one_has: "st.has sample_worker (digest_to_vec (Digest 1)) stored_one"
  "\<not> st.has sample_worker (digest_to_vec (Digest 2)) stored_one"
  by (simp_all add: st.has_def st.rd_wr store_read_def [of _ _ "store_new _"]) (simp_all add: sample_worker_def store_new_def)

lemma sync_requests_exact_witness:
  "\<exists>missing. ws_net (ws_turn sample_worker stored_one (WsMessage (Synchronize [Digest 1, Digest 2] (PublicKey 2)) 0) (worker_sync_new 100 1))
     = [(SocketAddr 9 1, BatchRequest missing (PublicKey 1))] \<and> set missing = {Digest 2}"
proof -
  have r: "ws_reach sample_worker stored_one (worker_sync_new 100 1)" by (rule ws_write [OF ws_start])
  have w: "worker_of (w_committee sample_worker) (PublicKey 2) (w_id sample_worker)
      = Inr \<lparr>transactions = SocketAddr 9 0, worker_to_worker = SocketAddr 9 1, primary_to_worker = SocketAddr 9 2\<rparr>" by simp
  have "{d \<in> set [Digest 1, Digest 2]. map_of (ws_pending (worker_sync_new 100 1)) d = None
      \<and> \<not> st.has sample_worker (digest_to_vec d) stored_one} = {Digest 2}"
    using stored_one_has by (auto simp: worker_sync_new_def)
  with sync_requests_exact [OF sample_reads_ok r w, of "[Digest 1, Digest 2]" 0] show ?thesis
    by (auto simp: worker_sync_new_def)
qed

lemma pending_batch_completes_witness:
  "ws_enabled sample_worker stored_one (ws_register (Digest 1) 0 (worker_sync_new 100 1)) (WsStored 0)"
proof -
  let ?e = "WsMessage (Synchronize [Digest 1] (PublicKey 9)) 0"
  have no: "worker_of lone_committee (PublicKey 9) 7 = Inl (NotInCommittee (PublicKey 9))"
    by (simp add: worker_of_def lone_committee_def)
  have none: "store_read sample_worker k (store_new Map.empty) = Inr None" for k
    by (simp add: store_read_def sample_worker_def store_new_def)
  have "ws_turn sample_worker (store_new Map.empty) ?e (worker_sync_new 100 1) = ws_register (Digest 1) 0 (worker_sync_new 100 1)"
    by (simp add: ws_synchronize_def sync_digest_def none no) (simp add: worker_sync_new_def)
  then have "ws_reach sample_worker (store_new Map.empty) (ws_register (Digest 1) 0 (worker_sync_new 100 1))"
    using ws_step [OF ws_start, of sample_worker _ 100 1 ?e] by (metis ws_enabled.simps(1))
  then have r: "ws_reach sample_worker stored_one (ws_register (Digest 1) 0 (worker_sync_new 100 1))" by (rule ws_write)
  have p: "(Digest 1, 0, 0, 0) \<in> set (ws_pending (ws_register (Digest 1) 0 (worker_sync_new 100 1)))"
    by (simp add: ws_register_def worker_sync_new_def)
  from pending_batch_completes [OF sample_reads_ok r p stored_one_has(1)] show ?thesis by blast
qed

end
