(* ===== verification/WorkerNode.thy ===== *)
theory WorkerNode
  imports WorkerSync "HOL-Library.Sublist"
begin

text \<open>
  A whole worker: \<open>Worker::spawn\<close> of \<open>worker/src/worker.rs\<close> with its tasks, the channels between them and the
  store they share. A channel is the list of what was put into it; \<open>wn_taken\<close> and \<open>wn_done\<close> count what the
  reader has taken from the two channels of the pipeline of own batches. One step is one turn of one
  task, or something that comes from outside: a transaction, a message of another worker or of the
  primary, or the acknowledgement of a message (a cancel handler that resolves).
\<close>

section \<open>State\<close>

record 'db worker_node =
  wn_listening :: "socket_addr list"
  wn_store :: "'db store"
  wn_transactions :: "transaction list"
  wn_bm :: batch_maker
  wn_resolved :: "nat set"
  wn_taken :: nat
  wn_batches :: "bytes list"
  wn_done :: nat
  wn_others :: "bytes list"
  wn_requests :: "(digest list \<times> public_key) list"
  wn_replies :: "(socket_addr \<times> bytes) list"
  wn_commands :: "primary_worker_message list"
  wn_sync :: worker_sync
  wn_digests :: "worker_primary_message list"
  wn_primary :: "(socket_addr \<times> worker_primary_message) list"
  wn_primary_address :: socket_addr
  wn_clients :: "transaction list"

text \<open>\<open>Worker::spawn\<close>: every task needs the addresses of the worker or of its primary.\<close>

definition in_committee :: "config_error + 'a \<Rightarrow> 'a res" where
  "in_committee r = (case r of Inl e \<Rightarrow> Inl (Expect ''Our public key or worker id is not in the committee'') | Inr a \<Rightarrow> Inr a)"

text \<open>Before any task runs the channels are empty; the batch maker and the synchronizer are put in by their tasks.\<close>

definition worker_start :: "'db \<Rightarrow> 'db worker_node" where
  "worker_start d = \<lparr>wn_listening = [], wn_store = store_new d, wn_transactions = [], wn_bm = batch_maker_new 0 0 [] 0,
     wn_resolved = {}, wn_taken = 0, wn_batches = [], wn_done = 0, wn_others = [], wn_requests = [], wn_replies = [],
     wn_commands = [], wn_sync = worker_sync_new 0 0, wn_digests = [], wn_primary = [],
     wn_primary_address = unspecified 0, wn_clients = []\<rparr>"

definition own_addresses :: "'db worker \<Rightarrow> worker_addresses res" where
  "own_addresses W = in_committee (worker_of (w_committee W) (w_name W) (w_id W))"

definition handle_primary_messages :: "'db worker \<Rightarrow> parameters \<Rightarrow> 'db worker_node \<Rightarrow> 'db worker_node res" where
  "handle_primary_messages W p s = bindR (own_addresses W) (\<lambda>a.
     Inr (s\<lparr>wn_listening := wn_listening s @ [unspecified (port (primary_to_worker a))],
       wn_sync := worker_sync_new (par_sync_retry_delay p) (par_sync_retry_nodes p)\<rparr>))"

definition handle_clients_transactions :: "'db worker \<Rightarrow> parameters \<Rightarrow> 128 word \<Rightarrow> 'db worker_node \<Rightarrow> 'db worker_node res" where
  "handle_clients_transactions W p now s = bindR (own_addresses W) (\<lambda>a.
     Inr (s\<lparr>wn_listening := wn_listening s @ [unspecified (port (transactions a))],
       wn_bm := batch_maker_new (par_batch_size p) (par_max_batch_delay p)
         (map (\<lambda>(name, addresses). (name, worker_to_worker addresses)) (others_workers (w_committee W) (w_name W) (w_id W))) now\<rparr>))"

definition handle_workers_messages :: "'db worker \<Rightarrow> 'db worker_node \<Rightarrow> 'db worker_node res" where
  "handle_workers_messages W s = bindR (own_addresses W) (\<lambda>a.
     Inr (s\<lparr>wn_listening := wn_listening s @ [unspecified (port (worker_to_worker a))]\<rparr>))"

definition worker_spawn :: "'db worker \<Rightarrow> parameters \<Rightarrow> 'db \<Rightarrow> 128 word \<Rightarrow> 'db worker_node res" where
  "worker_spawn W p d now =
     bindR (handle_primary_messages W p (worker_start d)) (\<lambda>s.
     bindR (handle_clients_transactions W p now s) (\<lambda>s.
     bindR (handle_workers_messages W s) (\<lambda>s.
     case primary_of (w_committee W) (w_name W) of
       Inl e \<Rightarrow> Inl (Expect ''Our public key is not in the committee'')
     | Inr primary \<Rightarrow> Inr (s\<lparr>wn_primary_address := worker_to_primary primary\<rparr>))))"

lemma worker_spawn_Inr:
  "worker_spawn W p d now = Inr s \<longleftrightarrow> (\<exists>a b. worker_of (w_committee W) (w_name W) (w_id W) = Inr a
     \<and> primary_of (w_committee W) (w_name W) = Inr b
     \<and> s = (worker_start d)\<lparr>wn_listening := map (\<lambda>x. unspecified (port x)) [primary_to_worker a, transactions a, worker_to_worker a],
         wn_bm := batch_maker_new (par_batch_size p) (par_max_batch_delay p)
           (map (\<lambda>(name, addresses). (name, worker_to_worker addresses)) (others_workers (w_committee W) (w_name W) (w_id W))) now,
         wn_sync := worker_sync_new (par_sync_retry_delay p) (par_sync_retry_nodes p),
         wn_primary_address := worker_to_primary b\<rparr>)"
  by (auto simp: worker_spawn_def handle_primary_messages_def handle_clients_transactions_def handle_workers_messages_def
      own_addresses_def in_committee_def worker_start_def split: sum.splits)

text \<open>\<open>PrimaryReceiverHandler::dispatch\<close>: the argument is what \<open>bincode::deserialize\<close> made of the bytes.\<close>

definition primary_receive :: "primary_worker_message option \<Rightarrow> primary_worker_message list \<Rightarrow> primary_worker_message list" where
  "primary_receive message commands = (case message of None \<Rightarrow> commands | Some m \<Rightarrow> commands @ [m])"

section \<open>Steps\<close>

text \<open>An iteration of the quorum waiter ends with the acknowledgement that makes the quorum, or when no handler is left.\<close>

definition quorum_turn :: "'db worker \<Rightarrow> quorum_waiter_message \<Rightarrow> (public_key \<times> nat) list \<Rightarrow> bytes list" where
  "quorum_turn W m acks = quorum_wait W (stake_of (w_committee W) (w_name W)) m acks []"

inductive worker_step :: "'db worker \<Rightarrow> 'db worker_node \<Rightarrow> 'db worker_node \<Rightarrow> bool" for W where
  client: "worker_step W s (s\<lparr>wn_transactions := transaction_receive tx (wn_transactions s), wn_clients := wn_clients s @ [tx]\<rparr>)"
| make_batch: "wn_transactions s = tx # rest \<Longrightarrow> bm_turn W (BmTransaction tx now) (wn_bm s) = Inr bm \<Longrightarrow>
    worker_step W s (s\<lparr>wn_transactions := rest, wn_bm := bm\<rparr>)"
| batch_timer: "bm_enabled (wn_bm s) (BmTimer now) \<Longrightarrow> bm_turn W (BmTimer now) (wn_bm s) = Inr bm \<Longrightarrow>
    worker_step W s (s\<lparr>wn_bm := bm\<rparr>)"
| acknowledge: "h < length (bm_net (wn_bm s)) \<Longrightarrow> worker_step W s (s\<lparr>wn_resolved := insert h (wn_resolved s)\<rparr>)"
| quorum: "wn_taken s < length (bm_messages (wn_bm s)) \<Longrightarrow> m = bm_messages (wn_bm s) ! wn_taken s \<Longrightarrow>
    acked_by m acks \<Longrightarrow> snd ` set acks \<subseteq> wn_resolved s \<Longrightarrow>
    quorum_turn W m acks \<noteq> [] \<or> mset acks = mset (qw_handlers m) \<Longrightarrow>
    worker_step W s (s\<lparr>wn_taken := wn_taken s + 1, wn_batches := wn_batches s @ quorum_turn W m acks\<rparr>)"
| process_own: "wn_done s < length (wn_batches s) \<Longrightarrow>
    processor_step W True (wn_batches s ! wn_done s) (wn_store s, wn_digests s) = (st, out) \<Longrightarrow>
    worker_step W s (s\<lparr>wn_done := wn_done s + 1, wn_store := st, wn_digests := out\<rparr>)"
| worker_message: "worker_receive W bs (wn_requests s, wn_others s) = (requests, others) \<Longrightarrow>
    worker_step W s (s\<lparr>wn_requests := requests, wn_others := others\<rparr>)"
| process_other: "wn_others s = b # rest \<Longrightarrow> processor_step W False b (wn_store s, wn_digests s) = (st, out) \<Longrightarrow>
    worker_step W s (s\<lparr>wn_others := rest, wn_store := st, wn_digests := out\<rparr>)"
| serve_request: "wn_requests s = req # rest \<Longrightarrow>
    worker_step W s (s\<lparr>wn_requests := rest, wn_replies := batch_request W (wn_store s) req (wn_replies s)\<rparr>)"
| command: "worker_step W s (s\<lparr>wn_commands := primary_receive m (wn_commands s)\<rparr>)"
| synchronize: "wn_commands s = m # rest \<Longrightarrow>
    worker_step W s (s\<lparr>wn_commands := rest, wn_sync := ws_turn W (wn_store s) (WsMessage m now) (wn_sync s)\<rparr>)"
| sync_future: "(\<forall>m now. e \<noteq> WsMessage m now) \<Longrightarrow> ws_enabled W (wn_store s) (wn_sync s) e \<Longrightarrow>
    worker_step W s (s\<lparr>wn_sync := ws_turn W (wn_store s) e (wn_sync s)\<rparr>)"
| connect: "wn_digests s = m # rest \<Longrightarrow>
    worker_step W s (s\<lparr>wn_digests := rest, wn_primary := connector_step (wn_primary_address s) m (wn_primary s)\<rparr>)"

definition worker_reach :: "'db worker \<Rightarrow> parameters \<Rightarrow> 'db worker_node \<Rightarrow> bool" where
  "worker_reach W p s \<longleftrightarrow> (\<exists>d now s0. (\<forall>k. store_read W k (store_new d) = Inr None) \<and> worker_spawn W p d now = Inr s0
     \<and> (worker_step W)\<^sup>*\<^sup>* s0 s)"

section \<open>The messages of the batch maker\<close>

text \<open>The handlers of a message belong to the copies of its batch that were sent, one per other worker.\<close>

definition handlers_ok :: "batch_maker \<Rightarrow> bool" where
  "handlers_ok s \<longleftrightarrow> (\<forall>m \<in> set (bm_messages s). \<exists>k. k + length (workers_addresses s) \<le> length (bm_net s)
     \<and> qw_handlers m = zip (map fst (workers_addresses s)) [k ..< k + length (workers_addresses s)]
     \<and> (\<forall>i < length (workers_addresses s). bm_net s ! (k + i) = (snd (workers_addresses s ! i), qw_batch m)))"

lemma handlers_ok_mono:
  assumes "handlers_ok s" "workers_addresses s' = workers_addresses s" "bm_net s' = bm_net s @ extra" "bm_messages s' = bm_messages s"
  shows "handlers_ok s'"
  unfolding handlers_ok_def
proof
  fix m assume "m \<in> set (bm_messages s')"
  then obtain k where k: "k + length (workers_addresses s) \<le> length (bm_net s)"
    "qw_handlers m = zip (map fst (workers_addresses s)) [k ..< k + length (workers_addresses s)]"
    "\<forall>i < length (workers_addresses s). bm_net s ! (k + i) = (snd (workers_addresses s ! i), qw_batch m)"
    using assms by (auto simp: handlers_ok_def)
  then show "\<exists>k. k + length (workers_addresses s') \<le> length (bm_net s')
     \<and> qw_handlers m = zip (map fst (workers_addresses s')) [k ..< k + length (workers_addresses s')]
     \<and> (\<forall>i < length (workers_addresses s'). bm_net s' ! (k + i) = (snd (workers_addresses s' ! i), qw_batch m))"
    using assms(2,3) by (intro exI [of _ k]) (auto simp: nth_append)
qed

definition maker_grows :: "batch_maker \<Rightarrow> batch_maker \<Rightarrow> bool" where
  "maker_grows s s' \<longleftrightarrow> handlers_ok s' \<and> workers_addresses s' = workers_addresses s
     \<and> prefix (bm_messages s) (bm_messages s') \<and> prefix (bm_net s) (bm_net s')"

lemma maker_grows_simps [simp]:
  "maker_grows s (bm_reset now t) = maker_grows s t"
  "maker_grows (s\<lparr>current_batch_size := x, current_batch := b\<rparr>) t = maker_grows s t"
  "maker_grows s (t\<lparr>current_batch_size := x, current_batch := b\<rparr>) = maker_grows s t"
  "handlers_ok s \<Longrightarrow> maker_grows s s"
  by (simp_all add: maker_grows_def bm_reset_def handlers_ok_def)

lemma seal_grows:
  assumes "handlers_ok s" "seal W s = Inr s'"
  shows "maker_grows s s'"
proof -
  let ?b = "ser_message W (Batch (current_batch s))"
  let ?net = "bm_net s @ map (\<lambda>a. (a, ?b)) (map snd (workers_addresses s))"
  let ?m = "\<lparr>qw_batch = ?b, qw_handlers = zip (map fst (workers_addresses s)) [length (bm_net s) ..< length (bm_net s) + length (workers_addresses s)]\<rparr>"
  have s': "bm_net s' = ?net" "bm_messages s' = bm_messages s @ [?m]" "workers_addresses s' = workers_addresses s"
    using assms(2) by (auto simp: seal_def Let_def split: if_splits)
  have "handlers_ok (s\<lparr>bm_net := ?net\<rparr>)" by (rule handlers_ok_mono [OF assms(1)]) auto
  then have "handlers_ok s'" using s' by (auto simp: handlers_ok_def nth_append intro: exI [of _ "length (bm_net s)"])
  with s' show ?thesis by (simp add: maker_grows_def)
qed

lemma bm_turn_grows:
  assumes ok: "handlers_ok s" and turn: "bm_turn W e s = Inr s'"
  shows "maker_grows s s'"
proof (cases e)
  case (BmTransaction tx now)
  let ?t = "s\<lparr>current_batch_size := current_batch_size s + of_nat (length tx), current_batch := current_batch s @ [tx]\<rparr>"
  have t: "handlers_ok ?t" using ok by (simp add: handlers_ok_def)
  show ?thesis
  proof (cases "batch_size s \<le> current_batch_size ?t")
    case True
    then obtain u where "seal W ?t = Inr u" "s' = bm_reset now u" using turn BmTransaction by (auto simp: bindR_Inr_iff Let_def)
    with seal_grows [OF t] show ?thesis by simp
  next
    case False
    then have "s' = ?t" using turn BmTransaction by simp
    with ok show ?thesis by simp
  qed
next
  case (BmTimer now)
  then obtain u where "u = s \<or> seal W s = Inr u" "s' = bm_reset now u"
    using turn by (auto simp: bindR_Inr_iff split: if_splits)
  with seal_grows [OF ok] ok show ?thesis by auto
qed

lemma map_filter_keys:
  "fst ` set (List.map_filter (\<lambda>(n, a). map_option (\<lambda>(_, y). (n, y)) (f a)) xs) \<subseteq> fst ` set xs"
  by (auto simp: List.map_filter_def intro: rev_image_eqI)

lemma map_filter_distinct:
  "distinct (map fst xs) \<Longrightarrow> distinct (map fst (List.map_filter (\<lambda>(n, a). map_option (\<lambda>(_, y). (n, y)) (f a)) xs))"
proof (induction xs)
  case (Cons x xs)
  have "fst x \<notin> fst ` set (List.map_filter (\<lambda>(n, a). map_option (\<lambda>(_, y). (n, y)) (f a)) xs)"
    using map_filter_keys [of f xs] Cons.prems by auto
  with Cons show ?case by (cases x) (auto simp: List.map_filter_simps split: option.split)
qed (simp add: List.map_filter_simps)

lemma others_workers_names:
  assumes "wf_committee c"
  shows "distinct (map fst (others_workers c k w))" "k \<notin> fst ` set (others_workers c k w)"
proof -
  have "distinct (map fst (filter (\<lambda>(name, _). name \<noteq> k) (authorities c)))"
    using assms by (intro distinct_map_filter) (simp add: wf_committee_def strict_sorted_iff)
  from map_filter_distinct [OF this, of "\<lambda>a. find (\<lambda>(k, _). k = w) (auth_workers a)"]
  show "distinct (map fst (others_workers c k w))" by (simp add: others_workers_def)
  show "k \<notin> fst ` set (others_workers c k w)" using others_workers_set [OF assms] by auto
qed

section \<open>From the clients to the quorum waiter\<close>

text \<open>A batch whose copies were acknowledged by authorities that hold a quorum with the worker's own.\<close>

definition available :: "'db worker \<Rightarrow> 'db worker_node \<Rightarrow> quorum_waiter_message \<Rightarrow> (public_key \<times> nat) list \<Rightarrow> bool" where
  "available W s m acks \<longleftrightarrow> m \<in> set (bm_messages (wn_bm s)) \<and> acked_by m acks \<and> snd ` set acks \<subseteq> wn_resolved s
     \<and> unat (quorum_threshold (w_committee W)) \<le> sum (stake_nat (w_committee W)) (insert (w_name W) (fst ` set acks))"

definition pipe_inv :: "'db worker \<Rightarrow> parameters \<Rightarrow> 'db worker_node \<Rightarrow> bool" where
  "pipe_inv W p s \<longleftrightarrow> (bytes_of (wn_clients s) < 2 ^ 64 \<longrightarrow>
       (\<exists>es bs. bm_inv W es bs (wn_bm s) \<and> transactions_of es @ wn_transactions s = wn_clients s))
     \<and> handlers_ok (wn_bm s)
     \<and> workers_addresses (wn_bm s) = map (\<lambda>(name, addresses). (name, worker_to_worker addresses))
          (others_workers (w_committee W) (w_name W) (w_id W))
     \<and> wn_taken s \<le> length (bm_messages (wn_bm s))
     \<and> subseq (wn_batches s) (map qw_batch (take (wn_taken s) (bm_messages (wn_bm s))))
     \<and> (\<forall>b \<in> set (wn_batches s). \<exists>m acks. qw_batch m = b \<and> available W s m acks)"

lemma pipe_inv_same:
  assumes "pipe_inv W p s" "wn_clients s' = wn_clients s" "wn_transactions s' = wn_transactions s" "wn_bm s' = wn_bm s"
    "wn_taken s' = wn_taken s" "wn_batches s' = wn_batches s" "wn_resolved s \<subseteq> wn_resolved s'"
  shows "pipe_inv W p s'"
proof -
  have avail: "available W s' m acks" if "available W s m acks" for m acks
    using that assms(4,7) by (auto simp: available_def)
  have "\<forall>b \<in> set (wn_batches s'). \<exists>m acks. qw_batch m = b \<and> available W s' m acks"
  proof
    fix b assume "b \<in> set (wn_batches s')"
    then obtain m acks where "qw_batch m = b" "available W s m acks" using assms(1,6) by (auto simp: pipe_inv_def)
    with avail show "\<exists>m acks. qw_batch m = b \<and> available W s' m acks" by blast
  qed
  with assms(1-6) show ?thesis by (simp add: pipe_inv_def)
qed

lemma pipe_inv_maker:
  assumes I: "pipe_inv W p s" and turn: "bm_turn W e (wn_bm s) = Inr bm"
    and tx: "transactions_of [e] @ rest = wn_transactions s"
  shows "pipe_inv W p (s\<lparr>wn_transactions := rest, wn_bm := bm\<rparr>)"
proof -
  have g: "maker_grows (wn_bm s) bm" using I by (intro bm_turn_grows [OF _ turn]) (simp add: pipe_inv_def)
  then obtain ms where ms: "bm_messages bm = bm_messages (wn_bm s) @ ms" by (auto simp: maker_grows_def prefix_def)
  have maker: "\<exists>es bs. bm_inv W es bs bm \<and> transactions_of es @ rest = wn_clients s" if small: "bytes_of (wn_clients s) < 2 ^ 64"
  proof -
    obtain es bs where es: "bm_inv W es bs (wn_bm s)" "transactions_of es @ wn_transactions s = wn_clients s"
      using I small by (auto simp: pipe_inv_def)
    have tr: "transactions_of (es @ [e]) @ rest = wn_clients s" using es(2) tx by (simp add: transactions_of_def)
    then have "bytes_of (transactions_of (es @ [e])) \<le> bytes_of (wn_clients s)" by (metis bytes_of_append le_add1)
    then show ?thesis using bm_turn_inv [OF es(1), of e] small turn tr by auto
  qed
  have "\<exists>m acks. qw_batch m = b \<and> available W (s\<lparr>wn_transactions := rest, wn_bm := bm\<rparr>) m acks" if b: "b \<in> set (wn_batches s)" for b
  proof -
    obtain m acks where "qw_batch m = b" "available W s m acks" using I b by (auto simp: pipe_inv_def)
    then show ?thesis using ms by (intro exI [of _ m] exI [of _ acks]) (simp add: available_def)
  qed
  with I g ms maker show ?thesis by (simp add: pipe_inv_def maker_grows_def)
qed

lemma quorum_turn_exact:
  assumes "sane_stake (w_committee W)" "distinct (map fst (qw_handlers m))" "w_name W \<notin> fst ` set (qw_handlers m)" "acked_by m acks"
  shows "quorum_turn W m acks
    = (if acks \<noteq> [] \<and> unat (quorum_threshold (w_committee W)) \<le> sum (stake_nat (w_committee W)) (insert (w_name W) (fst ` set acks))
       then [qw_batch m] else [])"
  using quorum_wait_exact [OF assms, of "[]"] by (simp add: quorum_turn_def)

lemma handler_names:
  assumes "pipe_inv W p s" "m \<in> set (bm_messages (wn_bm s))"
  shows "map fst (qw_handlers m) = map fst (others_workers (w_committee W) (w_name W) (w_id W))"
proof -
  obtain k where "qw_handlers m = zip (map fst (workers_addresses (wn_bm s))) [k ..< k + length (workers_addresses (wn_bm s))]"
    using assms by (auto simp: pipe_inv_def handlers_ok_def)
  then have "map fst (qw_handlers m) = map fst (workers_addresses (wn_bm s))" by simp
  with assms(1) show ?thesis by (simp add: pipe_inv_def comp_def split_beta)
qed

lemma pipe_inv_quorum:
  assumes I: "pipe_inv W p s" and sane: "sane_stake (w_committee W)"
    and m: "wn_taken s < length (bm_messages (wn_bm s))" "m = bm_messages (wn_bm s) ! wn_taken s"
    and acks: "acked_by m acks" "snd ` set acks \<subseteq> wn_resolved s"
  shows "pipe_inv W p (s\<lparr>wn_taken := wn_taken s + 1, wn_batches := wn_batches s @ quorum_turn W m acks\<rparr>)"
proof -
  let ?Q = "acks \<noteq> [] \<and> unat (quorum_threshold (w_committee W)) \<le> sum (stake_nat (w_committee W)) (insert (w_name W) (fst ` set acks))"
  have mem: "m \<in> set (bm_messages (wn_bm s))" using m by simp
  have wf: "wf_committee (w_committee W)" using sane by (simp add: sane_stake_def)
  have "distinct (map fst (qw_handlers m))" using others_workers_names(1) [OF wf] by (simp add: handler_names [OF I mem])
  moreover have "w_name W \<notin> fst ` set (qw_handlers m)"
    using others_workers_names(2) [OF wf] handler_names [OF I mem] by (metis set_map)
  ultimately have q: "quorum_turn W m acks = (if ?Q then [qw_batch m] else [])"
    using quorum_turn_exact [OF sane] acks(1) by blast
  have "take (wn_taken s + 1) (bm_messages (wn_bm s)) = take (wn_taken s) (bm_messages (wn_bm s)) @ [m]"
    using m by (simp add: take_Suc_conv_app_nth)
  moreover have "subseq (wn_batches s @ quorum_turn W m acks) (map qw_batch (take (wn_taken s) (bm_messages (wn_bm s))) @ [qw_batch m])"
    using I q by (intro list_emb_append_mono) (auto simp: pipe_inv_def)
  moreover have "available W s m acks" if ?Q using that mem acks by (simp add: available_def)
  ultimately show ?thesis using I m(1) q by (auto simp: pipe_inv_def available_def)
qed

lemma bytes_of_snoc_less: "bytes_of (xs @ [x]) < n \<Longrightarrow> bytes_of xs < n"
  by simp

lemma pipe_inv_step:
  assumes "worker_step W s s'" "pipe_inv W p s" "sane_stake (w_committee W)"
  shows "pipe_inv W p s'"
  using assms
proof (induction rule: worker_step.induct)
  case (client s tx)
  then show ?case by (auto simp: pipe_inv_def transaction_receive_def available_def)
next
  case (make_batch s tx rest now bm)
  then show ?case by (intro pipe_inv_maker [OF make_batch(3,2)]) (simp add: transactions_of_def)
next
  case (batch_timer s now bm)
  then have "pipe_inv W p (s\<lparr>wn_transactions := wn_transactions s, wn_bm := bm\<rparr>)"
    by (intro pipe_inv_maker [OF batch_timer(3,2)]) (simp add: transactions_of_def)
  then show ?case by simp
next
  case (quorum s m acks)
  then show ?case by (intro pipe_inv_quorum) auto
qed (erule pipe_inv_same; auto)+

section \<open>From the quorum waiter to the primary\<close>

definition reports :: "'db worker_node \<Rightarrow> worker_primary_message list" where
  "reports s = map snd (wn_primary s) @ wn_digests s"

definition own_reports :: "worker_primary_message list \<Rightarrow> digest list" where
  "own_reports ms = concat (map (\<lambda>m. case m of OurBatch d i \<Rightarrow> [d] | OthersBatch d i \<Rightarrow> []) ms)"

definition report_inv :: "'db worker \<Rightarrow> 'db worker_node \<Rightarrow> bool" where
  "report_inv W s \<longleftrightarrow> (\<forall>d v. store_read W (digest_to_vec d) (wn_store s) = Inr (Some v) \<longrightarrow> hash_digest (w_lib W) v = d)
     \<and> wn_done s \<le> length (wn_batches s)
     \<and> own_reports (reports s) = map (hash_digest (w_lib W)) (take (wn_done s) (wn_batches s))
     \<and> (\<forall>m \<in> set (reports s). \<exists>d. (m = OurBatch d (w_id W) \<or> m = OthersBatch d (w_id W)) \<and> st.has W (digest_to_vec d) (wn_store s))"

lemma own_reports_simps [simp]:
  "own_reports (ms @ ns) = own_reports ms @ own_reports ns" "own_reports [OurBatch d i] = [d]" "own_reports [OthersBatch d i] = []"
  by (simp_all add: own_reports_def)

lemma report_inv_same:
  assumes "report_inv W s" "wn_store s' = wn_store s" "wn_done s' = wn_done s" "reports s' = reports s" "prefix (wn_batches s) (wn_batches s')"
  shows "report_inv W s'"
proof -
  obtain bs where "wn_batches s' = wn_batches s @ bs" using assms(5) by (auto simp: prefix_def)
  with assms(1-4) show ?thesis by (simp add: report_inv_def)
qed

lemma processor_reports:
  assumes I: "report_inv W s" and ok: "rocks_ok W"
    and step: "processor_step W own b (wn_store s, wn_digests s) = (st, out)"
    and own: "own \<Longrightarrow> n = wn_done s + 1 \<and> wn_done s < length (wn_batches s) \<and> b = wn_batches s ! wn_done s" "\<not> own \<Longrightarrow> n = wn_done s"
  shows "report_inv W (s\<lparr>wn_done := n, wn_store := st, wn_digests := out\<rparr>)"
proof -
  let ?d = "hash_digest (w_lib W) b"
  let ?m = "if own then OurBatch ?d (w_id W) else OthersBatch ?d (w_id W)"
  have out: "out = wn_digests s @ [?m]" and st: "st = store_write W (digest_to_vec ?d) b (wn_store s)"
    using step by (auto simp: processor_step_def Let_def)
  have "own_reports (reports s @ [?m]) = map (hash_digest (w_lib W)) (take n (wn_batches s))"
  proof (cases own)
    case True
    then have "take n (wn_batches s) = take (wn_done s) (wn_batches s) @ [b]" using own(1) by (simp add: take_Suc_conv_app_nth)
    with True I show ?thesis by (simp add: report_inv_def)
  qed (use I own(2) in \<open>simp add: report_inv_def\<close>)
  moreover have "\<exists>d. (m = OurBatch d (w_id W) \<or> m = OthersBatch d (w_id W)) \<and> st.has W (digest_to_vec d) st"
    if m: "m \<in> set (reports s @ [?m])" for m
  proof (cases "m = ?m")
    case True
    then show ?thesis by (intro exI [of _ ?d]) (simp add: st st.has_wr [OF ok])
  next
    case False
    then obtain d where "m = OurBatch d (w_id W) \<or> m = OthersBatch d (w_id W)" "st.has W (digest_to_vec d) (wn_store s)"
      using m I by (auto simp: report_inv_def)
    then show ?thesis by (intro exI [of _ d]) (simp add: st st.has_wr [OF ok])
  qed
  moreover have "n \<le> length (wn_batches s)" using own I by (cases own) (auto simp: report_inv_def)
  moreover have "reports (s\<lparr>wn_done := n, wn_store := st, wn_digests := out\<rparr>) = reports s @ [?m]" by (simp add: reports_def out)
  ultimately show ?thesis using I by (simp add: report_inv_def st st.rd_wr [OF ok])
qed

lemma report_inv_step:
  assumes "worker_step W s s'" "report_inv W s" "rocks_ok W"
  shows "report_inv W s'"
  using assms
proof (induction rule: worker_step.induct)
  case (process_own s st out)
  then show ?case using processor_reports [OF process_own(3,4,2), of "wn_done s + 1"] by simp
next
  case (process_other s b rest st out)
  have "report_inv W (s\<lparr>wn_done := wn_done s, wn_store := st, wn_digests := out\<rparr>)"
    by (rule processor_reports [OF process_other(3,4,2)]) simp_all
  then show ?case by (rule report_inv_same) (simp_all add: reports_def)
next
  case (connect s m rest)
  then show ?case by (intro report_inv_same [OF connect(2)]) (simp_all add: reports_def connector_step_def)
qed (erule report_inv_same; simp add: reports_def)+

lemma worker_reach_inv:
  assumes "worker_reach W p s" "sane_stake (w_committee W)" "rocks_ok W"
  shows "pipe_inv W p s \<and> report_inv W s"
proof -
  obtain d now s0 where start: "\<forall>k. store_read W k (store_new d) = Inr None" "worker_spawn W p d now = Inr s0"
    and run: "(worker_step W)\<^sup>*\<^sup>* s0 s" using assms(1) by (auto simp: worker_reach_def)
  from run show ?thesis
  proof (induction rule: rtranclp_induct)
    case base
    have "bm_inv W [] [] (wn_bm s0)" "wn_clients s0 = []" "wn_transactions s0 = []" using start(2)
      by (auto simp: worker_spawn_Inr worker_start_def bm_inv_def batch_maker_new_def transactions_of_def bytes_of_def)
    then have "\<exists>es bs. bm_inv W es bs (wn_bm s0) \<and> transactions_of es @ wn_transactions s0 = wn_clients s0"
      by (intro exI [of _ "[]"]) (simp add: transactions_of_def)
    with start show ?case
      by (auto simp: worker_spawn_Inr worker_start_def pipe_inv_def report_inv_def handlers_ok_def batch_maker_new_def reports_def own_reports_def)
  next
    case (step s s')
    then show ?case using pipe_inv_step [OF step(2)] report_inv_step [OF step(2)] assms(2,3) by blast
  qed
qed

section \<open>What the worker promises\<close>

text \<open>The handler of an acknowledgement belongs to the copy of the batch that went to that authority's worker.\<close>

lemma acked_copy:
  assumes I: "pipe_inv W p s" and wf: "wf_committee (w_committee W)" and av: "available W s m acks" and nh: "(n, h) \<in> set acks"
  shows "h \<in> wn_resolved s \<and> (\<exists>a. worker_of (w_committee W) n (w_id W) = Inr a \<and> bm_net (wn_bm s) ! h = (worker_to_worker a, qw_batch m))"
proof -
  let ?wa = "workers_addresses (wn_bm s)"
  obtain k where k: "qw_handlers m = zip (map fst ?wa) [k ..< k + length ?wa]"
    "\<forall>i < length ?wa. bm_net (wn_bm s) ! (k + i) = (snd (?wa ! i), qw_batch m)"
    using I av by (auto simp: pipe_inv_def handlers_ok_def available_def)
  have "(n, h) \<in> set (qw_handlers m)"
    using nh set_mset_mono [of "mset acks" "mset (qw_handlers m)"] av by (auto simp: available_def acked_by_def)
  then obtain i where i: "i < length ?wa" "n = fst (?wa ! i)" "h = k + i" using k(1) by (auto simp: set_zip)
  have wa: "?wa = map (\<lambda>(name, addresses). (name, worker_to_worker addresses)) (others_workers (w_committee W) (w_name W) (w_id W))"
    using I by (simp add: pipe_inv_def)
  have "?wa ! i \<in> set ?wa" using i(1) by simp
  then have "?wa ! i \<in> (\<lambda>(name, addresses). (name, worker_to_worker addresses)) `
      set (others_workers (w_committee W) (w_name W) (w_id W))" using wa by (metis set_map)
  then obtain n' a where a: "(n', a) \<in> set (others_workers (w_committee W) (w_name W) (w_id W))" "?wa ! i = (n', worker_to_worker a)"
    by (elim imageE) (simp split: prod.splits)
  then have "worker_of (w_committee W) n (w_id W) = Inr a" using i(2) others_workers_set [OF wf] by simp
  moreover have "bm_net (wn_bm s) ! h = (worker_to_worker a, qw_batch m)" using k(2) i a(2) by simp
  moreover have "h \<in> wn_resolved s" using av nh by (force simp: available_def)
  ultimately show ?thesis by blast
qed

text \<open>C33. A whole worker: its own batches that it reports to its primary are, in the order of the reports, digests of
  batches into which the stream of the clients' transactions was cut, and none is reported twice; whatever it
  reports, own or not, is in its store. Only what the quorum waiter drops is missing from the reports.\<close>

theorem worker_keeps_order:
  assumes "worker_reach W p s" "sane_stake (w_committee W)" "rocks_ok W" "bytes_of (wn_clients s) < 2 ^ 64"
  shows "\<exists>bs. concat bs @ current_batch (wn_bm s) @ wn_transactions s = wn_clients s
    \<and> subseq (wn_batches s) (map (\<lambda>b. ser_message W (Batch b)) bs)
    \<and> own_reports (reports s) = map (hash_digest (w_lib W)) (take (wn_done s) (wn_batches s))
    \<and> (\<forall>m \<in> set (reports s). \<exists>d v. (m = OurBatch d (w_id W) \<or> m = OthersBatch d (w_id W))
         \<and> store_read W (digest_to_vec d) (wn_store s) = Inr (Some v) \<and> hash_digest (w_lib W) v = d)"
proof -
  have P: "pipe_inv W p s" and R: "report_inv W s" using worker_reach_inv [OF assms(1-3)] by auto
  obtain es bs where bm: "bm_inv W es bs (wn_bm s)" "transactions_of es @ wn_transactions s = wn_clients s"
    using P assms(4) by (auto simp: pipe_inv_def)
  have "subseq (map qw_batch (take (wn_taken s) (bm_messages (wn_bm s)))) (map qw_batch (bm_messages (wn_bm s)))"
    by (intro subseq_map) (metis append_take_drop_id list_emb_append2 subseq_order.order_refl prefix_imp_subseq take_is_prefix)
  moreover have "subseq (wn_batches s) (map qw_batch (take (wn_taken s) (bm_messages (wn_bm s))))" using P by (simp add: pipe_inv_def)
  ultimately have "subseq (wn_batches s) (map qw_batch (bm_messages (wn_bm s)))" using subseq_order.order_trans by blast
  then have "subseq (wn_batches s) (map (\<lambda>b. ser_message W (Batch b)) bs)" using bm(1) by (simp add: bm_inv_def)
  moreover have "concat bs @ current_batch (wn_bm s) @ wn_transactions s = wn_clients s" using bm by (simp add: bm_inv_def flip: append_assoc)
  ultimately show ?thesis using R unfolding report_inv_def st.has_def by (intro exI [of _ bs]) blast
qed

text \<open>C32. When the primary is told of an own batch, the batch is a contiguous part of the transactions the clients
  sent, its bytes are stored under the digest, and workers of authorities that hold a quorum of stake
  together with the worker's own have acknowledged a message with exactly these bytes.\<close>

theorem worker_reports_available:
  assumes "worker_reach W p s" "sane_stake (w_committee W)" "rocks_ok W" "bytes_of (wn_clients s) < 2 ^ 64"
    and "(a, OurBatch d i) \<in> set (wn_primary s)"
  shows "\<exists>txs acks v. d = hash_digest (w_lib W) (ser_message W (Batch txs)) \<and> i = w_id W \<and> txs \<noteq> [] \<and> sublist txs (wn_clients s)
    \<and> store_read W (digest_to_vec d) (wn_store s) = Inr (Some v) \<and> hash_digest (w_lib W) v = d
    \<and> unat (quorum_threshold (w_committee W)) \<le> sum (stake_nat (w_committee W)) (insert (w_name W) (fst ` set acks))
    \<and> (\<forall>(n, h) \<in> set acks. h \<in> wn_resolved s \<and> (\<exists>b. worker_of (w_committee W) n (w_id W) = Inr b
         \<and> bm_net (wn_bm s) ! h = (worker_to_worker b, ser_message W (Batch txs))))"
proof -
  have P: "pipe_inv W p s" and R: "report_inv W s" using worker_reach_inv [OF assms(1-3)] by auto
  have wf: "wf_committee (w_committee W)" using assms(2) by (simp add: sane_stake_def)
  have m: "OurBatch d i \<in> set (reports s)" using assms(5) by (force simp: reports_def)
  then obtain v where v: "i = w_id W" "store_read W (digest_to_vec d) (wn_store s) = Inr (Some v)" "hash_digest (w_lib W) v = d"
    using R unfolding report_inv_def st.has_def by (metis worker_primary_message.distinct(1) worker_primary_message.inject(1))
  have "d \<in> set (own_reports (reports s))" using m by (force simp: own_reports_def)
  then have "d \<in> hash_digest (w_lib W) ` set (wn_batches s)" using R set_take_subset by (fastforce simp: report_inv_def)
  then obtain b where b: "b \<in> set (wn_batches s)" "d = hash_digest (w_lib W) b" by blast
  then obtain m acks where av: "qw_batch m = b" "available W s m acks" using P by (auto simp: pipe_inv_def)
  obtain es bs where bm: "bm_inv W es bs (wn_bm s)" "transactions_of es @ wn_transactions s = wn_clients s"
    using P assms(4) by (auto simp: pipe_inv_def)
  have "b \<in> set (map qw_batch (bm_messages (wn_bm s)))" using av by (auto simp: available_def)
  moreover have "map qw_batch (bm_messages (wn_bm s)) = map (\<lambda>b. ser_message W (Batch b)) bs" using bm(1) by (simp add: bm_inv_def)
  ultimately obtain txs where txs: "txs \<in> set bs" "b = ser_message W (Batch txs)" by auto
  obtain xs ys where "bs = xs @ txs # ys" using txs(1) by (metis split_list)
  then have "wn_clients s = concat xs @ txs @ concat ys @ current_batch (wn_bm s) @ wn_transactions s"
    using bm by (simp add: bm_inv_def flip: append_assoc)
  then have "sublist txs (wn_clients s)" unfolding sublist_def by blast
  moreover have "txs \<noteq> []" using bm(1) txs(1) by (auto simp: bm_inv_def batch_ok_def)
  ultimately show ?thesis using v b(2) txs(2) av acked_copy [OF P wf av(2)]
    by (intro exI [of _ txs] exI [of _ acks] exI [of _ v]) (auto simp: available_def)
qed

section \<open>A sample run\<close>

text \<open>One transaction of one byte, a batch size of one: the batch goes to three workers, two acknowledge it.\<close>

abbreviation lone_address :: worker_addresses where
  "lone_address \<equiv> \<lparr>transactions = SocketAddr 9 0, worker_to_worker = SocketAddr 9 1, primary_to_worker = SocketAddr 9 2\<rparr>"

lemma lone_lookups:
  "worker_of lone_committee (PublicKey 1) 7 = Inr lone_address"
  "primary_of lone_committee (PublicKey 1) = Inr \<lparr>primary_to_primary = SocketAddr 0 0, worker_to_primary = SocketAddr 0 1\<rparr>"
  "others_workers lone_committee (PublicKey 1) 7 = [(PublicKey 2, lone_address), (PublicKey 3, lone_address), (PublicKey 4, lone_address)]"
  by (simp_all add: worker_of_def primary_of_def others_workers_def lone_committee_def List.map_filter_simps)

definition byte_parameters :: parameters where
  "byte_parameters = parameters_default\<lparr>par_batch_size := 1\<rparr>"

lemma lone_store: "\<forall>k. store_read sample_worker k (store_new Map.empty) = Inr None"
  by (simp add: store_read_def store_new_def sample_worker_def)

lemma lone_run:
  "\<exists>s. worker_reach sample_worker byte_parameters s \<and> wn_clients s = [[9]]
     \<and> wn_primary s = [(SocketAddr 0 1, OurBatch (hash_digest sample_lib [9]) 7)]"
proof -
  obtain s0 where s0: "worker_spawn sample_worker byte_parameters Map.empty 0 = Inr s0"
    by (simp add: worker_spawn_Inr lone_lookups)
  let ?bm = "batch_maker_new 1 100 [(PublicKey 2, SocketAddr 9 1), (PublicKey 3, SocketAddr 9 1), (PublicKey 4, SocketAddr 9 1)] 0"
  have f0: "wn_bm s0 = ?bm" "wn_transactions s0 = []" "wn_clients s0 = []" "wn_taken s0 = 0" "wn_batches s0 = []" "wn_done s0 = 0"
    "wn_digests s0 = []" "wn_primary s0 = []" "wn_primary_address s0 = SocketAddr 0 1" "wn_resolved s0 = {}"
    using s0 by (auto simp: worker_spawn_Inr worker_start_def lone_lookups byte_parameters_def parameters_default_def)
  let ?m = "\<lparr>qw_batch = [9], qw_handlers = [(PublicKey 2, 0), (PublicKey 3, 1), (PublicKey 4, 2)]\<rparr>"
  let ?bm1 = "?bm\<lparr>bm_net := replicate 3 (SocketAddr 9 1, [9]), bm_messages := [?m]\<rparr>"
  let ?s1 = "s0\<lparr>wn_transactions := [[9]], wn_clients := [[9]]\<rparr>"
  let ?s2 = "?s1\<lparr>wn_transactions := [], wn_bm := ?bm1\<rparr>"
  let ?s3 = "?s2\<lparr>wn_resolved := {0}\<rparr>"
  let ?s4 = "?s3\<lparr>wn_resolved := {1, 0}\<rparr>"
  let ?s5 = "?s4\<lparr>wn_taken := 1, wn_batches := [[9]]\<rparr>"
  let ?d = "hash_digest sample_lib [9]"
  let ?s6 = "?s5\<lparr>wn_done := 1, wn_store := store_write sample_worker (digest_to_vec ?d) [9] (wn_store s0), wn_digests := [OurBatch ?d 7]\<rparr>"
  let ?s7 = "?s6\<lparr>wn_digests := [], wn_primary := [(SocketAddr 0 1, OurBatch ?d 7)]\<rparr>"
  have 1: "worker_step sample_worker s0 ?s1" using client [of sample_worker s0 "[9]"] f0 by (simp add: transaction_receive_def)
  have "bm_turn sample_worker (BmTransaction [9] 0) ?bm = Inr ?bm1"
    by (simp add: batch_maker_new_def seal_def bm_reset_def Let_def sample_worker_def numeral_3_eq_3 upt_rec)
  then have 2: "worker_step sample_worker ?s1 ?s2" using make_batch [of ?s1 "[9]" "[]" sample_worker 0 ?bm1] f0 by simp
  have 3: "worker_step sample_worker ?s2 ?s3" using acknowledge [of 0 ?s2 sample_worker] f0 by simp
  have 4: "worker_step sample_worker ?s3 ?s4" using acknowledge [of 1 ?s3 sample_worker] f0 by simp
  have "quorum_turn sample_worker ?m [(PublicKey 2, 0), (PublicKey 3, 1)] = [[9]]"
    by (simp add: quorum_turn_def quorum_wait_def Let_def)
  moreover have "acked_by ?m [(PublicKey 2, 0), (PublicKey 3, 1)]" by (simp add: acked_by_def)
  ultimately have 5: "worker_step sample_worker ?s4 ?s5"
    using quorum [of ?s4 ?m "[(PublicKey 2, 0), (PublicKey 3, 1)]" sample_worker] f0 by simp
  have 6: "worker_step sample_worker ?s5 ?s6"
    using process_own [of ?s5 sample_worker "store_write sample_worker (digest_to_vec ?d) [9] (wn_store s0)" "[OurBatch ?d 7]"] f0
    by (simp add: processor_step_def Let_def)
  have 7: "worker_step sample_worker ?s6 ?s7" using connect [of ?s6 "OurBatch ?d 7" "[]" sample_worker] f0 by (simp add: connector_step_def)
  have "(worker_step sample_worker)\<^sup>*\<^sup>* s0 ?s7"
    using 1 2 3 4 5 6 7 by (meson r_into_rtranclp rtranclp.rtrancl_into_rtrancl)
  then have "worker_reach sample_worker byte_parameters ?s7" using s0 lone_store unfolding worker_reach_def by blast
  then show ?thesis by (intro exI [of _ ?s7]) (simp add: f0)
qed

lemma worker_keeps_order_witness:
  "\<exists>s bs. worker_reach sample_worker byte_parameters s \<and> wn_clients s = [[9]]
     \<and> concat bs @ current_batch (wn_bm s) @ wn_transactions s = [[9]]"
proof -
  obtain s where s: "worker_reach sample_worker byte_parameters s" "wn_clients s = [[9]]" using lone_run by blast
  from worker_keeps_order [OF s(1)] lone_sane s show ?thesis by (auto simp: bytes_of_def)
qed

lemma worker_reports_available_witness:
  "\<exists>s txs (acks :: (public_key \<times> nat) list). worker_reach sample_worker byte_parameters s \<and> hash_digest sample_lib [9] = hash_digest sample_lib (ser_message sample_worker (Batch txs))
     \<and> sublist txs [[9]] \<and> unat (quorum_threshold lone_committee) \<le> sum (stake_nat lone_committee) (insert (PublicKey 1) (fst ` set acks))"
proof -
  obtain s where s: "worker_reach sample_worker byte_parameters s" "wn_clients s = [[9]]"
    "wn_primary s = [(SocketAddr 0 1, OurBatch (hash_digest sample_lib [9]) 7)]" using lone_run by blast
  have "bytes_of (wn_clients s) < 2 ^ 64" "sane_stake (w_committee sample_worker)" "rocks_ok sample_worker"
    "(SocketAddr 0 1, OurBatch (hash_digest sample_lib [9]) 7) \<in> set (wn_primary s)"
    using s(2,3) lone_sane by (simp_all add: bytes_of_def)
  from worker_reports_available [OF s(1) this(2,3,1,4)] obtain txs and acks :: "(public_key \<times> nat) list"
    where "hash_digest sample_lib [9] = hash_digest sample_lib (ser_message sample_worker (Batch txs))" "sublist txs (wn_clients s)"
      "unat (quorum_threshold lone_committee) \<le> sum (stake_nat lone_committee) (insert (PublicKey 1) (fst ` set acks))"
    unfolding sample_worker_simps by blast
  with s(1,2) show ?thesis by (intro exI [of _ s] exI [of _ txs] exI [of _ acks]) simp
qed

end
