(* ===== verification/NodeStart.thy ===== *)
theory NodeStart
  imports KeyFiles NodeMain WorkerNode
begin

text \<open>
  \<open>node/src/main.rs\<close>: the command that a process is started with, what \<open>run\<close> makes of it, and what then holds of the process.
  The command line itself is parsed by \<open>clap\<close>; its result is the argument. \<open>analyze\<close> takes what the executor sends for ever, so the
  executor's receiver is never dropped (the capacity \<open>None\<close> in \<open>validator_spawn\<close>).
\<close>

section \<open>The command\<close>

text \<open>\<open>parse::<WorkerId>\<close>: digits, with a plus sign if need be, that fit into 32 bits.\<close>

definition digit_of :: "char \<Rightarrow> nat option" where
  "digit_of c = (if 48 \<le> (of_char c :: nat) \<and> (of_char c :: nat) \<le> 57 then Some (of_char c - 48) else None)"

fun digits_value :: "string \<Rightarrow> nat \<Rightarrow> nat option" where
  "digits_value [] n = Some n"
| "digits_value (c # cs) n = (case digit_of c of None \<Rightarrow> None | Some d \<Rightarrow> digits_value cs (10 * n + d))"

definition parse_worker_id :: "string \<Rightarrow> worker_id option" where
  "parse_worker_id s =
     (let digits = (case s of c # cs \<Rightarrow> if c = CHR ''+'' then cs else s | [] \<Rightarrow> [])
      in if digits = [] then None
         else (case digits_value digits 0 of None \<Rightarrow> None | Some n \<Rightarrow> if n < 2 ^ 32 then Some (of_nat n) else None))"

datatype run_command =
    RunPrimary
  | RunWorker string

record arguments =
  arg_keys :: string
  arg_committee :: string
  arg_parameters :: "string option"
  arg_command :: run_command

datatype start_error =
    BadInput startup_error
  | NoStore string
  | BadWorkerId

datatype 'db process =
    PrimaryProcess "'db node" parameters "'db validator"
  | WorkerProcess "'db worker" parameters "'db worker_node"

text \<open>The node and the worker as their tasks see them: \<open>N\<close> and \<open>W\<close> bring the store and the codecs.\<close>

definition node_of :: "crypto_lib \<Rightarrow> key_pair \<Rightarrow> committee \<Rightarrow> parameters \<Rightarrow> 'db node \<Rightarrow> 'db node" where
  "node_of L keypair comm p N = N\<lparr>lib := L, my_name := kp_name keypair, committee_of := comm, my_secret := kp_secret keypair, gc_depth_of := par_gc_depth p\<rparr>"

definition worker_for :: "crypto_lib \<Rightarrow> key_pair \<Rightarrow> worker_id \<Rightarrow> committee \<Rightarrow> parameters \<Rightarrow> 'db worker \<Rightarrow> 'db worker" where
  "worker_for L keypair i comm p W = W\<lparr>w_lib := L, w_name := kp_name keypair, w_id := i, w_committee := comm, w_gc_depth := par_gc_depth p\<rparr>"

definition node_run :: "crypto_lib \<Rightarrow> codecs \<Rightarrow> 'db node \<Rightarrow> 'db worker \<Rightarrow> disk \<Rightarrow> string + 'db \<Rightarrow> instant \<Rightarrow> arguments
    \<Rightarrow> (start_error + 'db process) res" where
  "node_run L C N W D opened now args =
     bindR (run_inputs L C (arg_keys args) (arg_committee args) (arg_parameters args) D) (\<lambda>r. case r of
       Inl e \<Rightarrow> Inr (Inl (BadInput e))
     | Inr (keypair, comm, p) \<Rightarrow>
         (case opened of
            Inl e \<Rightarrow> Inr (Inl (NoStore e))
          | Inr d \<Rightarrow>
              (case arg_command args of
                 RunPrimary \<Rightarrow>
                   bindR (validator_spawn (node_of L keypair comm p N) p d now) (\<lambda>v.
                   Inr (Inr (PrimaryProcess (node_of L keypair comm p N) p v)))
               | RunWorker text \<Rightarrow>
                   (case parse_worker_id text of
                      None \<Rightarrow> Inr (Inl BadWorkerId)
                    | Some i \<Rightarrow>
                        bindR (worker_spawn (worker_for L keypair i comm p W) p d now) (\<lambda>w.
                        Inr (Inr (WorkerProcess (worker_for L keypair i comm p W) p w)))))))"

text \<open>\<open>main\<close>: one of the two commands.\<close>

datatype main_command =
    GenerateKeys string
  | Run arguments

definition node_main :: "crypto_lib \<Rightarrow> codecs \<Rightarrow> 'db node \<Rightarrow> 'db worker \<Rightarrow> nat \<Rightarrow> string + 'db \<Rightarrow> instant \<Rightarrow> main_command \<Rightarrow> disk
    \<Rightarrow> (config_error + start_error + 'db process option) res \<times> disk" where
  "node_main L C N W seed opened now command D =
     (case command of
        GenerateKeys filename \<Rightarrow>
          (case generate_keys L (keys_json C) seed filename D of
             (Inl e, D) \<Rightarrow> (Inr (Inl e), D)
           | (Inr _, D) \<Rightarrow> (Inr (Inr (Inr None)), D))
      | Run args \<Rightarrow> (bindR (node_run L C N W D opened now args) (\<lambda>r. Inr (Inr (map_sum id Some r))), D))"

section \<open>What holds of a started process\<close>

lemma node_of_simps [simp]:
  "lib (node_of L k c p N) = L" "my_name (node_of L k c p N) = kp_name k" "committee_of (node_of L k c p N) = c"
  "my_secret (node_of L k c p N) = kp_secret k" "gc_depth_of (node_of L k c p N) = par_gc_depth p"
  by (simp_all add: node_of_def)

lemma worker_for_simps [simp]:
  "w_lib (worker_for L k i c p W) = L" "w_name (worker_for L k i c p W) = kp_name k" "w_id (worker_for L k i c p W) = i"
  "w_committee (worker_for L k i c p W) = c" "w_gc_depth (worker_for L k i c p W) = par_gc_depth p"
  by (simp_all add: worker_for_def)

text \<open>The store and the codecs do not depend on what was read.\<close>

lemma node_of_store [simp]:
  "store_read (node_of L k c p N) = store_read N" "rocks_ok (node_of L k c p N) = rocks_ok N" "codec_ok (node_of L k c p N) = codec_ok N"
  by (auto simp: node_of_def fun_eq_iff store_read_def store_step.simps rocks_ok_def codec_ok_def)

lemma worker_for_store [simp]:
  "store_read (worker_for L k i c p W) = store_read W" "rocks_ok (worker_for L k i c p W) = rocks_ok W" "wire_ok (worker_for L k i c p W) = wire_ok W"
  by (auto simp: worker_for_def fun_eq_iff store_read_def store_step.simps rocks_ok_def wire_ok_def)

lemma own_in_committee:
  "(\<exists>v. validator_spawn (node_of L k c p N) p d now = Inr v) \<longleftrightarrow> kp_name k \<in> fst ` set (authorities c)"
proof -
  have 1: "(\<exists>a. map_of (authorities c) (kp_name k) = Some a) \<longleftrightarrow> kp_name k \<in> fst ` set (authorities c)"
    by (simp add: map_of_eq_None_iff flip: not_None_eq)
  have 2: "find (\<lambda>(name, _). name = kp_name k) (authorities c) = None \<longleftrightarrow> map_of (authorities c) (kp_name k) = None"
    by (force simp: find_None_iff map_of_eq_None_iff)
  have "(\<exists>v. validator_spawn (node_of L k c p N) p d now = Inr v) \<longleftrightarrow> (\<exists>a. map_of (authorities c) (kp_name k) = Some a)"
    using 2 by (cases "map_of (authorities c) (kp_name k)"; cases "find (\<lambda>(name, _). name = kp_name k) (authorities c)")
      (auto simp: validator_spawn_def primary_spawn_def own_primary_def primary_of_def garbage_collector_spawn_def our_workers_def)
  with 1 show ?thesis by simp
qed

lemma node_run_inputs:
  assumes "node_run L C N W D opened now args = Inr (Inr P)"
  obtains k c p d where "run_inputs L C (arg_keys args) (arg_committee args) (arg_parameters args) D = Inr (Inr (k, c, p))" "opened = Inr d"
    "arg_command args = RunPrimary \<Longrightarrow> \<exists>v. validator_spawn (node_of L k c p N) p d now = Inr v \<and> P = PrimaryProcess (node_of L k c p N) p v"
    "\<And>t. arg_command args = RunWorker t \<Longrightarrow> \<exists>i w. parse_worker_id t = Some i \<and> worker_spawn (worker_for L k i c p W) p d now = Inr w
       \<and> P = WorkerProcess (worker_for L k i c p W) p w"
proof -
  let ?r = "run_inputs L C (arg_keys args) (arg_committee args) (arg_parameters args) D"
  consider e where "?r = Inl e" | e where "?r = Inr (Inl e)" | k c p where "?r = Inr (Inr (k, c, p))"
    by (metis prod_cases3 sum.exhaust)
  then obtain k c p where r: "?r = Inr (Inr (k, c, p))"
    by cases (use assms in \<open>auto simp: node_run_def\<close>)
  obtain d where d: "opened = Inr d" using assms r by (auto simp: node_run_def split: sum.splits)
  show ?thesis
    by (rule that [OF r d]) (use assms r d in \<open>auto simp: node_run_def bindR_Inr_iff split: option.splits\<close>)
qed

text \<open>A process that runs has an ordered committee that holds its key, a whole secret key, and is in an initial state of the
  transition system of its tasks, with the \<open>gc_depth\<close> of its parameters.\<close>

lemma started_primary:
  assumes run: "node_run L C N W D opened now args = Inr (Inr P)" and cmd: "arg_command args = RunPrimary"
    and empty: "\<And>d k. opened = Inr d \<Longrightarrow> store_read N k (store_new d) = Inr None"
  shows "\<exists>k c p v. run_inputs L C (arg_keys args) (arg_committee args) (arg_parameters args) D = Inr (Inr (k, c, p))
    \<and> P = PrimaryProcess (node_of L k c p N) p v \<and> wf_committee c \<and> length (kp_secret k) = 64 \<and> kp_name k \<in> fst ` set (authorities c)
    \<and> (\<forall>h. validator_reach (node_of L k c p N) p h v)"
proof -
  obtain k c p d where k: "run_inputs L C (arg_keys args) (arg_committee args) (arg_parameters args) D = Inr (Inr (k, c, p))" "opened = Inr d"
    and v: "\<exists>v. validator_spawn (node_of L k c p N) p d now = Inr v \<and> P = PrimaryProcess (node_of L k c p N) p v"
    using node_run_inputs [OF run] cmd by metis
  obtain v where v: "validator_spawn (node_of L k c p N) p d now = Inr v" "P = PrimaryProcess (node_of L k c p N) p v" using v by blast
  have "kp_name k \<in> fst ` set (authorities c)" using v(1) own_in_committee [of L k c p N d now] by blast
  moreover have "validator_reach (node_of L k c p N) p h v" for h
    using v(1) empty [OF k(2)] unfolding validator_reach_def by auto
  ultimately show ?thesis using k(1) v(2) startup_inputs [OF k(1)] by blast
qed

lemma started_worker:
  assumes run: "node_run L C N W D opened now args = Inr (Inr P)" and cmd: "arg_command args = RunWorker t"
    and empty: "\<And>d k. opened = Inr d \<Longrightarrow> store_read W k (store_new d) = Inr None"
  shows "\<exists>k c p i w. run_inputs L C (arg_keys args) (arg_committee args) (arg_parameters args) D = Inr (Inr (k, c, p))
    \<and> parse_worker_id t = Some i \<and> P = WorkerProcess (worker_for L k i c p W) p w \<and> wf_committee c
    \<and> (\<exists>a. worker_of c (kp_name k) i = Inr a) \<and> worker_reach (worker_for L k i c p W) p w"
proof -
  obtain k c p d where k: "run_inputs L C (arg_keys args) (arg_committee args) (arg_parameters args) D = Inr (Inr (k, c, p))" "opened = Inr d"
    and w: "\<exists>i w. parse_worker_id t = Some i \<and> worker_spawn (worker_for L k i c p W) p d now = Inr w \<and> P = WorkerProcess (worker_for L k i c p W) p w"
    using node_run_inputs [OF run] cmd by metis
  obtain i w where w: "parse_worker_id t = Some i" "worker_spawn (worker_for L k i c p W) p d now = Inr w" "P = WorkerProcess (worker_for L k i c p W) p w"
    using w by blast
  have "\<exists>a. worker_of c (kp_name k) i = Inr a" using w(2) unfolding worker_spawn_Inr by auto
  moreover have "worker_reach (worker_for L k i c p W) p w"
    using w(2) empty [OF k(2)] unfolding worker_reach_def by auto
  ultimately show ?thesis using k(1) w(1,3) startup_inputs [OF k(1)] by blast
qed

text \<open>With readable files and a store, a primary runs if and only if its key is in the committee; otherwise it panics.\<close>

lemma primary_starts_iff:
  assumes "run_inputs L C (arg_keys args) (arg_committee args) (arg_parameters args) D = Inr (Inr (k, c, p))" "opened = Inr d"
    and "arg_command args = RunPrimary"
  shows "(\<exists>P. node_run L C N W D opened now args = Inr (Inr P)) \<longleftrightarrow> kp_name k \<in> fst ` set (authorities c)"
proof -
  have "(\<exists>P. node_run L C N W D opened now args = Inr (Inr P)) \<longleftrightarrow> (\<exists>v. validator_spawn (node_of L k c p N) p d now = Inr v)"
    using assms by (auto simp: node_run_def bindR_Inr_iff)
  then show ?thesis by (simp add: own_in_committee)
qed

lemma worker_ids:
  "parse_worker_id ''7'' = Some 7" "parse_worker_id ''+10'' = Some 10" "parse_worker_id [] = None" "parse_worker_id ''+'' = None"
  "parse_worker_id ''-1'' = None" "parse_worker_id ''4294967295'' = Some (- 1)" "parse_worker_id ''4294967296'' = None"
  by (simp_all add: parse_worker_id_def digit_of_def Let_def)

end
