(* ===== verification/BenchmarkClient.thy ===== *)
theory BenchmarkClient
  imports Prelude "HOL-Library.Sublist"
begin

text \<open>
  The load generator of \<open>node/src/benchmark_client.rs\<close>: twenty times a second it sends a burst of transactions, one of
  them a sample that carries the number of the burst, the others numbered from a random start. The connection is the
  parameter \<open>ok\<close>: whether the \<open>n\<close>-th transaction can be sent. Numbers are \<open>u64\<close> and wrap as in the release profile.
\<close>

section \<open>The program\<close>

datatype client_error = SizeTooSmall | ConnectionFailed

record client =
  tx_size :: nat
  tx_rate :: nat

record client_state =
  cl_counter :: u64
  cl_random :: u64
  cl_sent :: "u8 list list"

definition precision :: nat where
  "precision = 20"

definition resize :: "nat \<Rightarrow> u8 list \<Rightarrow> u8 list" where
  "resize n bs = take n bs @ replicate (n - length bs) 0"

definition sample_tx :: "nat \<Rightarrow> u64 \<Rightarrow> u8 list" where
  "sample_tx sz counter = resize sz (0 # be_bytes 8 counter)"

definition standard_tx :: "nat \<Rightarrow> u64 \<Rightarrow> u8 list" where
  "standard_tx sz r = resize sz (1 # be_bytes 8 r)"

text \<open>The inner loop over \<open>x\<close>; false when a transaction could not be sent.\<close>

fun burst_loop :: "(nat \<Rightarrow> bool) \<Rightarrow> nat \<Rightarrow> nat \<Rightarrow> nat list \<Rightarrow> client_state \<Rightarrow> bool \<times> client_state" where
  "burst_loop ok sz burst [] s = (True, s)"
| "burst_loop ok sz burst (x # xs) s =
     (let (tx, s) = (if x = unat (cl_counter s) mod burst then (sample_tx sz (cl_counter s), s)
                     else let r = cl_random s + 1 in (standard_tx sz r, s\<lparr>cl_random := r\<rparr>))
      in if ok (length (cl_sent s)) then burst_loop ok sz burst xs (s\<lparr>cl_sent := cl_sent s @ [tx]\<rparr>) else (False, s))"

text \<open>The outer loop, for the given number of ticks of the interval.\<close>

primrec client_loop :: "(nat \<Rightarrow> bool) \<Rightarrow> nat \<Rightarrow> nat \<Rightarrow> nat \<Rightarrow> client_state \<Rightarrow> bool \<times> client_state" where
  "client_loop ok sz burst 0 s = (True, s)"
| "client_loop ok sz burst (Suc n) s =
     (let (go_on, s) = burst_loop ok sz burst [0..<burst] s
      in if go_on then client_loop ok sz burst n (s\<lparr>cl_counter := cl_counter s + 1\<rparr>) else (False, s))"

definition client_send :: "(nat \<Rightarrow> bool) \<Rightarrow> bool \<Rightarrow> u64 \<Rightarrow> nat \<Rightarrow> client \<Rightarrow> client_error + bool \<times> client_state" where
  "client_send ok connected random ticks c =
     (if tx_size c < 9 then Inl SizeTooSmall
      else if \<not> connected then Inl ConnectionFailed
      else Inr (client_loop ok (tx_size c) (tx_rate c div precision) ticks \<lparr>cl_counter = 0, cl_random = random, cl_sent = []\<rparr>))"

section \<open>The stream\<close>

text \<open>What a client sends when nothing fails: the transaction at position \<open>x\<close> of burst \<open>i\<close>.\<close>

definition stream_tx :: "nat \<Rightarrow> nat \<Rightarrow> u64 \<Rightarrow> nat \<Rightarrow> nat \<Rightarrow> u8 list" where
  "stream_tx sz burst random i x =
     (if x = i mod burst then sample_tx sz (of_nat i)
      else standard_tx sz (random + of_nat (i * (burst - 1) + (if x < i mod burst then x + 1 else x))))"

definition stream_burst :: "nat \<Rightarrow> nat \<Rightarrow> u64 \<Rightarrow> nat \<Rightarrow> u8 list list" where
  "stream_burst sz burst random i = map (stream_tx sz burst random i) [0..<burst]"

definition client_stream :: "nat \<Rightarrow> nat \<Rightarrow> u64 \<Rightarrow> nat \<Rightarrow> u8 list list" where
  "client_stream sz burst random n = concat (map (stream_burst sz burst random) [0..<n])"

lemma burst_loop_stream:
  assumes "x \<le> burst" "i < 2 ^ 64" "cl_counter s = of_nat i"
    and "cl_random s = random + of_nat (i * (burst - 1) + (if x \<le> i mod burst then x else x - 1))"
    and "burst_loop ok sz burst [x..<burst] s = (b, s')"
  shows "prefix (cl_sent s') (cl_sent s @ map (stream_tx sz burst random i) [x..<burst])
    \<and> (b \<longrightarrow> cl_sent s' = cl_sent s @ map (stream_tx sz burst random i) [x..<burst] \<and> cl_counter s' = of_nat i
         \<and> (0 < burst \<longrightarrow> cl_random s' = random + of_nat ((i + 1) * (burst - 1)))) \<and> ((\<forall>n. ok n) \<longrightarrow> b)"
  using assms
proof (induction "burst - x" arbitrary: x s)
  case 0
  then have s: "x = burst" "s' = s" by auto
  have "cl_random s = random + of_nat ((i + 1) * (burst - 1))" if "0 < burst"
  proof -
    have "i * (burst - 1) + (burst - 1) = (i + 1) * (burst - 1)" by simp
    moreover have "\<not> burst \<le> i mod burst" using that by (simp add: not_le)
    ultimately show ?thesis using 0(5) s by (simp del: of_nat_add of_nat_mult)
  qed
  with s 0 show ?case by simp
next
  case (Suc d)
  then have x: "x < burst" "[x..<burst] = x # [Suc x..<burst]" by (auto simp: upt_conv_Cons)
  have i: "unat (cl_counter s) = i" using Suc.prems(2,3) by (simp add: unat_of_nat take_bit_nat_eq_self)
  have next_number: "cl_random s + 1 = random + of_nat (i * (burst - 1) + (if x < i mod burst then x + 1 else x))" if "x \<noteq> i mod burst"
  proof -
    have "i * (burst - 1) + (if x < i mod burst then x + 1 else x) = i * (burst - 1) + (if x \<le> i mod burst then x else x - 1) + 1"
      using that by auto
    with Suc.prems(4) show ?thesis by (metis add.assoc of_nat_1 of_nat_add)
  qed
  define s1 where "s1 = (if x = i mod burst then s else s\<lparr>cl_random := cl_random s + 1\<rparr>)"
  let ?t = "s1\<lparr>cl_sent := cl_sent s @ [stream_tx sz burst random i x]\<rparr>"
  have loop: "(if ok (length (cl_sent s)) then burst_loop ok sz burst [Suc x..<burst] ?t else (False, s1)) = (b, s')"
    using Suc.prems(3,5) x i next_number by (cases "x = i mod burst"; cases "ok (length (cl_sent s))") (simp_all add: s1_def stream_tx_def Let_def del: of_nat_add of_nat_mult)
  have r: "cl_random ?t = random + of_nat (i * (burst - 1) + (if Suc x \<le> i mod burst then Suc x else Suc x - 1))"
    using Suc.prems(4) by (auto simp: s1_def not_le less_Suc_eq algebra_simps split: if_splits)
  show ?case
  proof (cases "ok (length (cl_sent s))")
    case True
    with loop have "burst_loop ok sz burst [Suc x..<burst] ?t = (b, s')" by simp
    from Suc.hyps(1) [OF _ _ Suc.prems(2) _ r this] Suc.hyps(2) Suc.prems(3) x show ?thesis by (simp add: s1_def)
  next
    case False
    with loop x show ?thesis by (auto simp: s1_def)
  qed
qed

lemma client_loop_stream:
  assumes "i + n \<le> 2 ^ 64" "cl_counter s = of_nat i" "0 < burst" "cl_random s = random + of_nat (i * (burst - 1))"
    and "client_loop ok sz burst n s = (b, s')"
  shows "prefix (cl_sent s') (cl_sent s @ concat (map (stream_burst sz burst random) [i..<i + n]))
    \<and> (b \<longrightarrow> cl_sent s' = cl_sent s @ concat (map (stream_burst sz burst random) [i..<i + n])) \<and> ((\<forall>n. ok n) \<longrightarrow> b)"
  using assms
proof (induction n arbitrary: i s)
  case (Suc n)
  obtain go t where t: "burst_loop ok sz burst [0..<burst] s = (go, t)" by fastforce
  have up: "concat (map (stream_burst sz burst random) [i..<i + Suc n])
      = stream_burst sz burst random i @ concat (map (stream_burst sz burst random) [Suc i..<Suc i + n])" by (simp add: upt_conv_Cons del: upt_Suc)
  from burst_loop_stream [OF _ _ Suc.prems(2) _ t] Suc.prems
  have step: "prefix (cl_sent t) (cl_sent s @ stream_burst sz burst random i)"
    "go \<Longrightarrow> cl_sent t = cl_sent s @ stream_burst sz burst random i \<and> cl_counter t = of_nat i \<and> cl_random t = random + of_nat (Suc i * (burst - 1))"
    "(\<forall>n. ok n) \<longrightarrow> go" by (auto simp: stream_burst_def)
  show ?case
  proof (cases go)
    case True
    let ?t = "t\<lparr>cl_counter := cl_counter t + 1\<rparr>"
    have "client_loop ok sz burst n ?t = (b, s')" using Suc.prems(5) t True by simp
    with Suc.IH [of "Suc i" ?t] Suc.prems step(2) [OF True] show ?thesis unfolding up by simp
  next
    case False
    with Suc.prems(5) t have "s' = t" "\<not> b" by auto
    with step(1,3) False show ?thesis unfolding up by (metis append.assoc prefix_prefix)
  qed
qed simp

lemma tx_length [simp]: "length (sample_tx sz i) = sz" "length (standard_tx sz r) = sz"
  by (simp_all add: sample_tx_def standard_tx_def resize_def)

lemma tx_head:
  "9 \<le> sz \<Longrightarrow> take 9 (sample_tx sz i) = 0 # be_bytes 8 i" "9 \<le> sz \<Longrightarrow> take 9 (standard_tx sz r) = 1 # be_bytes 8 r"
  by (simp_all add: sample_tx_def standard_tx_def resize_def)

lemma tx_eq:
  assumes "9 \<le> sz"
  shows "sample_tx sz i = sample_tx sz j \<longleftrightarrow> i = j" "standard_tx sz r = standard_tx sz t \<longleftrightarrow> r = t" "sample_tx sz i \<noteq> standard_tx sz r"
proof -
  have word: "be_bytes 8 v = be_bytes 8 w \<longleftrightarrow> v = w" for v w :: u64 using be_bytes_inj [of 8 v w] by auto
  show "sample_tx sz i = sample_tx sz j \<longleftrightarrow> i = j" using word by (metis tx_head(1) [OF assms] list.inject)
  show "standard_tx sz r = standard_tx sz t \<longleftrightarrow> r = t" using word by (metis tx_head(2) [OF assms] list.inject)
  show "sample_tx sz i \<noteq> standard_tx sz r" using tx_head [OF assms, of i] tx_head(2) [OF assms, of r] by (metis list.inject zero_neq_one)
qed

definition stream_number :: "nat \<Rightarrow> nat \<Rightarrow> nat \<Rightarrow> nat" where
  "stream_number burst i x = i * (burst - 1) + (if x < i mod burst then x + 1 else x)"

lemma stream_number_bound: "i < n \<Longrightarrow> x < burst \<Longrightarrow> x \<noteq> i mod burst \<Longrightarrow> n * burst \<le> m \<Longrightarrow> stream_number burst i x < m"
proof -
  assume a: "i < n" "x < burst" "x \<noteq> i mod burst" "n * burst \<le> m"
  have "i mod burst < burst" using a(2) by simp
  with a(2,3) have "(if x < i mod burst then x + 1 else x) < burst" by (cases "x < i mod burst") simp_all
  then have "stream_number burst i x < i * burst + burst"
    unfolding stream_number_def by (intro add_le_less_mono) simp_all
  also have "\<dots> \<le> n * burst" using mult_le_mono1 [of "Suc i" n burst] a(1) by simp
  finally show ?thesis using a(4) by simp
qed

lemma stream_number_inj:
  assumes "stream_number burst i x = stream_number burst j y" "x < burst" "x \<noteq> i mod burst" "y < burst" "y \<noteq> j mod burst"
  shows "i = j \<and> x = y"
proof -
  define p where "p = (if x < i mod burst then x else x - 1)"
  define q where "q = (if y < j mod burst then y else y - 1)"
  have less: "(if a < m then a else a - 1) < burst - 1" if "a < burst" "a \<noteq> m" "m < burst" for a m using that by auto
  have pq: "p < burst - 1" "q < burst - 1" using assms(2-5) less [of x "i mod burst"] less [of y "j mod burst"] by (simp_all add: p_def q_def)
  have "i * (burst - 1) + p + 1 = j * (burst - 1) + q + 1"
    using assms(1,3,5) by (auto simp: stream_number_def p_def q_def split: if_splits)
  then have eq: "p + i * (burst - 1) = q + j * (burst - 1)" by simp
  have "(p + i * (burst - 1)) div (burst - 1) = i" "(q + j * (burst - 1)) div (burst - 1) = j" using pq by auto
  with eq have "i = j" by simp
  with eq have "p = q" by simp
  with \<open>i = j\<close> show ?thesis using assms(3,5) by (auto simp: p_def q_def split: if_splits)
qed

lemma stream_tx_inj:
  assumes "9 \<le> sz" "n * burst \<le> 2 ^ 64" "i < n" "j < n" "x < burst" "y < burst"
    and "stream_tx sz burst random i x = stream_tx sz burst random j y"
  shows "i = j \<and> x = y"
proof -
  have word: "(of_nat k :: u64) = of_nat l \<Longrightarrow> k < 2 ^ 64 \<Longrightarrow> l < 2 ^ 64 \<Longrightarrow> k = l" for k l
    by (drule arg_cong [where f = unat]) (simp add: unat_of_nat take_bit_nat_eq_self)
  have "n \<le> n * burst" using assms(5) by simp
  then have small: "i < 2 ^ 64" "j < 2 ^ 64" using assms(2-4) by linarith+
  show ?thesis
  proof (cases "x = i mod burst \<or> y = j mod burst")
    case True
    with assms(7) have both: "x = i mod burst" "y = j mod burst" by (auto simp: stream_tx_def tx_eq [OF assms(1)] dest: sym split: if_splits)
    with assms(7) have "i = j" using small by (intro word) (auto simp: stream_tx_def tx_eq [OF assms(1)])
    with both show ?thesis by simp
  next
    case False
    with assms(7) have "(of_nat (stream_number burst i x) :: u64) = of_nat (stream_number burst j y)"
      by (auto simp: stream_tx_def stream_number_def tx_eq [OF assms(1)] simp del: of_nat_add of_nat_mult)
    with False have "stream_number burst i x = stream_number burst j y"
      using stream_number_bound [OF assms(3,5) _ assms(2)] stream_number_bound [OF assms(4,6) _ assms(2)] by (intro word) auto
    with stream_number_inj False assms(5,6) show ?thesis by blast
  qed
qed

lemma stream_pairs: "client_stream sz burst random n = map (\<lambda>(i, x). stream_tx sz burst random i x) (List.product [0..<n] [0..<burst])"
  by (simp add: client_stream_def stream_burst_def [abs_def] product_concat_map map_concat comp_def)

lemma stream_distinct: "9 \<le> sz \<Longrightarrow> n * burst \<le> 2 ^ 64 \<Longrightarrow> distinct (client_stream sz burst random n)"
  unfolding stream_pairs by (auto simp: distinct_map distinct_product inj_on_def dest: stream_tx_inj)

lemma stream_samples:
  assumes "9 \<le> sz" "0 < burst"
  shows "filter (\<lambda>tx. hd tx = 0) (client_stream sz burst random n) = map (\<lambda>i. sample_tx sz (of_nat i)) [0..<n]"
proof -
  have head: "hd (sample_tx sz i) = 0" "hd (standard_tx sz r) = 1" for i r
    using assms(1) by (auto simp: sample_tx_def standard_tx_def resize_def)
  have only: "filter (\<lambda>x. x = m) [0..<b] = (if m < b then [m] else [])" for m b by (induction b) auto
  have "filter (\<lambda>tx. hd tx = 0) (stream_burst sz burst random i) = [sample_tx sz (of_nat i)]" for i
  proof -
    have "filter (\<lambda>x. x = i mod burst) [0..<burst] = [i mod burst]"
      using only [of "i mod burst" burst] assms(2) by simp
    moreover have "hd (stream_tx sz burst random i x) = 0 \<longleftrightarrow> x = i mod burst" for x by (simp add: stream_tx_def head)
    ultimately show ?thesis by (simp add: stream_burst_def filter_map comp_def stream_tx_def)
  qed
  then show ?thesis by (induction n) (simp_all add: client_stream_def)
qed

section \<open>Properties\<close>

text \<open>As long as a client sent fewer than 2^64 transactions, they are all different and of the size that was asked for; they are the
  first ones of its stream, all of them if the connection held. Every burst has one sample, numbered by the burst.\<close>

theorem client_transactions:
  assumes "client_send ok connected random ticks c = Inr (go_on, s)"
    and "precision \<le> tx_rate c" "ticks * (tx_rate c div precision) \<le> 2 ^ 64"
  shows "distinct (cl_sent s) \<and> (\<forall>tx \<in> set (cl_sent s). length tx = tx_size c)
    \<and> prefix (cl_sent s) (client_stream (tx_size c) (tx_rate c div precision) random ticks)
    \<and> ((\<forall>n. ok n) \<longrightarrow> go_on \<and> length (cl_sent s) = ticks * (tx_rate c div precision)
         \<and> filter (\<lambda>tx. hd tx = 0) (cl_sent s) = map (\<lambda>i. sample_tx (tx_size c) (of_nat i)) [0..<ticks])"
proof -
  let ?b = "tx_rate c div precision" and ?stream = "client_stream (tx_size c) (tx_rate c div precision) random ticks"
  have size: "9 \<le> tx_size c" using assms(1) by (simp add: client_send_def split: if_splits)
  have pos: "0 < ?b" using assms(2) by (simp add: precision_def div_greater_zero_iff)
  then have "ticks * 1 \<le> ticks * ?b" by (intro mult_le_mono2) simp
  with assms(3) have "0 + ticks \<le> 2 ^ 64" by linarith
  from client_loop_stream [OF this _ pos, of "\<lparr>cl_counter = 0, cl_random = random, cl_sent = []\<rparr>" random ok "tx_size c" go_on s] assms(1)
  have sent: "prefix (cl_sent s) ?stream" "go_on \<longrightarrow> cl_sent s = ?stream" "(\<forall>n. ok n) \<longrightarrow> go_on"
    by (auto simp: client_send_def client_stream_def split: if_splits)
  obtain rest where rest: "?stream = cl_sent s @ rest" using sent(1) by (auto simp: prefix_def)
  have "distinct (cl_sent s @ rest)" using stream_distinct [OF size assms(3), of random] rest by simp
  moreover have "length tx = tx_size c" if "tx \<in> set (cl_sent s @ rest)" for tx
    using that by (auto simp: rest [symmetric] client_stream_def stream_burst_def stream_tx_def)
  moreover have "length ?stream = ticks * ?b" by (simp add: stream_pairs)
  ultimately show ?thesis using sent stream_samples [OF size pos, of random ticks] by auto
qed

theorem client_transactions_witness:
  "\<exists>s. client_send (\<lambda>n. True) True 7 3 \<lparr>tx_size = 10, tx_rate = 60\<rparr> = Inr (True, s) \<and> distinct (cl_sent s) \<and> length (cl_sent s) = 9
     \<and> cl_sent s ! 0 = [0, 0, 0, 0, 0, 0, 0, 0, 0, 0] \<and> cl_sent s ! 1 = [1, 0, 0, 0, 0, 0, 0, 0, 8, 0]"
proof -
  have run: "map_sum id (\<lambda>(go_on, s). (go_on, cl_sent s ! 0, cl_sent s ! 1)) (client_send (\<lambda>n. True) True 7 3 \<lparr>tx_size = 10, tx_rate = 60\<rparr>)
      = Inr (True, [0, 0, 0, 0, 0, 0, 0, 0, 0, 0], [1, 0, 0, 0, 0, 0, 0, 0, 8, 0])"
    by code_simp
  then obtain s where s: "client_send (\<lambda>n. True) True 7 3 \<lparr>tx_size = 10, tx_rate = 60\<rparr> = Inr (True, s)" "cl_sent s ! 0 = [0, 0, 0, 0, 0, 0, 0, 0, 0, 0]"
    "cl_sent s ! 1 = [1, 0, 0, 0, 0, 0, 0, 0, 8, 0]" by (auto simp: map_sum_def split: sum.splits)
  from client_transactions [OF s(1)] s show ?thesis by (simp add: precision_def)
qed

text \<open>Below twenty transactions a second nothing is ever sent.\<close>

lemma slow_client_sends_nothing:
  assumes "9 \<le> tx_size c" "tx_rate c < precision"
  shows "\<exists>s. client_send ok True random ticks c = Inr (True, s) \<and> cl_sent s = []"
proof -
  have "\<exists>s'. client_loop ok sz 0 n s = (True, s') \<and> cl_sent s' = cl_sent s" for sz n s 
  proof (induction n arbitrary: s)
    case (Suc n)
    from Suc [of "s\<lparr>cl_counter := cl_counter s + 1\<rparr>"] show ?case by simp
  qed simp
  from this [of "tx_size c" ticks "\<lparr>cl_counter = 0, cl_random = random, cl_sent = []\<rparr>"] show ?thesis using assms by (simp add: client_send_def)
qed

end
