(* ===== verification/NetworkSender.thy ===== *)
theory NetworkSender
  imports Config StoreModel
begin

text \<open>
  The senders and the receiver of \<open>network/src\<close>. A \<open>ReliableSender\<close> keeps one \<open>Connection\<close> per peer, a task
  that buffers its messages, sends them again after every failure, and resolves the cancel handler of a
  message with the acknowledgement of the peer. \<open>tokio\<close> gives the channels and TCP; what they do is the
  input of the operations below: each is one iteration of a loop of the source.

  A cancel handler is the number of its oneshot channel. \<open>closed\<close> is the set of those whose receiver the
  caller has dropped.
\<close>

section \<open>Data\<close>

type_synonym inner_message = "bytes \<times> nat"

datatype network_error =
    FailedToConnect socket_addr "16 word"
  | FailedToListen
  | FailedToSendMessage socket_addr
  | FailedToReceiveMessage socket_addr
  | FailedToReceiveAck socket_addr
  | UnexpectedAck socket_addr

text \<open>Where a connection is in \<open>run\<close>: at \<open>connect\<close>, in the loop \<open>'waiter\<close>, or in \<open>keep_alive\<close> with its local
  \<open>pending_replies\<close>.\<close>

datatype stage =
    Connecting
  | Waiting
  | KeepAlive "inner_message list"

record connection =
  n_address :: socket_addr
  n_receiver :: "inner_message list"
  n_retry_delay :: u64
  n_buffer :: "inner_message list"
  n_delay :: u64
  n_retry :: "16 word"
  n_stage :: stage
  n_warnings :: "network_error list"

definition connection_spawn :: "socket_addr \<Rightarrow> connection" where
  "connection_spawn address = \<lparr>n_address = address, n_receiver = [], n_retry_delay = 200, n_buffer = [],
     n_delay = 200, n_retry = 0, n_stage = Connecting, n_warnings = []\<rparr>"

definition n_warn :: "network_error \<Rightarrow> connection \<Rightarrow> connection" where
  "n_warn e c = c\<lparr>n_warnings := n_warnings c @ [e]\<rparr>"

section \<open>The connection task\<close>

definition connect_ok :: "connection \<Rightarrow> connection" where
  "connect_ok c = c\<lparr>n_delay := n_retry_delay c, n_retry := 0, n_stage := KeepAlive []\<rparr>"

definition connect_failed :: "connection \<Rightarrow> connection" where
  "connect_failed c = (n_warn (FailedToConnect (n_address c) (n_retry c)) c)\<lparr>n_stage := Waiting\<rparr>"

definition waiter_timer :: "connection \<Rightarrow> connection" where
  "waiter_timer c = c\<lparr>n_delay := min (2 * n_delay c) 60000, n_retry := n_retry c + 1, n_stage := Connecting\<rparr>"

definition waiter_receive :: "nat set \<Rightarrow> inner_message \<Rightarrow> connection \<Rightarrow> connection" where
  "waiter_receive closed m c = c\<lparr>n_buffer := filter (\<lambda>(_, handler). handler \<notin> closed) (n_buffer c @ [m])\<rparr>"

text \<open>The end of \<open>keep_alive\<close>: what was not acknowledged goes back to the front of the buffer, from the back.\<close>

definition keep_alive_end :: "network_error \<Rightarrow> inner_message list \<Rightarrow> connection \<Rightarrow> connection" where
  "keep_alive_end e pending_replies c =
     n_warn e (c\<lparr>n_buffer := foldr (#) pending_replies (n_buffer c), n_stage := Connecting\<rparr>)"

text \<open>One iteration of the loop over the buffer; \<open>ok\<close> is the outcome of \<open>writer.send\<close>. The second result is
  what was written.\<close>

definition send_next :: "nat set \<Rightarrow> bool \<Rightarrow> inner_message list \<Rightarrow> connection \<Rightarrow> connection \<times> bytes list" where
  "send_next closed ok pending_replies c =
     (case n_buffer c of
        [] \<Rightarrow> (c, [])
      | (data, handler) # buffer \<Rightarrow>
          let c = c\<lparr>n_buffer := buffer\<rparr> in
          if handler \<in> closed then (c, [])
          else if ok then (c\<lparr>n_stage := KeepAlive (pending_replies @ [(data, handler)])\<rparr>, [data])
          else (keep_alive_end (FailedToSendMessage (n_address c)) pending_replies (c\<lparr>n_buffer := (data, handler) # buffer\<rparr>), []))"

definition keep_alive_receive :: "inner_message \<Rightarrow> connection \<Rightarrow> connection" where
  "keep_alive_receive m c = c\<lparr>n_buffer := n_buffer c @ [m]\<rparr>"

text \<open>A frame from the peer, or \<open>None\<close> for a read error and the end of the stream. The second result is the
  handler that is resolved.\<close>

definition keep_alive_response :: "bytes option \<Rightarrow> inner_message list \<Rightarrow> connection \<Rightarrow> connection \<times> (nat \<times> bytes) list" where
  "keep_alive_response response pending_replies c =
     (case pending_replies of
        [] \<Rightarrow> (keep_alive_end (UnexpectedAck (n_address c)) [] c, [])
      | (data, handler) # pending_replies \<Rightarrow>
          (case response of
             Some bs \<Rightarrow> (c\<lparr>n_stage := KeepAlive pending_replies\<rparr>, [(handler, bs)])
           | None \<Rightarrow> (keep_alive_end (FailedToReceiveAck (n_address c)) ((data, handler) # pending_replies) c, [])))"

section \<open>ReliableSender\<close>

record reliable_sender =
  connections :: "(socket_addr \<times> connection) list"
  next_handler :: nat

definition reliable_new :: reliable_sender where
  "reliable_new = \<lparr>connections = [], next_handler = 0\<rparr>"

definition n_submit :: "inner_message \<Rightarrow> connection \<Rightarrow> connection" where
  "n_submit m c = c\<lparr>n_receiver := n_receiver c @ [m]\<rparr>"

text \<open>The task of a connection never ends, so its channel is always open and the \<open>expect\<close> never fires.\<close>

definition reliable_send :: "socket_addr \<Rightarrow> bytes \<Rightarrow> reliable_sender \<Rightarrow> nat \<times> reliable_sender" where
  "reliable_send address data s =
     (next_handler s,
      s\<lparr>connections := entry_update address (connection_spawn address) (n_submit (data, next_handler s)) (connections s),
        next_handler := next_handler s + 1\<rparr>)"

fun reliable_broadcast :: "socket_addr list \<Rightarrow> bytes \<Rightarrow> reliable_sender \<Rightarrow> nat list \<times> reliable_sender" where
  "reliable_broadcast [] data s = ([], s)"
| "reliable_broadcast (address # addresses) data s =
     (let (handler, s) = reliable_send address data s;
          (handlers, s) = reliable_broadcast addresses data s
      in (handler # handlers, s))"

text \<open>\<open>shuffle\<close> stands for the random generator.\<close>

definition reliable_lucky_broadcast :: "(socket_addr list \<Rightarrow> socket_addr list) \<Rightarrow> socket_addr list \<Rightarrow> bytes \<Rightarrow> nat \<Rightarrow>
    reliable_sender \<Rightarrow> nat list \<times> reliable_sender" where
  "reliable_lucky_broadcast shuffle addresses data nodes s = reliable_broadcast (take nodes (shuffle addresses)) data s"

section \<open>SimpleSender\<close>

datatype simple_stage =
    SimpleConnecting
  | SimpleOpen
  | SimpleClosed

record simple_connection =
  sc_address :: socket_addr
  sc_receiver :: "bytes list"
  sc_stage :: simple_stage
  sc_written :: "bytes list"
  sc_warnings :: "network_error list"

definition simple_spawn :: "socket_addr \<Rightarrow> simple_connection" where
  "simple_spawn address = \<lparr>sc_address = address, sc_receiver = [], sc_stage = SimpleConnecting, sc_written = [], sc_warnings = []\<rparr>"

text \<open>\<open>run\<close> returns on the first error, which closes its channel; what is left in the channel is lost.\<close>

definition simple_return :: "network_error \<Rightarrow> simple_connection \<Rightarrow> simple_connection" where
  "simple_return e c = c\<lparr>sc_stage := SimpleClosed, sc_receiver := [], sc_warnings := sc_warnings c @ [e]\<rparr>"

definition simple_connect :: "bool \<Rightarrow> simple_connection \<Rightarrow> simple_connection" where
  "simple_connect ok c = (if ok then c\<lparr>sc_stage := SimpleOpen\<rparr> else simple_return (FailedToConnect (sc_address c) 0) c)"

definition simple_transmit :: "bool \<Rightarrow> simple_connection \<Rightarrow> simple_connection" where
  "simple_transmit ok c =
     (case sc_receiver c of
        [] \<Rightarrow> c
      | data # rest \<Rightarrow>
          let c = c\<lparr>sc_receiver := rest\<rparr> in
          if ok then c\<lparr>sc_written := sc_written c @ [data]\<rparr> else simple_return (FailedToSendMessage (sc_address c)) c)"

definition simple_response :: "bytes option \<Rightarrow> simple_connection \<Rightarrow> simple_connection" where
  "simple_response response c =
     (case response of Some _ \<Rightarrow> c | None \<Rightarrow> simple_return (FailedToReceiveAck (sc_address c)) c)"

text \<open>\<open>channel_send\<close> is \<open>tx.send(data).await.is_ok()\<close>. A connection that is made anew can fail before the
  message is in its channel (\<open>early\<close>); it is then not entered into the map.\<close>

definition channel_send :: "bytes \<Rightarrow> simple_connection \<Rightarrow> simple_connection option" where
  "channel_send data c = (if sc_stage c = SimpleClosed then None else Some (c\<lparr>sc_receiver := sc_receiver c @ [data]\<rparr>))"

definition simple_send :: "bool \<Rightarrow> socket_addr \<Rightarrow> bytes \<Rightarrow> (socket_addr \<times> simple_connection) list \<Rightarrow>
    (socket_addr \<times> simple_connection) list" where
  "simple_send early address data conns =
     (case Option.bind (map_of conns address) (channel_send data) of
        Some c \<Rightarrow> AList.update address c conns
      | None \<Rightarrow>
          (case channel_send data (if early then simple_connect False (simple_spawn address) else simple_spawn address) of
             Some c \<Rightarrow> AList.update address c conns
           | None \<Rightarrow> conns))"

definition simple_broadcast :: "bool \<Rightarrow> socket_addr list \<Rightarrow> bytes \<Rightarrow> (socket_addr \<times> simple_connection) list \<Rightarrow>
    (socket_addr \<times> simple_connection) list" where
  "simple_broadcast early addresses data conns = fold (\<lambda>a. simple_send early a data) addresses conns"

definition simple_lucky_broadcast :: "(socket_addr list \<Rightarrow> socket_addr list) \<Rightarrow> bool \<Rightarrow> socket_addr list \<Rightarrow> bytes \<Rightarrow> nat \<Rightarrow>
    (socket_addr \<times> simple_connection) list \<Rightarrow> (socket_addr \<times> simple_connection) list" where
  "simple_lucky_broadcast shuffle early addresses data nodes conns =
     simple_broadcast early (take nodes (shuffle addresses)) data conns"

section \<open>Receiver\<close>

text \<open>\<open>dispatch\<close> of a \<open>MessageHandler\<close>: the new state of the handler, what it writes back, and whether it
  returned \<open>Ok\<close>. The runner of a connection stops at the first error.\<close>

type_synonym 'st message_handler = "bytes \<Rightarrow> 'st \<Rightarrow> 'st \<times> bytes list \<times> bool"

definition runner_frame :: "'st message_handler \<Rightarrow> bytes option \<Rightarrow> 'st \<Rightarrow> 'st \<times> bytes list \<times> bool" where
  "runner_frame dispatch frame st =
     (case frame of
        Some message \<Rightarrow> dispatch message st
      | None \<Rightarrow> (st, [], False))"

fun runner_run :: "'st message_handler \<Rightarrow> bytes option list \<Rightarrow> 'st \<Rightarrow> 'st \<times> bytes list" where
  "runner_run dispatch [] st = (st, [])"
| "runner_run dispatch (frame # frames) st =
     (let (st, out, ok) = runner_frame dispatch frame st in
      if ok then (let (st, out') = runner_run dispatch frames st in (st, out @ out')) else (st, out))"

section \<open>What a connection keeps\<close>

text \<open>The messages a connection is responsible for, oldest first. Every operation keeps them in their order;
  it loses only cancelled ones and the one it resolves.\<close>

definition in_flight :: "connection \<Rightarrow> inner_message list" where
  "in_flight c = (case n_stage c of KeepAlive pending_replies \<Rightarrow> pending_replies | _ \<Rightarrow> []) @ n_buffer c @ n_receiver c"

lemma foldr_Cons_append [simp]: "foldr (#) xs ys = xs @ ys"
  by (induction xs) auto

named_theorems n_defs

lemmas [n_defs] = in_flight_def connect_ok_def connect_failed_def waiter_timer_def waiter_receive_def keep_alive_end_def
  n_warn_def send_next_def keep_alive_receive_def keep_alive_response_def n_submit_def

lemma in_flight_submit [simp]: "in_flight (n_submit m c) = in_flight c @ [m]"
  by (simp add: n_defs)

lemma in_flight_stay [simp]:
  "n_stage c = Connecting \<Longrightarrow> in_flight (connect_ok c) = in_flight c"
  "n_stage c = Connecting \<Longrightarrow> in_flight (connect_failed c) = in_flight c"
  "n_stage c = Waiting \<Longrightarrow> in_flight (waiter_timer c) = in_flight c"
  by (simp_all add: n_defs)

lemma in_flight_receive [simp]:
  "n_stage c = KeepAlive ps \<Longrightarrow> n_receiver c = m # ms \<Longrightarrow> in_flight (keep_alive_receive m (c\<lparr>n_receiver := ms\<rparr>)) = in_flight c"
  by (simp add: n_defs)

lemma in_flight_waiter [simp]:
  "n_stage c = Waiting \<Longrightarrow> n_receiver c = m # ms \<Longrightarrow>
   in_flight (waiter_receive closed m (c\<lparr>n_receiver := ms\<rparr>)) = filter (\<lambda>(_, h). h \<notin> closed) (n_buffer c @ [m]) @ ms"
  by (simp add: n_defs)

lemma send_next_cases:
  assumes "send_next closed ok ps c = (c', out)" "n_stage c = KeepAlive ps" "n_buffer c \<noteq> []"
  obtains (skip) d h b where "n_buffer c = (d, h) # b" "h \<in> closed" "out = []" "c' = c\<lparr>n_buffer := b\<rparr>"
    | (sent) d h b where "n_buffer c = (d, h) # b" "h \<notin> closed" "out = [d]"
        "c' = c\<lparr>n_buffer := b, n_stage := KeepAlive (ps @ [(d, h)])\<rparr>"
    | (failed) "out = []" "n_stage c' = Connecting" "in_flight c' = in_flight c"
  using assms by (cases "n_buffer c") (auto simp: n_defs Let_def split: if_splits)

lemma response_cases:
  assumes "keep_alive_response response ps c = (c', as)" "n_stage c = KeepAlive ps"
  obtains (answered) d h qs bs where "response = Some bs" "ps = (d, h) # qs" "as = [(h, bs)]" "c' = c\<lparr>n_stage := KeepAlive qs\<rparr>"
    | (failed) "as = []" "n_stage c' = Connecting" "in_flight c' = in_flight c"
  using assms by (cases ps; cases response) (auto simp: n_defs)

section \<open>The delay between two attempts\<close>

definition delay_ok :: "connection \<Rightarrow> bool" where
  "delay_ok c \<longleftrightarrow> n_retry_delay c = 200 \<and> 200 \<le> n_delay c \<and> n_delay c \<le> 60000"

lemma doubled_delay:
  assumes "200 \<le> (x::u64)" "x \<le> 60000"
  shows "200 \<le> min (2 * x) 60000"
proof -
  have "unat x \<le> 60000" "200 \<le> unat x" using assms by (simp_all add: word_le_nat_alt)
  moreover from this have "unat (2 * x) = 2 * unat x" by (simp add: unat_word_ariths)
  ultimately show ?thesis by (simp add: min_def word_le_nat_alt)
qed

lemma delay_ok_ops [simp]:
  "delay_ok (connection_spawn a)"
  "delay_ok c \<Longrightarrow> delay_ok (connect_ok c)" "delay_ok c \<Longrightarrow> delay_ok (connect_failed c)"
  "delay_ok c \<Longrightarrow> delay_ok (waiter_timer c)" "delay_ok c \<Longrightarrow> delay_ok (waiter_receive closed m c)"
  "delay_ok c \<Longrightarrow> delay_ok (keep_alive_receive m c)" "delay_ok c \<Longrightarrow> delay_ok (n_submit m c)"
  "delay_ok c \<Longrightarrow> delay_ok (keep_alive_end e ps c)"
  "delay_ok (c\<lparr>n_receiver := ms\<rparr>) = delay_ok c"
  "delay_ok (c\<lparr>n_buffer := ms\<rparr>) = delay_ok c"
  "delay_ok (c\<lparr>n_stage := st\<rparr>) = delay_ok c"
  using doubled_delay [of "n_delay c"]
  by (simp_all add: delay_ok_def connection_spawn_def n_defs)

lemma delay_ok_send_next: "delay_ok c \<Longrightarrow> delay_ok (fst (send_next closed ok ps c))"
  by (auto simp: send_next_def Let_def split: list.splits)

lemma delay_ok_response: "delay_ok c \<Longrightarrow> delay_ok (fst (keep_alive_response r ps c))"
  by (auto simp: keep_alive_response_def split: list.splits option.splits)

section \<open>Broadcasts\<close>

text \<open>A broadcast makes one handler per address, numbered in the order of the addresses, and puts the message
  with its handler into the channel of that address' connection, behind what was there.\<close>

definition conn_of :: "reliable_sender \<Rightarrow> socket_addr \<Rightarrow> connection" where
  "conn_of s a = (case map_of (connections s) a of Some c \<Rightarrow> c | None \<Rightarrow> connection_spawn a)"

lemma reliable_send_simps [simp]:
  "fst (reliable_send a d s) = next_handler s"
  "next_handler (snd (reliable_send a d s)) = next_handler s + 1"
  "conn_of (snd (reliable_send a d s)) b = (if b = a then n_submit (d, next_handler s) (conn_of s a) else conn_of s b)"
  by (auto simp: reliable_send_def conn_of_def map_of_entry_update split: option.splits)

lemma reliable_broadcast_exact:
  "reliable_broadcast as d s = (hs, s') \<Longrightarrow> hs = [next_handler s ..< next_handler s + length as]
     \<and> next_handler s' = next_handler s + length as
     \<and> in_flight (conn_of s' a) = in_flight (conn_of s a) @ map (\<lambda>(_, h). (d, h)) (filter (\<lambda>(b, _). b = a) (zip as hs))"
proof (induction as arbitrary: s hs)
  case (Cons b as)
  obtain hs1 where b: "reliable_broadcast as d (snd (reliable_send b d s)) = (hs1, s')" "hs = next_handler s # hs1"
    using Cons.prems by (auto simp: split_beta Let_def) (metis prod.collapse)
  have "[next_handler s ..< Suc (next_handler s + length as)] = next_handler s # [Suc (next_handler s) ..< Suc (next_handler s + length as)]"
    by (rule upt_conv_Cons) simp
  with Cons.IH [OF b(1)] b(2) show ?case by auto
qed simp

section \<open>SimpleSender is best effort\<close>

text \<open>What a connection has written is an initial part of what was put into its channel.\<close>

lemma channel_send_open:
  "channel_send d c = Some c' \<Longrightarrow> sc_stage c \<noteq> SimpleClosed \<and> sc_written c' @ sc_receiver c' = sc_written c @ sc_receiver c @ [d]"
  by (auto simp: channel_send_def split: if_splits)

lemma simple_transmit_keeps:
  "sc_stage (simple_transmit ok c) \<noteq> SimpleClosed \<Longrightarrow>
   sc_written (simple_transmit ok c) @ sc_receiver (simple_transmit ok c) = sc_written c @ sc_receiver c"
  by (cases "sc_receiver c"; cases ok) (auto simp: simple_transmit_def simple_return_def Let_def)

lemma simple_send_live:
  "map_of conns a = Some c \<Longrightarrow> sc_stage c \<noteq> SimpleClosed \<Longrightarrow>
   map_of (simple_send early a d conns) b = (if b = a then Some (c\<lparr>sc_receiver := sc_receiver c @ [d]\<rparr>) else map_of conns b)"
  by (simp add: simple_send_def channel_send_def update_conv')

lemma simple_send_reconnects:
  "map_of conns a = Some c \<Longrightarrow> sc_stage c = SimpleClosed \<Longrightarrow>
   map_of (simple_send early a d conns) a = Some (if early then c else (simple_spawn a)\<lparr>sc_receiver := [d]\<rparr>)"
  by (simp add: simple_send_def channel_send_def simple_connect_def simple_return_def simple_spawn_def update_conv')

end
