(* ===== verification/NetworkReceiver.thy ===== *)
theory NetworkReceiver
  imports NetworkSender "HOL-Library.Sublist"
begin

text \<open>
  \<open>network/src/receiver.rs\<close> with any number of peers: the accept loop, which starts a runner for each incoming
  connection, and the runners, which all dispatch to clones of one handler. What the listener accepts and what the
  connections bring is the choice of the step.
\<close>

section \<open>The receiver\<close>

text \<open>A runner: its peer, the frames that have come and are not yet read (\<open>None\<close> is an error of the transport),
  what it wrote back, what it dispatched, and whether it still runs.\<close>

record runner =
  rn_peer :: socket_addr
  rn_frames :: "bytes option list"
  rn_arrived :: "bytes option list"
  rn_written :: "bytes list"
  rn_dispatched :: "bytes list"
  rn_up :: bool

record 'st receiver =
  rc_address :: socket_addr
  rc_handler :: 'st
  rc_runners :: "runner list"
  rc_log :: "(nat \<times> bytes) list"
  rc_warnings :: "network_error list"

text \<open>\<open>bound\<close> says whether the port could be bound; the \<open>expect\<close> panics when it could not.\<close>

definition receiver_run :: "bool \<Rightarrow> socket_addr \<Rightarrow> 'st \<Rightarrow> 'st receiver res" where
  "receiver_run bound address handler =
     (if bound then Inr \<lparr>rc_address = address, rc_handler = handler, rc_runners = [], rc_log = [], rc_warnings = []\<rparr>
      else Inl (Expect ''Failed to bind TCP port''))"

definition spawn_runner :: "socket_addr \<Rightarrow> runner" where
  "spawn_runner peer = \<lparr>rn_peer = peer, rn_frames = [], rn_arrived = [], rn_written = [], rn_dispatched = [], rn_up = True\<rparr>"

text \<open>One turn of the accept loop; an error of \<open>accept\<close> is only logged.\<close>

definition receiver_accept :: "socket_addr option \<Rightarrow> 'st receiver \<Rightarrow> 'st receiver" where
  "receiver_accept accepted s =
     (case accepted of
        Some peer \<Rightarrow> s\<lparr>rc_runners := rc_runners s @ [spawn_runner peer]\<rparr>
      | None \<Rightarrow> s\<lparr>rc_warnings := rc_warnings s @ [FailedToListen]\<rparr>)"

text \<open>One turn of the runner \<open>i\<close>: it reads a frame, dispatches it, and returns at the first error.\<close>

definition runner_turn :: "'st message_handler \<Rightarrow> nat \<Rightarrow> 'st receiver \<Rightarrow> 'st receiver" where
  "runner_turn H i s =
     (let r = rc_runners s ! i in
      case rn_frames r of
        [] \<Rightarrow> s
      | frame # frames \<Rightarrow>
          let (st, out, ok) = runner_frame H frame (rc_handler s);
              got = (case frame of Some message \<Rightarrow> [message] | None \<Rightarrow> [])
          in s\<lparr>rc_handler := st, rc_log := rc_log s @ map (Pair i) got,
               rc_warnings := rc_warnings s @ (if frame = None then [FailedToReceiveMessage (rn_peer r)] else []),
               rc_runners := (rc_runners s)[i := r\<lparr>rn_frames := frames, rn_written := rn_written r @ out,
                 rn_dispatched := rn_dispatched r @ got, rn_up := ok\<rparr>]\<rparr>)"

definition runner_arrive :: "nat \<Rightarrow> bytes option \<Rightarrow> 'st receiver \<Rightarrow> 'st receiver" where
  "runner_arrive i frame s =
     (let r = rc_runners s ! i
      in s\<lparr>rc_runners := (rc_runners s)[i := r\<lparr>rn_frames := rn_frames r @ [frame], rn_arrived := rn_arrived r @ [frame]\<rparr>]\<rparr>)"

text \<open>The peer has closed the connection and everything was read: the loop of the runner ends.\<close>

definition runner_close :: "nat \<Rightarrow> 'st receiver \<Rightarrow> 'st receiver" where
  "runner_close i s = s\<lparr>rc_runners := (rc_runners s)[i := (rc_runners s ! i)\<lparr>rn_up := False\<rparr>]\<rparr>"

inductive receiver_step :: "'st message_handler \<Rightarrow> 'st receiver \<Rightarrow> 'st receiver \<Rightarrow> bool" for H where
  accept: "receiver_step H s (receiver_accept accepted s)"
| arrive: "i < length (rc_runners s) \<Longrightarrow> receiver_step H s (runner_arrive i frame s)"
| serve: "i < length (rc_runners s) \<Longrightarrow> rn_up (rc_runners s ! i) \<Longrightarrow> rn_frames (rc_runners s ! i) \<noteq> [] \<Longrightarrow>
    receiver_step H s (runner_turn H i s)"
| close: "i < length (rc_runners s) \<Longrightarrow> rn_up (rc_runners s ! i) \<Longrightarrow> rn_frames (rc_runners s ! i) = [] \<Longrightarrow>
    receiver_step H s (runner_close i s)"

section \<open>What the handler has seen\<close>

text \<open>The specification: the messages in the order of the log, whoever given them.\<close>

definition handle_all :: "'st message_handler \<Rightarrow> (nat \<times> bytes) list \<Rightarrow> 'st \<Rightarrow> 'st" where
  "handle_all H log st = fold (\<lambda>(_, m) st. fst (H m st)) log st"

definition messages_of :: "nat \<Rightarrow> (nat \<times> bytes) list \<Rightarrow> bytes list" where
  "messages_of i log = map snd (filter (\<lambda>(j, _). j = i) log)"

definition runner_ok :: "(nat \<times> bytes) list \<Rightarrow> nat \<Rightarrow> runner \<Rightarrow> bool" where
  "runner_ok log i r \<longleftrightarrow> rn_dispatched r = messages_of i log \<and> prefix (map Some (rn_dispatched r)) (rn_arrived r)
     \<and> (rn_up r \<longrightarrow> rn_arrived r = map Some (rn_dispatched r) @ rn_frames r)"

definition receiver_inv :: "'st message_handler \<Rightarrow> 'st \<Rightarrow> 'st receiver \<Rightarrow> bool" where
  "receiver_inv H st s \<longleftrightarrow> rc_handler s = handle_all H (rc_log s) st
     \<and> (\<forall>i < length (rc_runners s). runner_ok (rc_log s) i (rc_runners s ! i))
     \<and> (\<forall>(i, m) \<in> set (rc_log s). i < length (rc_runners s))"

lemma messages_of_append: "messages_of i (log @ log') = messages_of i log @ messages_of i log'"
  by (simp add: messages_of_def)

lemma messages_of_one: "messages_of i (map (Pair j) ms) = (if i = j then ms else [])"
  by (auto simp: messages_of_def filter_map comp_def)

lemma messages_of_single [simp]: "messages_of i [(j, m)] = (if i = j then [m] else [])"
  by (simp add: messages_of_def)

lemma runner_ok_other: "j \<noteq> i \<Longrightarrow> runner_ok (log @ map (Pair i) ms) j r = runner_ok log j r"
  by (simp add: runner_ok_def messages_of_append messages_of_one)

lemma receiver_keeps: "receiver_step H s s' \<Longrightarrow> receiver_inv H st s \<Longrightarrow> receiver_inv H st s'"
proof (induction rule: receiver_step.induct)
  case (accept s accepted)
  have "messages_of (length (rc_runners s)) (rc_log s) = []"
    using accept by (auto simp: receiver_inv_def messages_of_def filter_empty_conv)
  then have "runner_ok (rc_log s) (length (rc_runners s)) (spawn_runner peer)" for peer
    by (simp add: runner_ok_def spawn_runner_def)
  with accept show ?case
    by (auto simp: receiver_inv_def receiver_accept_def nth_append less_Suc_eq split: option.split)
next
  case (arrive i s frame)
  then show ?case by (auto simp: receiver_inv_def runner_arrive_def Let_def nth_list_update runner_ok_def)
next
  case (serve i s)
  let ?r = "rc_runners s ! i"
  obtain frame frames where f: "rn_frames ?r = frame # frames" using serve.hyps(3) by (cases "rn_frames ?r") auto
  obtain st' out ok where H: "runner_frame H frame (rc_handler s) = (st', out, ok)" by (cases "runner_frame H frame (rc_handler s)")
  let ?got = "case frame of Some message \<Rightarrow> [message] | None \<Rightarrow> []" and ?r' = "rc_runners (runner_turn H i s) ! i"
  have s': "rc_handler (runner_turn H i s) = st'" "rc_log (runner_turn H i s) = rc_log s @ map (Pair i) ?got"
    "rc_runners (runner_turn H i s) = (rc_runners s)[i := ?r\<lparr>rn_frames := frames, rn_written := rn_written ?r @ out,
       rn_dispatched := rn_dispatched ?r @ ?got, rn_up := ok\<rparr>]"
    using f H by (simp_all add: runner_turn_def Let_def)
  have st': "st' = handle_all H (rc_log s @ map (Pair i) ?got) st"
    using serve.prems H by (auto simp: receiver_inv_def handle_all_def runner_frame_def split: option.splits)
  have r: "runner_ok (rc_log s) i ?r" using serve.prems serve.hyps(1) by (simp add: receiver_inv_def)
  then have arrived: "rn_arrived ?r = map Some (rn_dispatched ?r) @ frame # frames" using f serve.hyps(2) by (simp add: runner_ok_def)
  have "frame \<noteq> None" if ok using that H by (auto simp: runner_frame_def split: option.splits)
  then have "runner_ok (rc_log s @ map (Pair i) ?got) i ?r'"
    using r arrived serve.hyps(1) unfolding runner_ok_def s'(3)
    by (cases frame) (auto simp: messages_of_append messages_of_one)
  moreover have "runner_ok (rc_log s @ map (Pair i) ?got) j (rc_runners s ! j)" if "j < length (rc_runners s)" "j \<noteq> i" for j
    using serve.prems that by (simp add: receiver_inv_def runner_ok_other)
  ultimately show ?case using serve.prems serve.hyps(1) st' s' unfolding receiver_inv_def
    by (auto simp: nth_list_update split: option.splits)
next
  case (close i s)
  then show ?case by (auto simp: receiver_inv_def runner_close_def nth_list_update runner_ok_def)
qed

text \<open>The handler has seen the messages of the log and nothing else; of each connection it has seen an initial part of what
  came, in order, up to the first error, and while the runner is up nothing is skipped. A connection that
  fails takes nothing from the others.\<close>

lemma receiver_dispatches:
  assumes "receiver_run True a st = Inr s0" "(receiver_step H)\<^sup>*\<^sup>* s0 s"
  shows "rc_handler s = handle_all H (rc_log s) st
    \<and> (\<forall>r i. i < length (rc_runners s) \<and> r = rc_runners s ! i \<longrightarrow> rn_dispatched r = messages_of i (rc_log s)
        \<and> prefix (map Some (rn_dispatched r)) (rn_arrived r) \<and> (rn_up r \<longrightarrow> rn_arrived r = map Some (rn_dispatched r) @ rn_frames r))"
proof -
  have "receiver_inv H st s0" using assms(1) by (auto simp: receiver_run_def receiver_inv_def handle_all_def)
  with assms(2) have "receiver_inv H st s" by (induction rule: rtranclp_induct) (auto intro: receiver_keeps)
  then show ?thesis unfolding receiver_inv_def runner_ok_def by blast
qed

section \<open>One connection\<close>

text \<open>Left alone, the turns of a runner are the loop of \<open>runner_run\<close>.\<close>

lemma runner_alone:
  assumes "i < length (rc_runners s)" "rn_up (rc_runners s ! i)" "runner_run H (rn_frames (rc_runners s ! i)) (rc_handler s) = (st, out)"
  shows "\<exists>s'. (receiver_step H)\<^sup>*\<^sup>* s s' \<and> rc_handler s' = st
    \<and> rn_written (rc_runners s' ! i) = rn_written (rc_runners s ! i) @ out
    \<and> (\<forall>j. j \<noteq> i \<longrightarrow> rc_runners s' ! j = rc_runners s ! j)"
  using assms
proof (induction "rn_frames (rc_runners s ! i)" arbitrary: s out)
  case Nil
  then show ?case by (intro exI [of _ s]) auto
next
  case (Cons frame frames)
  obtain st1 out1 ok where f: "runner_frame H frame (rc_handler s) = (st1, out1, ok)" by (cases "runner_frame H frame (rc_handler s)")
  have 1: "receiver_step H s (runner_turn H i s)" using Cons.prems(1,2) Cons.hyps(2) by (intro serve) (metis list.distinct(1))+
  have t: "rc_handler (runner_turn H i s) = st1" "length (rc_runners (runner_turn H i s)) = length (rc_runners s)"
    "rn_frames (rc_runners (runner_turn H i s) ! i) = frames" "rn_up (rc_runners (runner_turn H i s) ! i) = ok"
    "rn_written (rc_runners (runner_turn H i s) ! i) = rn_written (rc_runners s ! i) @ out1"
    "\<forall>j. j \<noteq> i \<longrightarrow> rc_runners (runner_turn H i s) ! j = rc_runners s ! j"
    using f Cons.prems(1) by (simp_all add: runner_turn_def Cons.hyps(2) [symmetric] Let_def)
  show ?case
  proof (cases ok)
    case True
    obtain out2 where run: "runner_run H frames st1 = (st, out2)" "out = out1 @ out2"
      using Cons.prems(3) f True by (auto simp: Cons.hyps(2) [symmetric] split: prod.splits)
    obtain s' where "(receiver_step H)\<^sup>*\<^sup>* (runner_turn H i s) s'" "rc_handler s' = st"
      "rn_written (rc_runners s' ! i) = rn_written (rc_runners (runner_turn H i s) ! i) @ out2"
      "\<forall>j. j \<noteq> i \<longrightarrow> rc_runners s' ! j = rc_runners (runner_turn H i s) ! j"
      using Cons.hyps(1) [of "runner_turn H i s" out2] t run(1) True Cons.prems(1) by auto
    with 1 t run(2) show ?thesis by (intro exI [of _ s']) (auto intro: converse_rtranclp_into_rtranclp)
  next
    case False
    then have "st = st1" "out = out1" using Cons.prems(3) f by (auto simp: Cons.hyps(2) [symmetric])
    with 1 t show ?thesis by (intro exI [of _ "runner_turn H i s"]) auto
  qed
qed

section \<open>A connection of the simple sender\<close>

text \<open>The task of a connection, with what was put into its channel. \<open>connected\<close> and \<open>ok\<close> say what TCP does; after an error the
  task has returned and its channel is closed.\<close>

inductive simple_step :: "simple_connection \<times> bytes list \<Rightarrow> simple_connection \<times> bytes list \<Rightarrow> bool" where
  submit: "channel_send data c = Some c' \<Longrightarrow> simple_step (c, given) (c', given @ [data])"
| connect: "sc_stage c = SimpleConnecting \<Longrightarrow> simple_step (c, given) (simple_connect connected c, given)"
| transmit: "sc_stage c = SimpleOpen \<Longrightarrow> sc_receiver c \<noteq> [] \<Longrightarrow> simple_step (c, given) (simple_transmit ok c, given)"
| response: "sc_stage c = SimpleOpen \<Longrightarrow> simple_step (c, given) (simple_response r c, given)"

definition simple_inv :: "simple_connection \<times> bytes list \<Rightarrow> bool" where
  "simple_inv = (\<lambda>(c, given). prefix (sc_written c) given \<and> (sc_stage c \<noteq> SimpleClosed \<longrightarrow> given = sc_written c @ sc_receiver c))"

lemma simple_keeps: "simple_step p q \<Longrightarrow> simple_inv p \<Longrightarrow> simple_inv q"
  by (induction rule: simple_step.induct)
    (auto simp: simple_inv_def channel_send_def simple_connect_def simple_transmit_def simple_response_def simple_return_def Let_def
      split: list.splits option.splits if_splits)

text \<open>Best effort: what goes out is an initial part of what was submitted, all of it is still there while the
  connection lives, and then it can also go out.\<close>

lemma simple_in_order:
  "simple_step\<^sup>*\<^sup>* (simple_spawn a, []) (c, given) \<Longrightarrow> prefix (sc_written c) given
    \<and> (sc_stage c \<noteq> SimpleClosed \<longrightarrow> given = sc_written c @ sc_receiver c)"
proof -
  assume "simple_step\<^sup>*\<^sup>* (simple_spawn a, []) (c, given)"
  moreover have "simple_inv (simple_spawn a, [])" by (simp add: simple_inv_def simple_spawn_def)
  ultimately have "simple_inv (c, given)" by (induction rule: rtranclp_induct) (auto intro: simple_keeps)
  then show ?thesis by (simp add: simple_inv_def)
qed

lemma simple_flush:
  "sc_stage c = SimpleOpen \<Longrightarrow> \<exists>c'. simple_step\<^sup>*\<^sup>* (c, given) (c', given) \<and> sc_stage c' = SimpleOpen \<and> sc_receiver c' = []
    \<and> sc_written c' = sc_written c @ sc_receiver c"
proof (induction "sc_receiver c" arbitrary: c)
  case (Cons d ds)
  let ?c = "simple_transmit True c"
  have c: "sc_stage ?c = SimpleOpen" "sc_receiver ?c = ds" "sc_written ?c = sc_written c @ [d]"
    using Cons.prems by (simp_all add: simple_transmit_def Cons.hyps(2) [symmetric])
  have "simple_step (c, given) (?c, given)" using Cons.prems Cons.hyps(2) by (intro transmit) auto
  moreover obtain c' where "simple_step\<^sup>*\<^sup>* (?c, given) (c', given)" "sc_stage c' = SimpleOpen" "sc_receiver c' = []" "sc_written c' = sc_written ?c @ ds"
    using Cons.hyps(1) [of ?c] c by auto
  ultimately show ?case using c(3) Cons.hyps(2) by (metis append.assoc append_Cons append_Nil converse_rtranclp_into_rtranclp)
qed auto

lemma simple_can_deliver:
  assumes "simple_step\<^sup>*\<^sup>* (simple_spawn a, []) (c, given)" "sc_stage c \<noteq> SimpleClosed"
  shows "\<exists>c'. simple_step\<^sup>*\<^sup>* (c, given) (c', given) \<and> sc_written c' = given"
proof -
  have all: "given = sc_written c @ sc_receiver c" using simple_in_order [OF assms(1)] assms(2) by blast
  show ?thesis
  proof (cases "sc_stage c")
    case SimpleConnecting
    then have "simple_step (c, given) (c\<lparr>sc_stage := SimpleOpen\<rparr>, given)" using connect [of c given True] by (simp add: simple_connect_def)
    with simple_flush [of "c\<lparr>sc_stage := SimpleOpen\<rparr>" given] all show ?thesis by (auto intro: converse_rtranclp_into_rtranclp)
  next
    case SimpleOpen
    with simple_flush [of c given] all show ?thesis by auto
  qed (use assms(2) in simp)
qed

text \<open>Over one TCP connection, whose frames come in order and from the first one on, the handler of the peer sees an initial
  part of what was submitted.\<close>

lemma simple_to_handler:
  assumes "simple_step\<^sup>*\<^sup>* (simple_spawn a, []) (c, given)" "receiver_run True b st = Inr s0" "(receiver_step H)\<^sup>*\<^sup>* s0 s"
    and "i < length (rc_runners s)" "prefix (rn_arrived (rc_runners s ! i)) (map Some (sc_written c))"
  shows "prefix (messages_of i (rc_log s)) given"
proof -
  have d: "rn_dispatched (rc_runners s ! i) = messages_of i (rc_log s)" "prefix (map Some (rn_dispatched (rc_runners s ! i))) (rn_arrived (rc_runners s ! i))"
    using receiver_dispatches [OF assms(2,3)] assms(4) by blast+
  have "prefix (map Some (messages_of i (rc_log s))) (map Some (sc_written c))"
    using prefix_order.trans [OF d(2) assms(5)] by (simp only: d(1))
  then have "prefix (map the (map Some (messages_of i (rc_log s)))) (map the (map Some (sc_written c)))" by (rule map_mono_prefix)
  then have "prefix (messages_of i (rc_log s)) (sc_written c)" by (simp add: comp_def)
  then show ?thesis using simple_in_order [OF assms(1)] prefix_order.trans by blast
qed

end
