(* ===== verification/ConsensusRuns.thy ===== *)
theory ConsensusRuns
  imports ConsensusSafety
begin

text \<open>
  For sample runs of the consensus: its state spelled out, a turn that commits nothing and a turn that commits one leader.
\<close>

definition run_state :: "dag \<Rightarrow> round \<Rightarrow> (public_key \<times> round) list \<Rightarrow> certificate list \<Rightarrow> committed_sub_dag list \<Rightarrow> consensus" where
  "run_state d r lc prim out = \<lparr>cstate = \<lparr>last_committed_round = r, last_committed = lc, dag = d\<rparr>,
     next_batch_index = of_nat (length out), to_primary = prim, to_output = out, primary_up = True, output_up = True\<rparr>"

lemma quiet_turn:
  assumes "cert_round x \<noteq> 0" "insert_certificate L x d = d'"
    and "(cert_round x - 1) mod 2 \<noteq> 0 \<or> cert_round x - 1 < 4 \<or> cert_round x - 1 - 2 \<le> r \<or> leader c (cert_round x - 1 - 2) d' = Inr None"
  shows "process_certificate L c g x (run_state d r lc prim out) = Inr (run_state d' r lc prim out)"
proof -
  note pc = process_certificate_eq [OF assms(1) refl, of L c g "run_state d r lc prim out"]
  show ?thesis
  proof (cases "(cert_round x - 1) mod 2 \<noteq> 0 \<or> cert_round x - 1 < 4 \<or> cert_round x - 1 - 2 \<le> r")
    case True
    then show ?thesis unfolding pc using assms(2) by (simp add: run_state_def)
  next
    case False
    with assms(3) have "leader c (cert_round x - 1 - 2) d' = Inr None" by blast
    then show ?thesis unfolding pc using assms(2) by (simp add: run_state_def)
  qed
qed

lemma commit_turn:
  assumes "cert_round x \<noteq> 0" "insert_certificate L x d = d'"
    and "(cert_round x - 1) mod 2 = 0" "\<not> cert_round x - 1 < 4" "r < cert_round x - 1 - 2"
    and "leader c (cert_round x - 1 - 2) d' = Inr (Some (dg, l))" "map_of d' (cert_round x - 1 - 1) = Some y"
    and "validity_threshold c \<le> support c dg y" "order_leaders c l \<lparr>last_committed_round = r, last_committed = lc, dag = d'\<rparr> = Inr [l]"
    and "order_dag g l \<lparr>last_committed_round = r, last_committed = lc, dag = d'\<rparr> = batch" "batch \<noteq> []"
    and "fold (con_update g) batch \<lparr>last_committed_round = r, last_committed = lc, dag = d'\<rparr>
       = \<lparr>last_committed_round = r', last_committed = lc', dag = e\<rparr>"
  shows "process_certificate L c g x (run_state d r lc prim out)
    = Inr (run_state e r' lc' (prim @ batch)
        (out @ [\<lparr>batch_index = of_nat (length out) + 1, leader_round = cert_round l, leader_digest = cert_digest L l, certificates = batch\<rparr>]))"
proof -
  note pc = process_certificate_eq [OF assms(1) refl, of L c g "run_state d r lc prim out"]
  have "\<not> ((cert_round x - 1) mod 2 \<noteq> 0 \<or> cert_round x - 1 < 4 \<or> cert_round x - 1 - 2 \<le> r)" using assms(3-5) by auto
  then show ?thesis unfolding pc using assms by (simp add: run_state_def commit_leader_def Let_def not_le [symmetric])
qed

lemma run_consensus_append:
  "run_consensus L c g (xs @ ys) s = bindR (run_consensus L c g xs s) (run_consensus L c g ys)"
  by (simp add: run_consensus_def [abs_def] foldR_append)

lemma run_consensus_one: "run_consensus L c g [x] s = process_certificate L c g x s"
  by (simp add: run_consensus_def) (cases "process_certificate L c g x s"; simp)

end
