(* ===== verification/Agreement.thy ===== *)
theory Agreement
  imports ConsensusSafety "HOL-Library.Sublist"
begin

text \<open>
  Two validators that run the consensus on their own deliveries. \<open>U\<close> is the set of all certificates of the system:
  no author has two in a round, each has a quorum of parents. A node delivers some of them, each after all its
  parents. The leaders that a node has committed are a function of the last one, so of two nodes one has committed
  an initial part of the leaders of the other.
\<close>

section \<open>The DAG of the system\<close>

definition universe :: "crypto_lib \<Rightarrow> committee \<Rightarrow> certificate set \<Rightarrow> bool" where
  "universe L c U \<longleftrightarrow> inj_on (cert_digest L) U \<and> inj_on slot U \<and> (\<forall>x \<in> U. if cert_round x = 0 then h_parents (c_header x) = [] else parents_in L c U x)"

text \<open>All the parents of a certificate are there, one round below.\<close>

definition whole_parents :: "crypto_lib \<Rightarrow> certificate set \<Rightarrow> certificate \<Rightarrow> bool" where
  "whole_parents L D x \<longleftrightarrow> (\<forall>p \<in> set (h_parents (c_header x)). \<exists>z \<in> D. cert_digest L z = p \<and> cert_round z = cert_round x - 1)"

definition closed_dag :: "crypto_lib \<Rightarrow> certificate set \<Rightarrow> bool" where
  "closed_dag L D \<longleftrightarrow> (\<forall>x \<in> D. cert_round x \<noteq> 0 \<longrightarrow> whole_parents L D x)"

fun whole_history_first :: "crypto_lib \<Rightarrow> certificate set \<Rightarrow> certificate list \<Rightarrow> bool" where
  "whole_history_first L D [] \<longleftrightarrow> True"
| "whole_history_first L D (x # xs) \<longleftrightarrow> whole_parents L D x \<and> whole_history_first L (insert x D) xs"

definition par :: "crypto_lib \<Rightarrow> certificate set \<Rightarrow> (certificate \<times> certificate) set" where
  "par L U = {(x, y). x \<in> U \<and> y \<in> U \<and> cert_round x \<noteq> 0 \<and> cert_round y = cert_round x - 1
     \<and> cert_digest L y \<in> set (h_parents (c_header x))}"

lemma whole_parents_mono: "whole_parents L D x \<Longrightarrow> D \<subseteq> E \<Longrightarrow> whole_parents L E x"
  unfolding whole_parents_def by (meson subsetD)

lemma closed_dag_insert: "closed_dag L D \<Longrightarrow> whole_parents L D x \<Longrightarrow> closed_dag L (insert x D)"
  unfolding closed_dag_def by (metis insert_iff subset_insertI whole_parents_mono)

lemma par_round: "(x, y) \<in> par L U \<Longrightarrow> unat (cert_round x) = Suc (unat (cert_round y))"
proof -
  assume "(x, y) \<in> par L U"
  then have "cert_round x \<noteq> 0" "cert_round y = cert_round x - 1" by (auto simp: par_def)
  then show ?thesis by (simp add: unat_minus_one unat_gt_0)
qed

lemma par_closed:
  assumes "closed_dag L D" "D \<subseteq> U" "universe L c U" "x \<in> D" "(x, y) \<in> par L U"
  shows "y \<in> D"
proof -
  have y: "y \<in> U" "cert_digest L y \<in> set (h_parents (c_header x))" "cert_round x \<noteq> 0" using assms(5) by (auto simp: par_def)
  then obtain z where z: "z \<in> D" "cert_digest L z = cert_digest L y"
    using assms(1,4) by (auto simp: closed_dag_def whole_parents_def)
  have "inj_on (cert_digest L) U" using assms(3) by (simp add: universe_def)
  then have "z = y" using z y(1) assms(2) by (auto dest: inj_onD)
  with z(1) show ?thesis by simp
qed

lemma par_star_closed:
  assumes "closed_dag L D" "D \<subseteq> U" "universe L c U" "x \<in> D" "(x, y) \<in> (par L U)\<^sup>*"
  shows "y \<in> D"
  using assms(5) by (induction rule: rtrancl_induct) (use assms(1-4) par_closed in blast)+

lemma par_star_round: "(x, y) \<in> (par L U)\<^sup>* \<Longrightarrow> unat (cert_round y) \<le> unat (cert_round x)"
  by (induction rule: rtrancl_induct) (auto dest: par_round)

lemma par_trancl_round: "(x, y) \<in> (par L U)\<^sup>+ \<Longrightarrow> unat (cert_round y) < unat (cert_round x)"
  by (induction rule: trancl_induct) (auto dest: par_round)

lemma par_star_lower:
  "(x, y) \<in> (par L U)\<^sup>* \<Longrightarrow> unat (cert_round y) < unat (cert_round x) \<Longrightarrow> (x, y) \<in> (par L U)\<^sup>+"
  by (metis less_irrefl rtranclD)

text \<open>Every certificate reaches each lower round.\<close>

lemma par_down:
  assumes U: "universe L c U" and c: "sane_stake c" and x: "x \<in> U" and m: "m \<le> unat (cert_round x)"
  shows "\<exists>y. (x, y) \<in> (par L U)\<^sup>* \<and> unat (cert_round y) = m"
  using m
proof (induction m rule: inc_induct)
  case (step m)
  then obtain y where y: "(x, y) \<in> (par L U)\<^sup>*" "unat (cert_round y) = Suc m" by auto
  have yU: "y \<in> U" using y(1) x by (induction rule: rtrancl_induct) (auto simp: par_def)
  have nz: "cert_round y \<noteq> 0" using y(2) by auto
  then have "parents_in L c U y" using U yU by (simp add: universe_def)
  then obtain Q where Q: "unat (quorum_threshold c) \<le> sum (stake_nat c) Q"
    "\<And>n. n \<in> Q \<Longrightarrow> \<exists>z \<in> U. cert_origin z = n \<and> cert_round z = cert_round y - 1 \<and> cert_digest L z \<in> set (h_parents (c_header y))"
    unfolding parents_in_def by blast
  have "Q \<noteq> {}" using Q(1) com.quorum_pos [OF c] by auto
  then obtain z where "z \<in> U" "cert_round z = cert_round y - 1" "cert_digest L z \<in> set (h_parents (c_header y))" using Q(2) by blast
  then have "(y, z) \<in> par L U" using yU nz by (simp add: par_def)
  with y par_round [OF this] show ?case by (intro exI [of _ z]) auto
qed auto

text \<open>A certificate with \<open>f+1\<close> of support one round up, and what that gives.\<close>

definition backed :: "crypto_lib \<Rightarrow> committee \<Rightarrow> certificate set \<Rightarrow> certificate \<Rightarrow> bool" where
  "backed L c U l \<longleftrightarrow> (\<exists>S. finite S \<and> unat (validity_threshold c) \<le> sum (stake_nat c) S
     \<and> (\<forall>n \<in> S. \<exists>z. cert_origin z = n \<and> (z, l) \<in> par L U))"

lemma backed_reached:
  assumes U: "universe L c U" and c: "sane_stake c" and l: "backed L c U l"
    and x: "x \<in> U" "unat (cert_round l) + 2 \<le> unat (cert_round x)"
  shows "(x, l) \<in> (par L U)\<^sup>+"
proof -
  obtain w where w: "(x, w) \<in> (par L U)\<^sup>*" "unat (cert_round w) = unat (cert_round l) + 2"
    using par_down [OF U c x(1,2)] by blast
  have wU: "w \<in> U" using w(1) x(1) by (induction rule: rtrancl_induct) (auto simp: par_def)
  have nz: "cert_round w \<noteq> 0" using w(2) by auto
  then have "parents_in L c U w" using U wU by (simp add: universe_def)
  then obtain Q where Q: "finite Q" "unat (quorum_threshold c) \<le> sum (stake_nat c) Q"
    "\<And>n. n \<in> Q \<Longrightarrow> \<exists>z \<in> U. cert_origin z = n \<and> cert_round z = cert_round w - 1 \<and> cert_digest L z \<in> set (h_parents (c_header w))"
    unfolding parents_in_def by blast
  obtain S where S: "finite S" "unat (validity_threshold c) \<le> sum (stake_nat c) S"
    "\<And>n. n \<in> S \<Longrightarrow> \<exists>z. cert_origin z = n \<and> (z, l) \<in> par L U"
    using l by (auto simp: backed_def)
  obtain n where n: "n \<in> Q" "n \<in> S"
    using com.quorum_meets_validity [OF c Q(1) S(1) Q(2) S(2)] by auto
  obtain z where z: "z \<in> U" "cert_origin z = n" "cert_round z = cert_round w - 1" "cert_digest L z \<in> set (h_parents (c_header w))"
    using Q(3) [OF n(1)] by blast
  obtain z' where z': "cert_origin z' = n" "(z', l) \<in> par L U" using S(3) [OF n(2)] by blast
  have wz: "(w, z) \<in> par L U" using z wU nz by (simp add: par_def)
  have "unat (cert_round z) = unat (cert_round z')" using par_round [OF wz] par_round [OF z'(2)] w(2) by simp
  then have "slot z = slot z'" using z(2) z'(1) by (simp add: slot_def word_unat_eq_iff)
  moreover have "z' \<in> U" "inj_on slot U" using z'(2) U by (auto simp: par_def universe_def)
  ultimately have "z = z'" using z(1) by (auto dest: inj_onD)
  with w(1) wz z'(2) show ?thesis by (metis rtrancl_into_trancl1 trancl.trancl_into_trancl)
qed

section \<open>Links\<close>

text \<open>What a node knows: its deliveries \<open>D\<close> are closed, and its DAG holds what is not below the last committed round.\<close>

definition node_view :: "crypto_lib \<Rightarrow> committee \<Rightarrow> round \<Rightarrow> certificate set \<Rightarrow> certificate set \<Rightarrow> con_state \<Rightarrow> bool" where
  "node_view L c g U D st \<longleftrightarrow> universe L c U \<and> sane_stake c \<and> D \<subseteq> U \<and> closed_dag L D \<and> hold_inv L c g D st"

lemma view_mem: "node_view L c g U D st \<Longrightarrow> x \<in> D \<Longrightarrow> (x, y) \<in> (par L U)\<^sup>* \<Longrightarrow> y \<in> D"
  unfolding node_view_def by (meson par_star_closed)

lemma view_round:
  assumes v: "node_view L c g U D st" and r: "last_committed_round st \<le> r" and x: "map_of (dag st) r = Some x"
  shows "(n, dg, z) \<in> set x \<longleftrightarrow> z \<in> D \<and> cert_round z = r \<and> n = cert_origin z \<and> dg = cert_digest L z"
proof
  have hold: "hold_inv L c g D st" using v by (simp add: node_view_def)
  then have wf: "dag_wf L (dag st)" by (simp add: hold_inv_def)
  assume "(n, dg, z) \<in> set x"
  from dag_wf_D [OF wf x this] hold show "z \<in> D \<and> cert_round z = r \<and> n = cert_origin z \<and> dg = cert_digest L z"
    unfolding hold_inv_def by blast
next
  have hold: "hold_inv L c g D st" using v by (simp add: node_view_def)
  then have wf: "dag_wf L (dag st)" by (simp add: hold_inv_def)
  assume z: "z \<in> D \<and> cert_round z = r \<and> n = cert_origin z \<and> dg = cert_digest L z"
  with hold r have "z \<in> dag_entries (dag st)" unfolding hold_inv_def by blast
  from entry_lookup [OF wf this] x z show "(n, dg, z) \<in> set x" by auto
qed

lemma par_step_below:
  assumes "(l, z) \<in> (par L U)\<^sup>*" "unat (cert_round z) = m" "m < unat (cert_round l)"
  shows "\<exists>y. (l, y) \<in> (par L U)\<^sup>* \<and> (y, z) \<in> par L U \<and> unat (cert_round y) = Suc m"
  using assms(1)
proof (cases rule: rtranclE)
  case base
  with assms(2,3) show ?thesis by simp
next
  case (step y)
  with par_round [OF step(2)] assms(2) show ?thesis by auto
qed

lemma linked_walk:
  assumes v: "node_view L c g U D st" and l: "l \<in> D" and m: "unat (last_committed_round st) < m" "m \<le> unat (cert_round l)"
  shows "\<exists>ps. foldR (linked_step (dag st)) (rev (map of_nat [m..<unat (cert_round l)])) [l] = Inr ps
    \<and> set ps = {z. (l, z) \<in> (par L U)\<^sup>* \<and> unat (cert_round z) = m}"
  using m(2,1)
proof (induction m rule: inc_induct)
  case base
  have "z = l" if "(l, z) \<in> (par L U)\<^sup>*" "unat (cert_round z) = unat (cert_round l)" for z
    using that par_trancl_round [of l z L U] by (auto simp: rtrancl_eq_or_trancl)
  then show ?case by auto
next
  case (step m)
  then obtain ps where ps: "foldR (linked_step (dag st)) (rev (map of_nat [Suc m..<unat (cert_round l)])) [l] = Inr ps"
    "set ps = {z. (l, z) \<in> (par L U)\<^sup>* \<and> unat (cert_round z) = Suc m}" by auto
  have hold: "hold_inv L c g D st" and c: "sane_stake c" and U: "universe L c U" and sub: "D \<subseteq> U" using v by (auto simp: node_view_def)
  have "Suc m \<le> unat (cert_round l)" "l \<in> U" using step.hyps(2) l sub by auto
  from par_down [OF U c this(2,1)] obtain y where y: "y \<in> set ps" using ps(2) by auto
  have yD: "z \<in> D" if "z \<in> set ps" for z using view_mem [OF v l] that ps(2) by blast
  have pred: "cert_round z - 1 = of_nat m" if "z \<in> set ps" for z using of_nat_pred [of "cert_round z" m] that ps(2) by simp
  have "last_committed_round st < cert_round y" using y ps(2) step.prems by (simp add: word_less_nat_alt)
  from hold_quorum [OF hold c yD [OF y] this] obtain x where x: "map_of (dag st) (of_nat m) = Some x"
    unfolding quorum_parents_def pred [OF y] by blast
  have "unat (cert_round l) < 2 ^ LENGTH(64)" by (rule unsigned_less)
  then have small: "m < 2 ^ LENGTH(64)" using step.hyps(2) by linarith
  then have mm: "unat (of_nat m :: round) = m" by (simp add: unat_of_nat)
  then have "last_committed_round st \<le> of_nat m" using step.prems by (simp add: word_le_nat_alt)
  note round = view_round [OF v this x]
  obtain ps' where ps': "linked_step (dag st) (of_nat m) ps = Inr ps'"
    "set ps' = {z. \<exists>n dg y. (n, dg, z) \<in> set x \<and> y \<in> set ps \<and> dg \<in> set (h_parents (c_header y))}"
    using linked_step_ok [OF x] by blast
  have "set ps' = {z. (l, z) \<in> (par L U)\<^sup>* \<and> unat (cert_round z) = m}"
  proof (intro equalityI subsetI)
    fix z assume "z \<in> set ps'"
    then obtain y where yz: "y \<in> set ps" "z \<in> D" "cert_round z = of_nat m" "cert_digest L z \<in> set (h_parents (c_header y))"
      unfolding ps'(2) round by blast
    then have y: "(l, y) \<in> (par L U)\<^sup>*" "cert_round y \<noteq> 0" "y \<in> U" using ps(2) yD [OF yz(1)] sub by auto
    have "(y, z) \<in> par L U" unfolding par_def using y yz(2-4) sub pred [OF yz(1)] by (simp add: subset_iff)
    from rtrancl_into_rtrancl [OF y(1) this] yz(3) mm show "z \<in> {z. (l, z) \<in> (par L U)\<^sup>* \<and> unat (cert_round z) = m}" by simp
  next
    fix z assume z: "z \<in> {z. (l, z) \<in> (par L U)\<^sup>* \<and> unat (cert_round z) = m}"
    then obtain y where y: "(l, y) \<in> (par L U)\<^sup>*" "(y, z) \<in> par L U" "unat (cert_round y) = Suc m"
      using par_step_below step.hyps(2) by blast
    have "z \<in> D" using view_mem [OF v l] z by blast
    moreover have "cert_round z = of_nat m" using z mm by (simp add: word_unat_eq_iff)
    ultimately show "z \<in> set ps'" unfolding ps'(2) round using y ps(2) by (auto simp: par_def)
  qed
  then show ?case using ps(1) ps'(1) step.hyps(2) by (simp add: upt_conv_Cons foldR_append)
qed

lemma linked_exact:
  assumes v: "node_view L c g U D st" and l: "l \<in> D" and p: "p \<in> D"
    and r: "last_committed_round st < cert_round p" "cert_round p < cert_round l"
  shows "linked l p (dag st) = Inr ((l, p) \<in> (par L U)\<^sup>+)"
proof -
  let ?m = "unat (cert_round p)"
  obtain ps where ps: "foldR (linked_step (dag st)) (rev (rounds_between (cert_round p) (cert_round l))) [l] = Inr ps"
    "set ps = {z. (l, z) \<in> (par L U)\<^sup>* \<and> unat (cert_round z) = ?m}"
    using linked_walk [OF v l, of ?m] r by (auto simp: word_less_nat_alt rounds_between_def)
  have "(\<exists>z \<in> set ps. cert_eq z p) \<longleftrightarrow> p \<in> set ps"
  proof
    assume "\<exists>z \<in> set ps. cert_eq z p"
    then obtain z where z: "z \<in> set ps" "slot z = slot p" by (auto simp: cert_eq_def slot_def)
    have "(l, z) \<in> (par L U)\<^sup>*" using z(1) ps(2) by blast
    then have "z \<in> U" "p \<in> U" "inj_on slot U" using view_mem [OF v l] p v unfolding node_view_def universe_def by blast+
    with z show "p \<in> set ps" by (metis inj_onD)
  qed (auto simp: cert_eq_def)
  also have "\<dots> \<longleftrightarrow> (l, p) \<in> (par L U)\<^sup>+"
    unfolding ps(2) mem_Collect_eq using par_star_lower [of l p L U] r(2) by (metis trancl_into_rtrancl word_less_nat_alt)
  finally show ?thesis using ps(1) by (simp add: linked_def list_ex_iff)
qed

section \<open>The leaders before a leader\<close>

definition leads :: "committee \<Rightarrow> certificate \<Rightarrow> bool" where
  "leads c p \<longleftrightarrow> leader_name c (cert_round p) = Inr (cert_origin p) \<and> even (unat (cert_round p)) \<and> cert_round p \<noteq> 0"

definition previous_leader :: "crypto_lib \<Rightarrow> committee \<Rightarrow> certificate set \<Rightarrow> certificate \<Rightarrow> certificate \<Rightarrow> bool" where
  "previous_leader L c U l p \<longleftrightarrow> leads c p \<and> (l, p) \<in> (par L U)\<^sup>+
     \<and> (\<forall>q. leads c q \<and> (l, q) \<in> (par L U)\<^sup>+ \<longrightarrow> unat (cert_round q) \<le> unat (cert_round p))"

text \<open>All the leaders up to \<open>l\<close>, each the last one that the next one reaches.\<close>

inductive leaders_to :: "crypto_lib \<Rightarrow> committee \<Rightarrow> certificate set \<Rightarrow> certificate \<Rightarrow> certificate list \<Rightarrow> bool" for L c U where
  first: "\<nexists>p. previous_leader L c U l p \<Longrightarrow> leaders_to L c U l [l]"
| later: "previous_leader L c U l p \<Longrightarrow> leaders_to L c U p ls \<Longrightarrow> leaders_to L c U l (ls @ [l])"

inductive_cases leaders_toE: "leaders_to L c U l ls"

lemma previous_leader_unique:
  assumes "universe L c U" "previous_leader L c U l p" "previous_leader L c U l q"
  shows "p = q"
proof -
  have "cert_round p = cert_round q" using assms(2,3) by (auto simp: previous_leader_def word_unat_eq_iff intro: le_antisym)
  then have "slot p = slot q" using assms(2,3) by (simp add: previous_leader_def leads_def slot_def)
  moreover have "p \<in> U" "q \<in> U" using assms(2,3) by (auto simp: previous_leader_def par_def elim: tranclE)
  ultimately show ?thesis using assms(1) by (auto simp: universe_def dest: inj_onD)
qed

lemma leaders_to_unique:
  assumes "universe L c U" "leaders_to L c U l ls" "leaders_to L c U l ks"
  shows "ls = ks"
  using assms(2,3)
proof (induction arbitrary: ks rule: leaders_to.induct)
  case (first l)
  then show ?case by (auto elim: leaders_toE)
next
  case (later l p ls)
  from later.prems later.hyps(1) obtain q ms where q: "ks = ms @ [l]" "previous_leader L c U l q" "leaders_to L c U q ms"
    by (auto elim: leaders_toE)
  with later.IH [of ms] previous_leader_unique [OF assms(1) later.hyps(1) q(2)] show ?case by simp
qed

lemma leaders_to_last: "leaders_to L c U l ls \<Longrightarrow> ls \<noteq> [] \<and> last ls = l"
  by (induction rule: leaders_to.induct) simp_all

lemma even_gap: "even a \<Longrightarrow> even b \<Longrightarrow> a \<noteq> b \<Longrightarrow> a \<le> b \<Longrightarrow> a + 2 \<le> (b :: nat)"
  by presburger

lemma leader_gap:
  assumes "universe L c U" "leads c k" "leads c l" "k \<in> U" "l \<in> U" "k \<noteq> l" "unat (cert_round k) \<le> unat (cert_round l)"
  shows "unat (cert_round k) + 2 \<le> unat (cert_round l)"
proof -
  have "cert_round k \<noteq> cert_round l"
  proof
    assume "cert_round k = cert_round l"
    then have "slot k = slot l" using assms(2,3) by (simp add: leads_def slot_def)
    with assms show False by (auto simp: universe_def dest: inj_onD)
  qed
  then show ?thesis using assms(2,3,7) by (intro even_gap) (auto simp: leads_def word_unat_eq_iff)
qed

text \<open>A leader with support is among those of every later leader, and so are all before it.\<close>

lemma leaders_to_prefix:
  assumes U: "universe L c U" and c: "sane_stake c" and k: "backed L c U k" "leads c k" "leaders_to L c U k ks"
  shows "leaders_to L c U l ls \<Longrightarrow> leads c l \<Longrightarrow> l \<in> U \<Longrightarrow> k \<in> U \<Longrightarrow> unat (cert_round k) \<le> unat (cert_round l) \<Longrightarrow> prefix ks ls"
proof (induction rule: leaders_to.induct)
  case (first l)
  show ?case
  proof (cases "k = l")
    case True
    with k(3) first.hyps show ?thesis by (auto elim: leaders_toE)
  next
    case False
    from leader_gap [OF U k(2) first.prems(1,3,2) False first.prems(4)]
    have "unat (cert_round k) + 2 \<le> unat (cert_round l)" .
    from backed_reached [OF U c k(1) first.prems(2) this] have r: "(l, k) \<in> (par L U)\<^sup>+" .
    let ?S = "{q. leads c q \<and> (l, q) \<in> (par L U)\<^sup>+}"
    define m where "m = Max ((\<lambda>q. unat (cert_round q)) ` ?S)"
    have fin: "finite ((\<lambda>q. unat (cert_round q)) ` ?S)"
      by (rule finite_subset [of _ "{..unat (cert_round l)}"]) (auto dest: par_trancl_round)
    then have "m \<in> (\<lambda>q. unat (cert_round q)) ` ?S" unfolding m_def using r k(2) by (intro Max_in) auto
    then obtain p where "p \<in> ?S" "unat (cert_round p) = m" by auto
    then have "previous_leader L c U l p" using fin unfolding previous_leader_def m_def by (auto intro: Max_ge)
    with first.hyps show ?thesis by blast
  qed
next
  case (later l p ls)
  have p: "leads c p" "(l, p) \<in> (par L U)\<^sup>+" using later.hyps(1) by (auto simp: previous_leader_def)
  have pU: "p \<in> U" using p(2) by (auto simp: par_def elim: tranclE)
  show ?case
  proof (cases "k = l")
    case True
    with k(3) later.hyps leaders_to_unique [OF U] show ?thesis by (metis leaders_to.later prefix_order.refl)
  next
    case False
    from leader_gap [OF U k(2) later.prems(1,3,2) False later.prems(4)]
    have "unat (cert_round k) + 2 \<le> unat (cert_round l)" .
    from backed_reached [OF U c k(1) later.prems(2) this] have "unat (cert_round k) \<le> unat (cert_round p)"
      using later.hyps(1) k(2) by (auto simp: previous_leader_def)
    from later.IH [OF p(1) pU later.prems(3) this] show ?thesis by simp
  qed
qed

section \<open>Past leaders in the code\<close>

lemma view_leader:
  assumes v: "node_view L c g U D st" and q: "q \<in> D" "last_committed_round st \<le> cert_round q" "leader_name c (cert_round q) = Inr (cert_origin q)"
  shows "leader c (cert_round q) (dag st) = Inr (Some (cert_digest L q, q))"
proof -
  have wf: "dag_wf L (dag st)" and "q \<in> dag_entries (dag st)" using v q(1,2) unfolding node_view_def hold_inv_def by blast+
  from entry_lookup [OF this] q(3) show ?thesis by (auto simp: leader_def)
qed

lemma order_leaders_walk:
  assumes v: "node_view L c g U D st"
  shows "foldR (order_leaders_step c (dag st)) rs (ks, y) = Inr (ks', y') \<Longrightarrow>
    sorted_wrt (\<lambda>a b. unat b + 2 \<le> unat a) rs \<Longrightarrow>
    (\<And>r. r \<in> set rs \<Longrightarrow> unat r + 2 \<le> unat (cert_round y) \<and> last_committed_round st < r \<and> even (unat r)) \<Longrightarrow>
    y \<in> D \<Longrightarrow> leads c y \<Longrightarrow> last_committed_round st < cert_round y \<Longrightarrow>
    (\<And>q. leads c q \<Longrightarrow> (y, q) \<in> (par L U)\<^sup>+ \<Longrightarrow> last_committed_round st < cert_round q \<Longrightarrow> cert_round q \<in> set rs) \<Longrightarrow>
    \<exists>tail. ks' = ks @ tail \<and> y' \<in> D \<and> leads c y' \<and> last_committed_round st < cert_round y'
      \<and> (\<forall>q. leads c q \<and> (y', q) \<in> (par L U)\<^sup>+ \<longrightarrow> cert_round q \<le> last_committed_round st)
      \<and> (\<forall>b. leaders_to L c U y' (b @ [y']) \<longrightarrow> leaders_to L c U y (b @ rev (y # tail)))"
proof (induction rs arbitrary: ks y)
  case Nil
  then have "cert_round q \<le> last_committed_round st" if "leads c q" "(y', q) \<in> (par L U)\<^sup>+" for q
    using that by (auto simp: not_le [symmetric])
  with Nil show ?case by auto
next
  case (Cons r rs)
  have wf: "dag_wf L (dag st)" and sub: "dag_entries (dag st) \<subseteq> D" using v by (auto simp: node_view_def hold_inv_def)
  obtain s1 where s1: "order_leaders_step c (dag st) r (ks, y) = Inr s1"
    "foldR (order_leaders_step c (dag st)) rs s1 = Inr (ks', y')"
    using Cons.prems(1) by (auto simp: bindR_Inr_iff)
  have srt: "sorted_wrt (\<lambda>a b. unat b + 2 \<le> unat a) rs" "\<And>r'. r' \<in> set rs \<Longrightarrow> unat r' + 2 \<le> unat r" using Cons.prems(2) by auto
  have lo: "last_committed_round st < r" "r < cert_round y" "even (unat r)" "r \<noteq> 0"
    using Cons.prems(3) [of r] by (auto simp: word_less_nat_alt)
  have low: "unat r' + 2 \<le> unat (cert_round y) \<and> last_committed_round st < r' \<and> even (unat r')" if "r' \<in> set rs" for r'
    using Cons.prems(3) that by simp
  have at_r: "leader c r (dag st) = Inr (Some (cert_digest L q, q)) \<and> linked y q (dag st) = Inr True"
    if "leads c q" "(y, q) \<in> (par L U)\<^sup>+" "cert_round q = r" for q
  proof -
    have "q \<in> D" using view_mem [OF v Cons.prems(4)] that(2) by (auto intro: trancl_into_rtrancl)
    with view_leader [OF v this] linked_exact [OF v Cons.prems(4) this] that lo show ?thesis by (auto simp: leads_def)
  qed
  show ?case
  proof (cases "\<exists>q. leads c q \<and> (y, q) \<in> (par L U)\<^sup>+ \<and> cert_round q = r")
    case True
    then obtain p where p: "leads c p" "(y, p) \<in> (par L U)\<^sup>+" "cert_round p = r" by blast
    have pD: "p \<in> D" using view_mem [OF v Cons.prems(4)] p(2) by (auto intro: trancl_into_rtrancl)
    have "s1 = (ks @ [p], p)" using s1(1) at_r [OF p] by (simp add: order_leaders_step_def)
    note fold = s1(2) [unfolded this]
    have next_rs: "cert_round q \<in> set rs" if "leads c q" "(p, q) \<in> (par L U)\<^sup>+" "last_committed_round st < cert_round q" for q
    proof -
      have "cert_round q \<in> set (r # rs)" using Cons.prems(7) [OF that(1) _ that(3)] trancl_trans [OF p(2) that(2)] by simp
      moreover have "cert_round q \<noteq> r" using par_trancl_round [OF that(2)] p(3) by auto
      ultimately show ?thesis by simp
    qed
    have rs: "unat r' + 2 \<le> unat (cert_round p) \<and> last_committed_round st < r' \<and> even (unat r')" if "r' \<in> set rs" for r'
      using srt(2) [OF that] low [OF that] p(3) by simp
    obtain tail where tail: "ks' = (ks @ [p]) @ tail" "y' \<in> D" "leads c y'" "last_committed_round st < cert_round y'"
      "\<forall>q. leads c q \<and> (y', q) \<in> (par L U)\<^sup>+ \<longrightarrow> cert_round q \<le> last_committed_round st"
      "\<forall>b. leaders_to L c U y' (b @ [y']) \<longrightarrow> leaders_to L c U p (b @ rev (p # tail))"
      using Cons.IH [OF fold srt(1) rs pD p(1) _ next_rs] lo(1) p(3) by blast
    have "unat (cert_round q) \<le> unat (cert_round p)" if "leads c q" "(y, q) \<in> (par L U)\<^sup>+" for q
    proof (cases "last_committed_round st < cert_round q")
      case True
      with Cons.prems(7) [OF that] srt(2) p(3) show ?thesis by fastforce
    next
      case False
      then show ?thesis using lo(1) p(3) by (simp add: word_less_nat_alt)
    qed
    with p have "previous_leader L c U y p" by (simp add: previous_leader_def)
    then have "leaders_to L c U y (b @ rev (y # p # tail))" if "leaders_to L c U y' (b @ [y'])" for b
      using tail(6) that leaders_to.later [of L c U y p "b @ rev (p # tail)"] by simp
    with tail show ?thesis by (intro exI [of _ "p # tail"]) simp
  next
    case False
    have "s1 = (ks, y)"
      using s1(1)
    proof (cases rule: order_leaders_step_cases)
      case (2 dg p)
      note l = leader_Some [OF 2(1) wf]
      have "p \<in> D" "leads c p" using l sub lo by (auto simp: leads_def)
      then have "(y, p) \<in> (par L U)\<^sup>+" using False l(2) linked_exact [OF v Cons.prems(4) \<open>p \<in> D\<close>] lo s1(1) 2
        by (auto simp: order_leaders_step_def split: if_splits)
      with False \<open>leads c p\<close> l(2) show ?thesis by blast
    qed
    moreover have "cert_round q \<in> set rs" if "leads c q" "(y, q) \<in> (par L U)\<^sup>+" "last_committed_round st < cert_round q" for q
      using Cons.prems(7) [OF that] False that by auto
    ultimately show ?thesis using Cons.IH [OF _ srt(1) low Cons.prems(4-6), of ks] s1(2) by simp
  qed
qed

lemma order_leaders_chain:
  assumes v: "node_view L c g U D st" and l: "l \<in> D" "leads c l" "last_committed_round st < cert_round l" "unat (cert_round l) + 2 < 2 ^ 64"
    and even: "even (unat (last_committed_round st))" and ls: "order_leaders c l st = Inr ls"
    and old: "prev = [] \<and> last_committed_round st = 0
      \<or> (\<exists>k \<in> U. leaders_to L c U k prev \<and> leads c k \<and> backed L c U k \<and> cert_round k = last_committed_round st)"
  shows "leaders_to L c U l (prev @ rev ls)"
proof -
  have U: "universe L c U" and c: "sane_stake c" and sub: "D \<subseteq> U" using v by (auto simp: node_view_def)
  let ?rs = "step_by2 (rev (u64_range (last_committed_round st + 2) (cert_round l - 2)))"
  obtain y where fold: "foldR (order_leaders_step c (dag st)) ?rs ([l], l) = Inr (ls, y)"
    using ls by (auto simp: order_leaders_def bindR_Inr_iff)
  have gap: "unat (last_committed_round st) + 2 \<le> unat (cert_round l)"
    using even l(2,3) by (intro even_gap) (auto simp: leads_def word_less_nat_alt)
  have l2: "unat (cert_round l - 2) = unat (cert_round l) - 2" "unat (last_committed_round st + 2) = unat (last_committed_round st) + 2"
    using gap l(4) by (simp_all add: unat_sub word_le_nat_alt unat_word_ariths)
  have rs: "unat r + 2 \<le> unat (cert_round l) \<and> last_committed_round st < r \<and> even (unat r)" if "r \<in> set ?rs" for r
  proof -
    have "r \<in> of_nat ` set (step_by2 (rev [unat (last_committed_round st + 2)..<Suc (unat (cert_round l - 2))]))"
      using that by (simp add: u64_range_def rev_map map_step_by2 del: upt_Suc)
    then obtain k where k: "r = of_nat k" "unat (last_committed_round st) + 2 \<le> k" "k \<le> unat (cert_round l) - 2" "even (unat (cert_round l) - 2 - k)"
      unfolding set_step_by2_rev l2 by blast
    have "unat r = k" using k(1,3) l(4) by (simp add: unat_of_nat)
    with k gap l(2) show ?thesis by (auto simp: word_less_nat_alt leads_def)
  qed
  have mem: "cert_round q \<in> set ?rs" if q: "leads c q" "(l, q) \<in> (par L U)\<^sup>+" "last_committed_round st < cert_round q" for q
  proof (rule leader_rounds_mem)
    have "unat (cert_round q) + 2 \<le> unat (cert_round l)"
      using par_trancl_round [OF q(2)] q(1) l(2) by (intro even_gap) (auto simp: leads_def)
    then show "cert_round q \<le> cert_round l - 2" using l2 by (simp add: word_le_nat_alt)
    have "unat (last_committed_round st) + 2 \<le> unat (cert_round q)"
      using q(1,3) even by (intro even_gap) (auto simp: leads_def word_less_nat_alt)
    then show "last_committed_round st + 2 \<le> cert_round q" using l2 by (simp add: word_le_nat_alt)
    show "even (unat (cert_round l - 2) - unat (cert_round q))" using l2 q(1) l(2) by (simp add: leads_def)
  qed
  have srt: "sorted_wrt (\<lambda>a b. unat b + 2 \<le> unat a) ?rs"
    by (rule step_by2_gap) (simp add: sorted_wrt_rev u64_range_sorted)
  obtain tail where tail: "ls = [l] @ tail" "y \<in> D" "leads c y" "last_committed_round st < cert_round y"
    "\<forall>q. leads c q \<and> (y, q) \<in> (par L U)\<^sup>+ \<longrightarrow> cert_round q \<le> last_committed_round st"
    "\<forall>b. leaders_to L c U y (b @ [y]) \<longrightarrow> leaders_to L c U l (b @ rev (l # tail))"
    using order_leaders_walk [OF v fold srt rs l(1,2,3) mem] by blast
  have "leaders_to L c U y (prev @ [y])"
    using old
  proof
    assume none: "prev = [] \<and> last_committed_round st = 0"
    have "\<not> previous_leader L c U y p" for p
      using tail(5) none by (auto simp: previous_leader_def leads_def)
    with none show ?thesis by (auto intro: leaders_to.first)
  next
    assume "\<exists>k \<in> U. leaders_to L c U k prev \<and> leads c k \<and> backed L c U k \<and> cert_round k = last_committed_round st"
    then obtain k where k: "k \<in> U" "leaders_to L c U k prev" "leads c k" "backed L c U k" "cert_round k = last_committed_round st" by blast
    have "unat (cert_round k) + 2 \<le> unat (cert_round y)"
      using k(3,5) tail(3,4) by (intro even_gap) (auto simp: leads_def word_less_nat_alt)
    then have "(y, k) \<in> (par L U)\<^sup>+" using backed_reached [OF U c k(4)] tail(2) sub by blast
    then have "previous_leader L c U y k" using k(3,5) tail(5) by (auto simp: previous_leader_def word_le_nat_alt)
    from leaders_to.later [OF this k(2)] show ?thesis .
  qed
  with tail(1,6) show ?thesis by simp
qed

section \<open>The leaders a node has committed\<close>

lemma universe_known: "universe L c U \<Longrightarrow> D \<subseteq> U \<Longrightarrow> known L D"
  by (auto simp: universe_def known_def grounded_def intro: inj_on_subset)

text \<open>Committing one leader: its batch is not empty, and it is the last committed one after it.\<close>

lemma commit_leader_exact:
  assumes v: "node_view L c g U D (cstate s)" and inv: "run_inv L G D s" and up: "primary_up s" "output_up s"
    and l: "l \<in> D" "last_committed_round (cstate s) < cert_round l" and step: "commit_leader L g l s = Inr s'"
  shows "node_view L c g U D (cstate s') \<and> run_inv L G D s' \<and> primary_up s' \<and> output_up s' \<and> last_committed_round (cstate s') = cert_round l
    \<and> cstate s' = fold (con_update g) (order_dag g l (cstate s)) (cstate s)
    \<and> to_output s' = to_output s @ [\<lparr>batch_index = next_batch_index s + 1, leader_round = cert_round l, leader_digest = cert_digest L l,
         certificates = order_dag g l (cstate s)\<rparr>] \<and> next_batch_index s' = next_batch_index s + 1"
proof -
  have k: "known L D" using v universe_known by (auto simp: node_view_def)
  have hold: "hold_inv L c g D (cstate s)" using v by (simp add: node_view_def)
  let ?b = "order_dag g l (cstate s)"
  have ci: "commit_inv L D (set (to_primary s) \<union> G) (cstate s)" using inv by (simp add: run_inv_def)
  have "unat (cert_round l) + unat g < 2 ^ 64" using hold l(1) unfolding hold_inv_def by blast
  then have "cert_round l \<le> cert_round l + g" by (simp add: word_le_nat_alt unat_word_ariths)
  then have "still_young g (cstate s) l" using l(2) unfolding still_young_def by order
  then have mem: "l \<in> set ?b" using order_dag_known(1) [OF ci k l(1)] by simp
  then have ne: "?b \<noteq> []" by auto
  have st: "cstate s' = fold (con_update g) ?b (cstate s)" "primary_up s'" "output_up s'"
    "to_output s' = to_output s @ [\<lparr>batch_index = next_batch_index s + 1, leader_round = cert_round l, leader_digest = cert_digest L l, certificates = ?b\<rparr>]"
    "next_batch_index s' = next_batch_index s + 1" "to_primary s' = to_primary s @ ?b"
    using step ne up by (auto simp: commit_leader_def Let_def)
  note inv' = commit_leader_inv [OF inv k l step]
  then have "commit_inv L D (set (to_primary s') \<union> G) (cstate s')" by (simp add: run_inv_def)
  then have "cert_round l \<le> last_committed_round (cstate s')" by (rule commit_inv_round) (use mem st(6) in simp)
  moreover have "node_view L c g U D (cstate s')" using v con_updates_hold [OF hold] st(1) by (simp add: node_view_def)
  ultimately show ?thesis using inv' st by auto
qed

abbreviation leader_marks :: "consensus \<Rightarrow> (round \<times> digest) list" where
  "leader_marks s \<equiv> map (\<lambda>b. (leader_round b, leader_digest b)) (to_output s)"

definition mark :: "crypto_lib \<Rightarrow> certificate \<Rightarrow> round \<times> digest" where
  "mark L l = (cert_round l, cert_digest L l)"

lemma commit_leaders_exact:
  "node_view L c g U D (cstate s) \<Longrightarrow> run_inv L G D s \<Longrightarrow> primary_up s \<Longrightarrow> output_up s \<Longrightarrow> set ls \<subseteq> D \<Longrightarrow>
    sorted_wrt (\<lambda>x y. cert_round x < cert_round y) ls \<Longrightarrow> (\<And>x. x \<in> set ls \<Longrightarrow> last_committed_round (cstate s) < cert_round x) \<Longrightarrow>
    foldR (commit_leader L g) ls s = Inr s' \<Longrightarrow>
    node_view L c g U D (cstate s') \<and> run_inv L G D s' \<and> primary_up s' \<and> output_up s'
    \<and> last_committed_round (cstate s') = (if ls = [] then last_committed_round (cstate s) else cert_round (last ls))
    \<and> leader_marks s' = leader_marks s @ map (mark L) ls"
proof (induction ls arbitrary: s)
  case (Cons l ls)
  obtain s1 where s1: "commit_leader L g l s = Inr s1" "foldR (commit_leader L g) ls s1 = Inr s'"
    using Cons.prems(8) by (auto simp: bindR_Inr_iff)
  have "l \<in> D" "last_committed_round (cstate s) < cert_round l" using Cons.prems(5,7) by auto
  note step = commit_leader_exact [OF Cons.prems(1-4) this s1(1)]
  have "last_committed_round (cstate s1) < cert_round x" if "x \<in> set ls" for x
    using that Cons.prems(6) step by auto
  from Cons.IH [OF _ _ _ _ _ _ this s1(2)] step Cons.prems(5,6) show ?case by (auto simp: mark_def)
qed simp

definition led :: "crypto_lib \<Rightarrow> committee \<Rightarrow> round \<Rightarrow> certificate set \<Rightarrow> certificate set \<Rightarrow> certificate list \<Rightarrow> consensus \<Rightarrow> bool" where
  "led L c g U D ks s \<longleftrightarrow> node_view L c g U D (cstate s) \<and> run_inv L (set (genesis c)) D s \<and> primary_up s \<and> output_up s
     \<and> leader_marks s = map (mark L) ks \<and> even (unat (last_committed_round (cstate s)))
     \<and> (ks = [] \<and> last_committed_round (cstate s) = 0
        \<or> (\<exists>k \<in> U. leaders_to L c U k ks \<and> leads c k \<and> backed L c U k \<and> cert_round k = last_committed_round (cstate s)))"

lemma insert_run_inv:
  assumes inv: "run_inv L G D s" and new: "x \<notin> D"
  shows "run_inv L G (insert x D) (s\<lparr>cstate := (cstate s)\<lparr>dag := insert_certificate L x (dag (cstate s))\<rparr>\<rparr>)"
proof -
  have ci: "commit_inv L D (set (to_primary s) \<union> G) (cstate s)" using inv by (simp add: run_inv_def)
  have wf: "dag_wf L (dag (cstate s))" using ci by (simp add: commit_inv_def)
  have "x \<notin> set (to_primary s) \<union> G" using ci new by (auto simp: commit_inv_def)
  then show ?thesis using inv insert_certificate_ok [OF wf, of x] unfolding run_inv_def commit_inv_def by auto
qed

lemma insert_view:
  assumes "node_view L c g U D st" "x \<in> U" "slot x \<notin> slot ` D" "parents_in L c D x" "whole_parents L D x" "unat (cert_round x) + unat g < 2 ^ 64"
  shows "node_view L c g U (insert x D) (st\<lparr>dag := insert_certificate L x (dag st)\<rparr>)"
  using assms insert_holds [of L c g D st x] closed_dag_insert [of L D x] by (simp add: node_view_def)

lemma supported_backed:
  assumes v: "node_view L c g U D st" and l: "leader c r (dag st) = Inr (Some (dg, l))" and r: "last_committed_round st < r" "r < r + 1"
    and y: "map_of (dag st) (r + 1) = Some y" "validity_threshold c \<le> support c dg y"
  shows "backed L c U l"
proof -
  have hold: "hold_inv L c g D st" and c: "sane_stake c" and sub: "D \<subseteq> U" using v by (auto simp: node_view_def)
  then have wf: "dag_wf L (dag st)" and ent: "dag_entries (dag st) \<subseteq> D" by (auto simp: hold_inv_def)
  note ld = leader_Some [OF l wf]
  have w: "round_wf L (r + 1) y" using wf map_of_SomeD [OF y(1)] by (auto simp: dag_wf_def)
  have "last_committed_round st \<le> r + 1" using r by order
  note rnd = view_round [OF v this y(1)]
  have "unat (validity_threshold c) \<le> sum (stake_nat c) (supporters dg y)"
    using y(2) support_unat [OF c w] by (simp add: word_le_nat_alt)
  moreover have "\<exists>z. cert_origin z = n \<and> (z, l) \<in> par L U" if n: "n \<in> supporters dg y" for n
  proof -
    obtain dz z where z: "(n, dz, z) \<in> set y" "dg \<in> set (h_parents (c_header z))" using n by (auto simp: supporters_def)
    have "r + 1 \<noteq> 0" using r(2) by auto
    then have "(z, l) \<in> par L U" using z(2) z(1) [unfolded rnd] ld ent sub by (auto simp: par_def)
    with z(1) [unfolded rnd] show ?thesis by blast
  qed
  moreover have "finite (supporters dg y)" by (simp add: supporters_def)
  ultimately show ?thesis unfolding backed_def by blast
qed

lemma two_below: "\<not> r < 4 \<Longrightarrow> r - 2 + 1 = r - 1 \<and> r - 2 < r - 2 + 1" for r :: u64
  by uint_arith

lemma led_step:
  assumes led: "led L c g U D ks s" and x: "x \<in> U" "cert_round x \<noteq> 0" "slot x \<notin> slot ` D" "parents_in L c D x" "whole_parents L D x"
      "unat (cert_round x) + unat g < 2 ^ 64"
    and step: "process_certificate L c g x s = Inr s'"
  shows "\<exists>ls. led L c g U (insert x D) (ks @ ls) s' \<and> set ls \<subseteq> insert x D \<and> sorted_wrt (\<lambda>x y. cert_round x < cert_round y) ls
    \<and> (\<forall>l \<in> set ls. last_committed_round (cstate s) < cert_round l)
    \<and> foldR (commit_leader L g) ls (s\<lparr>cstate := (cstate s)\<lparr>dag := insert_certificate L x (dag (cstate s))\<rparr>\<rparr>) = Inr s'"
proof -
  define s1 where "s1 = s\<lparr>cstate := (cstate s)\<lparr>dag := insert_certificate L x (dag (cstate s))\<rparr>\<rparr>"
  let ?D = "insert x D" and ?r = "cert_round x - 1"
  have "x \<notin> D" using x(3) by blast
  then have v: "node_view L c g U ?D (cstate s1)" and inv: "run_inv L (set (genesis c)) ?D s1"
    using led insert_view [of L c g U D "cstate s" x] insert_run_inv [of L _ D s x] x by (auto simp: led_def s1_def)
  have led1: "led L c g U ?D ks s1" using led v inv by (simp add: led_def s1_def)
  note pc = process_certificate_eq [OF x(2) s1_def, of c g]
  show ?thesis
  proof (cases "s' = s1")
    case True
    with led1 show ?thesis by (intro exI [of _ "[]"]) (simp add: s1_def)
  next
    case False
    let ?lcr = "last_committed_round (cstate s1)"
    have guard: "\<not> (?r mod 2 \<noteq> 0 \<or> ?r < 4 \<or> ?r - 2 \<le> ?lcr)"
    proof
      assume g: "?r mod 2 \<noteq> 0 \<or> ?r < 4 \<or> ?r - 2 \<le> ?lcr"
      show False using step unfolding pc if_P [OF g] using False by simp
    qed
    note step' = step [unfolded pc if_not_P [OF guard]]
    obtain dg l where l: "leader c (?r - 2) (dag (cstate s1)) = Inr (Some (dg, l))"
      using step' False by (auto simp: bindR_Inr_iff split: option.splits)
    note step' = step' [unfolded l bindR_simps option.case prod.case]
    obtain y where y: "map_of (dag (cstate s1)) (?r - 1) = Some y"
      using step' by (cases "map_of (dag (cstate s1)) (?r - 1)") auto
    have sup: "validity_threshold c \<le> support c dg y"
      using step' y False by (cases "support c dg y < validity_threshold c") auto
    obtain ls where ls: "order_leaders c l (cstate s1) = Inr ls" "foldR (commit_leader L g) (rev ls) s1 = Inr s'"
      using step' y sup by (auto simp: bindR_Inr_iff not_less [symmetric])
    have wf: "dag_wf L (dag (cstate s1))" and ent: "dag_entries (dag (cstate s1)) \<subseteq> ?D" using v by (auto simp: node_view_def hold_inv_def)
    note ld = leader_Some [OF l wf]
    have g2: "?r mod 2 = 0" "\<not> ?r < 4" "?lcr < ?r - 2" using guard by auto
    have r: "?r - 2 + 1 = ?r - 1" "?r - 2 < ?r - 2 + 1" "cert_round l = ?r - 2" using two_below [OF g2(2)] ld(2) by simp_all
    have rn: "4 \<le> unat ?r" "unat (?r - 2) = unat ?r - 2" using g2(2) unat_sub [of 2 ?r] by (simp_all add: word_le_nat_alt not_less)
    have "unat ?r mod 2 = 0" using arg_cong [OF g2(1), of unat] by (simp add: unat_mod)
    then have even: "even (unat (cert_round l))" using r(3) rn by simp presburger
    have nz: "cert_round l \<noteq> 0" using g2(3) r(3) by auto
    have leads: "leads c l" using ld even nz by (simp add: leads_def)
    have "unat ?r < 2 ^ 64" using unsigned_less [of ?r, where ?'a = nat] by simp
    then have small: "unat (cert_round l) + 2 < 2 ^ 64" using rn r(3) by simp
    have lD: "l \<in> ?D" using ld(1) ent by blast
    have bkd: "backed L c U l" using supported_backed [OF v l g2(3) r(2), of y] y sup r(1) by simp
    have lcr: "?lcr < cert_round l" "even (unat ?lcr)" using g2(3) r(3) led1 by (auto simp: led_def)
    have old: "ks = [] \<and> ?lcr = 0 \<or> (\<exists>k \<in> U. leaders_to L c U k ks \<and> leads c k \<and> backed L c U k \<and> cert_round k = ?lcr)"
      using led1 by (simp add: led_def)
    note chain = order_leaders_chain [OF v lD leads lcr(1) small lcr(2) ls(1) old]
    have "cert_round l < cert_round l + 2" "2 \<le> cert_round l" using even_round [OF g2(1,2)] r(3) by simp_all
    from order_leaders_ok [OF ls(1) wf lcr(1) this] obtain tail where tail: "ls = l # tail"
      "sorted_wrt (\<lambda>x y. cert_round y < cert_round x) ls" "set tail \<subseteq> dag_entries (dag (cstate s1))" "\<forall>x \<in> set ls. ?lcr < cert_round x" by blast
    have srt: "sorted_wrt (\<lambda>x y. cert_round x < cert_round y) (rev ls)" using tail(2) by (simp add: sorted_wrt_rev)
    have mem: "set (rev ls) \<subseteq> ?D" using tail(1,3) ent lD by auto
    have "primary_up s1" "output_up s1" using led1 by (auto simp: led_def)
    then have result: "node_view L c g U ?D (cstate s')" "run_inv L (set (genesis c)) ?D s'" "primary_up s'" "output_up s'"
      "last_committed_round (cstate s') = cert_round l" "leader_marks s' = leader_marks s1 @ map (mark L) (rev ls)"
      using commit_leaders_exact [OF v inv _ _ mem srt _ ls(2)] tail by auto
    have "l \<in> U" using lD v by (auto simp: node_view_def)
    then have "led L c g U ?D (ks @ rev ls) s'" using result led1 even bkd leads chain by (auto simp: led_def)
    with ls(2) srt mem tail(4) show ?thesis by (intro exI [of _ "rev ls"]) (simp add: s1_def)
  qed
qed

section \<open>Two nodes\<close>

lemma run_led:
  "led L c g U D ks s \<Longrightarrow> causal L c g D certs \<Longrightarrow> whole_history_first L D certs \<Longrightarrow> set certs \<subseteq> U \<Longrightarrow>
    run_consensus L c g certs s = Inr s' \<Longrightarrow> \<exists>ks'. led L c g U (set certs \<union> D) ks' s'"
proof (induction certs arbitrary: D ks s)
  case Nil
  then show ?case by (auto simp: run_consensus_def)
next
  case (Cons x certs)
  obtain s1 where s1: "process_certificate L c g x s = Inr s1" "run_consensus L c g certs s1 = Inr s'"
    using Cons.prems(5) by (auto simp: run_consensus_def bindR_Inr_iff)
  from led_step [OF Cons.prems(1) _ _ _ _ _ _ s1(1)] Cons.prems(2-4)
  obtain ks1 where "led L c g U (insert x D) ks1 s1" by auto
  from Cons.IH [OF this _ _ _ s1(2)] Cons.prems(2-4) show ?case by simp
qed

lemma led_new:
  assumes "universe L c U" "sane_stake c" "set (genesis c) \<subseteq> U"
  shows "led L c g U (set (genesis c)) [] (consensus_new L c True True)"
proof -
  have "wf_committee c" using assms(2) by (simp add: sane_stake_def)
  from consensus_new_holds [OF this] assms consensus_new_inv [of L c True True] show ?thesis
    by (simp add: led_def node_view_def closed_dag_def genesis_entries(1)) (simp add: consensus_new_def con_state_new_def Let_def)
qed

lemma causal_parents: "causal L c g D certs \<Longrightarrow> \<forall>x \<in> set certs. cert_round x \<noteq> 0 \<and> parents_in L c (D \<union> set certs) x"
proof (induction certs arbitrary: D)
  case (Cons x certs)
  have "insert x D \<union> set certs = D \<union> set (x # certs)" "D \<subseteq> D \<union> set (x # certs)" by auto
  with Cons.IH [of "insert x D"] Cons.prems parents_in_mono [of L c D x "D \<union> set (x # certs)"] show ?case by simp
qed simp

lemma two_universe:
  assumes "causal L c g (set (genesis c)) as" "causal L c g (set (genesis c)) bs"
    and "inj_on (cert_digest L) (set (genesis c) \<union> set as \<union> set bs)" "inj_on slot (set (genesis c) \<union> set as \<union> set bs)"
  shows "universe L c (set (genesis c) \<union> set as \<union> set bs)"
proof -
  let ?U = "set (genesis c) \<union> set as \<union> set bs"
  have "cert_round x \<noteq> 0 \<and> parents_in L c ?U x" if "x \<in> set as \<union> set bs" for x
    using that causal_parents [OF assms(1)] causal_parents [OF assms(2)]
    by (elim UnE) (use parents_in_mono [of L c _ x ?U] in blast)+
  then show ?thesis using assms(3,4) genesis_entries unfolding universe_def by auto
qed

lemma led_agree:
  assumes "led L c g U D ks s" "led L c g U E ms t"
  shows "prefix ks ms \<or> prefix ms ks"
proof -
  have U: "universe L c U" "sane_stake c" using assms(1) by (auto simp: led_def node_view_def)
  consider "ks = [] \<or> ms = []" | k m where "k \<in> U" "leaders_to L c U k ks" "leads c k" "backed L c U k"
      "m \<in> U" "leaders_to L c U m ms" "leads c m" "backed L c U m"
    using assms unfolding led_def by blast
  then show ?thesis
  proof cases
    case 2
    then show ?thesis using leaders_to_prefix [OF U] by (metis nat_le_linear)
  qed auto
qed

text \<open>C3. The leaders are agreed on: two nodes whose deliveries come from one set of certificates, in which no author has two in a
  round, and reach each node after all their parents, commit the same leaders in the same order, whatever the order of
  the deliveries and the clean-ups of each; one may only be ahead of the other.\<close>

theorem leaders_agree:
  assumes "sane_stake c" "causal L c g (set (genesis c)) as" "causal L c g (set (genesis c)) bs"
    and "whole_history_first L (set (genesis c)) as" "whole_history_first L (set (genesis c)) bs"
    and "inj_on (cert_digest L) (set (genesis c) \<union> set as \<union> set bs)" "inj_on slot (set (genesis c) \<union> set as \<union> set bs)"
    and "run_consensus L c g as (consensus_new L c True True) = Inr s"
    and "run_consensus L c g bs (consensus_new L c True True) = Inr t"
  shows "prefix (leader_marks s) (leader_marks t) \<or> prefix (leader_marks t) (leader_marks s)"
proof -
  let ?U = "set (genesis c) \<union> set as \<union> set bs"
  note new = led_new [OF two_universe [OF assms(2,3,6,7)] assms(1)]
  obtain ks where ks: "led L c g ?U (set as \<union> set (genesis c)) ks s"
    using run_led [OF new assms(2,4) _ assms(8)] by auto
  obtain ms where ms: "led L c g ?U (set bs \<union> set (genesis c)) ms t"
    using run_led [OF new assms(3,5) _ assms(9)] by auto
  have "leader_marks s = map (mark L) ks" "leader_marks t = map (mark L) ms" using ks ms by (simp_all add: led_def)
  then show ?thesis using led_agree [OF ks ms] by (auto intro: map_mono_prefix)
qed

end
