(* ===== verification/Splits.thy ===== *)
theory Splits
  imports ConsensusRuns Agreement
begin

text \<open>
  Without the hypothesis that no certificate comes late (\<open>in_time\<close> of \<open>Replicas\<close>) two nodes commit the same leaders but not the
  same batches: two runs of the consensus on the same 15 certificates, one of which comes late in the second run.
\<close>

section \<open>Digests\<close>

text \<open>A hash that gives the id of a header, and for the genesis, whose headers share the id 0, the key of the author.\<close>

definition tag_lib :: crypto_lib where
  "tag_lib = sample_lib\<lparr>sha512 := (\<lambda>bs. if take 32 bs = replicate 32 0 then drop 40 bs else take 32 bs)\<rparr>"

lemma zero_bytes: "digest_to_vec (Digest 0) = replicate 32 0"
  by code_simp

lemma tag_digest:
  "h_id (c_header x) \<noteq> Digest 0 \<Longrightarrow> cert_digest tag_lib x = h_id (c_header x)"
  "h_id (c_header x) = Digest 0 \<Longrightarrow> cert_digest tag_lib x = Digest (key_word (cert_origin x))"
proof -
  assume "h_id (c_header x) \<noteq> Digest 0"
  then have "digest_to_vec (h_id (c_header x)) \<noteq> replicate 32 0"
    unfolding zero_bytes [symmetric] by (metis digest_try_from_to_vec sum.inject(2))
  then show "cert_digest tag_lib x = h_id (c_header x)"
    by (simp add: cert_digest_def cert_bytes_def hash_digest_def tag_lib_def) (simp add: digest_to_vec_def from_be_bytes_be_bytes)
next
  assume "h_id (c_header x) = Digest 0"
  then show "cert_digest tag_lib x = Digest (key_word (cert_origin x))"
    by (simp add: cert_digest_def cert_bytes_def hash_digest_def tag_lib_def zero_bytes) (simp add: key_bytes_def from_be_bytes_be_bytes)
qed

section \<open>The certificates\<close>

text \<open>Five authorities, the second with a quorum alone.\<close>

definition penta_authority :: "nat \<Rightarrow> stake \<Rightarrow> public_key \<times> authority" where
  "penta_authority k s = (PublicKey (of_nat k), \<lparr>auth_stake = s,
     auth_primary = \<lparr>primary_to_primary = SocketAddr k 0, worker_to_primary = SocketAddr k 1\<rparr>, auth_workers = []\<rparr>)"

definition penta_committee :: committee where
  "penta_committee = \<lparr>authorities = [penta_authority 1 1, penta_authority 2 9, penta_authority 3 1, penta_authority 4 1, penta_authority 5 1]\<rparr>"

text \<open>The certificate of author \<open>k\<close> in round \<open>r\<close>; its digest is \<open>100 * k + r\<close>, that of the genesis of \<open>k\<close> is \<open>k\<close>.\<close>

definition penta_cert :: "256 word \<Rightarrow> round \<Rightarrow> 256 word list \<Rightarrow> certificate" where
  "penta_cert k r ps = \<lparr>c_header = \<lparr>h_author = PublicKey k, h_round = r, h_payload = [],
     h_parents = map Digest ps, h_id = Digest (100 * k + ucast r), h_sig = signature_default\<rparr>, c_votes = []\<rparr>"

abbreviation penta_genesis :: "256 word \<Rightarrow> certificate" where
  "penta_genesis k \<equiv> \<lparr>c_header = header_default\<lparr>h_author := PublicKey k\<rparr>, c_votes = []\<rparr>"

definition h1 :: certificate where "h1 = penta_cert 2 1 [2]"
definition h2 :: certificate where "h2 = penta_cert 2 2 [201]"
definition h3 :: certificate where "h3 = penta_cert 2 3 [202, 302]"
definition h4 :: certificate where "h4 = penta_cert 2 4 [203]"
definition h5 :: certificate where "h5 = penta_cert 2 5 [204]"
definition h6 :: certificate where "h6 = penta_cert 2 6 [205, 105]"
definition h7 :: certificate where "h7 = penta_cert 2 7 [206]"
definition h8 :: certificate where "h8 = penta_cert 2 8 [207]"
definition h9 :: certificate where "h9 = penta_cert 2 9 [208]"
definition b1 :: certificate where "b1 = penta_cert 3 1 [2]"
definition b2 :: certificate where "b2 = penta_cert 3 2 [201]"
definition d2 :: certificate where "d2 = penta_cert 1 2 [201, 301]"
definition d3 :: certificate where "d3 = penta_cert 1 3 [202, 102]"
definition d4 :: certificate where "d4 = penta_cert 1 4 [203, 103]"
definition d5 :: certificate where "d5 = penta_cert 1 5 [204, 104]"

lemmas penta_defs = h1_def h2_def h3_def h4_def h5_def h6_def h7_def h8_def h9_def b1_def b2_def d2_def d3_def d4_def d5_def

lemma penta_rounds [simp]:
  "cert_round h1 = 1" "cert_round h2 = 2" "cert_round h3 = 3" "cert_round h4 = 4" "cert_round h5 = 5" "cert_round h6 = 6"
  "cert_round h7 = 7" "cert_round h8 = 8" "cert_round h9 = 9" "cert_round b1 = 1" "cert_round b2 = 2"
  "cert_round d2 = 2" "cert_round d3 = 3" "cert_round d4 = 4" "cert_round d5 = 5" "cert_round (penta_genesis k) = 0"
  by (simp_all add: penta_defs penta_cert_def cert_round_def header_default_def)

lemma penta_origins [simp]:
  "cert_origin h1 = PublicKey 2" "cert_origin h2 = PublicKey 2" "cert_origin h3 = PublicKey 2" "cert_origin h4 = PublicKey 2"
  "cert_origin h5 = PublicKey 2" "cert_origin h6 = PublicKey 2" "cert_origin h7 = PublicKey 2" "cert_origin h8 = PublicKey 2"
  "cert_origin h9 = PublicKey 2" "cert_origin b1 = PublicKey 3" "cert_origin b2 = PublicKey 3" "cert_origin d2 = PublicKey 1"
  "cert_origin d3 = PublicKey 1" "cert_origin d4 = PublicKey 1" "cert_origin d5 = PublicKey 1" "cert_origin (penta_genesis k) = PublicKey k"
  by (simp_all add: penta_defs penta_cert_def cert_origin_def header_default_def)

lemma penta_digests [simp]:
  "cert_digest tag_lib h1 = Digest 201" "cert_digest tag_lib h2 = Digest 202" "cert_digest tag_lib h3 = Digest 203"
  "cert_digest tag_lib h4 = Digest 204" "cert_digest tag_lib h5 = Digest 205" "cert_digest tag_lib h6 = Digest 206"
  "cert_digest tag_lib h7 = Digest 207" "cert_digest tag_lib h8 = Digest 208" "cert_digest tag_lib h9 = Digest 209"
  "cert_digest tag_lib b1 = Digest 301" "cert_digest tag_lib b2 = Digest 302" "cert_digest tag_lib d2 = Digest 102"
  "cert_digest tag_lib d3 = Digest 103" "cert_digest tag_lib d4 = Digest 104" "cert_digest tag_lib d5 = Digest 105"
  "cert_digest tag_lib (penta_genesis k) = Digest k"
  by (simp_all add: tag_digest penta_defs penta_cert_def header_default_def digest_default_def cert_origin_def)

lemma penta_parents [simp]:
  "h_parents (c_header h1) = [Digest 2]" "h_parents (c_header h2) = [Digest 201]" "h_parents (c_header h3) = [Digest 202, Digest 302]"
  "h_parents (c_header h4) = [Digest 203]" "h_parents (c_header h5) = [Digest 204]" "h_parents (c_header h6) = [Digest 205, Digest 105]"
  "h_parents (c_header h7) = [Digest 206]" "h_parents (c_header h8) = [Digest 207]" "h_parents (c_header h9) = [Digest 208]"
  "h_parents (c_header b1) = [Digest 2]" "h_parents (c_header b2) = [Digest 201]" "h_parents (c_header d2) = [Digest 201, Digest 301]"
  "h_parents (c_header d3) = [Digest 202, Digest 102]" "h_parents (c_header d4) = [Digest 203, Digest 103]"
  "h_parents (c_header d5) = [Digest 204, Digest 104]"
  by (simp_all add: penta_defs penta_cert_def)

lemma penta_simps [simp]:
  "genesis penta_committee = [penta_genesis 1, penta_genesis 2, penta_genesis 3, penta_genesis 4, penta_genesis 5]"
  "leader_name penta_committee 2 = Inr (PublicKey 3)" "leader_name penta_committee 4 = Inr (PublicKey 5)" "leader_name penta_committee 6 = Inr (PublicKey 2)"
  "stake_of penta_committee (PublicKey 1) = 1" "stake_of penta_committee (PublicKey 2) = 9" "stake_of penta_committee (PublicKey 3) = 1"
  "validity_threshold penta_committee = 5" "quorum_threshold penta_committee = 9"
  by (simp_all add: penta_committee_def penta_authority_def leader_name_def size_of_def genesis_def stake_of_def validity_threshold_def
      quorum_threshold_def total_votes_def less_public_key_def less_eq_public_key_def)

lemma penta_sane: "sane_stake penta_committee"
  by (simp add: sane_stake_def wf_committee_def total_stake_def penta_committee_def penta_authority_def less_public_key_def)

definition first_order :: "certificate list" where
  "first_order = [h1, b1, h2, b2, h3, h4, h5, d2, d3, d4, d5, h6, h7, h8, h9]"

definition second_order :: "certificate list" where
  "second_order = [h1, h2, b2, h3, h4, h5, b1, d2, d3, d4, d5, h6, h7, h8, h9]"

section \<open>The two runs\<close>

abbreviation penta_entry :: "certificate \<Rightarrow> public_key \<times> digest \<times> certificate" where
  "penta_entry x \<equiv> (cert_origin x, cert_digest tag_lib x, x)"

lemma penta_new: "consensus_new tag_lib penta_committee True True
    = run_state [(0, map penta_entry (map penta_genesis [1, 2, 3, 4, 5]))] 0 (map (\<lambda>k. (PublicKey k, 0)) [1, 2, 3, 4, 5]) [] []"
  by (simp add: consensus_new_def con_state_new_def run_state_def Let_def)

abbreviation penta_process :: "certificate \<Rightarrow> consensus \<Rightarrow> consensus res" where
  "penta_process \<equiv> process_certificate tag_lib penta_committee 50"

lemma penta_quiet:
  assumes "cert_round x \<noteq> 0" "(cert_round x - 1) mod 2 \<noteq> 0 \<or> cert_round x - 1 < 4 \<or> cert_round x - 1 - 2 \<le> r"
  shows "penta_process x (run_state d r lc prim out) = Inr (run_state (insert_certificate tag_lib x d) r lc prim out)"
  by (rule quiet_turn [OF assms(1) refl]) (use assms(2) in \<open>elim disjE; simp\<close>)

lemmas penta_eval = insert_certificate_def dag_find_def visit_parent_def con_update_def retain_dag_def ord_cmp_def support_def
  u64_range_def order_dag_def order_leaders_def leader_def Let_def

abbreviation penta_lc :: "round \<Rightarrow> round \<Rightarrow> (public_key \<times> round) list" where
  "penta_lc r s \<equiv> [(PublicKey 1, 0), (PublicKey 2, r), (PublicKey 3, s), (PublicKey 4, 0), (PublicKey 5, 0)]"

lemma first_start: "run_consensus tag_lib penta_committee 50 [h1, b1, h2, b2, h3, h4] (consensus_new tag_lib penta_committee True True)
  = Inr (run_state [(0, map penta_entry (map penta_genesis [1, 2, 3, 4, 5])), (1, map penta_entry [h1, b1]), (2, map penta_entry [h2, b2]),
      (3, [penta_entry h3]), (4, [penta_entry h4])] 0 (penta_lc 0 0) [] [])"
  by (simp add: run_consensus_def penta_new penta_quiet) (simp add: insert_certificate_def)

lemma second_start: "run_consensus tag_lib penta_committee 50 [h1, h2, b2, h3, h4] (consensus_new tag_lib penta_committee True True)
  = Inr (run_state [(0, map penta_entry (map penta_genesis [1, 2, 3, 4, 5])), (1, [penta_entry h1]), (2, map penta_entry [h2, b2]),
      (3, [penta_entry h3]), (4, [penta_entry h4])] 0 (penta_lc 0 0) [] [])"
  by (simp add: run_consensus_def penta_new penta_quiet) (simp add: insert_certificate_def)

text \<open>Both commit the leader of round 2 when \<open>h5\<close> comes, and the clean-up takes the early \<open>b1\<close> away.\<close>

lemma penta_small [simp]: "\<not> (2 :: round) \<le> 1"
  by (simp add: word_le_nat_alt)

lemma leader_two:
  assumes bs: "bs = [] \<or> bs = [penta_entry b1]"
  shows "penta_process h5 (run_state [(0, map penta_entry (map penta_genesis [1, 2, 3, 4, 5])), (1, penta_entry h1 # bs), (2, map penta_entry [h2, b2]),
      (3, [penta_entry h3]), (4, [penta_entry h4])] 0 (penta_lc 0 0) [] [])
   = Inr (run_state [(0, map penta_entry (map penta_genesis [1, 4, 5])), (1, [penta_entry h1]), (2, map penta_entry [h2, b2]),
      (3, [penta_entry h3]), (4, [penta_entry h4]), (5, [penta_entry h5])] 2 (penta_lc 1 2) [h1, b2]
      [\<lparr>batch_index = 1, leader_round = 2, leader_digest = Digest 302, certificates = [h1, b2]\<rparr>])"
  by (subst commit_turn [OF _ refl, where l = b2 and dg = "Digest 302" and batch = "[h1, b2]"]; use bs in \<open>(elim disjE; simp add: penta_eval)\<close>; simp?)

abbreviation batch_two :: committed_sub_dag where
  "batch_two \<equiv> \<lparr>batch_index = 1, leader_round = 2, leader_digest = Digest 302, certificates = [h1, b2]\<rparr>"

text \<open>The rest of the deliveries up to \<open>h8\<close> commits nothing, also \<open>h7\<close>, as round 4 has no certificate of its leader.\<close>

abbreviation low_dag :: "dag_round \<Rightarrow> dag" where
  "low_dag bs \<equiv> [(0, map penta_entry (map penta_genesis [1, 4, 5])), (1, penta_entry h1 # bs), (2, map penta_entry [h2, b2, d2]),
      (3, map penta_entry [h3, d3]), (4, map penta_entry [h4, d4]), (5, map penta_entry [h5, d5]), (6, [penta_entry h6])]"

lemma penta_h7: "penta_process h7 (run_state (low_dag bs) 2 lc prim out) = Inr (run_state (low_dag bs @ [(7, [penta_entry h7])]) 2 lc prim out)"
  by (rule quiet_turn) (simp_all add: leader_def insert_certificate_def)

lemma rest_first: "run_consensus tag_lib penta_committee 50 [d2, d3, d4, d5, h6, h7, h8]
    (run_state [(0, map penta_entry (map penta_genesis [1, 4, 5])), (1, [penta_entry h1]), (2, map penta_entry [h2, b2]),
      (3, [penta_entry h3]), (4, [penta_entry h4]), (5, [penta_entry h5])] 2 (penta_lc 1 2) prim out)
   = Inr (run_state (low_dag [] @ [(7, [penta_entry h7]), (8, [penta_entry h8])]) 2 (penta_lc 1 2) prim out)"
  using penta_h7 [of "[]" "penta_lc 1 2" prim out]
  by (simp add: run_consensus_def penta_quiet insert_certificate_def [of _ d2] insert_certificate_def [of _ d3] insert_certificate_def [of _ d4]
      insert_certificate_def [of _ d5] insert_certificate_def [of _ h6]) (simp add: insert_certificate_def)

lemma rest_second: "run_consensus tag_lib penta_committee 50 [b1, d2, d3, d4, d5, h6, h7, h8]
    (run_state [(0, map penta_entry (map penta_genesis [1, 4, 5])), (1, [penta_entry h1]), (2, map penta_entry [h2, b2]),
      (3, [penta_entry h3]), (4, [penta_entry h4]), (5, [penta_entry h5])] 2 (penta_lc 1 2) prim out)
   = Inr (run_state (low_dag [penta_entry b1] @ [(7, [penta_entry h7]), (8, [penta_entry h8])]) 2 (penta_lc 1 2) prim out)"
  using penta_h7 [of "[penta_entry b1]" "penta_lc 1 2" prim out]
  by (simp add: run_consensus_def penta_quiet insert_certificate_def [of _ d2] insert_certificate_def [of _ d3] insert_certificate_def [of _ d4]
      insert_certificate_def [of _ d5] insert_certificate_def [of _ h6] insert_certificate_def [of _ b1]) (simp add: insert_certificate_def)

text \<open>The leader of round 6 takes what is there: with \<open>b1\<close> in the second run, without it in the first.\<close>

lemma leader_six:
  assumes bs: "bs = [] \<and> early = [] \<or> bs = [penta_entry b1] \<and> early = [b1]"
  shows "\<exists>st. penta_process h9 (run_state (low_dag bs @ [(7, [penta_entry h7]), (8, [penta_entry h8])]) 2 (penta_lc 1 2) prim [batch_two])
   = Inr st \<and> to_output st = [batch_two, \<lparr>batch_index = 2, leader_round = 6, leader_digest = Digest 206,
       certificates = early @ [d2, h2, d3, h3, d4, h4, d5, h5, h6]\<rparr>]"
proof -
  let ?b = "early @ [d2, h2, d3, h3, d4, h4, d5, h5, h6]"
  let ?d = "low_dag bs @ [(7, [penta_entry h7]), (8, [penta_entry h8]), (9, [penta_entry h9])]"
  let ?st = "\<lparr>last_committed_round = 2, last_committed = penta_lc 1 2, dag = ?d\<rparr>"
  have order: "order_dag 50 h6 ?st = ?b" using bs by (elim disjE; simp add: penta_eval)
  have "insert_certificate tag_lib h9 (low_dag bs @ [(7, [penta_entry h7]), (8, [penta_entry h8])]) = ?d" by (simp add: insert_certificate_def)
  note turn = commit_turn [OF _ this _ _ _ _ _ _ _ order, of penta_committee "Digest 206" "[penta_entry h7]"
    "last_committed_round (fold (con_update 50) ?b ?st)" "last_committed (fold (con_update 50) ?b ?st)" "dag (fold (con_update 50) ?b ?st)" prim "[batch_two]"]
  have "penta_process h9 (run_state (low_dag bs @ [(7, [penta_entry h7]), (8, [penta_entry h8])]) 2 (penta_lc 1 2) prim [batch_two])
    = Inr (run_state (dag (fold (con_update 50) ?b ?st)) (last_committed_round (fold (con_update 50) ?b ?st)) (last_committed (fold (con_update 50) ?b ?st))
        (prim @ ?b) ([batch_two] @ [\<lparr>batch_index = of_nat (length [batch_two]) + 1, leader_round = cert_round h6, leader_digest = cert_digest tag_lib h6, certificates = ?b\<rparr>]))"
    by (rule turn) (simp_all add: leader_def support_def order_leaders_def order_leaders_step_def u64_range_def del: fold.simps)
  then show ?thesis by (simp add: run_state_def del: fold.simps)
qed

lemma first_run: "\<exists>st. run_consensus tag_lib penta_committee 50 first_order (consensus_new tag_lib penta_committee True True) = Inr st
  \<and> to_output st = [batch_two, \<lparr>batch_index = 2, leader_round = 6, leader_digest = Digest 206, certificates = [d2, h2, d3, h3, d4, h4, d5, h5, h6]\<rparr>]"
proof -
  have order: "first_order = [h1, b1, h2, b2, h3, h4] @ [h5] @ [d2, d3, d4, d5, h6, h7, h8] @ [h9]" by (simp add: first_order_def)
  note two = leader_two [of "[penta_entry b1]", simplified]
  show ?thesis unfolding order run_consensus_append first_start bindR_simps run_consensus_one
    using leader_six [of "[]" "[]" "[h1, b2]"] rest_first two by simp
qed

lemma second_run: "\<exists>st. run_consensus tag_lib penta_committee 50 second_order (consensus_new tag_lib penta_committee True True) = Inr st
  \<and> to_output st = [batch_two, \<lparr>batch_index = 2, leader_round = 6, leader_digest = Digest 206, certificates = [b1, d2, h2, d3, h3, d4, h4, d5, h5, h6]\<rparr>]"
proof -
  have order: "second_order = [h1, h2, b2, h3, h4] @ [h5] @ [b1, d2, d3, d4, d5, h6, h7, h8] @ [h9]" by (simp add: second_order_def)
  show ?thesis unfolding order run_consensus_append second_start bindR_simps run_consensus_one
    using leader_six [of "[penta_entry b1]" "[b1]" "[h1, b2]"] rest_second leader_two [of "[]"] by simp
qed

section \<open>The deliveries are sound\<close>

lemma penta_parents_in:
  assumes "\<exists>z \<in> D. cert_origin z = PublicKey 2 \<and> cert_digest tag_lib z \<in> set (h_parents (c_header x)) \<and> cert_round z = cert_round x - 1"
  shows "parents_in tag_lib penta_committee D x"
  unfolding parents_in_def
  by (rule exI [of _ "{PublicKey 2}"]) (use assms in \<open>auto simp: stake_nat_def\<close>)

lemma penta_causal:
  "causal tag_lib penta_committee 50 (set (genesis penta_committee)) first_order"
  "causal tag_lib penta_committee 50 (set (genesis penta_committee)) second_order"
  by (simp_all add: first_order_def second_order_def slot_def) (intro conjI; rule penta_parents_in; simp)+

lemma penta_whole:
  "whole_history_first tag_lib (set (genesis penta_committee)) first_order"
  "whole_history_first tag_lib (set (genesis penta_committee)) second_order"
  by (simp_all add: first_order_def second_order_def whole_parents_def)

lemma penta_inj:
  "inj_on (cert_digest tag_lib) (set (genesis penta_committee) \<union> set first_order \<union> set second_order)"
  "inj_on slot (set (genesis penta_committee) \<union> set first_order \<union> set second_order)"
  by (simp_all add: first_order_def second_order_def inj_on_def slot_def)

section \<open>What comes of it\<close>

text \<open>C5. A late certificate splits the validators: two nodes take the same certificates of the same system, each after all its
  parents, and commit the same leaders, but \<open>b1\<close> comes to the second one after a later certificate of its author has been
  committed there. The second one inserts it and commits it with the next leader; the first one has cleaned it up and never does.\<close>

theorem late_certificate_splits:
  "sane_stake penta_committee \<and> set first_order = set second_order
    \<and> causal tag_lib penta_committee 50 (set (genesis penta_committee)) first_order
    \<and> causal tag_lib penta_committee 50 (set (genesis penta_committee)) second_order
    \<and> whole_history_first tag_lib (set (genesis penta_committee)) first_order
    \<and> whole_history_first tag_lib (set (genesis penta_committee)) second_order
    \<and> (\<exists>s t. run_consensus tag_lib penta_committee 50 first_order (consensus_new tag_lib penta_committee True True) = Inr s
        \<and> run_consensus tag_lib penta_committee 50 second_order (consensus_new tag_lib penta_committee True True) = Inr t
        \<and> map certificates (to_output s) = [[h1, b2], [d2, h2, d3, h3, d4, h4, d5, h5, h6]]
        \<and> map certificates (to_output t) = [[h1, b2], [b1, d2, h2, d3, h3, d4, h4, d5, h5, h6]]
        \<and> leader_marks s = leader_marks t)"
proof -
  have "set first_order = set second_order" by (auto simp: first_order_def second_order_def)
  moreover obtain s where "run_consensus tag_lib penta_committee 50 first_order (consensus_new tag_lib penta_committee True True) = Inr s"
    "to_output s = [batch_two, \<lparr>batch_index = 2, leader_round = 6, leader_digest = Digest 206, certificates = [d2, h2, d3, h3, d4, h4, d5, h5, h6]\<rparr>]"
    using first_run by blast
  moreover obtain t where "run_consensus tag_lib penta_committee 50 second_order (consensus_new tag_lib penta_committee True True) = Inr t"
    "to_output t = [batch_two, \<lparr>batch_index = 2, leader_round = 6, leader_digest = Digest 206, certificates = [b1, d2, h2, d3, h3, d4, h4, d5, h5, h6]\<rparr>]"
    using second_run by blast
  ultimately show ?thesis using penta_sane penta_causal penta_whole by simp
qed

lemma leaders_agree_witness:
  "\<exists>s t. run_consensus tag_lib penta_committee 50 first_order (consensus_new tag_lib penta_committee True True) = Inr s
    \<and> run_consensus tag_lib penta_committee 50 second_order (consensus_new tag_lib penta_committee True True) = Inr t
    \<and> length (to_output s) = 2 \<and> (prefix (leader_marks s) (leader_marks t) \<or> prefix (leader_marks t) (leader_marks s))"
proof -
  obtain s where s: "run_consensus tag_lib penta_committee 50 first_order (consensus_new tag_lib penta_committee True True) = Inr s" "length (to_output s) = 2"
    using first_run by auto
  obtain t where t: "run_consensus tag_lib penta_committee 50 second_order (consensus_new tag_lib penta_committee True True) = Inr t"
    using second_run by blast
  from leaders_agree [OF penta_sane penta_causal penta_whole penta_inj s(1) t] s t show ?thesis by blast
qed

end
