(* ===== verification/Replicas.thy ===== *)
theory Replicas
  imports Agreement
begin

text \<open>
  The order of two validators. The batch of a leader depends on what the clean-up has left in the DAG. When no
  certificate arrives below what has been committed of its author, nor below \<open>gc_depth\<close>, the DAG is exactly the window
  of the deliveries that is still open (\<open>exact_dag\<close>), and two nodes that commit the same leaders commit the same batches.
\<close>

section \<open>The window\<close>

definition in_window :: "round \<Rightarrow> con_state \<Rightarrow> certificate \<Rightarrow> bool" where
  "in_window g st x \<longleftrightarrow> (case map_of (last_committed st) (cert_origin x) of None \<Rightarrow> True | Some r \<Rightarrow> r \<le> cert_round x)
     \<and> last_committed_round st \<le> cert_round x + g"

definition exact_dag :: "round \<Rightarrow> certificate set \<Rightarrow> con_state \<Rightarrow> bool" where
  "exact_dag g D st \<longleftrightarrow> distinct (map fst (last_committed st)) \<and> (\<forall>z \<in> D. z \<in> dag_entries (dag st) \<longleftrightarrow> in_window g st z)"

text \<open>No certificate of the deliveries comes late.\<close>

fun in_time :: "crypto_lib \<Rightarrow> committee \<Rightarrow> round \<Rightarrow> certificate list \<Rightarrow> consensus \<Rightarrow> bool" where
  "in_time L c g [] s \<longleftrightarrow> True"
| "in_time L c g (x # xs) s \<longleftrightarrow> in_window g (cstate s) x
     \<and> (case process_certificate L c g x s of Inl e \<Rightarrow> True | Inr s' \<Rightarrow> in_time L c g xs s')"

lemma retain_dag_iff:
  assumes d: "dag_wf L d"
  shows "z \<in> dag_entries (retain_dag g lcr (name, rnd) d)
    \<longleftrightarrow> z \<in> dag_entries d \<and> (cert_origin z = name \<longrightarrow> rnd \<le> cert_round z) \<and> lcr \<le> cert_round z + g"
proof
  assume z: "z \<in> dag_entries (retain_dag g lcr (name, rnd) d)"
  obtain r x n dg where x: "(r, x) \<in> set (retain_dag g lcr (name, rnd) d)" "(n, dg, z) \<in> set x" using z by (auto simp: dag_entries_iff)
  have "r = cert_round z" using x retain_dag_ok(1) [OF d, of g lcr name rnd] by (fastforce simp: dag_wf_def round_wf_def)
  moreover have "lcr \<le> r + g" using x(1) by (auto simp: retain_dag_def)
  ultimately show "z \<in> dag_entries d \<and> (cert_origin z = name \<longrightarrow> rnd \<le> cert_round z) \<and> lcr \<le> cert_round z + g"
    using z retain_dag_ok(2) [OF d, of g lcr name rnd] by auto
next
  assume z: "z \<in> dag_entries d \<and> (cert_origin z = name \<longrightarrow> rnd \<le> cert_round z) \<and> lcr \<le> cert_round z + g"
  obtain r w n dg where w: "(r, w) \<in> set d" "(n, dg, z) \<in> set w" using z by (auto simp: dag_entries_iff)
  have r: "r = cert_round z" "n = cert_origin z" using w d by (fastforce simp: dag_wf_def round_wf_def)+
  let ?w = "filter (\<lambda>(n, _). n \<noteq> name \<or> rnd \<le> r) w"
  have m: "(n, dg, z) \<in> set ?w" using w(2) z r by auto
  then have "?w \<noteq> []" by (metis empty_iff list.set(1))
  moreover have "(r, ?w) \<in> set (map (\<lambda>(r, authorities). (r, filter (\<lambda>(n, _). n \<noteq> name \<or> rnd \<le> r) authorities)) d)"
    using w(1) by force
  ultimately have "(r, ?w) \<in> set (retain_dag g lcr (name, rnd) d)" using z r(1) by (simp add: retain_dag_def)
  with m show "z \<in> dag_entries (retain_dag g lcr (name, rnd) d)" unfolding dag_entries_iff by blast
qed

lemma retain_all_iff:
  "dag_wf L d \<Longrightarrow> z \<in> dag_entries (fold (retain_dag g lcr) lc d)
    \<longleftrightarrow> z \<in> dag_entries d \<and> (\<forall>r. (cert_origin z, r) \<in> set lc \<longrightarrow> r \<le> cert_round z) \<and> (lc \<noteq> [] \<longrightarrow> lcr \<le> cert_round z + g)"
proof (induction lc arbitrary: d)
  case (Cons e lc)
  obtain name rnd where e: "e = (name, rnd)" by fastforce
  show ?case
    using Cons.IH [OF retain_dag_ok(1) [OF Cons.prems, of g lcr name rnd]] retain_dag_iff [OF Cons.prems, of z g lcr name rnd] by (auto simp: e)
qed simp

lemma con_update_mono:
  assumes "last_committed_round st = fold max (map snd (last_committed st)) 0"
  shows "last_committed_round st \<le> last_committed_round (con_update g x st)"
  unfolding assms
proof (rule fold_max_0(2))
  let ?st = "con_update g x st"
  let ?new = "case map_of (last_committed st) (cert_origin x) of Some r \<Rightarrow> max r (cert_round x) | None \<Rightarrow> cert_round x"
  have lc: "last_committed ?st = AList.update (cert_origin x) ?new (last_committed st)"
    and lcr: "last_committed_round ?st = fold max (map snd (last_committed ?st)) 0" by (simp_all add: con_update_def Let_def)
  fix r assume "r \<in> set (map snd (last_committed st))"
  then obtain r' where r': "r' \<in> snd ` set (last_committed ?st)" "r \<le> r'"
    using snd_update_le [of "last_committed st" "cert_origin x" ?new r] unfolding lc by force
  have "r' \<le> last_committed_round ?st" unfolding lcr by (rule fold_max_0(1)) (use r'(1) in simp)
  with r'(2) show "r \<le> last_committed_round ?st" by simp
qed simp

lemma con_update_exact:
  assumes hold: "hold_inv L c g D st" and ex: "exact_dag g D st"
  shows "exact_dag g D (con_update g x st)"
proof -
  let ?st = "con_update g x st"
  let ?new = "case map_of (last_committed st) (cert_origin x) of Some r \<Rightarrow> max r (cert_round x) | None \<Rightarrow> cert_round x"
  have lc: "last_committed ?st = AList.update (cert_origin x) ?new (last_committed st)"
    and dag: "dag ?st = fold (retain_dag g (last_committed_round ?st)) (last_committed ?st) (dag st)" by (simp_all add: con_update_def Let_def)
  have wf: "dag_wf L (dag st)" and lcr: "last_committed_round st = fold max (map snd (last_committed st)) 0"
    using hold by (auto simp: hold_inv_def)
  have d: "distinct (map fst (last_committed ?st))" using ex unfolding lc exact_dag_def by (simp add: distinct_update)
  have look: "map_of (last_committed ?st) n = (if n = cert_origin x then Some ?new else map_of (last_committed st) n)" for n
    unfolding lc by (simp add: AList.update_conv')
  have "last_committed ?st \<noteq> []" using look [of "cert_origin x"] by auto
  moreover have "(\<forall>r. (cert_origin z, r) \<in> set (last_committed ?st) \<longrightarrow> r \<le> cert_round z)
      \<longleftrightarrow> (case map_of (last_committed ?st) (cert_origin z) of None \<Rightarrow> True | Some r \<Rightarrow> r \<le> cert_round z)" for z
    unfolding map_of_eq_Some_iff [OF d, symmetric] by (auto split: option.split)
  ultimately have entries: "z \<in> dag_entries (dag ?st) \<longleftrightarrow> z \<in> dag_entries (dag st) \<and> in_window g ?st z" for z
    unfolding dag retain_all_iff [OF wf] in_window_def by blast
  have "in_window g st z" if w: "in_window g ?st z" for z
  proof -
    have "last_committed_round st \<le> cert_round z + g"
      using con_update_mono [OF lcr, of g x] w unfolding in_window_def by (meson order_trans)
    moreover have "r \<le> cert_round z" if "map_of (last_committed st) (cert_origin z) = Some r" for r
      using w that by (auto simp: in_window_def look split: if_splits)
    ultimately show ?thesis by (auto simp: in_window_def split: option.split)
  qed
  with d entries ex show ?thesis by (auto simp: exact_dag_def)
qed

lemma con_updates_exact:
  "hold_inv L c g D st \<Longrightarrow> exact_dag g D st \<Longrightarrow> exact_dag g D (fold (con_update g) batch st)"
  by (induction batch arbitrary: st) (auto intro: con_update_holds con_update_exact)

lemma exact_insert:
  assumes ex: "exact_dag g D st" and wf: "dag_wf L (dag st)" and ent: "dag_entries (dag st) \<subseteq> D"
    and x: "slot x \<notin> slot ` D" "in_window g st x"
  shows "exact_dag g (insert x D) (st\<lparr>dag := insert_certificate L x (dag st)\<rparr>)"
proof -
  let ?d = "insert_certificate L x (dag st)"
  have same: "in_window g (st\<lparr>dag := ?d\<rparr>) z = in_window g st z" for z by (simp add: in_window_def)
  have "z \<in> dag_entries ?d \<longleftrightarrow> in_window g st z" if z: "z \<in> D" for z
  proof -
    have "slot z \<noteq> slot x" using x(1) z by (metis image_eqI)
    moreover from this have "z \<noteq> x" by auto
    ultimately show ?thesis using insert_keeps [OF wf, of z x] insert_certificate_ok(2) [OF wf, of x] ex z by (auto simp: exact_dag_def)
  qed
  with ex x(2) insert_there [of x L "dag st"] same show ?thesis by (auto simp: exact_dag_def)
qed

section \<open>The batch of a leader\<close>

text \<open>Two nodes with the same record of what was committed visit the same parents.\<close>

lemma visit_same:
  assumes v: "node_view L c g U D st" "node_view L c g U E tt" and ex: "exact_dag g D st" "exact_dag g E tt"
    and same: "last_committed st = last_committed tt" "last_committed_round st = last_committed_round tt"
    and x: "x \<in> D" "x \<in> E" "p \<in> set (h_parents (c_header x))" and B: "set B \<subseteq> D \<inter> E"
  shows "visit_parent st x p (B, V) = visit_parent tt x p (B, V) \<and> set (fst (visit_parent st x p (B, V))) \<subseteq> D \<inter> E"
proof -
  have U: "universe L c U" "D \<subseteq> U" "E \<subseteq> U" "closed_dag L D" "closed_dag L E" using v by (auto simp: node_view_def)
  have nz: "cert_round x \<noteq> 0" using x U(1,2) by (auto simp: universe_def split: if_splits)
  obtain y where y: "y \<in> D" "cert_digest L y = p" "cert_round y = cert_round x - 1"
    using U(4) x nz by (auto simp: closed_dag_def whole_parents_def)
  obtain z where z: "z \<in> E" "cert_digest L z = p" "cert_round z = cert_round x - 1"
    using U(5) x nz by (auto simp: closed_dag_def whole_parents_def)
  have inj: "inj_on (cert_digest L) U" using U(1) by (simp add: universe_def)
  have yz: "y = z" using inj y z U(2,3) by (auto dest!: inj_onD)
  have find: "dag_find (dag s) (cert_round x - 1) p = (if in_window g s y then Some (p, y) else None)"
    if "node_view L c g U F s" "exact_dag g F s" "y \<in> F" for s F
  proof (cases "dag_find (dag s) (cert_round x - 1) p")
    case None
    have wf: "dag_wf L (dag s)" using that(1) by (simp add: node_view_def hold_inv_def)
    have "y \<notin> dag_entries (dag s)"
    proof
      assume "y \<in> dag_entries (dag s)"
      from entry_lookup [OF wf this] obtain w where w: "map_of (dag s) (cert_round x - 1) = Some w" "(cert_origin y, p, y) \<in> set w"
        using y by auto
      then have "(p, y) \<in> set (map snd w)" by force
      with None w(1) show False by (auto simp: dag_find_def find_None_iff)
    qed
    with None that show ?thesis by (auto simp: exact_dag_def)
  next
    case (Some e)
    obtain dg u where e: "e = (dg, u)" by fastforce
    have wf: "dag_wf L (dag s)" and sub: "dag_entries (dag s) \<subseteq> F" "F \<subseteq> U" using that(1) by (auto simp: node_view_def hold_inv_def)
    note f = dag_find_Some [OF Some [unfolded e]]
    obtain w n where w: "map_of (dag s) (cert_round x - 1) = Some w" "(n, dg, u) \<in> set w" using f(2) by blast
    note u = dag_wf_D [OF wf w]
    have "u = y" using inj u(2,4) f(1) y sub that(3) by (auto dest!: inj_onD)
    with u(4) that Some e f(1) show ?thesis by (auto simp: exact_dag_def)
  qed
  have "in_window g st y = in_window g tt y" by (simp add: in_window_def same)
  then show ?thesis using find [OF v(1) ex(1) y(1)] find [OF v(2) ex(2)] z(1) y(1) yz B by (auto simp: visit_parent_def same)
qed

lemma visit_all_same:
  assumes v: "node_view L c g U D st" "node_view L c g U E tt" and ex: "exact_dag g D st" "exact_dag g E tt"
    and same: "last_committed st = last_committed tt" "last_committed_round st = last_committed_round tt"
    and x: "x \<in> D" "x \<in> E"
  shows "set ps \<subseteq> set (h_parents (c_header x)) \<Longrightarrow> set B \<subseteq> D \<inter> E \<Longrightarrow>
    fold (visit_parent st x) ps (B, V) = fold (visit_parent tt x) ps (B, V) \<and> set (fst (fold (visit_parent st x) ps (B, V))) \<subseteq> D \<inter> E"
proof (induction ps arbitrary: B V)
  case (Cons p ps)
  obtain B' V' where s: "visit_parent st x p (B, V) = (B', V')" by fastforce
  from visit_same [OF v ex same x _ Cons.prems(2), of p V] Cons.prems(1) s
  have "visit_parent tt x p (B, V) = (B', V')" "set B' \<subseteq> D \<inter> E" by auto
  with s Cons.IH [of B' V'] Cons.prems(1) show ?case by (metis (no_types, lifting) fold_simps(2) insert_subset list.set(2))
qed simp

lemma order_dag_loop_same:
  assumes v: "node_view L c g U D st" "node_view L c g U E tt" and ex: "exact_dag g D st" "exact_dag g E tt"
    and same: "last_committed st = last_committed tt" "last_committed_round st = last_committed_round tt"
  shows "set B \<subseteq> D \<inter> E \<Longrightarrow> order_dag_loop st B V ks = order_dag_loop tt B V ks"
  using v(1) ex(1) same
proof (induction st B V ks rule: order_dag_loop.induct)
  case (2 st x B V ks)
  obtain B' V' where s: "fold (visit_parent st x) (h_parents (c_header x)) (B, V) = (B', V')" by fastforce
  from visit_all_same [OF "2.prems"(2) v(2) "2.prems"(3) ex(2) "2.prems"(4,5), of x "h_parents (c_header x)" B V] "2.prems"(1) s
  have "fold (visit_parent tt x) (h_parents (c_header x)) (B, V) = (B', V')" "set B' \<subseteq> D \<inter> E" by auto
  with "2.IH" [OF s [symmetric] refl] "2.prems"(2-) s show ?case by simp
qed simp

lemma order_dag_same:
  assumes "node_view L c g U D st" "node_view L c g U E tt" "exact_dag g D st" "exact_dag g E tt"
    and "last_committed st = last_committed tt" "last_committed_round st = last_committed_round tt" "l \<in> D" "l \<in> E"
  shows "order_dag g l st = order_dag g l tt"
  using order_dag_loop_same [OF assms(1-6), of "[l]" "{}" "[]"] assms(6-8) by (simp add: order_dag_def)

lemma updates_same:
  "last_committed st = last_committed tt \<Longrightarrow> last_committed_round st = last_committed_round tt \<Longrightarrow>
    last_committed (fold (con_update g) xs st) = last_committed (fold (con_update g) xs tt)
    \<and> last_committed_round (fold (con_update g) xs st) = last_committed_round (fold (con_update g) xs tt)"
proof (induction xs arbitrary: st tt)
  case (Cons x xs)
  then show ?case by (simp add: con_update_def Let_def)
qed simp

section \<open>What the leaders determine\<close>

text \<open>The specification: a list of leaders, the rounds committed of each author after them, and their batches. Each batch
  is what any node with that record and any deliveries of the system would flatten.\<close>

inductive replay :: "crypto_lib \<Rightarrow> committee \<Rightarrow> round \<Rightarrow> certificate set \<Rightarrow> certificate list \<Rightarrow> (public_key \<times> round) list \<Rightarrow> round
    \<Rightarrow> certificate list list \<Rightarrow> bool" for L c g U where
  start: "replay L c g U [] (last_committed (con_state_new L (genesis c))) 0 []"
| commit: "replay L c g U ks (last_committed st) (last_committed_round st) bs \<Longrightarrow> node_view L c g U D st \<Longrightarrow> exact_dag g D st \<Longrightarrow> l \<in> D \<Longrightarrow>
    st' = fold (con_update g) (order_dag g l st) st \<Longrightarrow>
    replay L c g U (ks @ [l]) (last_committed st') (last_committed_round st') (bs @ [order_dag g l st])"

inductive_cases replayE: "replay L c g U (ks @ [l]) lc lcr bs" "replay L c g U [] lc lcr bs"

lemma replay_unique:
  "replay L c g U ks lc lcr bs \<Longrightarrow> replay L c g U ks lc' lcr' bs' \<Longrightarrow> lc = lc' \<and> lcr = lcr' \<and> bs = bs'"
proof (induction arbitrary: lc' lcr' bs' rule: replay.induct)
  case start
  then show ?case by (auto elim: replayE)
next
  case (commit ks st bs D l st')
  from commit.prems obtain tt cs E where tt: "replay L c g U ks (last_committed tt) (last_committed_round tt) cs"
    "node_view L c g U E tt" "exact_dag g E tt" "l \<in> E" "lc' = last_committed (fold (con_update g) (order_dag g l tt) tt)"
    "lcr' = last_committed_round (fold (con_update g) (order_dag g l tt) tt)" "bs' = cs @ [order_dag g l tt]"
    by (auto elim: replayE)
  note same = commit.IH [OF tt(1)]
  then have "order_dag g l st = order_dag g l tt"
    by (intro order_dag_same [OF commit.hyps(2) tt(2) commit.hyps(3) tt(3) _ _ commit.hyps(4) tt(4)]) auto
  with same updates_same [of st tt g "order_dag g l tt"] tt(5-7) commit.hyps(5) show ?case by simp
qed

lemma replay_prefix: "replay L c g U (ks @ ms) lc lcr bs \<Longrightarrow> \<exists>lc' lcr' bs'. replay L c g U ks lc' lcr' bs' \<and> prefix bs' bs"
proof (induction ms arbitrary: lc lcr bs rule: rev_induct)
  case (snoc m ms)
  have step: "replay L c g U ((ks @ ms) @ [m]) lc lcr bs" using snoc.prems by simp
  have "\<exists>(st :: con_state) cs b. replay L c g U (ks @ ms) (last_committed st) (last_committed_round st) cs \<and> bs = cs @ [b]"
    by (rule replayE(1) [OF step]) blast
  then obtain st :: con_state and cs b where "replay L c g U (ks @ ms) (last_committed st) (last_committed_round st) cs" "bs = cs @ [b]" by blast
  with snoc.IH show ?case by (meson prefix_prefix)
qed auto

section \<open>A node follows the specification\<close>

definition aligned :: "crypto_lib \<Rightarrow> committee \<Rightarrow> round \<Rightarrow> certificate set \<Rightarrow> certificate set \<Rightarrow> certificate list \<Rightarrow> consensus \<Rightarrow> bool" where
  "aligned L c g U D ks s \<longleftrightarrow> exact_dag g D (cstate s)
     \<and> replay L c g U ks (last_committed (cstate s)) (last_committed_round (cstate s)) (map certificates (to_output s))"

lemma commit_leaders_aligned:
  "node_view L c g U D (cstate s) \<Longrightarrow> run_inv L G D s \<Longrightarrow> primary_up s \<Longrightarrow> output_up s \<Longrightarrow> set ls \<subseteq> D \<Longrightarrow>
    sorted_wrt (\<lambda>x y. cert_round x < cert_round y) ls \<Longrightarrow> (\<And>x. x \<in> set ls \<Longrightarrow> last_committed_round (cstate s) < cert_round x) \<Longrightarrow>
    aligned L c g U D ks s \<Longrightarrow> foldR (commit_leader L g) ls s = Inr s' \<Longrightarrow> aligned L c g U D (ks @ ls) s'"
proof (induction ls arbitrary: s ks)
  case (Cons l ls)
  obtain s1 where s1: "commit_leader L g l s = Inr s1" "foldR (commit_leader L g) ls s1 = Inr s'"
    using Cons.prems(9) by (auto simp: bindR_Inr_iff)
  have l: "l \<in> D" "last_committed_round (cstate s) < cert_round l" using Cons.prems(5,7) by auto
  note step = commit_leader_exact [OF Cons.prems(1-4) l s1(1)]
  have hold: "hold_inv L c g D (cstate s)" using Cons.prems(1) by (simp add: node_view_def)
  have ex: "exact_dag g D (cstate s)" and re: "replay L c g U ks (last_committed (cstate s)) (last_committed_round (cstate s)) (map certificates (to_output s))"
    using Cons.prems(8) by (auto simp: aligned_def)
  have "aligned L c g U D (ks @ [l]) s1"
    using con_updates_exact [OF hold ex] replay.commit [OF re Cons.prems(1) ex l(1) refl] step by (simp add: aligned_def)
  moreover have "last_committed_round (cstate s1) < cert_round x" if "x \<in> set ls" for x
    using that Cons.prems(6) step by auto
  moreover have "node_view L c g U D (cstate s1)" "run_inv L G D s1" "primary_up s1" "output_up s1" using step by blast+
  ultimately have "aligned L c g U D ((ks @ [l]) @ ls) s'" using Cons.prems(5,6) s1(2) by (intro Cons.IH) auto
  then show ?case by simp
qed simp

lemma aligned_step:
  assumes led: "led L c g U D ks s" and al: "aligned L c g U D ks s" and w: "in_window g (cstate s) x"
    and x: "x \<in> U" "cert_round x \<noteq> 0" "slot x \<notin> slot ` D" "parents_in L c D x" "whole_parents L D x"
      "unat (cert_round x) + unat g < 2 ^ 64"
    and step: "process_certificate L c g x s = Inr s'"
  shows "\<exists>ms. led L c g U (insert x D) ms s' \<and> aligned L c g U (insert x D) ms s'"
proof -
  let ?s1 = "s\<lparr>cstate := (cstate s)\<lparr>dag := insert_certificate L x (dag (cstate s))\<rparr>\<rparr>" and ?D = "insert x D"
  obtain ls where ls: "led L c g U ?D (ks @ ls) s'" "set ls \<subseteq> ?D" "sorted_wrt (\<lambda>x y. cert_round x < cert_round y) ls"
    "\<forall>l \<in> set ls. last_committed_round (cstate s) < cert_round l" "foldR (commit_leader L g) ls ?s1 = Inr s'"
    using led_step [OF led x step] by blast
  have v: "node_view L c g U D (cstate s)" and up: "primary_up s" "output_up s" and inv: "run_inv L (set (genesis c)) D s"
    using led by (auto simp: led_def)
  then have "dag_wf L (dag (cstate s))" "dag_entries (dag (cstate s)) \<subseteq> D" by (auto simp: node_view_def hold_inv_def)
  then have "aligned L c g U ?D ks ?s1" using exact_insert [OF _ _ _ x(3) w] al by (simp add: aligned_def)
  moreover have "x \<notin> D" using x(3) by blast
  ultimately have "aligned L c g U ?D (ks @ ls) s'"
    using commit_leaders_aligned [of L c g U ?D ?s1 "set (genesis c)" ls ks s'] insert_view [OF v x(1,3-6)] insert_run_inv [OF inv] up ls(2-5)
    by simp
  with ls(1) show ?thesis by blast
qed

lemma run_aligned:
  "led L c g U D ks s \<Longrightarrow> aligned L c g U D ks s \<Longrightarrow> causal L c g D certs \<Longrightarrow> whole_history_first L D certs \<Longrightarrow> set certs \<subseteq> U \<Longrightarrow>
    in_time L c g certs s \<Longrightarrow> run_consensus L c g certs s = Inr s' \<Longrightarrow>
    \<exists>ks'. led L c g U (set certs \<union> D) ks' s' \<and> aligned L c g U (set certs \<union> D) ks' s'"
proof (induction certs arbitrary: D ks s)
  case Nil
  then show ?case by (auto simp: run_consensus_def)
next
  case (Cons x certs)
  obtain s1 where s1: "process_certificate L c g x s = Inr s1" "run_consensus L c g certs s1 = Inr s'"
    using Cons.prems(7) by (auto simp: run_consensus_def bindR_Inr_iff)
  have "in_time L c g certs s1" using Cons.prems(6) s1(1) by simp
  moreover obtain ks1 where "led L c g U (insert x D) ks1 s1" "aligned L c g U (insert x D) ks1 s1"
    using aligned_step [OF Cons.prems(1,2) _ _ _ _ _ _ _ s1(1)] Cons.prems(3-6) by auto
  ultimately show ?case using Cons.IH [OF _ _ _ _ _ _ s1(2), of "insert x D"] Cons.prems(3-5) by simp
qed

section \<open>Two nodes\<close>

text \<open>To a fresh node no certificate is late.\<close>

lemma new_in_window:
  assumes "wf_committee c"
  shows "in_window g (cstate (consensus_new L c True True)) z"
proof -
  let ?st = "cstate (consensus_new L c True True)"
  have "hold_inv L c g (set (genesis c)) ?st" by (rule consensus_new_holds [OF assms])
  then have max: "last_committed_round ?st = fold max (map snd (last_committed ?st)) 0" by (simp add: hold_inv_def)
  have lcr: "last_committed_round ?st = 0" by (simp add: consensus_new_def con_state_new_def Let_def)
  have "r \<le> cert_round z" if r: "map_of (last_committed ?st) n = Some r" for n r
  proof -
    have "r \<le> last_committed_round ?st" unfolding max by (rule fold_max_0(1)) (use map_of_SomeD [OF r] in force)
    with lcr show ?thesis by simp
  qed
  with lcr show ?thesis by (auto simp: in_window_def split: option.split)
qed

lemma aligned_new:
  assumes "wf_committee c"
  shows "aligned L c g U (set (genesis c)) [] (consensus_new L c True True)"
proof -
  let ?st = "cstate (consensus_new L c True True)"
  have hold: "hold_inv L c g (set (genesis c)) ?st" by (rule consensus_new_holds [OF assms])
  have st: "?st = con_state_new L (genesis c)" "to_output (consensus_new L c True True) = []" by (simp_all add: consensus_new_def)
  have lcr: "last_committed_round ?st = 0" by (simp add: st con_state_new_def Let_def)
  note f = fold_update_entries [where m = "[]" and f = cert_origin and g = "\<lambda>x. (cert_digest L x, x)" and xs = "genesis c"]
  have "map fst (last_committed ?st) = map fst (fold (\<lambda>x. AList.update (cert_origin x) (cert_digest L x, x)) (genesis c) [])"
    by (simp add: st con_state_new_def Let_def split_beta comp_def)
  then have d: "distinct (map fst (last_committed ?st))" using f(1) by simp
  have "in_window g ?st z" for z by (rule new_in_window [OF assms])
  moreover have "z \<in> dag_entries (dag ?st)" if "z \<in> set (genesis c)" for z
    using hold that lcr unfolding hold_inv_def by simp
  ultimately show ?thesis using d lcr replay.start [of L c g U] by (simp add: aligned_def exact_dag_def st)
qed

lemma prefix_map_nth:
  assumes "prefix (map f xs) (map f ys)" "i < length xs"
  shows "f (ys ! i) = f (xs ! i)"
proof -
  obtain zs where zs: "map f ys = map f xs @ zs" using assms(1) by (auto simp: prefix_def)
  have "length xs \<le> length ys" using arg_cong [OF zs, of length] by simp
  then show ?thesis using arg_cong [OF zs, of "\<lambda>l. l ! i"] assms(2) by (simp add: nth_append)
qed

lemma output_prefix:
  assumes s: "led L c g U D ks s" "aligned L c g U D ks s" and t: "led L c g U E ms t" "aligned L c g U E ms t" and p: "prefix ks ms"
  shows "prefix (to_output s) (to_output t)"
proof -
  obtain rest where ms: "ms = ks @ rest" using p by (auto simp: prefix_def)
  have rs: "replay L c g U ks (last_committed (cstate s)) (last_committed_round (cstate s)) (map certificates (to_output s))"
    and rt: "replay L c g U (ks @ rest) (last_committed (cstate t)) (last_committed_round (cstate t)) (map certificates (to_output t))"
    using s(2) t(2) ms by (simp_all add: aligned_def)
  from replay_prefix [OF rt] obtain lc lcr bs where "replay L c g U ks lc lcr bs" "prefix bs (map certificates (to_output t))" by blast
  with replay_unique [OF rs] have certs: "prefix (map certificates (to_output s)) (map certificates (to_output t))" by simp
  have marks: "prefix (leader_marks s) (leader_marks t)" using s(1) t(1) ms by (simp add: led_def)
  have idx: "batch_index (to_output u ! i) = of_nat (Suc i)" if u: "led L c g U F ls u" and i: "i < length (to_output u)" for F ls u i
  proof -
    have "map batch_index (to_output u) ! i = map of_nat [1..<Suc (length (to_output u))] ! i"
      using u by (simp add: led_def run_inv_def del: upt_Suc)
    then show ?thesis using i by (simp del: upt_Suc)
  qed
  have len: "length (to_output s) \<le> length (to_output t)" using prefix_length_le [OF certs] by simp
  have "to_output t ! i = to_output s ! i" if i: "i < length (to_output s)" for i
  proof -
    have it: "i < length (to_output t)" using i len by simp
    have "certificates (to_output t ! i) = certificates (to_output s ! i)" by (rule prefix_map_nth [OF certs i])
    moreover have "(leader_round (to_output t ! i), leader_digest (to_output t ! i)) = (leader_round (to_output s ! i), leader_digest (to_output s ! i))"
      using prefix_map_nth [OF marks i] .
    moreover have "batch_index (to_output t ! i) = batch_index (to_output s ! i)"
      using idx [OF s(1) i] idx [OF t(1) it] by simp
    ultimately show ?thesis by (intro committed_sub_dag.equality) auto
  qed
  then have "take (length (to_output s)) (to_output t) = to_output s" using len by (intro nth_equalityI) auto
  then show ?thesis by (metis take_is_prefix)
qed

lemma outputs_prefix:
  assumes "sane_stake c" "causal L c g (set (genesis c)) as" "causal L c g (set (genesis c)) bs"
    and "whole_history_first L (set (genesis c)) as" "whole_history_first L (set (genesis c)) bs"
    and "inj_on (cert_digest L) (set (genesis c) \<union> set as \<union> set bs)" "inj_on slot (set (genesis c) \<union> set as \<union> set bs)"
    and "in_time L c g as (consensus_new L c True True)" "in_time L c g bs (consensus_new L c True True)"
    and "run_consensus L c g as (consensus_new L c True True) = Inr s"
    and "run_consensus L c g bs (consensus_new L c True True) = Inr t"
  shows "prefix (to_output s) (to_output t) \<or> prefix (to_output t) (to_output s)"
proof -
  let ?U = "set (genesis c) \<union> set as \<union> set bs" and ?new = "consensus_new L c True True"
  note led = led_new [OF two_universe [OF assms(2,3,6,7)] assms(1)]
  have al: "aligned L c g ?U (set (genesis c)) [] ?new" by (rule aligned_new) (use assms(1) in \<open>simp add: sane_stake_def\<close>)
  obtain ks where ks: "led L c g ?U (set as \<union> set (genesis c)) ks s" "aligned L c g ?U (set as \<union> set (genesis c)) ks s"
    using run_aligned [OF led al assms(2,4) _ assms(8,10)] by auto
  obtain ms where ms: "led L c g ?U (set bs \<union> set (genesis c)) ms t" "aligned L c g ?U (set bs \<union> set (genesis c)) ms t"
    using run_aligned [OF led al assms(3,5) _ assms(9,11)] by auto
  from led_agree [OF ks(1) ms(1)] show ?thesis using output_prefix [OF ks ms] output_prefix [OF ms ks] by blast
qed

text \<open>C4. The order is agreed on when nothing comes late: two nodes whose deliveries come from one set of certificates, in
  which no author has two in a round, reach each node after all their parents, and never below what the node has
  committed of the author or below \<open>gc_depth\<close>, hand the same batches to their executors, in the same order; one may only be ahead.\<close>

theorem order_agrees:
  assumes "sane_stake c" "causal L c g (set (genesis c)) as" "causal L c g (set (genesis c)) bs"
    and "whole_history_first L (set (genesis c)) as" "whole_history_first L (set (genesis c)) bs"
    and "inj_on (cert_digest L) (set (genesis c) \<union> set as \<union> set bs)" "inj_on slot (set (genesis c) \<union> set as \<union> set bs)"
    and "in_time L c g as (consensus_new L c True True)" "in_time L c g bs (consensus_new L c True True)"
    and "run_consensus L c g as (consensus_new L c True True) = Inr s"
    and "run_consensus L c g bs (consensus_new L c True True) = Inr t"
  shows "prefix (to_output s) (to_output t) \<or> prefix (to_output t) (to_output s)"
  by (rule outputs_prefix [OF assms])

lemma solo_whole: "whole_history_first sample_lib (set (genesis solo_committee)) (map solo_cert [1, 2, 3, 4, 5])"
  by (simp add: whole_parents_def sample_lib_cert_digest header_default_def digest_default_def cert_round_def [of "\<lparr>c_header = _, c_votes = _\<rparr>"])

lemma solo_in_time:
  "in_time sample_lib solo_committee 50 (map solo_cert [1, 2, 3, 4, 5]) solo_new"
  "in_time sample_lib solo_committee 50 (map solo_cert [1, 2, 3, 4]) solo_new"
  by (simp_all add: in_window_def solo_eval)

lemma order_agrees_witness:
  "\<exists>s t. run_consensus sample_lib solo_committee 50 (map solo_cert [1, 2, 3, 4, 5]) solo_new = Inr s
    \<and> run_consensus sample_lib solo_committee 50 (map solo_cert [1, 2, 3, 4]) solo_new = Inr t
    \<and> to_primary s = [solo_cert 1, solo_cert 2] \<and> (prefix (to_output s) (to_output t) \<or> prefix (to_output t) (to_output s))"
proof -
  have inj: "inj_on (cert_digest sample_lib) (set (genesis solo_committee) \<union> set (map solo_cert [1, 2, 3, 4, 5]) \<union> set (map solo_cert [1, 2, 3, 4]))"
    by (simp add: inj_on_def sample_lib_cert_digest header_default_def digest_default_def)
  have slots: "inj_on slot (set (genesis solo_committee) \<union> set (map solo_cert [1, 2, 3, 4, 5]) \<union> set (map solo_cert [1, 2, 3, 4]))"
    by (simp add: inj_on_def slot_def cert_round_def [of "\<lparr>c_header = _, c_votes = _\<rparr>"] header_default_def)
  have whole: "whole_history_first sample_lib (set (genesis solo_committee)) (map solo_cert [1, 2, 3, 4])"
    using solo_whole by simp
  obtain s where s: "run_consensus sample_lib solo_committee 50 (map solo_cert [1, 2, 3, 4, 5]) solo_new = Inr s" "to_primary s = [solo_cert 1, solo_cert 2]"
    using solo_run by blast
  obtain t where t: "run_consensus sample_lib solo_committee 50 (map solo_cert [1, 2, 3, 4]) solo_new = Inr t"
    using solo_run4 by blast
  from order_agrees [OF solo_sane solo_causal5 solo_causal solo_whole whole inj slots solo_in_time [unfolded solo_new_def] s(1) [unfolded solo_new_def] t [unfolded solo_new_def]]
    s t show ?thesis by blast
qed

end
