(* ===== verification/ReplicaOutputs.thy ===== *)
theory ReplicaOutputs
  imports Replicas NodeMain
begin

text \<open>
  The output of two validators: the executors behind two consensus tasks that agree send the same certificates in the same
  order, and so do two whole validator processes.
\<close>

section \<open>The executor only adds to its output\<close>

lemma send_sorted_grows: "send_sorted ds st = (ok, st') \<Longrightarrow> prefix (tx_output st) (tx_output st')"
proof (induction ds arbitrary: st)
  case (Cons d ds)
  show ?case
  proof (cases "map_of (mrv_store st) d")
    case (Some x)
    obtain b st1 where s: "send_output x st = (b, st1)" by fastforce
    then have "prefix (tx_output st) (tx_output st1)" by (auto simp: send_output_def split: option.splits nat.splits)
    with Some s Cons show ?thesis by (cases b) (auto intro: prefix_order.trans)
  qed (use Cons in simp)
qed simp

lemma try_finalize_grows: "try_finalize_batches h st = Inr (ok, st') \<Longrightarrow> prefix (tx_output st) (tx_output st')"
proof (induction h st rule: try_finalize_batches.induct)
  case (1 h st)
  note step = "1.prems" [unfolded try_finalize_batches.simps [of h st]]
  show ?case
  proof (cases "first_batch (batches st)")
    case None
    with step show ?thesis by simp
  next
    case (Some e)
    obtain i b where e: "first_batch (batches st) = Some (i, b)" using Some by (cases e) auto
    show ?thesis
    proof (cases "b_members b = []")
      case True
      with "1.IH"(1) [OF e refl True] step e show ?thesis by simp
    next
      case False
      show ?thesis
      proof (cases "batch_horizon st (b_members b)")
        case None
        with step e False show ?thesis by simp
      next
        case (Some bh)
        show ?thesis
        proof (cases "frontier_round st < bh")
          case True
          with step e False Some show ?thesis by simp
        next
          case nlt: False
          obtain ds where ds: "sort_batch h st (b_members b) = Inr ds"
            using step e False Some nlt by (cases "sort_batch h st (b_members b)") auto
          obtain sent st1 where sent: "send_sorted ds st = (sent, st1)" by fastforce
          note grows = send_sorted_grows [OF sent]
          show ?thesis
          proof (cases sent)
            case True
            have "try_finalize_batches h (release_batch i (b_members b) st1) = Inr (ok, st')"
              using step e False Some nlt ds sent True by simp
            from "1.IH"(2) [OF e refl False Some nlt ds _ refl this] sent True
            have "prefix (tx_output st1) (tx_output st')" by simp
            with grows show ?thesis by (rule prefix_order.trans)
          next
            case False
            with step e \<open>b_members b \<noteq> []\<close> Some nlt ds sent grows show ?thesis by simp
          qed
        qed
      qed
    qed
  qed
qed

lemma accepted_output: "tx_output (accepted L b st) = tx_output st"
proof -
  have "tx_output (snd (fold (add_certificate L) cs s)) = tx_output (snd s)" for cs s
  proof (induction cs arbitrary: s)
    case (Cons c cs)
    have "tx_output (snd (add_certificate L c s)) = tx_output (snd s)"
      by (simp add: add_certificate_def Let_def note_active_round_def split_beta)
    with Cons show ?case by simp
  qed simp
  from this [of "certificates b" "([], st)"] show ?thesis by (auto simp: accepted_def split: prod.split)
qed

lemma executor_grows: "run_executor L h bs st = Inr (ok, st') \<Longrightarrow> prefix (tx_output st) (tx_output st')"
proof (induction bs arbitrary: st)
  case (Cons b bs)
  obtain go st1 where s: "on_committed_batch L h b st = Inr (go, st1)" "(if go then run_executor L h bs st1 else Inr (False, st1)) = Inr (ok, st')"
    using Cons.prems by (auto simp: bindR_Inr_iff)
  have "prefix (tx_output (accepted L b st)) (tx_output st1)" using s(1) try_finalize_grows unfolding on_committed_batch_eq by blast
  then have "prefix (tx_output st) (tx_output st1)" by (simp add: accepted_output)
  with s(2) Cons.IH [of st1] show ?case by (cases go) (auto intro: prefix_order.trans)
qed simp

section \<open>Two stages\<close>

text \<open>Executors with any iteration orders, that have taken some of the batches of two streams one of which extends the other.\<close>

lemma executors_prefix:
  assumes h: "hash_order_ok h" "hash_order_ok h'" and ok: "stream_ok L (bs @ cs)"
    and e: "run_executor L h bs (spawn None n w) = Inr (True, e)" and f: "run_executor L h' (bs @ cs) (spawn None n w) = Inr (True, f)"
  shows "prefix (tx_output e) (tx_output f)"
proof -
  have "stream_ok L bs" using stream_ok_take [OF ok, of "length bs"] by simp
  then have "run_executor L h bs (spawn None n w) = run_executor L h' bs (spawn None n w)"
    by (intro run_executor_same [OF h, of L "[]"]) (auto simp: spawn_ok stream_ok_def)
  with e have "run_executor L h' bs (spawn None n w) = Inr (True, e)" by simp
  then have "run_executor L h' cs e = Inr (True, f)" using f by (simp add: run_executor_append)
  then show ?thesis by (rule executor_grows)
qed

lemma executors_agree:
  assumes h: "hash_order_ok h" "hash_order_ok h'" and ok: "stream_ok L bs" "stream_ok L cs" and p: "prefix bs cs \<or> prefix cs bs"
    and e: "run_executor L h (take i bs) (spawn None n w) = Inr (True, e)" and f: "run_executor L h' (take j cs) (spawn None n w) = Inr (True, f)"
  shows "prefix (tx_output e) (tx_output f) \<or> prefix (tx_output f) (tx_output e)"
proof -
  have "prefix (take i bs) (take j cs) \<or> prefix (take j cs) (take i bs)"
    using p by (metis prefix_order.trans prefix_same_cases take_is_prefix)
  then show ?thesis
  proof
    assume "prefix (take i bs) (take j cs)"
    then obtain zs where zs: "take j cs = take i bs @ zs" by (auto simp: prefix_def)
    from executors_prefix [OF h _ e f [unfolded zs]] stream_ok_take [OF ok(2), of j] zs show ?thesis by simp
  next
    assume "prefix (take j cs) (take i bs)"
    then obtain zs where zs: "take i bs = take j cs @ zs" by (auto simp: prefix_def)
    from executors_prefix [OF h(2,1) _ f e [unfolded zs]] stream_ok_take [OF ok(1), of i] zs show ?thesis by simp
  qed
qed

section \<open>Two processes\<close>

lemma whole_history_nth:
  "(\<And>i. i < length xs \<Longrightarrow> whole_parents L (D \<union> set (take i xs)) (xs ! i)) \<Longrightarrow> whole_history_first L D xs"
proof (induction xs arbitrary: D)
  case (Cons x xs)
  have "whole_history_first L (insert x D) xs"
  proof (rule Cons.IH)
    fix i assume "i < length xs"
    then show "whole_parents L (insert x D \<union> set (take i xs)) (xs ! i)" using Cons.prems [of "Suc i"] by simp
  qed
  with Cons.prems [of 0] show ?case by simp
qed simp

lemma delivered_parents:
  assumes "delivered_causally N xs" "i < length xs"
  shows "\<forall>d \<in> set (h_parents (c_header (xs ! i))). \<exists>z \<in> set (genesis (committee_of N)) \<union> set (take i xs). cert_digest (lib N) z = d"
proof
  fix d assume "d \<in> set (h_parents (c_header (xs ! i)))"
  then consider "is_genesis N d" | j where "j < i" "cert_digest (lib N) (xs ! j) = d"
    using assms unfolding delivered_causally_def by blast
  then show "\<exists>z \<in> set (genesis (committee_of N)) \<union> set (take i xs). cert_digest (lib N) z = d"
  proof cases
    case 1
    then show ?thesis by (auto simp: is_genesis_def sync_genesis_def)
  next
    case (2 j)
    then have "xs ! j \<in> set (take i xs)" using assms(2) by (auto simp: in_set_conv_nth intro: exI [of _ j])
    with 2 show ?thesis by blast
  qed
qed

lemma vouched_whole:
  assumes v: "vouched L c P (c_header x)" and inj: "inj_on (cert_digest L) P" and sub: "E \<subseteq> P"
    and there: "\<forall>d \<in> set (h_parents (c_header x)). \<exists>z \<in> E. cert_digest L z = d"
  shows "whole_parents L E x"
proof -
  obtain ps where ps: "map (cert_digest L) ps = h_parents (c_header x)" "set ps \<subseteq> P" "\<forall>y \<in> set ps. cert_round y + 1 = cert_round x"
    using v by (auto simp: vouched_def cert_round_def)
  have "\<exists>z \<in> E. cert_digest L z = d \<and> cert_round z = cert_round x - 1" if d: "d \<in> set (h_parents (c_header x))" for d
  proof -
    obtain z where z: "z \<in> E" "cert_digest L z = d" using there d by blast
    obtain y where y: "y \<in> set ps" "cert_digest L y = d" using d unfolding ps(1) [symmetric] by auto
    have "y = z" using inj y z ps(2) sub by (auto dest!: inj_onD)
    moreover have "cert_round y = cert_round x - 1" using ps(3) y(1) by (metis add_diff_cancel)
    ultimately show ?thesis using z by blast
  qed
  then show ?thesis by (simp add: whole_parents_def)
qed

lemma primary_whole:
  assumes "primary_reach N p s" "rocks_ok N" "codec_ok N" "sane_stake (committee_of N)" "0 < total_stake (committee_of N)"
    and "primary_world N P s" "\<forall>x \<in> set (tx_consensus (pn_core s)). cert_round x \<noteq> 0"
  shows "whole_history_first (lib N) (set (genesis (committee_of N))) (tx_consensus (pn_core s))"
proof (rule whole_history_nth)
  let ?xs = "tx_consensus (pn_core s)" and ?G = "set (genesis (committee_of N))"
  fix i assume i: "i < length ?xs"
  have "delivered_causally N ?xs" using world_inv(2) [OF assms(1-4,6)] by (simp add: node_inv_def)
  note there = delivered_parents [OF this i]
  have P: "inj_on (cert_digest (lib N)) P" "?G \<union> set (take i ?xs) \<subseteq> P"
    using assms(6) set_take_subset [of i ?xs] unfolding primary_world_def by auto
  have "?xs ! i \<in> set ?xs" using i by simp
  with delivered_vouched [OF assms(1-6) this] assms(7) have "vouched (lib N) (committee_of N) P (c_header (?xs ! i))" by blast
  from vouched_whole [OF this P there] show "whole_parents (lib N) (?G \<union> set (take i ?xs)) (?xs ! i)" .
qed

lemma whole_history_take: "whole_history_first L D xs \<Longrightarrow> whole_history_first L D (take n xs)"
proof (induction xs arbitrary: D n)
  case (Cons x xs)
  then show ?case by (cases n) auto
qed simp

text \<open>What a validator's consensus has taken.\<close>

abbreviation taken :: "'db validator \<Rightarrow> certificate list" where
  "taken v \<equiv> take (v_certificates v) (new_certificates v)"

definition validator_fair :: "'db node \<Rightarrow> parameters \<Rightarrow> hash_order \<Rightarrow> certificate set \<Rightarrow> 'db validator \<Rightarrow> bool" where
  "validator_fair N p h P v \<longleftrightarrow> validator_reach N p h v \<and> rocks_ok N \<and> codec_ok N \<and> hash_order_ok h \<and> primary_world N P (v_primary v)
     \<and> (\<forall>x \<in> set (new_certificates v). cert_round x \<noteq> 0 \<and> unat (cert_round x) + unat (gc_depth_of N) < 2 ^ 64)
     \<and> distinct (map slot (new_certificates v)) \<and> length (new_certificates v) < 2 ^ 64
     \<and> in_time (lib N) (committee_of N) (gc_depth_of N) (taken v) (consensus_new (lib N) (committee_of N) True True)"

lemma validator_fair_stages:
  assumes fair: "validator_fair N p h P v" and c: "sane_stake (committee_of N)" "0 < total_stake (committee_of N)"
  shows "causal (lib N) (committee_of N) (gc_depth_of N) (set (genesis (committee_of N))) (taken v)"
    "whole_history_first (lib N) (set (genesis (committee_of N))) (taken v)"
    "set (genesis (committee_of N)) \<union> set (taken v) \<subseteq> P" "inj_on (cert_digest (lib N)) P"
    "run_consensus (lib N) (committee_of N) (gc_depth_of N) (taken v) (consensus_new (lib N) (committee_of N) True True) = Inr (v_consensus v)"
    "run_executor (lib N) h (take (v_batches v) (to_output (v_consensus v))) (spawn None (size_of (committee_of N)) (par_gc_depth p)) = Inr (True, v_executor v)"
    "stream_ok (lib N) (to_output (v_consensus v))" "gc_depth_of N = par_gc_depth p"
proof -
  have f: "validator_reach N p h v" "rocks_ok N" "codec_ok N" "primary_world N P (v_primary v)"
    "\<forall>x \<in> set (new_certificates v). cert_round x \<noteq> 0 \<and> unat (cert_round x) + unat (gc_depth_of N) < 2 ^ 64"
    "distinct (map slot (new_certificates v))" "length (new_certificates v) < 2 ^ 64"
    using fair unfolding validator_fair_def by blast+
  note parts = validator_parts [OF f(1,2)]
  show run: "run_consensus (lib N) (committee_of N) (gc_depth_of N) (taken v) (consensus_new (lib N) (committee_of N) True True) = Inr (v_consensus v)"
    and "run_executor (lib N) h (take (v_batches v) (to_output (v_consensus v))) (spawn None (size_of (committee_of N)) (par_gc_depth p)) = Inr (True, v_executor v)"
    using parts by (auto simp: stages_inv_def)
  show causal: "causal (lib N) (committee_of N) (gc_depth_of N) (set (genesis (committee_of N))) (taken v)"
    by (rule causal_take [OF primary_causal [OF conjunct1 [OF parts] f(2,3) c f(4-6)]])
  show "whole_history_first (lib N) (set (genesis (committee_of N))) (taken v)"
    using f(5) by (intro whole_history_take primary_whole [OF conjunct1 [OF parts] f(2,3) c f(4)]) blast
  show sub: "set (genesis (committee_of N)) \<union> set (taken v) \<subseteq> P" and inj: "inj_on (cert_digest (lib N)) P"
    using f(4) set_take_subset [of "v_certificates v" "new_certificates v"] unfolding primary_world_def by blast+
  have inj': "inj_on (cert_digest (lib N)) (set (taken v) \<union> set (genesis (committee_of N)))" using inj_on_subset [OF inj sub] by (simp add: Un_commute)
  have "length (taken v) < 2 ^ 64" using f(7) by simp
  from consensus_output [OF causal inj' this run] show "stream_ok (lib N) (to_output (v_consensus v))" by blast
  show "gc_depth_of N = par_gc_depth p" using f(1) by (simp add: validator_reach_def)
qed

lemma validators_prefix:
  assumes v: "validator_fair N p h P v" and w: "validator_fair M q k P w"
    and same: "lib M = lib N" "committee_of M = committee_of N" "gc_depth_of M = gc_depth_of N"
    and c: "sane_stake (committee_of N)" "0 < total_stake (committee_of N)" and slots: "inj_on slot P"
  shows "prefix (tx_output (v_executor v)) (tx_output (v_executor w)) \<or> prefix (tx_output (v_executor w)) (tx_output (v_executor v))"
proof -
  let ?U = "set (genesis (committee_of N)) \<union> set (taken v) \<union> set (taken w)"
  note sv = validator_fair_stages [OF v c]
  note sw = validator_fair_stages [OF w, unfolded same, OF c]
  have U: "?U \<subseteq> P" using sv(3) sw(3) by blast
  have "in_time (lib N) (committee_of N) (gc_depth_of N) (taken v) (consensus_new (lib N) (committee_of N) True True)"
    "in_time (lib N) (committee_of N) (gc_depth_of N) (taken w) (consensus_new (lib N) (committee_of N) True True)" "hash_order_ok h" "hash_order_ok k"
    using v w unfolding validator_fair_def same by blast+
  note t = this
  have "prefix (to_output (v_consensus v)) (to_output (v_consensus w)) \<or> prefix (to_output (v_consensus w)) (to_output (v_consensus v))"
    by (rule outputs_prefix [OF c(1) sv(1) sw(1) sv(2) sw(2) inj_on_subset [OF sv(4) U] inj_on_subset [OF slots U] t(1,2) sv(5) sw(5)])
  from executors_agree [OF t(3,4) sv(7) sw(7) this sv(6)] sw(6,8) sv(8) show ?thesis by simp
qed

end
