(* ===== verification/ChainRun.thy ===== *)
theory ChainRun
  imports ReplicaOutputs
begin

text \<open>
  A whole validator that runs until it has output: the committee of one, whose primary certifies a header of its own in
  every round, whose consensus commits the first two of five certificates, and whose executor sends them on.
\<close>

section \<open>A node that is a quorum on its own\<close>

definition own_cert :: "'db node \<Rightarrow> header \<Rightarrow> certificate" where
  "own_cert N h = \<lparr>c_header = h, c_votes = [(my_name N, v_sig (vote_new (lib N) (my_secret N) h (my_name N)))]\<rparr>"

lemma own_cert_header [simp]: "c_header (own_cert N h) = h" "cert_round (own_cert N h) = h_round h" "cert_origin (own_cert N h) = h_author h"
  by (simp_all add: own_cert_def cert_round_def cert_origin_def)

lemma deliver_loop_there:
  "\<forall>d \<in> set ds. is_genesis N d \<or> (\<exists>bs. store_read N (digest_to_vec d) st = Inr (Some bs)) \<Longrightarrow>
    deliver_loop N st x ds sy = Inr (Inr True, sy)"
  by (induction ds) (auto simp: genesis_list_ex retA_def)

text \<open>What a turn with an own header does, when the parents are there and the own vote is a quorum.\<close>

definition own_turned :: "'db node \<Rightarrow> header \<Rightarrow> 'db core \<Rightarrow> 'db core \<Rightarrow> bool" where
  "own_turned N h s c \<longleftrightarrow> tx_consensus c = tx_consensus s @ [own_cert N h]
     \<and> tx_proposer c = tx_proposer s @ [([cert_digest (lib N) (own_cert N h)], h_round h)]
     \<and> store_read N (digest_to_vec (cert_digest (lib N) (own_cert N h))) (core_store c) = Inr (Some (ser_certificate N (own_cert N h)))
     \<and> fst ` set (last_voted c) = insert (h_round h) (fst ` set (last_voted s))
     \<and> fst ` set (cert_aggs c) = insert (h_round h) (fst ` set (cert_aggs s)) \<and> proposer_up c \<and> consensus_up c"

lemma own_vote:
  assumes q: "quorum_threshold (committee_of N) \<le> stake_of (committee_of N) (my_name N)"
    and agg: "current_header s = h" "votes_agg s = votes_aggregator_new" "is_processing s h"
    and there: "\<forall>d \<in> set (h_parents h). is_genesis N d \<or> (\<exists>bs. store_read N (digest_to_vec d) (core_store s) = Inr (Some bs))"
    and new: "map_of (cert_aggs s) (h_round h) = None" and up: "proposer_up s" "consensus_up s" and own: "h_author h = my_name N"
  shows "\<exists>c ca. process_vote (Suc (Suc n)) N (vote_new (lib N) (my_secret N) h (my_name N)) s = Inr (Inr (), c)
    \<and> tx_consensus c = tx_consensus s @ [own_cert N h] \<and> tx_proposer c = tx_proposer s @ [([cert_digest (lib N) (own_cert N h)], h_round h)]
    \<and> core_store c = store_write N (digest_to_vec (cert_digest (lib N) (own_cert N h))) (ser_certificate N (own_cert N h)) (core_store s)
    \<and> last_voted c = last_voted s \<and> cert_aggs c = AList.update (h_round h) ca (cert_aggs s) \<and> proposer_up c \<and> consensus_up c"
proof -
  let ?v = "vote_new (lib N) (my_secret N) h (my_name N)" and ?x = "own_cert N h"
  define s1 where "s1 = send_reliably (other_primaries N) (PCertificate ?x) (h_round h)
    (s\<lparr>votes_agg := snd (votes_append ?v (committee_of N) h votes_aggregator_new)\<rparr>)"
  have s1: "core_store s1 = core_store s" "tx_consensus s1 = tx_consensus s" "tx_proposer s1 = tx_proposer s" "proposer_up s1" "consensus_up s1"
    "last_voted s1 = last_voted s" "cert_aggs s1 = cert_aggs s" "processing s1 = processing s"
    using up by (simp_all add: s1_def send_reliably_def)
  have v: "v_author ?v = my_name N" by (simp add: vote_new_def Let_def)
  have vote: "append_vote N ?v s = Inr (Inr (Some ?x), s\<lparr>votes_agg := snd (votes_append ?v (committee_of N) h votes_aggregator_new)\<rparr>)"
    using agg q v by (simp add: append_vote_def votes_append_def votes_aggregator_new_def own_cert_def Let_def)
  obtain ca where cert: "append_certificate N ?x t = Inr (Inr (Some [cert_digest (lib N) ?x]), t\<lparr>cert_aggs := AList.update (h_round h) ca (cert_aggs t)\<rparr>)"
    if "cert_aggs t = cert_aggs s" for t
    using new q own by (simp add: append_certificate_def certificates_append_def certificates_aggregator_new_def Let_def)
  have deliver: "deliver_certificate N (core_store s) ?x sy = Inr (Inr True, sy)" for sy
    using deliver_loop_there [OF there] by (simp add: deliver_certificate_def)
  have "\<exists>c. process_certificate (Suc n) N ?x s1 = Inr (Inr (), c) \<and> tx_consensus c = tx_consensus s @ [?x]
    \<and> tx_proposer c = tx_proposer s @ [([cert_digest (lib N) ?x], h_round h)]
    \<and> core_store c = store_write N (digest_to_vec (cert_digest (lib N) ?x)) (ser_certificate N ?x) (core_store s)
    \<and> last_voted c = last_voted s \<and> cert_aggs c = AList.update (h_round h) ca (cert_aggs s) \<and> proposer_up c \<and> consensus_up c"
    using agg(3) s1 by (simp add: process_certificate.simps(2) act_simps is_processing_def with_sync_def deliver core_write_def cert
        send_proposer_def send_consensus_def)
  then show ?thesis
    by (auto simp: process_vote.simps(2) act_simps vote s1_def [symmetric])
qed

lemma keys_entry_update: "fst ` set (entry_update k d f m) = insert k (fst ` set m)"
  by (simp add: entry_update_def dom_update)

lemma own_turn:
  assumes ok: "rocks_ok N" and own: "h_author h = my_name N"
    and q: "quorum_threshold (committee_of N) \<le> stake_of (committee_of N) (my_name N)"
    and ps: "foldR (read_parent N (core_store s)) (h_parents h) ([], []) = Inr ([], ps)" "ps \<noteq> []"
      "parents_stake (committee_of N) h ps = Inr w" "quorum_threshold (committee_of N) \<le> w"
    and there: "\<forall>d \<in> set (h_parents h). is_genesis N d \<or> (\<exists>bs. store_read N (digest_to_vec d) (core_store s) = Inr (Some bs))"
    and new: "h_round h \<notin> fst ` set (last_voted s)" "h_round h \<notin> fst ` set (cert_aggs s)" and up: "proposer_up s" "consensus_up s"
  shows "\<exists>c. core_turn N (FromProposer h, 0) s = Inr c \<and> own_turned N h s c"
proof -
  define s1 where "s1 = send_reliably (other_primaries N) (PHeader h) (h_round h) (s\<lparr>current_header := h, votes_agg := votes_aggregator_new\<rparr>)"
  define s2 where "s2 = s1\<lparr>processing := entry_update (h_round h) {} (insert (h_id h)) (processing s1),
     core_store := store_write N (digest_to_vec (h_id h)) (ser_header N h) (core_store s),
     last_voted := entry_update (h_round h) {} (insert (my_name N)) (last_voted s)\<rparr>"
  have s2: "current_header s2 = h" "votes_agg s2 = votes_aggregator_new" "is_processing s2 h"
    "core_store s2 = store_write N (digest_to_vec (h_id h)) (ser_header N h) (core_store s)"
    "tx_consensus s2 = tx_consensus s" "tx_proposer s2 = tx_proposer s" "proposer_up s2" "consensus_up s2"
    "last_voted s2 = entry_update (h_round h) {} (insert (my_name N)) (last_voted s)" "cert_aggs s2 = cert_aggs s"
    using up by (simp_all add: s2_def s1_def send_reliably_def is_processing_def map_of_entry_update)
  have none: "map_of (last_voted s) (h_round h) = None" "map_of (cert_aggs s) (h_round h) = None" using new by (simp_all add: map_of_eq_None_iff)
  have still: "\<forall>d \<in> set (h_parents h). is_genesis N d \<or> (\<exists>bs. store_read N (digest_to_vec d) (core_store s2) = Inr (Some bs))"
    using there ok by (auto simp: s2(4) st.rd_wr)
  obtain c ca where c: "process_vote 6 N (vote_new (lib N) (my_secret N) h (my_name N)) s2 = Inr (Inr (), c)"
    "tx_consensus c = tx_consensus s2 @ [own_cert N h]" "tx_proposer c = tx_proposer s2 @ [([cert_digest (lib N) (own_cert N h)], h_round h)]"
    "core_store c = store_write N (digest_to_vec (cert_digest (lib N) (own_cert N h))) (ser_certificate N (own_cert N h)) (core_store s2)"
    "last_voted c = last_voted s2" "cert_aggs c = AList.update (h_round h) ca (cert_aggs s2)" "proposer_up c" "consensus_up c"
    using own_vote [OF q s2(1-3) still _ s2(7,8) own, of 4] none(2) s2(10) by auto
  have "process_header 7 N h s1 = Inr (Inr (), c)"
    using ps none own c(1)
    by (simp add: process_header.simps(2) [of 6, unfolded Suc_numeral add_num_simps] act_simps with_sync_def get_parents_def
        missing_payload_def ensure_def core_write_def voted_insert_def vote_new_def Let_def s2_def s1_def send_reliably_def)
  then have "core_turn N (FromProposer h, 0) s = Inr c"
    by (simp add: core_turn_def process_own_header_def act_simps core_depth_def s1_def [symmetric] core_cleanup_def)
  moreover have "own_turned N h s c"
    using c(2-) s2 ok by (simp add: own_turned_def st.rd_wr keys_entry_update dom_update)
  ultimately show ?thesis by blast
qed

section \<open>The committee of one\<close>

text \<open>The hash reads the round, and tells headers (which begin with the key of the author) from certificates (which begin
  with the id of the header).\<close>

definition round_hash :: "u8 list \<Rightarrow> u8" where
  "round_hash bs = (if bs ! 31 = 1 then 2 * bs ! 32 + 2 else 2 * bs ! 32 + 1)"

definition round_lib :: crypto_lib where
  "round_lib = sample_lib\<lparr>sha512 := (\<lambda>bs. be_bytes 32 (ucast (round_hash bs) :: 256 word) @ replicate 32 0)\<rparr>"

lemma round_digest: "hash_digest round_lib bs = Digest (ucast (round_hash bs))"
  by (simp add: hash_digest_def round_lib_def from_be_bytes_be_bytes)

lemma be_bytes_last: "be_bytes 32 (w :: 256 word) ! 31 = ucast w"
  by (simp add: be_bytes_def le_bytes_def rev_nth)

lemma le_bytes_first: "le_bytes 8 (r :: round) ! 0 = ucast r"
  by (simp add: le_bytes_def)

lemma round_hash_bytes:
  "round_hash (be_bytes 32 (w :: 256 word) @ le_bytes 8 (r :: round) @ bs) = (if ucast w = (1 :: u8) then 2 * ucast r + 2 else 2 * ucast r + 1)"
proof -
  have "(be_bytes 32 w @ le_bytes 8 r @ bs) ! 31 = ucast w" by (simp add: nth_append be_bytes_last)
  moreover have "(be_bytes 32 w @ le_bytes 8 r @ bs) ! 32 = ucast r" using le_bytes_first [of r] by (simp add: nth_append)
  ultimately show ?thesis by (simp add: round_hash_def)
qed

definition chain_node :: "(bytes \<rightharpoonup> bytes) node" where
  "chain_node = demo_node\<lparr>lib := round_lib, my_name := PublicKey 1, committee_of := solo_committee\<rparr>"

lemma chain_simps [simp]:
  "lib chain_node = round_lib" "my_name chain_node = PublicKey 1" "committee_of chain_node = solo_committee"
  "my_secret chain_node = []" "gc_depth_of chain_node = 50" "ser_header chain_node = ser_header demo_node"
  "ser_certificate chain_node = ser_certificate demo_node" "de_certificate chain_node = de_certificate demo_node"
  "store_read chain_node = store_read demo_node" "store_write chain_node = store_write demo_node"
  by (simp_all add: chain_node_def) (simp_all add: fun_eq_iff chain_node_def demo_node_def store_read_def store_write_def store_step.simps)

lemma chain_ok: "rocks_ok chain_node" "codec_ok chain_node"
  using demo_ok by (simp_all add: rocks_ok_def codec_ok_def chain_node_def)

text \<open>The digest of the certificate of a round, and the header of a round, whose parent is the certificate before.\<close>

definition chain_digest :: "round \<Rightarrow> digest" where
  "chain_digest r = Digest (ucast (2 * ucast r + 1 :: u8))"

definition chain_header :: "round \<Rightarrow> header" where
  "chain_header r = header_new round_lib [] (PublicKey 1) r [] [chain_digest (r - 1)]"

definition chain_cert :: "round \<Rightarrow> certificate" where
  "chain_cert r = own_cert chain_node (chain_header r)"

lemma chain_header_simps [simp]:
  "h_round (chain_header r) = r" "h_author (chain_header r) = PublicKey 1" "h_payload (chain_header r) = []"
  "h_parents (chain_header r) = [chain_digest (r - 1)]" "h_id (chain_header r) = Digest (ucast (2 * ucast r + 2 :: u8))"
  using round_hash_bytes [of 1 r]
  by (simp_all add: chain_header_def header_new_def header_digest_def header_bytes_def round_digest key_bytes_def Let_def)

lemma even_id: "(2 * x + 2 :: u8) \<noteq> 1"
proof
  assume e: "2 * x + 2 = 1"
  have "even (2 * x + 2)" by simp
  then have "even (1 :: u8)" unfolding e .
  then show False by simp
qed

lemma ucast_back: "ucast (ucast (y :: u8) :: 256 word) = y"
  by (rule bit_word_eqI) (simp add: bit_simps)

lemma chain_cert_simps [simp]:
  "cert_round (chain_cert r) = r" "cert_origin (chain_cert r) = PublicKey 1" "c_header (chain_cert r) = chain_header r"
  "cert_digest round_lib (chain_cert r) = chain_digest r"
proof -
  show "cert_digest round_lib (chain_cert r) = chain_digest r"
    using even_id [of "ucast r"] round_hash_bytes [of "ucast (2 * ucast r + 2 :: u8)" r]
    by (simp add: chain_cert_def cert_digest_def cert_bytes_def round_digest chain_digest_def digest_to_vec_def ucast_back)
qed (simp_all add: chain_cert_def)

lemma chain_cert_inj [simp]: "chain_cert a = chain_cert b \<longleftrightarrow> a = b"
  by (metis chain_cert_simps(1))

lemma chain_genesis [simp]:
  "cert_digest round_lib \<lparr>c_header = header_default\<lparr>h_author := k\<rparr>, c_votes = []\<rparr> = chain_digest 0"
  "sync_genesis chain_node = [(chain_digest 0, \<lparr>c_header = header_default\<lparr>h_author := PublicKey 1\<rparr>, c_votes = []\<rparr>)]"
proof -
  show "cert_digest round_lib \<lparr>c_header = header_default\<lparr>h_author := k\<rparr>, c_votes = []\<rparr> = chain_digest 0" for k
    using round_hash_bytes [of 0 0]
    by (simp add: cert_digest_def cert_bytes_def cert_round_def round_digest chain_digest_def header_default_def digest_default_def digest_to_vec_def)
  then show "sync_genesis chain_node = [(chain_digest 0, \<lparr>c_header = header_default\<lparr>h_author := PublicKey 1\<rparr>, c_votes = []\<rparr>)]"
    by (simp add: sync_genesis_def)
qed

section \<open>The primary\<close>

definition chain_core :: "round \<Rightarrow> (bytes \<rightharpoonup> bytes) core \<Rightarrow> bool" where
  "chain_core r c \<longleftrightarrow> (\<forall>k \<in> fst ` set (last_voted c) \<union> fst ` set (cert_aggs c). k \<le> r) \<and> proposer_up c \<and> consensus_up c
     \<and> (r = 0 \<or> chain_digest r \<noteq> chain_digest 0 \<and>
          store_read demo_node (digest_to_vec (chain_digest r)) (core_store c) = Inr (Some (ser_certificate demo_node (chain_cert r))))"

lemma chain_turn:
  assumes c: "chain_core r c" and r: "r < r + 1" "chain_digest (r + 1) \<noteq> chain_digest 0"
  shows "\<exists>c'. core_turn chain_node (FromProposer (chain_header (r + 1)), 0) c = Inr c' \<and> chain_core (r + 1) c'
    \<and> tx_consensus c' = tx_consensus c @ [chain_cert (r + 1)] \<and> tx_proposer c' = tx_proposer c @ [([chain_digest (r + 1)], r + 1)]"
proof -
  let ?h = "chain_header (r + 1)"
  let ?p = "if r = 0 then \<lparr>c_header = header_default\<lparr>h_author := PublicKey 1\<rparr>, c_votes = []\<rparr> else chain_cert r"
  have read: "foldR (read_parent chain_node (core_store c)) (h_parents ?h) ([], []) = Inr ([], [?p])"
    using c by (auto simp: chain_core_def read_parent_def)
  have "cert_round ?p = r" "cert_origin ?p = PublicKey 1" by (auto simp: cert_round_def cert_origin_def header_default_def)
  then have stake: "parents_stake (committee_of chain_node) ?h [?p] = Inr 1"
    by (simp add: parents_stake_def ensure_def)
  have there: "\<forall>d \<in> set (h_parents ?h). is_genesis chain_node d \<or> (\<exists>bs. store_read chain_node (digest_to_vec d) (core_store c) = Inr (Some bs))"
    using c by (auto simp: chain_core_def is_genesis_def)
  have "r + 1 \<notin> fst ` set (last_voted c)" "r + 1 \<notin> fst ` set (cert_aggs c)" "proposer_up c" "consensus_up c"
    using c r(1) not_le [of "r + 1" r] unfolding chain_core_def by blast+
  then obtain c' where c': "core_turn chain_node (FromProposer ?h, 0) c = Inr c'" "own_turned chain_node ?h c c'"
    using own_turn [OF chain_ok(1) _ _ read _ stake _ there] by auto
  moreover have "k \<le> r + 1" if "k \<le> r" for k using that r(1) by simp
  ultimately show ?thesis
    using c r(2) by (auto simp: own_turned_def chain_core_def chain_cert_def [symmetric])
qed

definition chain_proposer :: "nat \<Rightarrow> instant \<Rightarrow> proposer" where
  "chain_proposer n due = \<lparr>p_round = of_nat n + 1, last_parents = [chain_digest (of_nat n)], p_digests = [], payload_size = 0,
     header_size = 1000, max_header_delay = 100, deadline = due, p_core = map (chain_header \<circ> of_nat) [1..<Suc n], p_core_up = True\<rparr>"

text \<open>The primary after \<open>n\<close> rounds.\<close>

definition chain_state :: "nat \<Rightarrow> (bytes \<rightharpoonup> bytes) primary_node \<Rightarrow> bool" where
  "chain_state n s \<longleftrightarrow> chain_core (of_nat n) (pn_core s) \<and> tx_consensus (pn_core s) = map (chain_cert \<circ> of_nat) [1..<Suc n]
     \<and> length (tx_proposer (pn_core s)) = n \<and> \<not> pn_waiting s \<and> pn_headers s = n \<and> pn_parents s = n \<and> pn_network s = []
     \<and> consensus_round (pn_gc s) = 0 \<and> (\<exists>due. pn_proposer s = chain_proposer n due)"

lemma chain_address:
  "primary_of solo_committee (PublicKey 1) = Inr \<lparr>primary_to_primary = SocketAddr 0 0, worker_to_primary = SocketAddr 0 1\<rparr>"
  by (simp add: primary_of_def solo_committee_def)

lemma chain_spawn: "\<exists>s. primary_spawn chain_node parameters_default Map.empty 0 = Inr s \<and> chain_state 0 s"
  by (simp add: primary_spawn_def own_primary_def garbage_collector_spawn_def our_workers_def parameters_default_def proposer_new_def
      chain_state_def chain_core_def chain_proposer_def core_new_def chain_address) (simp add: solo_committee_def)

lemma chain_round:
  assumes s: "chain_state n s" and n: "of_nat n < (of_nat n + 1 :: round)" "chain_digest (of_nat n + 1) \<noteq> chain_digest 0"
  shows "\<exists>s'. (primary_step chain_node)\<^sup>*\<^sup>* s s' \<and> chain_state (Suc n) s'"
proof -
  have f: "chain_core (of_nat n) (pn_core s)" "tx_consensus (pn_core s) = map (chain_cert \<circ> of_nat) [1..<Suc n]"
    "\<not> pn_waiting s" "pn_headers s = n" "pn_parents s = n" "pn_network s = []" "consensus_round (pn_gc s) = 0"
    and len: "length (tx_proposer (pn_core s)) = n" and "\<exists>due. pn_proposer s = chain_proposer n due" using s unfolding chain_state_def by blast+
  then obtain due where due: "pn_proposer s = chain_proposer n due" by blast
  obtain c where c: "core_turn chain_node (FromProposer (chain_header (of_nat n + 1)), 0) (pn_core s) = Inr c" "chain_core (of_nat n + 1) c"
    "tx_consensus c = tx_consensus (pn_core s) @ [chain_cert (of_nat n + 1)]"
    "tx_proposer c = tx_proposer (pn_core s) @ [([chain_digest (of_nat n + 1)], of_nat n + 1)]"
    using chain_turn [OF f(1) n] by blast
  define hs where "hs = map (chain_header \<circ> of_nat) [1..<Suc (Suc n)]"
  have last: "hs = map (chain_header \<circ> of_nat) [1..<Suc n] @ [chain_header (of_nat n + 1)]" by (simp add: hs_def add.commute)
  let ?p1 = "(chain_proposer n (due + ucast (100 :: u64)))\<lparr>last_parents := [], p_core := hs\<rparr>"
  let ?p2 = "chain_proposer (Suc n) (due + ucast (100 :: u64))"
  have 0: "propose_check chain_node due (pn_proposer s) = Inr ?p1"
    unfolding due last by (simp add: propose_check_def make_header_def chain_proposer_def chain_header_def btree_set_def btree_map_def)
  let ?s1 = "s\<lparr>pn_waiting := True, pn_proposer := ?p1\<rparr>"
  let ?s2 = "?s1\<lparr>pn_headers := Suc n, pn_core := c\<rparr>"
  let ?s3 = "?s2\<lparr>pn_waiting := False, pn_parents := Suc n, pn_proposer := ?p2\<rparr>"
  have at: "tx_proposer c ! n = ([chain_digest (of_nat n + 1)], of_nat n + 1)" "length (tx_proposer c) = Suc n"
    unfolding c(4) by (simp_all add: nth_append len)
  have own: "hs ! n = chain_header (of_nat n + 1)" "n < length hs" unfolding last by (simp_all add: nth_append)
  have 1: "primary_step chain_node s ?s1" using propose [OF f(3) 0] .
  have 2: "primary_step chain_node ?s1 ?s2"
    using core_own [of ?s1 chain_node c] c(1) f(4,7) own by simp
  have next_round: "of_nat n + 1 = (of_nat (Suc n) :: round)" by simp
  have sel: "propose_select (CoreParents [chain_digest (of_nat n + 1)] (of_nat n + 1)) ?p1 = ?p2"
    unfolding next_round chain_proposer_def hs_def propose_select.simps by (simp del: upt_Suc of_nat_Suc add: next_round)
  have p: "pn_parents ?s2 = n" using f(5) by simp
  have t: "tx_proposer (pn_core ?s2) = tx_proposer c" by simp
  have at': "tx_proposer (pn_core ?s2) ! pn_parents ?s2 = ([chain_digest (of_nat n + 1)], of_nat n + 1)"
    "pn_parents ?s2 < length (tx_proposer (pn_core ?s2))"
    unfolding p t by (rule at(1)) (simp only: at(2))
  have q: "pn_parents ?s2 + 1 = Suc n" unfolding p by simp
  have w: "pn_waiting ?s2" "pn_proposer ?s2 = ?p1" by simp_all
  have 3: "primary_step chain_node ?s2 ?s3" using propose_parents [OF w(1) at'(2,1), of chain_node, unfolded q w(2) sel] .
  have "(primary_step chain_node)\<^sup>*\<^sup>* s ?s3" using 1 2 3 by (meson r_into_rtranclp rtranclp.rtrancl_into_rtrancl)
  moreover have "chain_state (Suc n) ?s3"
  proof -
    have "chain_core (of_nat (Suc n)) c" using c(2) unfolding next_round .
    moreover have "[1..<Suc (Suc n)] = [1..<Suc n] @ [Suc n]" by simp
    then have "tx_consensus c = map (chain_cert \<circ> of_nat) [1..<Suc (Suc n)]"
      unfolding c(3) next_round f(2) by (simp only: map_append list.map comp_apply)
    moreover have "\<exists>due. ?p2 = chain_proposer (Suc n) due" by blast
    ultimately show ?thesis using f(6,7) at(2) unfolding chain_state_def by (simp del: of_nat_Suc upt_Suc)
  qed
  ultimately show ?thesis by blast
qed

lemma chain_digests [simp]:
  "chain_digest 0 = Digest 1" "chain_digest 1 = Digest 3" "chain_digest 2 = Digest 5" "chain_digest 3 = Digest 7"
  "chain_digest 4 = Digest 9" "chain_digest 5 = Digest 11"
  by (simp_all add: chain_digest_def)

lemma chain_five:
  assumes "chain_state 0 s0"
  shows "\<exists>s. (primary_step chain_node)\<^sup>*\<^sup>* s0 s \<and> chain_state 5 s"
proof -
  have "\<exists>s. (primary_step chain_node)\<^sup>*\<^sup>* s0 s \<and> chain_state m s" if "m \<le> 5" for m
    using that
  proof (induction m)
    case 0
    with assms show ?case by blast
  next
    case (Suc m)
    then obtain s where s: "(primary_step chain_node)\<^sup>*\<^sup>* s0 s" "chain_state m s" by auto
    have "m \<in> {0, 1, 2, 3, 4}" using Suc.prems by auto
    then have "of_nat m < (of_nat m + 1 :: round)" "chain_digest (of_nat m + 1) \<noteq> chain_digest 0" by auto
    from chain_round [OF s(2) this] s(1) show ?case by (meson rtranclp_trans)
  qed
  then show ?thesis by blast
qed

section \<open>The consensus and the executor\<close>

definition chain_batch :: committed_sub_dag where
  "chain_batch = \<lparr>batch_index = 1, leader_round = 2, leader_digest = Digest 5, certificates = [chain_cert 1, chain_cert 2]\<rparr>"

lemma chain_consensus:
  "\<exists>s. run_consensus round_lib solo_committee 50 (map chain_cert [1, 2, 3, 4, 5]) (consensus_new round_lib solo_committee True True) = Inr s
     \<and> to_output s = [chain_batch] \<and> to_primary s = [chain_cert 1, chain_cert 2]"
  by (simp add: solo_eval chain_batch_def)

lemma chain_accepted:
  "\<exists>s1 s2. accepted round_lib chain_batch (spawn None 1 50) =
     \<lparr>tx_output = [], tx_room = None, mrv_store = [(Digest 3, chain_cert 1), (Digest 5, chain_cert 2)],
      auf_states = [(Digest 3, s1), (Digest 5, s2)], batches = [(1, \<lparr>b_members = [Digest 3, Digest 5]\<rparr>)],
      active_floor_round = Some 1, frontier_round = 2, window_cap = 50, reach_threshold = 1, delta_threshold = 1\<rparr>
    \<and> horizon s1 = Some 1 \<and> horizon s2 = Some 2"
  by (simp add: accepted_def spawn_def chain_batch_def add_certificate_def note_active_round_def update_seen_for_new_certificate_def
      update_seen_loop.simps(2) mark_seen_def auf_state_new_def apply_window_cap_def cap_state_def Let_def)

lemma output_release [simp]: "tx_output (release_batch i ms st) = tx_output st"
  by (simp add: release_batch_def Let_def recompute_active_floor_round_def split_beta)

lemma finalize_empty: "batches st = [] \<Longrightarrow> try_finalize_batches h st = Inr (True, st)"
  by (subst try_finalize_batches.simps) (simp add: first_batch_def)

lemma chain_executor:
  assumes "hash_order_ok h"
  shows "\<exists>e. on_committed_batch round_lib h chain_batch (spawn None 1 50) = Inr (True, e)
    \<and> distinct (tx_output e) \<and> set (tx_output e) = {chain_cert 1, chain_cert 2}"
proof -
  let ?ms = "[Digest 3, Digest 5]" and ?E = "\<lambda>st. beats st {Digest 3, Digest 5}"
  obtain st s1 s2 where acc: "accepted round_lib chain_batch (spawn None 1 50) = st" and s: "horizon s1 = Some 1" "horizon s2 = Some 2"
    and st: "st = \<lparr>tx_output = [], tx_room = None, mrv_store = [(Digest 3, chain_cert 1), (Digest 5, chain_cert 2)],
      auf_states = [(Digest 3, s1), (Digest 5, s2)], batches = [(1, \<lparr>b_members = ?ms\<rparr>)],
      active_floor_round = Some 1, frontier_round = 2, window_cap = 50, reach_threshold = 1, delta_threshold = 1\<rparr>"
    using chain_accepted by blast
  have ok: "horizon_ok st" "0 < delta_threshold st" and stored: "stored st = {Digest 3, Digest 5}"
    using s by (auto simp: st horizon_ok_def stored_def split: if_splits)
  have sub: "set ?ms \<subseteq> stored st" using stored by simp
  obtain ds where ds: "sort_batch h st ?ms = Inr ds" "distinct ds" "set ds = {Digest 3, Digest 5}"
  proof -
    obtain Cs where Cs: "sort_batch h st ?ms = Inr (concat Cs)" "canonical st (?E st) {Digest 3, Digest 5} {} Cs"
      using sort_batch_canonical [OF ok assms sub] by auto
    have "?E st \<subseteq> {Digest 3, Digest 5} \<times> {Digest 3, Digest 5}" "pred_closed (?E st) {}" by (auto simp: beats_def pred_closed_def)
    from canonical_parts [OF this(1) Cs(2) this(2)] show ?thesis using that [OF Cs(1)] by (simp only: Diff_empty)
  qed
  let ?cs = "map (\<lambda>d. the (map_of (mrv_store st) d)) ds"
  have sent: "send_sorted ds st = (True, st\<lparr>tx_output := ?cs\<rparr>)"
    using send_sorted_ok [of ds st] stored ds(3) by (simp add: st)
  let ?e = "release_batch 1 ?ms (st\<lparr>tx_output := ?cs\<rparr>)"
  have "try_finalize_batches h ?e = Inr (True, ?e)" by (rule finalize_empty) (simp add: st)
  moreover have "batch_horizon st ?ms = Some 2" "first_batch (batches st) = Some (1, \<lparr>b_members = ?ms\<rparr>)" "frontier_round st = 2"
    using s by (simp_all add: st batch_horizon_def first_batch_def)
  ultimately have "try_finalize_batches h st = Inr (True, ?e)" using ds(1) sent by (subst try_finalize_batches.simps) simp
  moreover have "set ?cs = {chain_cert 1, chain_cert 2}" using ds(3) by (auto simp: st)
  moreover have "distinct ?cs"
  proof -
    have "inj_on (\<lambda>d. the (map_of (mrv_store st) d)) (set ds)"
      unfolding ds(3) by (auto simp: st inj_on_def)
    with ds(2) show ?thesis by (simp add: distinct_map)
  qed
  ultimately show ?thesis using acc by (simp add: on_committed_batch_eq)
qed

section \<open>The whole process\<close>

lemma consensus_turns:
  assumes "new_certificates v = xs @ ys" "v_certificates v = length xs"
    and "run_consensus (lib N) (committee_of N) (gc_depth_of N) ys (v_consensus v) = Inr k"
  shows "(validator_step N h)\<^sup>*\<^sup>* v (v\<lparr>v_certificates := length xs + length ys, v_consensus := k\<rparr>)"
  using assms
proof (induction ys arbitrary: xs v)
  case Nil
  then have "v\<lparr>v_certificates := length xs, v_consensus := k\<rparr> = v" by (simp add: run_consensus_def)
  then show ?case by simp
next
  case (Cons y ys)
  obtain t where t: "Consensus.process_certificate (lib N) (committee_of N) (gc_depth_of N) y (v_consensus v) = Inr t"
    "run_consensus (lib N) (committee_of N) (gc_depth_of N) ys t = Inr k" using Cons.prems(3) by (auto simp: run_consensus_def bindR_Inr_iff)
  let ?v = "v\<lparr>v_certificates := length xs + 1, v_consensus := t\<rparr>"
  have "v_certificates v < length (new_certificates v)" "new_certificates v ! v_certificates v = y" using Cons.prems(1,2) by simp_all
  then have 1: "validator_step N h v ?v" using consensus_turn [of v N t h] t(1) Cons.prems(2) by simp
  have "(validator_step N h)\<^sup>*\<^sup>* ?v (?v\<lparr>v_certificates := length (xs @ [y]) + length ys, v_consensus := k\<rparr>)"
    by (rule Cons.IH) (use Cons.prems t(2) in simp_all)
  with 1 show ?case by (simp add: converse_rtranclp_into_rtranclp)
qed

definition chain_world :: "certificate set" where
  "chain_world = set (genesis solo_committee) \<union> set (map chain_cert [1, 2, 3, 4, 5])"

lemma chain_primary_world:
  assumes "chain_state 5 s"
  shows "primary_world chain_node chain_world s"
proof -
  have tx: "tx_consensus (pn_core s) = map chain_cert [1, 2, 3, 4, 5]" "pn_network s = []"
    "p_core (pn_proposer s) = map chain_header [1, 2, 3, 4, 5]"
    using assms by (auto simp: chain_state_def chain_proposer_def upt_rec)
  then have "linked_headers chain_node s = set (map chain_header [1, 2, 3, 4, 5])"
    by (auto simp: linked_headers_def seen_headers_def)
  then have "h_id ` linked_headers chain_node s = {Digest 4, Digest 6, Digest 8, Digest 10, Digest 12}" by simp
  moreover have "inj_on (cert_digest round_lib) chain_world"
    by (auto simp: chain_world_def inj_on_def)
  ultimately show ?thesis using tx by (simp add: primary_world_def chain_world_def rounds_small_def)
qed

lemma chain_validator:
  assumes "hash_order_ok h"
  shows "\<exists>v. validator_reach chain_node parameters_default h v \<and> new_certificates v = map chain_cert [1, 2, 3, 4, 5]
    \<and> v_certificates v = 5 \<and> primary_world chain_node chain_world (v_primary v)
    \<and> distinct (tx_output (v_executor v)) \<and> set (tx_output (v_executor v)) = {chain_cert 1, chain_cert 2}"
proof -
  obtain s0 where s0: "primary_spawn chain_node parameters_default Map.empty 0 = Inr s0" "chain_state 0 s0" using chain_spawn by blast
  obtain s where s: "(primary_step chain_node)\<^sup>*\<^sup>* s0 s" "chain_state 5 s" using chain_five [OF s0(2)] by blast
  have tx: "tx_consensus (pn_core s) = map chain_cert [1, 2, 3, 4, 5]" using s(2) by (simp add: chain_state_def upt_rec)
  obtain k where k: "run_consensus round_lib solo_committee 50 (map chain_cert [1, 2, 3, 4, 5]) (consensus_new round_lib solo_committee True True) = Inr k"
    "to_output k = [chain_batch]" using chain_consensus by blast
  obtain e where e: "on_committed_batch round_lib h chain_batch (spawn None 1 50) = Inr (True, e)"
    "distinct (tx_output e)" "set (tx_output e) = {chain_cert 1, chain_cert 2}" using chain_executor [OF assms] by blast
  let ?v0 = "\<lparr>v_primary = s0, v_consensus = consensus_new round_lib solo_committee True True,
    v_executor = spawn None 1 50, v_certificates = 0, v_feedback = 0, v_batches = 0\<rparr>"
  let ?v1 = "?v0\<lparr>v_primary := s\<rparr>"
  let ?v2 = "?v1\<lparr>v_certificates := 5, v_consensus := k\<rparr>"
  let ?v3 = "?v2\<lparr>v_batches := 1, v_executor := e\<rparr>"
  have v0: "validator_spawn chain_node parameters_default Map.empty 0 = Inr ?v0"
    using s0(1) by (simp add: validator_spawn_def parameters_default_def size_of_def) (simp add: solo_committee_def)
  have 1: "(validator_step chain_node h)\<^sup>*\<^sup>* ?v0 ?v1" using primary_turns [OF s(1), of h ?v0] by simp
  have five: "length [] + length (map chain_cert [1, 2, 3, 4, 5]) = 5" by simp
  have 2: "(validator_step chain_node h)\<^sup>*\<^sup>* ?v1 ?v2" using consensus_turns [of ?v1 "[]" "map chain_cert [1, 2, 3, 4, 5]" chain_node k h, unfolded five] tx k(1) by simp
  have 3: "validator_step chain_node h ?v2 ?v3" using executor_turn [of ?v2 chain_node h e] k(2) e(1) by simp
  have "(validator_step chain_node h)\<^sup>*\<^sup>* ?v0 ?v3" using 1 2 3 by (meson rtranclp_trans rtranclp.rtrancl_into_rtrancl)
  moreover have "gc_depth_of chain_node = par_gc_depth parameters_default" "\<forall>k. store_read chain_node k (store_new Map.empty) = Inr None"
    by (simp_all add: parameters_default_def)
  ultimately have "validator_reach chain_node parameters_default h ?v3" using v0 unfolding validator_reach_def by blast
  with tx e(2,3) chain_primary_world [OF s(2)] show ?thesis by (intro exI [of _ ?v3]) simp
qed

lemma chain_in_time:
  "in_time round_lib solo_committee 50 (map chain_cert [1, 2, 3, 4, 5]) (consensus_new round_lib solo_committee True True)"
  by (simp add: solo_eval in_window_def)

lemma chain_sane: "sane_stake solo_committee" "0 < total_stake solo_committee"
  using solo_sane by (simp_all add: total_stake_def solo_committee_def)

lemma chain_slots: "inj_on slot chain_world"
  by (auto simp: chain_world_def inj_on_def slot_def cert_round_def [of "\<lparr>c_header = _, c_votes = _\<rparr>"] header_default_def)

lemma chain_delivered:
  assumes "xs = map chain_cert [1, 2, 3, 4, 5]"
  shows "\<forall>x \<in> set xs. cert_round x \<noteq> 0 \<and> unat (cert_round x) + unat (gc_depth_of chain_node) < 2 ^ 64"
    "distinct (map slot xs)" "length xs < 2 ^ 64"
  using assms by (simp_all add: slot_def)

lemma chain_fair:
  assumes "hash_order_ok h" "validator_reach chain_node parameters_default h v" "new_certificates v = map chain_cert [1, 2, 3, 4, 5]"
    and "v_certificates v = 5" "primary_world chain_node chain_world (v_primary v)"
  shows "validator_fair chain_node parameters_default h chain_world v"
proof -
  have "taken v = map chain_cert [1, 2, 3, 4, 5]" using assms(3,4) by simp
  then show ?thesis
    using assms chain_ok chain_in_time chain_delivered [OF assms(3)] unfolding validator_fair_def chain_simps by simp
qed

end
