(* ===== verification/CoreFuel.thy ===== *)
theory CoreFuel
  imports CoreInvariants
begin

text \<open>
  The bound on the call depth is not part of the behaviour: \<open>core_depth\<close> is always enough, and a
  larger bound gives the same result. Hence the recursion of the three handlers ends in the code as well.
\<close>

definition agrees :: "('s, 'a) act \<Rightarrow> ('s, 'a) act \<Rightarrow> 's \<Rightarrow> bool" where
  "agrees m m' s \<longleftrightarrow> m s = Inl OutOfFuel \<or> m' s = m s"

lemma agrees_refl [simp]: "agrees m m s"
  by (simp add: agrees_def)

lemma agrees_panic [simp]: "agrees (panicA OutOfFuel) m s"
  by (simp add: agrees_def panicA_def)

lemma agrees_bind:
  assumes "agrees m m' s" "\<And>x s'. agrees (f x) (f' x) s'"
  shows "agrees (bindA m f) (bindA m' f') s"
proof (cases "m s")
  case (Inr p)
  obtain r t where p: "p = (r, t)" by fastforce
  have "m' s = Inr (r, t)" using assms(1) Inr p by (simp add: agrees_def)
  then show ?thesis using assms(2) Inr p by (cases r) (simp_all add: agrees_def bindA_def)
qed (use assms(1) in \<open>auto simp: agrees_def bindA_def\<close>)

lemma agrees_expect: "agrees m m' s \<Longrightarrow> agrees (expectA msg m) (expectA msg m') s"
  by (auto simp: agrees_def expectA_def)

lemma more_fuel:
  "agrees (process_header n N h) (process_header (Suc n) N h) s
   \<and> agrees (process_vote n N v) (process_vote (Suc n) N v) s
   \<and> agrees (process_certificate n N x) (process_certificate (Suc n) N x) s"
proof (induction n arbitrary: h v x s)
  case (Suc n)
  have H: "agrees (process_header n N h) (process_header (Suc n) N h) s"
    and V: "agrees (process_vote n N v) (process_vote (Suc n) N v) s"
    and X: "agrees (process_certificate n N x) (process_certificate (Suc n) N x) s" for h v x s
    using Suc by blast+
  have "agrees (process_header (Suc n) N h) (process_header (Suc (Suc n)) N h) s"
    unfolding process_header.simps(2) Let_def
    by (intro agrees_bind agrees_refl) (auto simp del: process_vote.simps intro!: agrees_bind agrees_expect V split: sum.split)
  moreover have "agrees (process_vote (Suc n) N v) (process_vote (Suc (Suc n)) N v) s"
    unfolding process_vote.simps(2)
    by (intro agrees_bind agrees_refl) (auto simp del: process_certificate.simps intro!: agrees_bind agrees_expect X split: option.split)
  moreover have "agrees (process_certificate (Suc n) N x) (process_certificate (Suc (Suc n)) N x) s"
    unfolding process_certificate.simps(2)
    by (intro agrees_bind agrees_refl) (use H in \<open>auto simp: agrees_def simp del: process_header.simps\<close>)
  ultimately show ?case by blast
qed simp

lemma enough_fuel:
  "process_header (core_depth + n) N h s = process_header core_depth N h s
   \<and> process_vote (core_depth + n) N v s = process_vote core_depth N v s
   \<and> process_certificate (core_depth + n) N x s = process_certificate core_depth N x s"
proof (induction n)
  case (Suc n)
  have "process_header core_depth N h s \<noteq> Inl OutOfFuel" "process_vote core_depth N v s \<noteq> Inl OutOfFuel"
    "process_certificate core_depth N x s \<noteq> Inl OutOfFuel"
    using core_depth_fuel [THEN acts_panicD] by blast+
  with Suc more_fuel [of "core_depth + n" N h s v x] show ?case by (simp add: agrees_def)
qed simp

text \<open>C23. The handlers of the core end: calls seven deep are enough for every header, vote and
certificate in every state, and a larger bound on the depth changes nothing.\<close>

theorem handlers_terminate:
  "process_header (core_depth + n) N h s = process_header core_depth N h s \<and> process_header core_depth N h s \<noteq> Inl OutOfFuel
   \<and> process_vote (core_depth + n) N v s = process_vote core_depth N v s \<and> process_vote core_depth N v s \<noteq> Inl OutOfFuel
   \<and> process_certificate (core_depth + n) N x s = process_certificate core_depth N x s
   \<and> process_certificate core_depth N x s \<noteq> Inl OutOfFuel"
  using enough_fuel core_depth_fuel [THEN acts_panicD] by blast

end
