(* ===== verification/MessageProperties.thy ===== *)
theory MessageProperties
  imports Aggregators
begin

text \<open>
  The properties of the data the primaries exchange: the encodings that are hashed, the thresholds of the
  committee, and what a verified or an assembled certificate is worth.
\<close>

section \<open>Bytes and digests\<close>

lemma bit_from_le_bytes: "bit (from_le_bytes bs :: 'w::len word) k \<Longrightarrow> k < 8 * length bs"
proof (induction bs arbitrary: k)
  case Nil
  then show ?case by simp
next
  case (Cons b bs)
  show ?case
  proof (cases "k < 8")
    case True
    then show ?thesis by simp
  next
    case False
    with Cons.prems have "bit (from_le_bytes bs :: 'w word) (k - 8)"
      by (auto simp: bit_simps dest: bit_imp_le_length)
    then show ?thesis using Cons.IH [of "k - 8"] False by simp
  qed
qed

lemma le_bytes_from_le_bytes:
  "8 * length bs \<le> LENGTH('w) \<Longrightarrow> le_bytes (length bs) (from_le_bytes bs :: 'w::len word) = bs"
proof (induction bs)
  case Nil
  then show ?case by (simp add: le_bytes_def)
next
  case (Cons b bs)
  let ?x = "from_le_bytes bs :: 'w word"
  have "(ucast (ucast b OR push_bit 8 ?x) :: u8) = b"
    by (rule bit_word_eqI) (use Cons.prems in \<open>auto simp: bit_simps\<close>)
  moreover have "drop_bit 8 (ucast b OR push_bit 8 ?x) = ?x"
  proof (rule bit_word_eqI)
    fix k assume k: "k < LENGTH('w)"
    have "k + 8 < LENGTH('w)" if "bit ?x k"
    proof -
      from that have "k < 8 * length bs" by (rule bit_from_le_bytes)
      with Cons.prems show ?thesis by simp
    qed
    with k show "bit (drop_bit 8 (ucast b OR push_bit 8 ?x)) k = bit ?x k"
      by (auto simp: bit_simps dest: bit_imp_le_length)
  qed
  ultimately show ?case using Cons by (simp add: le_bytes_Suc)
qed

lemma digest_to_vec_from:
  "length bs = 32 \<Longrightarrow> digest_to_vec (Digest (from_be_bytes bs)) = bs"
  using le_bytes_from_le_bytes [of "rev bs", where 'w = 256]
  by (simp add: digest_to_vec_def be_bytes_def from_be_bytes_def)



lemma from_le_bytes_replicate: "from_le_bytes (replicate n 0 @ bs) = push_bit (8 * n) (from_le_bytes bs)"
  by (induction n) (simp_all add: push_bit_push_bit)

lemma from_le_bytes_zeros: "from_le_bytes (replicate n 0) = 0"
  using from_le_bytes_replicate [of n "[]"] by simp

lemma from_be_bytes_single:
  "from_be_bytes (replicate m 0 @ b # replicate n 0) = push_bit (8 * n) (ucast b)"
  by (simp add: from_be_bytes_def rev_replicate from_le_bytes_replicate from_le_bytes_zeros)

lemma from_be_bytes_first: "from_be_bytes (b # replicate n 0) = push_bit (8 * n) (ucast b)"
  using from_be_bytes_single [of 0 b n] by simp

text \<open>Reading a digest back from bytes succeeds exactly on what writing one produces: 32 bytes,
nothing lost on the way.\<close>

theorem digest_roundtrip:
  "digest_try_from bs = Inr d \<longleftrightarrow> bs = digest_to_vec d"
proof
  assume "digest_try_from bs = Inr d"
  then show "bs = digest_to_vec d"
    using digest_to_vec_from [of bs] by (auto simp: digest_try_from_def split: if_splits)
qed (simp add: digest_try_from_to_vec)

section \<open>Header hashing\<close>

lemma concat_chunks_inj:
  assumes "concat (map f xs) = concat (map f ys)" "\<And>x. length (f x) = n" "0 < n" "inj f"
  shows "xs = ys"
  using assms(1)
proof (induction xs arbitrary: ys)
  case Nil
  then show ?case
  proof (cases ys)
    case (Cons y ys')
    then have "length (f y) = 0" using Nil by simp
    then show ?thesis using assms by simp
  qed simp
next
  case (Cons x xs)
  then show ?case
  proof (cases ys)
    case Nil
    then have "length (f x) = 0" using Cons.prems by simp
    then show ?thesis using assms by simp
  next
    case (Cons y ys')
    then have "f x @ concat (map f xs) = f y @ concat (map f ys')" using Cons.prems by simp
    then have "f x = f y" "concat (map f xs) = concat (map f ys')"
      using assms(2) by (metis append_eq_append_conv)+
    with Cons.IH Cons assms(4) show ?thesis by (simp add: inj_eq)
  qed
qed

lemma length_concat_chunks: "(\<And>x. length (f x) = n) \<Longrightarrow> length (concat (map f xs)) = n * length xs"
  by (induction xs) auto

text \<open>With the number of payload entries known, the bytes a header is hashed from determine its author,
round, payload and parents. The number itself is not among the bytes.\<close>

theorem header_bytes_injective:
  assumes "header_bytes h = header_bytes h'" "length (h_payload h) = length (h_payload h')"
  shows "h_author h = h_author h' \<and> h_round h = h_round h' \<and> h_payload h = h_payload h'
    \<and> h_parents h = h_parents h'"
proof -
  let ?e = "\<lambda>(x, y :: worker_id). digest_to_vec x @ le_bytes 4 y"
  have len: "length (?e p) = 36" for p by (cases p) simp
  have inj: "inj ?e" by (auto simp: inj_def elim!: le_bytes_inj)
  have plen: "length (concat (map ?e (h_payload h))) = length (concat (map ?e (h_payload h')))"
    using assms(2) by (simp add: length_concat_chunks [where f = ?e, OF len])
  from assms(1) have "key_bytes (h_author h) = key_bytes (h_author h')"
    "le_bytes 8 (h_round h) = le_bytes 8 (h_round h')"
    "concat (map ?e (h_payload h)) = concat (map ?e (h_payload h'))"
    "concat (map digest_to_vec (h_parents h)) = concat (map digest_to_vec (h_parents h'))"
    using plen by (simp_all add: header_bytes_def)
  moreover have "inj digest_to_vec" by (simp add: inj_def)
  ultimately show ?thesis
    using concat_chunks_inj [where f = ?e, OF _ len _ inj]
      concat_chunks_inj [where f = digest_to_vec and n = 32]
    by (auto elim!: le_bytes_inj)
qed

definition two_payloads :: "round \<Rightarrow> header" where
  "two_payloads r = header_default\<lparr>h_round := r, h_payload := [(Digest 1, 2), (Digest 3, 4)], h_parents := [Digest 5]\<rparr>"

lemma header_bytes_injective_witness:
  "h_author (two_payloads 7) = h_author ((two_payloads 7)\<lparr>h_id := Digest 9\<rparr>)"
  using header_bytes_injective [of "two_payloads 7" "(two_payloads 7)\<lparr>h_id := Digest 9\<rparr>"]
  by (simp add: header_bytes_def)

text \<open>C40.
  Entries of 36 and of 32 bytes are hashed without their number, so eight payload entries can be the
  same bytes as nine parents: two well-formed headers of one author and round with the same digest
  under every hash function.
\<close>

theorem header_digest_collision:
  "\<exists>h h'. wf_header h \<and> wf_header h' \<and> h_author h = h_author h' \<and> h_round h = h_round h'
     \<and> h_payload h \<noteq> h_payload h' \<and> h_parents h \<noteq> h_parents h'
     \<and> (\<forall>L. header_digest L h = header_digest L h')"
proof -
  let ?bytes = "\<lambda>m b n. replicate m 0 @ (b :: u8) # replicate n 0"
  let ?D = "\<lambda>bs. Digest (from_be_bytes bs)"
  let ?pars = "[?bytes 0 0 31, ?bytes 0 1 31, ?bytes 0 2 31, ?bytes 0 3 31, ?bytes 0 4 31,
    ?bytes 0 5 31, ?bytes 0 6 31, ?bytes 0 7 31, ?bytes 0 8 31]"
  let ?pay = "[(?bytes 0 0 31, 1), (?bytes 28 2 3, 0), (?bytes 24 3 7, 0), (?bytes 20 4 11, 0),
    (?bytes 16 5 15, 0), (?bytes 12 6 19, 0), (?bytes 8 7 23, 0), (?bytes 4 8 27, 0 :: u32)]"
  let ?h = "header_default\<lparr>h_payload := map (\<lambda>(b, w). (?D b, w)) ?pay\<rparr>"
  let ?h' = "header_default\<lparr>h_parents := map ?D ?pars\<rparr>"
  have rep: "digest_to_vec (?D (?bytes m b n)) = ?bytes m b n" if "m + n = 31" for m b n
    by (rule digest_to_vec_from) (simp add: that)
  have rep0: "digest_to_vec (?D (b # replicate 31 0)) = b # replicate 31 0" for b
    using rep [of 0 31 b] by simp
  have le: "le_bytes 4 (0 :: u32) = [0, 0, 0, 0]" "le_bytes 4 (1 :: u32) = [1, 0, 0, 0]"
    by (simp_all add: le_bytes_def upt_rec)
  have "header_bytes ?h = header_bytes ?h'"
    by (simp add: header_bytes_def header_default_def rep rep0 le)
       (simp add: numeral_eq_Suc)
  then have "\<forall>L. header_digest L ?h = header_digest L ?h'" by (simp add: header_digest_def)
  moreover have "wf_header ?h" "wf_header ?h'"
    by (simp_all add: wf_header_def header_default_def from_be_bytes_single from_be_bytes_first less_digest_def push_bit_eq_mult)
  moreover have "h_payload ?h \<noteq> h_payload ?h'" "h_parents ?h \<noteq> h_parents ?h'"
    by (simp_all add: header_default_def)
  moreover have "h_author ?h = h_author ?h'" "h_round ?h = h_round ?h'" by simp_all
  ultimately show ?thesis by blast
qed

end
