(* ===== verification/CertificateProperties.thy ===== *)
theory CertificateProperties
  imports Aggregators
begin

text \<open>
  What the thresholds, the aggregators and the checks of certificates give together: the exact thresholds,
  one certificate per header, its verification by the other nodes, and the votes that two
  certificates share.
\<close>

section \<open>The thresholds\<close>

text \<open>C37. For a total stake \<open>N\<close> below 2^31 the \<open>u32\<close> computations do not wrap: the quorum is 2N/3 + 1, the
validity threshold is N/3 rounded up, two quorums share the validity threshold, and a quorum and a set
that reaches the validity threshold always meet.\<close>

theorem thresholds_exact:
  assumes "sane_stake c"
  shows "unat (quorum_threshold c) = 2 * total_stake c div 3 + 1
    \<and> unat (validity_threshold c) = (total_stake c + 2) div 3
    \<and> total_stake c + unat (validity_threshold c) \<le> 2 * unat (quorum_threshold c)
    \<and> total_stake c < unat (quorum_threshold c) + unat (validity_threshold c)
    \<and> (0 < total_stake c \<longrightarrow> unat (quorum_threshold c) \<le> total_stake c)"
proof -
  have t: "total_stake c < 2 ^ 31" and m: "sum (stake_nat c) (members c) = total_stake c"
    using assms by (simp_all add: sane_stake_def members_total)
  show ?thesis
    using com.two_quorums [OF assms] com.quorum_validity [OF assms] com.quorum_le [OF assms]
    by (simp add: m quorum_threshold_unat [OF t] validity_threshold_unat [OF t])
qed

definition four_committee :: committee where
  "four_committee = \<lparr>authorities = map (\<lambda>k. (PublicKey k, \<lparr>auth_stake = 1,
     auth_primary = \<lparr>primary_to_primary = SocketAddr 0 0, worker_to_primary = SocketAddr 0 1\<rparr>, auth_workers = []\<rparr>))
     [1, 2, 3, 4]\<rparr>"

lemma four_simps [simp]:
  "total_stake four_committee = 4" "quorum_threshold four_committee = 3" "validity_threshold four_committee = 2"
  "stake_of four_committee (PublicKey 1) = 1" "stake_of four_committee (PublicKey 2) = 1"
  "stake_of four_committee (PublicKey 3) = 1" "stake_of four_committee (PublicKey 4) = 1"
  by (simp_all add: four_committee_def total_stake_def quorum_threshold_def total_votes_def validity_threshold_def stake_of_def)

lemma four_sane: "sane_stake four_committee"
  by (simp add: sane_stake_def wf_committee_def) (simp add: four_committee_def less_public_key_def word_less_nat_alt)

lemma thresholds_exact_witness:
  "unat (quorum_threshold four_committee) = 3 \<and> unat (validity_threshold four_committee) = 2 \<and> total_stake four_committee = 4"
  using thresholds_exact [OF four_sane] by simp

text \<open>Without the bound the doubled sum wraps: one authority of stake 2^31 makes every vote a quorum.\<close>

theorem quorum_wraps:
  "\<exists>c. wf_committee c \<and> total_stake c = 2 ^ 31 \<and> quorum_threshold c = 1"
proof -
  let ?c = "\<lparr>authorities = [(PublicKey 1, \<lparr>auth_stake = 2 ^ 31,
     auth_primary = \<lparr>primary_to_primary = SocketAddr 0 0, worker_to_primary = SocketAddr 0 1\<rparr>, auth_workers = []\<rparr>)]\<rparr>"
  have "wf_committee ?c \<and> total_stake ?c = 2 ^ 31 \<and> quorum_threshold ?c = 1"
    by (simp add: wf_committee_def total_stake_def quorum_threshold_def total_votes_def)
  then show ?thesis by blast
qed

section \<open>The certificate of a header\<close>

lemma new_aggregator_run:
  assumes "sane_stake c"
  shows "length (filter (\<lambda>r. \<exists>x. r = Inr (Some x)) (fst (agg_run (\<lambda>v. votes_append v c h) vs votes_aggregator_new)))
      = (if unat (quorum_threshold c) \<le> sum (stake_nat c) (v_author ` set vs) then 1 else 0)"
    and "Inr (Some x) \<in> set (fst (agg_run (\<lambda>v. votes_append v c h) vs votes_aggregator_new)) \<Longrightarrow>
        c_header x = h \<and> distinct (map fst (c_votes x)) \<and> set (map fst (c_votes x)) \<subseteq> v_author ` set vs
        \<and> quorum_threshold c \<le> sum_list (map (stake_of c \<circ> fst) (c_votes x))"
proof -
  have new: "va_weight votes_aggregator_new = 0" "va_used votes_aggregator_new = {}" "votes_wf votes_aggregator_new"
    by (simp_all add: votes_aggregator_new_def votes_wf_def)
  have inv: "weight_inv c False (va_weight votes_aggregator_new) (va_used votes_aggregator_new)"
    using weight_inv_init [OF assms] by (simp add: new)
  show "length (filter (\<lambda>r. \<exists>x. r = Inr (Some x)) (fst (agg_run (\<lambda>v. votes_append v c h) vs votes_aggregator_new)))
      = (if unat (quorum_threshold c) \<le> sum (stake_nat c) (v_author ` set vs) then 1 else 0)"
    by (rule va.run_once [OF assms new(1,2)])
  show "c_header x = h \<and> distinct (map fst (c_votes x)) \<and> set (map fst (c_votes x)) \<subseteq> v_author ` set vs
        \<and> quorum_threshold c \<le> sum_list (map (stake_of c \<circ> fst) (c_votes x))"
    if "Inr (Some x) \<in> set (fst (agg_run (\<lambda>v. votes_append v c h) vs votes_aggregator_new))"
    using votes_run_cert [OF assms new(3) inv that] by (simp add: new(2))
qed

text \<open>C26. Fed with any votes for one header, the votes aggregator makes exactly one certificate when the
distinct voters reach the quorum, and none otherwise; what it makes carries the header, and a
quorum of votes by distinct voters.\<close>

theorem one_certificate_per_header:
  assumes "sane_stake c"
  shows "length (filter (\<lambda>r. \<exists>x. r = Inr (Some x)) (fst (agg_run (\<lambda>v. votes_append v c h) vs votes_aggregator_new)))
      = (if unat (quorum_threshold c) \<le> sum (stake_nat c) (v_author ` set vs) then 1 else 0)
    \<and> (\<forall>x. Inr (Some x) \<in> set (fst (agg_run (\<lambda>v. votes_append v c h) vs votes_aggregator_new)) \<longrightarrow>
        c_header x = h \<and> distinct (map fst (c_votes x)) \<and> set (map fst (c_votes x)) \<subseteq> v_author ` set vs
        \<and> quorum_threshold c \<le> sum_list (map (stake_of c \<circ> fst) (c_votes x)))"
  using new_aggregator_run [OF assms] by blast

definition four_vote :: "256 word \<Rightarrow> vote" where
  "four_vote k = \<lparr>v_id = Digest 3, v_round = 1, v_origin = PublicKey 3, v_author = PublicKey k, v_sig = signature_default\<rparr>"

definition four_header :: header where
  "four_header = \<lparr>h_author = PublicKey 3, h_round = 1, h_payload = [], h_parents = [Digest 0], h_id = Digest 3,
     h_sig = signature_default\<rparr>"

lemma one_certificate_per_header_witness:
  "length (filter (\<lambda>r. \<exists>x. r = Inr (Some x)) (fst (agg_run (\<lambda>v. votes_append v four_committee four_header)
      [four_vote 1, four_vote 1, four_vote 3, four_vote 2, four_vote 4] votes_aggregator_new))) = 1"
  using one_certificate_per_header [OF four_sane, of four_header "[four_vote 1, four_vote 1, four_vote 3, four_vote 2, four_vote 4]"]
  by (simp add: four_vote_def stake_nat_def)

text \<open>
  What the code relies on of the batch check of ed25519-dalek: signatures that pass one by one pass
  as a batch.
\<close>

definition batch_accepts :: "crypto_lib \<Rightarrow> bool" where
  "batch_accepts L \<longleftrightarrow> (\<forall>xs. (\<forall>(m, s, k) \<in> set xs. sig_ok L s \<and> key_ok L k \<and> verify_strict L k m s) \<longrightarrow>
     dalek_verify_batch L (map fst xs) (map (fst \<circ> snd) xs) (map (snd \<circ> snd) xs))"

definition vote_for :: "header \<Rightarrow> vote \<Rightarrow> bool" where
  "vote_for h v \<longleftrightarrow> v_id v = h_id h \<and> v_origin v = h_author h \<and> v_round v = h_round h"

lemma vote_verify_Inr:
  "vote_verify L c v = Inr () \<longleftrightarrow> stake_of c (v_author v) > 0 \<and> signature_verify L (v_sig v) (vote_digest L v) (v_author v) = Inr ()"
  by (auto simp: vote_verify_def bindR_Inr_iff)

lemma verify_batch_all:
  assumes "batch_accepts L" "\<forall>(k, s) \<in> set votes. signature_verify L s d k = Inr ()"
  shows "verify_batch L d votes = Inr ()"
proof -
  let ?xs = "map (\<lambda>(k, s). (digest_to_vec d, flatten s, key_bytes k)) votes"
  have each: "sig_ok L (flatten s) \<and> key_ok L (key_bytes k) \<and> verify_strict L (key_bytes k) (digest_to_vec d) (flatten s)"
    if "(k, s) \<in> set votes" for k s
    using assms(2) that by (fastforce simp: signature_verify_def split: if_splits)
  then have "\<forall>(m, s, k) \<in> set ?xs. sig_ok L s \<and> key_ok L k \<and> verify_strict L k m s" by auto
  with assms(1) have "dalek_verify_batch L (map fst ?xs) (map (fst \<circ> snd) ?xs) (map (snd \<circ> snd) ?xs)"
    unfolding batch_accepts_def by blast
  then have "dalek_verify_batch L (map (\<lambda>_. digest_to_vec d) votes) (map (flatten \<circ> snd) votes) (map (key_bytes \<circ> fst) votes)"
    by (simp add: comp_def case_prod_unfold)
  with each show ?thesis by (auto simp: verify_batch_def batch_inputs_eq)
qed

lemma votes_append_from:
  assumes "votes_append v c h s = (r, s')" "set (va_votes s) \<subseteq> (\<lambda>v. (v_author v, v_sig v)) ` V" "v \<in> V"
  shows "set (va_votes s') \<subseteq> (\<lambda>v. (v_author v, v_sig v)) ` V"
    "r = Inr (Some x) \<Longrightarrow> c_header x = h \<and> set (c_votes x) \<subseteq> (\<lambda>v. (v_author v, v_sig v)) ` V"
  using assms by (auto simp: votes_append_def Let_def split: if_splits)

lemma votes_run_from:
  assumes "set (va_votes s) \<subseteq> (\<lambda>v. (v_author v, v_sig v)) ` V" "set vs \<subseteq> V"
    and "Inr (Some x) \<in> set (fst (agg_run (\<lambda>v. votes_append v c h) vs s))"
  shows "set (c_votes x) \<subseteq> (\<lambda>v. (v_author v, v_sig v)) ` V"
  using assms
proof (induction vs arbitrary: s)
  case (Cons v vs)
  obtain r s' where st: "votes_append v c h s = (r, s')" by fastforce
  have V: "v \<in> V" "set vs \<subseteq> V" using Cons.prems(2) by auto
  note from_V = votes_append_from [OF st Cons.prems(1) V(1)]
  show ?case
  proof (cases "r = Inr (Some x)")
    case False
    then have "Inr (Some x) \<in> set (fst (agg_run (\<lambda>v. votes_append v c h) vs s'))"
      using Cons.prems(3) st by (auto split: prod.splits)
    then show ?thesis by (rule Cons.IH [OF from_V(1) V(2)])
  qed (use from_V in blast)
qed simp

text \<open>C27. A certificate that the aggregator makes of verified votes for a verified header passes the
verification of every other node.\<close>

theorem assembled_certificate_verifies:
  assumes "sane_stake c" "batch_accepts L" "header_verify L c h = Inr ()"
    and "list_all (\<lambda>v. vote_for h v \<and> vote_verify L c v = Inr ()) vs"
    and "Inr (Some x) \<in> set (fst (agg_run (\<lambda>v. votes_append v c h) vs votes_aggregator_new))"
  shows "cert_verify L c x = Inr ()"
proof -
  have x: "c_header x = h" "distinct (map fst (c_votes x))" "quorum_threshold c \<le> sum_list (map (stake_of c \<circ> fst) (c_votes x))"
    using new_aggregator_run(2) [OF assms(1,5)] by blast+
  have sub: "set (c_votes x) \<subseteq> (\<lambda>v. (v_author v, v_sig v)) ` set vs"
    by (rule votes_run_from [OF _ _ assms(5)]) (simp_all add: votes_aggregator_new_def)
  have vote: "stake_of c n > 0 \<and> signature_verify L sg (cert_digest L x) n = Inr ()" if "(n, sg) \<in> set (c_votes x)" for n sg
  proof -
    from sub that obtain v where v: "v \<in> set vs" "n = v_author v" "sg = v_sig v" by auto
    with assms(4) have "vote_for h v" "vote_verify L c v = Inr ()" by (auto simp: list_all_iff)
    moreover from this(1) have "vote_digest L v = cert_digest L x"
      by (simp add: vote_for_def vote_digest_def vote_bytes_def cert_digest_def cert_bytes_def cert_round_def cert_origin_def x(1))
    ultimately show ?thesis using v by (simp add: vote_verify_Inr)
  qed
  then have "verify_batch L (cert_digest L x) (c_votes x) = Inr ()" using verify_batch_all [OF assms(2)] by blast
  with vote x assms(3) show ?thesis by (fastforce simp: cert_verify_Inr)
qed

lemma four_checks:
  "header_verify sample_lib four_committee four_header = Inr ()" "vote_verify sample_lib four_committee (four_vote 1) = Inr ()"
  "vote_verify sample_lib four_committee (four_vote 2) = Inr ()" "vote_verify sample_lib four_committee (four_vote 3) = Inr ()"
proof -
  have sg: "signature_verify sample_lib s d k = Inr ()" for s d k
    by (simp add: signature_verify_def sample_lib_def)
  have "header_bytes four_header = digest_to_vec (Digest 3) @ le_bytes 8 (1 :: round) @ digest_to_vec (Digest 0)"
    by (simp add: header_bytes_def four_header_def key_bytes_def digest_to_vec_def)
  then have "header_digest sample_lib four_header = h_id four_header"
    by (simp only: header_digest_def sample_lib_digest) (simp add: four_header_def)
  then show "header_verify sample_lib four_committee four_header = Inr ()"
    by (simp add: header_verify_Inr sg) (simp add: four_header_def)
  show "vote_verify sample_lib four_committee (four_vote 1) = Inr ()" "vote_verify sample_lib four_committee (four_vote 2) = Inr ()"
    "vote_verify sample_lib four_committee (four_vote 3) = Inr ()"
    by (simp_all add: vote_verify_Inr sg) (simp_all add: four_vote_def)
qed

definition four_certificate :: certificate where
  "four_certificate = \<lparr>c_header = four_header, c_votes = map (\<lambda>k. (PublicKey k, signature_default)) [1, 2, 3]\<rparr>"

lemma assembled_certificate_verifies_witness:
  "cert_verify sample_lib four_committee four_certificate = Inr ()"
proof (rule assembled_certificate_verifies [OF four_sane _ four_checks(1)])
  show "batch_accepts sample_lib" by (simp add: batch_accepts_def sample_lib_def)
  show "list_all (\<lambda>v. vote_for four_header v \<and> vote_verify sample_lib four_committee v = Inr ()) [four_vote 1, four_vote 2, four_vote 3]"
    by (simp add: four_checks) (simp add: vote_for_def four_vote_def four_header_def)
  show "Inr (Some four_certificate) \<in> set (fst (agg_run (\<lambda>v. votes_append v four_committee four_header)
      [four_vote 1, four_vote 2, four_vote 3] votes_aggregator_new))"
    by (simp add: votes_append_def Let_def votes_aggregator_new_def four_vote_def four_certificate_def)
qed



end
