(* ===== verification/NetworkLink.thy ===== *)
theory NetworkLink
  imports NetworkSender PrimaryTasks WorkerTasks "HOL-Library.Sublist"
begin

text \<open>
  A reliable connection and its peer: the connection task, TCP, and the runner that the receiver starts for
  each incoming connection. \<open>link_step\<close> interleaves them with the caller of the sender. TCP keeps the order
  of the frames and may fail at any time; frames that are under way when a connection is given up may
  still reach the old runner (\<open>strays\<close>).
\<close>

section \<open>The system\<close>

record 'st link =
  l_conn :: connection
  tcp_out :: "bytes list"
  tcp_in :: "bytes list"
  runner_up :: bool
  strays :: "bytes list list"
  l_peer :: 'st
  dispatched :: "bytes list"
  cancelled :: "nat set"
  answers :: "(nat \<times> bytes) list"
  submitted :: "inner_message list"

definition link_new :: "socket_addr \<Rightarrow> 'st \<Rightarrow> 'st link" where
  "link_new a st = \<lparr>l_conn = connection_spawn a, tcp_out = [], tcp_in = [], runner_up = False, strays = [],
     l_peer = st, dispatched = [], cancelled = {}, answers = [], submitted = []\<rparr>"

text \<open>The connection task has moved on to \<open>c\<close>; when it left \<open>keep_alive\<close> the TCP connection is dropped.\<close>

definition settle :: "connection \<Rightarrow> 'st link \<Rightarrow> 'st link" where
  "settle c s = (case n_stage c of
       KeepAlive _ \<Rightarrow> s\<lparr>l_conn := c\<rparr>
     | _ \<Rightarrow> s\<lparr>l_conn := c, strays := (if runner_up s then tcp_out s # strays s else strays s),
             tcp_out := [], tcp_in := [], runner_up := False\<rparr>)"

inductive link_step :: "'st message_handler \<Rightarrow> 'st link \<Rightarrow> 'st link \<Rightarrow> bool" for H where
  submit: "m = (data, length (submitted s)) \<Longrightarrow>
    link_step H s (s\<lparr>l_conn := n_submit m (l_conn s), submitted := submitted s @ [m]\<rparr>)"
| cancel: "link_step H s (s\<lparr>cancelled := insert h (cancelled s)\<rparr>)"
| connect: "n_stage (l_conn s) = Connecting \<Longrightarrow>
    link_step H s (s\<lparr>l_conn := connect_ok (l_conn s), tcp_out := [], tcp_in := [], runner_up := True\<rparr>)"
| refuse: "n_stage (l_conn s) = Connecting \<Longrightarrow> link_step H s (s\<lparr>l_conn := connect_failed (l_conn s)\<rparr>)"
| timer: "n_stage (l_conn s) = Waiting \<Longrightarrow> link_step H s (s\<lparr>l_conn := waiter_timer (l_conn s)\<rparr>)"
| drain: "n_stage (l_conn s) = Waiting \<Longrightarrow> n_receiver (l_conn s) = m # ms \<Longrightarrow>
    link_step H s (s\<lparr>l_conn := waiter_receive (cancelled s) m (l_conn s\<lparr>n_receiver := ms\<rparr>)\<rparr>)"
| send: "n_stage (l_conn s) = KeepAlive ps \<Longrightarrow> n_buffer (l_conn s) \<noteq> [] \<Longrightarrow>
    send_next (cancelled s) ok ps (l_conn s) = (c, out) \<Longrightarrow>
    link_step H s (settle c (s\<lparr>tcp_out := tcp_out s @ out\<rparr>))"
| take_next: "n_stage (l_conn s) = KeepAlive ps \<Longrightarrow> n_buffer (l_conn s) = [] \<Longrightarrow> n_receiver (l_conn s) = m # ms \<Longrightarrow>
    link_step H s (s\<lparr>l_conn := keep_alive_receive m (l_conn s\<lparr>n_receiver := ms\<rparr>)\<rparr>)"
| answer: "n_stage (l_conn s) = KeepAlive ps \<Longrightarrow> n_buffer (l_conn s) = [] \<Longrightarrow> tcp_in s = r # rs \<Longrightarrow>
    keep_alive_response (Some r) ps (l_conn s) = (c, as) \<Longrightarrow>
    link_step H s (settle c (s\<lparr>tcp_in := rs, answers := answers s @ filter (\<lambda>(h, _). h \<notin> cancelled s) as\<rparr>))"
| lost: "n_stage (l_conn s) = KeepAlive ps \<Longrightarrow> n_buffer (l_conn s) = [] \<Longrightarrow>
    keep_alive_response None ps (l_conn s) = (c, as) \<Longrightarrow> link_step H s (settle c s)"
| serve: "runner_up s \<Longrightarrow> tcp_out s = d # ds \<Longrightarrow> runner_frame H (Some d) (l_peer s) = (st, rs, ok) \<Longrightarrow>
    link_step H s (s\<lparr>l_peer := st, dispatched := dispatched s @ [d], tcp_out := ds, tcp_in := tcp_in s @ rs, runner_up := ok\<rparr>)"
| serve_stray: "strays s = xs @ (d # ds) # ys \<Longrightarrow> runner_frame H (Some d) (l_peer s) = (st, rs, ok) \<Longrightarrow>
    link_step H s (s\<lparr>l_peer := st, dispatched := dispatched s @ [d], strays := xs @ (if ok then [ds] else []) @ ys\<rparr>)"

section \<open>No message is lost\<close>

text \<open>\<open>flow\<close> relates the messages in flight, those submitted, the cancelled handlers and the answers: handlers are
  numbered, what is in flight keeps the order of submission, every message is in flight, cancelled or
  answered, and a message is answered once.\<close>

definition flow :: "inner_message list \<Rightarrow> inner_message list \<Rightarrow> nat set \<Rightarrow> (nat \<times> bytes) list \<Rightarrow> bool" where
  "flow fl sub cl ans \<longleftrightarrow> map snd sub = [0 ..< length sub] \<and> subseq fl sub
     \<and> (\<forall>m \<in> set sub. m \<in> set fl \<or> snd m \<in> cl \<or> snd m \<in> fst ` set ans)
     \<and> distinct (map fst ans) \<and> (\<forall>m \<in> set fl. snd m \<notin> fst ` set ans) \<and> (\<forall>a \<in> set ans. fst a < length sub)"

lemma subseq_set: "subseq xs ys \<Longrightarrow> x \<in> set xs \<Longrightarrow> x \<in> set ys"
  by (induction rule: list_emb.induct) auto

lemma flow_submit:
  assumes "flow fl sub cl ans"
  shows "flow (fl @ [(d, length sub)]) (sub @ [(d, length sub)]) cl ans"
proof -
  have "length sub \<notin> fst ` set ans" using assms by (auto simp: flow_def)
  moreover have "subseq (fl @ [(d, length sub)]) (sub @ [(d, length sub)])"
    using assms by (intro list_emb_append_mono) (auto simp: flow_def)
  ultimately show ?thesis using assms by (auto simp: flow_def)
qed

lemma flow_cancel: "flow fl sub cl ans \<Longrightarrow> flow fl sub (insert h cl) ans"
  by (auto simp: flow_def)

lemma flow_drop:
  assumes "flow fl sub cl ans" "subseq fl' fl" "\<forall>m \<in> set fl. m \<in> set fl' \<or> snd m \<in> cl"
  shows "flow fl' sub cl ans"
proof -
  have "subseq fl' sub" using assms(1,2) subseq_order.order_trans by (auto simp: flow_def)
  moreover have "\<forall>m \<in> set fl'. snd m \<notin> fst ` set ans" using assms(1) subseq_set [OF assms(2)] by (simp add: flow_def)
  moreover have "\<forall>m \<in> set sub. m \<in> set fl' \<or> snd m \<in> cl \<or> snd m \<in> fst ` set ans"
    using assms(1,3) unfolding flow_def by metis
  ultimately show ?thesis using assms(1) by (simp add: flow_def)
qed

lemma flow_answer:
  assumes "flow ((d, h) # fl) sub cl ans"
  shows "flow fl sub cl (ans @ filter (\<lambda>(h, _). h \<notin> cl) [(h, r)])"
proof -
  have sub: "subseq ((d, h) # fl) sub" and num: "map snd sub = [0 ..< length sub]" using assms by (simp_all add: flow_def)
  have "distinct (map snd sub)" using num by simp
  then have "distinct (map snd ((d, h) # fl))" using subseq_map [OF sub, of snd] subseq_conv_nths distinct_nthsI by metis
  then have h: "\<forall>m \<in> set fl. snd m \<noteq> h" by force
  have "(d, h) \<in> set sub" by (rule subseq_set [OF sub]) simp
  then have "h \<in> set (map snd sub)" by force
  then have "h < length sub" unfolding num by simp
  moreover have "subseq fl sub" using sub by (rule subseq_Cons')
  moreover have "h \<notin> fst ` set ans" using assms by (simp add: flow_def)
  moreover have "\<forall>m \<in> set sub. m \<in> set fl \<or> snd m \<in> cl \<or> snd m \<in> fst ` set (ans @ filter (\<lambda>(h, _). h \<notin> cl) [(h, r)])"
    using assms by (auto simp: flow_def)
  moreover have "\<forall>m \<in> set fl. snd m \<notin> fst ` set ans" using assms by (simp add: flow_def)
  ultimately show ?thesis using assms h by (auto simp: flow_def)
qed

definition link_inv :: "'st link \<Rightarrow> bool" where
  "link_inv s \<longleftrightarrow> flow (in_flight (l_conn s)) (submitted s) (cancelled s) (answers s) \<and> delay_ok (l_conn s)"

lemma settle_simps [simp]:
  "l_conn (settle c s) = c" "cancelled (settle c s) = cancelled s" "answers (settle c s) = answers s"
  "submitted (settle c s) = submitted s" "dispatched (settle c s) = dispatched s" "l_peer (settle c s) = l_peer s"
  by (simp_all add: settle_def split: stage.split)

lemma in_flight_drained:
  assumes "n_stage c = Waiting" "n_receiver c = m # ms"
  shows "subseq (in_flight (waiter_receive closed m (c\<lparr>n_receiver := ms\<rparr>))) (in_flight c)"
    "\<forall>x \<in> set (in_flight c). x \<in> set (in_flight (waiter_receive closed m (c\<lparr>n_receiver := ms\<rparr>))) \<or> snd x \<in> closed"
proof -
  have c: "in_flight c = (n_buffer c @ [m]) @ ms" using assms by (simp add: in_flight_def)
  show "subseq (in_flight (waiter_receive closed m (c\<lparr>n_receiver := ms\<rparr>))) (in_flight c)"
    unfolding in_flight_waiter [OF assms] c by (intro list_emb_append_mono subseq_filter_left subseq_order.order_refl)
  show "\<forall>x \<in> set (in_flight c). x \<in> set (in_flight (waiter_receive closed m (c\<lparr>n_receiver := ms\<rparr>))) \<or> snd x \<in> closed"
    unfolding in_flight_waiter [OF assms] c by auto
qed

lemma in_flight_send:
  assumes "send_next closed ok ps c = (c', out)" "n_stage c = KeepAlive ps" "n_buffer c \<noteq> []" "delay_ok c"
  shows "delay_ok c' \<and> (in_flight c' = in_flight c \<or> (\<exists>m. subseq (in_flight c') (in_flight c)
    \<and> set (in_flight c) = insert m (set (in_flight c')) \<and> snd m \<in> closed))"
proof -
  have "delay_ok c'" using delay_ok_send_next [OF assms(4), of closed ok ps] assms(1) by simp
  moreover from assms(1-3) have "in_flight c' = in_flight c \<or> (\<exists>m. subseq (in_flight c') (in_flight c)
    \<and> set (in_flight c) = insert m (set (in_flight c')) \<and> snd m \<in> closed)"
  proof (cases rule: send_next_cases)
    case (skip d h b)
    have "subseq (ps @ b @ n_receiver c) (ps @ (d, h) # b @ n_receiver c)"
      by (intro list_emb_append_mono list_emb_Cons subseq_order.order_refl)
    with skip assms(2) show ?thesis by (intro disjI2 exI [of _ "(d, h)"]) (auto simp: in_flight_def)
  qed (use assms(2) in \<open>auto simp: in_flight_def\<close>)
  ultimately show ?thesis by simp
qed

lemma link_inv_step:
  assumes "link_step H s s'" "link_inv s"
  shows "link_inv s'"
  using assms
proof (induction rule: link_step.induct)
  case (submit m data s)
  then show ?case using flow_submit by (simp add: link_inv_def)
next
  case (cancel s h)
  then show ?case using flow_cancel by (simp add: link_inv_def)
next
  case (drain s m ms)
  then show ?case
    using flow_drop [OF _ in_flight_drained [OF drain(1,2), of "cancelled s"]] by (simp add: link_inv_def)
next
  case (send s ps ok c out)
  have fl: "flow (in_flight (l_conn s)) (submitted s) (cancelled s) (answers s)" using send(4) by (simp add: link_inv_def)
  have "delay_ok c \<and> flow (in_flight c) (submitted s) (cancelled s) (answers s)"
    using in_flight_send [OF send(3,1,2)] send(4) flow_drop [OF fl, of "in_flight c"] by (auto simp: link_inv_def)
  then show ?case by (simp add: link_inv_def)
next
  case (answer s ps r rs c as)
  have del: "delay_ok c" using delay_ok_response [of "l_conn s" "Some r" ps] answer by (simp add: link_inv_def)
  have fl: "flow (in_flight (l_conn s)) (submitted s) (cancelled s) (answers s)" using answer(5) by (simp add: link_inv_def)
  from answer(4,1) show ?case
  proof (cases rule: response_cases)
    case (answered d h qs bs)
    have "in_flight (l_conn s) = (d, h) # in_flight c" using answered answer(1) by (simp add: in_flight_def)
    then have "flow (in_flight c) (submitted s) (cancelled s) (answers s @ filter (\<lambda>(h, _). h \<notin> cancelled s) as)"
      unfolding answered(3) by (intro flow_answer [of d]) (use fl in simp)
    with del show ?thesis by (simp add: link_inv_def)
  next
    case failed
    then show ?thesis using fl del by (simp add: link_inv_def)
  qed
next
  case (lost s ps c as)
  have del: "delay_ok c" using delay_ok_response [of "l_conn s" None ps] lost by (simp add: link_inv_def)
  from lost(3,1) show ?case
    by (cases rule: response_cases) (use lost(4) del in \<open>simp_all add: link_inv_def\<close>)
qed (simp_all add: link_inv_def)

lemma link_inv_new: "link_inv (link_new a st)"
  by (simp add: link_inv_def flow_def link_new_def in_flight_def connection_spawn_def delay_ok_def)

lemma link_inv_reachable: "(link_step H)\<^sup>*\<^sup>* (link_new a st) s \<Longrightarrow> link_inv s"
  by (induction rule: rtranclp_induct) (auto intro: link_inv_new link_inv_step)

section \<open>What an acknowledgement is worth\<close>

text \<open>The acknowledgements on their way and the frames not yet read account for \<open>pending_replies\<close>, in order.\<close>

definition peer_inv :: "'st link \<Rightarrow> bool" where
  "peer_inv s \<longleftrightarrow> (\<forall>ps. n_stage (l_conn s) = KeepAlive ps \<longrightarrow>
       (\<exists>A B. map fst ps = A @ B \<and> length A = length (tcp_in s) \<and> set A \<subseteq> set (dispatched s) \<and> (runner_up s \<longrightarrow> B = tcp_out s)))
     \<and> (\<forall>h \<in> fst ` set (answers s). \<exists>d \<in> set (dispatched s). (d, h) \<in> set (submitted s))"

definition same_requests :: "'st link \<Rightarrow> 'st link \<Rightarrow> bool" where
  "same_requests s s' \<longleftrightarrow> submitted s' = submitted s \<and> cancelled s' = cancelled s"

text \<open>A connection whose peer still reads.\<close>

definition live :: "'st link \<Rightarrow> bool" where
  "live s \<longleftrightarrow> (\<exists>ps. n_stage (l_conn s) = KeepAlive ps \<and> length (tcp_in s) + length (tcp_out s) = length ps) \<and> runner_up s"

definition work :: "'st link \<Rightarrow> nat" where
  "work s = 4 * length (n_receiver (l_conn s)) + 3 * length (n_buffer (l_conn s)) + 2 * length (tcp_out s) + length (tcp_in s)"

lemma settle_keep [simp]: "n_stage c = KeepAlive ps \<Longrightarrow> settle c s = s\<lparr>l_conn := c\<rparr>"
  by (simp add: settle_def)

lemma peer_inv_idle:
  assumes "peer_inv s" "\<And>ps. n_stage (l_conn s') \<noteq> KeepAlive ps" "answers s' = answers s" "submitted s' = submitted s" "dispatched s' = dispatched s"
  shows "peer_inv s'"
  using assms by (simp add: peer_inv_def)

lemma peer_inv_more:
  assumes I: "peer_inv s" and "l_conn s' = l_conn s" "tcp_in s' = tcp_in s" "tcp_out s' = tcp_out s" "runner_up s' = runner_up s"
    "answers s' = answers s" "submitted s' = submitted s" and more: "set (dispatched s) \<subseteq> set (dispatched s')"
  shows "peer_inv s'"
  unfolding peer_inv_def assms(2-7)
proof (intro conjI allI impI ballI)
  fix ps assume "n_stage (l_conn s) = KeepAlive ps"
  then obtain A B where "map fst ps = A @ B" "length A = length (tcp_in s)" "set A \<subseteq> set (dispatched s)" "runner_up s \<longrightarrow> B = tcp_out s"
    using I by (auto simp: peer_inv_def)
  then show "\<exists>A B. map fst ps = A @ B \<and> length A = length (tcp_in s) \<and> set A \<subseteq> set (dispatched s') \<and> (runner_up s \<longrightarrow> B = tcp_out s)"
    using subset_trans [OF _ more] by blast
next
  fix h assume "h \<in> fst ` set (answers s)"
  then show "\<exists>d \<in> set (dispatched s'). (d, h) \<in> set (submitted s)" using I more unfolding peer_inv_def by blast
qed

lemma in_flight_submitted: "link_inv s \<Longrightarrow> m \<in> set (in_flight (l_conn s)) \<Longrightarrow> m \<in> set (submitted s)"
  by (auto simp: link_inv_def flow_def dest: subseq_set)

text \<open>The interface between the receiver and its handlers: one reply for each message.\<close>

locale acking_handler =
  fixes dispatch :: "'st message_handler"
  assumes one_reply: "dispatch m st = (st', rs, ok) \<Longrightarrow> length rs = 1"
begin

lemma peer_inv_step:
  assumes "link_step dispatch s s'" "peer_inv s" "link_inv s"
  shows "peer_inv s'"
  using assms
proof (induction rule: link_step.induct)
  case (submit m data s)
  then show ?case by (fastforce simp: peer_inv_def n_submit_def)
next
  case (connect s)
  then show ?case by (simp add: peer_inv_def connect_ok_def)
next
  case (refuse s)
  then show ?case by (intro peer_inv_idle [OF refuse(2)]) (simp_all add: connect_failed_def)
next
  case (timer s)
  then show ?case by (intro peer_inv_idle [OF timer(2)]) (simp_all add: waiter_timer_def)
next
  case (drain s m ms)
  then show ?case by (intro peer_inv_idle [OF drain(3)]) (simp_all add: waiter_receive_def)
next
  case (send s ps ok c out)
  from send(3,1,2) show ?case
  proof (cases rule: send_next_cases)
    case (skip d h b)
    then show ?thesis using send(1,4) by (simp add: peer_inv_def)
  next
    case (sent d h b)
    obtain A B where "map fst ps = A @ B" "length A = length (tcp_in s)" "set A \<subseteq> set (dispatched s)" "runner_up s \<longrightarrow> B = tcp_out s"
      using send(1,4) by (auto simp: peer_inv_def)
    then have "\<exists>A B. map fst (ps @ [(d, h)]) = A @ B \<and> length A = length (tcp_in s) \<and> set A \<subseteq> set (dispatched s)
        \<and> (runner_up s \<longrightarrow> B = tcp_out s @ [d])"
      by (intro exI [of _ A] exI [of _ "B @ [d]"]) simp
    with sent send(4) show ?thesis by (simp add: peer_inv_def)
  next
    case failed
    then show ?thesis by (intro peer_inv_idle [OF send(4)]) simp_all
  qed
next
  case (take_next s ps m ms)
  then show ?case by (simp add: peer_inv_def keep_alive_receive_def)
next
  case (answer s ps r rs c as)
  from answer(4,1) show ?case
  proof (cases rule: response_cases)
    case (answered d h qs bs)
    obtain A B where AB: "map fst ps = A @ B" "length A = length (tcp_in s)" "set A \<subseteq> set (dispatched s)" "runner_up s \<longrightarrow> B = tcp_out s"
      using answer(1,5) by (auto simp: peer_inv_def)
    then obtain A' where A: "A = d # A'" "map fst qs = A' @ B" "length A' = length rs" using answered(2) answer(3) by (cases A) auto
    have "(d, h) \<in> set (submitted s)" by (rule in_flight_submitted [OF answer(6)]) (simp add: in_flight_def answer(1) answered(2))
    with answered answer(5) A AB show ?thesis by (auto simp: peer_inv_def)
  next
    case failed
    then show ?thesis by (intro peer_inv_idle [OF answer(5)]) simp_all
  qed
next
  case (lost s ps c as)
  from lost(3,1) show ?case
    by (cases rule: response_cases) (auto intro: peer_inv_idle [OF lost(4)])
next
  case (serve s d ds st rs ok)
  have "length rs = 1" using serve(3) one_reply by (simp add: runner_frame_def)
  then obtain r where rs: "rs = [r]" by (cases rs) auto
  have "\<exists>A B. map fst ps = A @ B \<and> length A = Suc (length (tcp_in s)) \<and> set A \<subseteq> set (dispatched s @ [d]) \<and> (ok \<longrightarrow> B = ds)"
    if ps: "n_stage (l_conn s) = KeepAlive ps" for ps
  proof -
    obtain A where "map fst ps = A @ d # ds" "length A = length (tcp_in s)" "set A \<subseteq> set (dispatched s)"
      using serve(1,2,4) ps by (auto simp: peer_inv_def)
    then show ?thesis by (intro exI [of _ "A @ [d]"] exI [of _ ds]) auto
  qed
  with serve(4) rs show ?case by (auto simp: peer_inv_def)
next
  case (serve_stray s xs d ds ys st rs ok)
  then show ?case by (intro peer_inv_more [OF serve_stray(3)]) auto
qed (simp_all add: peer_inv_def)

lemma link_safe:
  assumes "(link_step dispatch)\<^sup>*\<^sup>* (link_new a st) s"
  shows "link_inv s \<and> peer_inv s"
  using assms
proof (induction rule: rtranclp_induct)
  case base
  show ?case using link_inv_new by (simp add: peer_inv_def link_new_def connection_spawn_def)
qed (auto intro: link_inv_step peer_inv_step)

end

section \<open>Delivery is always possible\<close>

text \<open>From every state the peer can be reached again, and then everything that was not cancelled goes through.\<close>

lemma same_requests_refl [simp]: "same_requests s s"
  by (simp add: same_requests_def)

lemma same_requests_trans: "same_requests s t \<Longrightarrow> same_requests t u \<Longrightarrow> same_requests s u"
  by (simp add: same_requests_def)

lemma same_requests_settle [simp]: "same_requests s (settle c s')= same_requests s s'"
  by (simp add: same_requests_def)

lemma leave_keep_alive:
  assumes "n_stage (l_conn s) = KeepAlive ps"
  shows "\<exists>s'. (link_step H)\<^sup>*\<^sup>* s s' \<and> same_requests s s' \<and> n_stage (l_conn s') = Connecting"
  using assms
proof (induction "length (n_buffer (l_conn s))" arbitrary: s)
  case 0
  obtain c as where r: "keep_alive_response None ps (l_conn s) = (c, as)" by force
  then have "link_step H s (settle c s)" by (intro lost) (use 0 in auto)
  moreover from r 0(2) have "n_stage c = Connecting" by (cases rule: response_cases) auto
  ultimately show ?case by (intro exI [of _ "settle c s"]) simp
next
  case (Suc k)
  obtain c out where r: "send_next (cancelled s) False ps (l_conn s) = (c, out)" by force
  have ne: "n_buffer (l_conn s) \<noteq> []" using Suc(2) by auto
  let ?t = "settle c (s\<lparr>tcp_out := tcp_out s @ out\<rparr>)"
  have st: "link_step H s ?t" by (rule send [OF Suc(3) ne r])
  have same: "same_requests s ?t" by (simp add: same_requests_def)
  from r Suc(3) ne show ?case
  proof (cases rule: send_next_cases)
    case (skip d h b)
    then have "k = length (n_buffer (l_conn ?t))" "n_stage (l_conn ?t) = KeepAlive ps" using Suc(2,3) by simp_all
    from Suc(1) [OF this] obtain s' where "(link_step H)\<^sup>*\<^sup>* ?t s'" "same_requests ?t s'" "n_stage (l_conn s') = Connecting" by blast
    with st same show ?thesis by (meson converse_rtranclp_into_rtranclp same_requests_trans)
  next
    case (sent d h b)
    with r show ?thesis by (simp add: send_next_def keep_alive_end_def Let_def)
  next
    case failed
    with st same show ?thesis by (intro exI [of _ ?t]) simp
  qed
qed

lemma reconnect:
  "\<exists>s'. (link_step H)\<^sup>*\<^sup>* s s' \<and> same_requests s s' \<and> live s'"
proof -
  have go: "link_step H t (t\<lparr>l_conn := connect_ok (l_conn t), tcp_out := [], tcp_in := [], runner_up := True\<rparr>)
      \<and> same_requests t (t\<lparr>l_conn := connect_ok (l_conn t), tcp_out := [], tcp_in := [], runner_up := True\<rparr>)
      \<and> live (t\<lparr>l_conn := connect_ok (l_conn t), tcp_out := [], tcp_in := [], runner_up := True\<rparr>)"
    if "n_stage (l_conn t) = Connecting" for t
    using connect [OF that] by (simp add: live_def connect_ok_def same_requests_def)
  have "\<exists>t. (link_step H)\<^sup>*\<^sup>* s t \<and> same_requests s t \<and> n_stage (l_conn t) = Connecting"
  proof (cases "n_stage (l_conn s)")
    case Connecting
    then show ?thesis by (intro exI [of _ s]) simp
  next
    case Waiting
    have "n_stage (l_conn (s\<lparr>l_conn := waiter_timer (l_conn s)\<rparr>)) = Connecting" by (simp add: waiter_timer_def)
    with timer [OF Waiting, of H] show ?thesis by (intro exI [of _ "s\<lparr>l_conn := waiter_timer (l_conn s)\<rparr>"]) (simp add: same_requests_def)
  next
    case (KeepAlive ps)
    then show ?thesis by (rule leave_keep_alive)
  qed
  then obtain t where t: "(link_step H)\<^sup>*\<^sup>* s t" "same_requests s t" "n_stage (l_conn t) = Connecting" by blast
  show ?thesis using rtranclp.rtrancl_into_rtrancl [OF t(1)] go [OF t(3)] same_requests_trans [OF t(2)] by blast
qed

locale total_handler = acking_handler dispatch for dispatch :: "'st message_handler" +
  assumes accepts: "dispatch m st = (st', rs, ok) \<Longrightarrow> ok"
begin

text \<open>One step of a live connection on which nothing fails.\<close>

lemma live_step:
  assumes "live s" "in_flight (l_conn s) \<noteq> []"
  shows "\<exists>s'. link_step dispatch s s' \<and> same_requests s s' \<and> live s' \<and> work s' < work s"
proof -
  obtain ps where ps: "n_stage (l_conn s) = KeepAlive ps" and len: "length (tcp_in s) + length (tcp_out s) = length ps"
    and up: "runner_up s" using assms(1) by (auto simp: live_def)
  consider (send) "n_buffer (l_conn s) \<noteq> []"
    | (take) m ms where "n_buffer (l_conn s) = []" "n_receiver (l_conn s) = m # ms"
    | (serve) d ds where "tcp_out s = d # ds"
    | (answer) r rs where "n_buffer (l_conn s) = []" "n_receiver (l_conn s) = []" "tcp_in s = r # rs" "tcp_out s = []"
    using assms(2) len ps by (cases "n_buffer (l_conn s)"; cases "n_receiver (l_conn s)"; cases "tcp_out s"; cases "tcp_in s")
      (auto simp: in_flight_def)
  then show ?thesis
  proof cases
    case send
    obtain c out where r: "send_next (cancelled s) True ps (l_conn s) = (c, out)" by force
    let ?t = "settle c (s\<lparr>tcp_out := tcp_out s @ out\<rparr>)"
    have "link_step dispatch s ?t" using ps send r by (rule link_step.send)
    moreover from r ps send have "live ?t \<and> work ?t < work s"
    proof (cases rule: send_next_cases)
      case (skip d h b)
      then show ?thesis using ps len up by (simp add: live_def work_def)
    next
      case (sent d h b)
      then show ?thesis using len up by (simp add: live_def work_def)
    next
      case failed
      with r ps send show ?thesis by (auto simp: send_next_def Let_def split: list.splits if_splits)
    qed
    ultimately show ?thesis by (intro exI [of _ ?t]) (simp add: same_requests_def)
  next
    case (take m ms)
    let ?t = "s\<lparr>l_conn := keep_alive_receive m (l_conn s\<lparr>n_receiver := ms\<rparr>)\<rparr>"
    have "link_step dispatch s ?t" using ps take by (rule link_step.take_next)
    with take ps len up show ?thesis by (intro exI [of _ ?t]) (simp add: same_requests_def live_def work_def keep_alive_receive_def)
  next
    case (serve d ds)
    obtain st rs ok where r: "dispatch d (l_peer s) = (st, rs, ok)" by (cases "dispatch d (l_peer s)") auto
    let ?t = "s\<lparr>l_peer := st, dispatched := dispatched s @ [d], tcp_out := ds, tcp_in := tcp_in s @ rs, runner_up := ok\<rparr>"
    have "link_step dispatch s ?t" by (rule link_step.serve [OF up serve]) (simp add: runner_frame_def r)
    with serve ps len one_reply [OF r] accepts [OF r] show ?thesis
      by (intro exI [of _ ?t]) (simp add: same_requests_def live_def work_def)
  next
    case (answer r rs)
    obtain d h qs where q: "ps = (d, h) # qs" using answer(3) len by (cases ps) auto
    let ?c = "l_conn s\<lparr>n_stage := KeepAlive qs\<rparr>"
    let ?t = "settle ?c (s\<lparr>tcp_in := rs, answers := answers s @ filter (\<lambda>(h, _). h \<notin> cancelled s) [(h, r)]\<rparr>)"
    have "link_step dispatch s ?t"
      by (rule link_step.answer [OF ps answer(1,3)]) (simp add: keep_alive_response_def q)
    with answer q len up show ?thesis by (intro exI [of _ ?t]) (simp add: same_requests_def live_def work_def)
  qed
qed

lemma live_completes:
  assumes "live s"
  shows "\<exists>s'. (link_step dispatch)\<^sup>*\<^sup>* s s' \<and> same_requests s s' \<and> in_flight (l_conn s') = []"
  using assms
proof (induction "work s" arbitrary: s rule: less_induct)
  case less
  show ?case
  proof (cases "in_flight (l_conn s) = []")
    case False
    from live_step [OF less(2) this] obtain t where t: "link_step dispatch s t" "same_requests s t" "live t" "work t < work s" by blast
    from less(1) [OF t(4,3)] obtain s' where "(link_step dispatch)\<^sup>*\<^sup>* t s'" "same_requests t s'" "in_flight (l_conn s') = []" by blast
    with t show ?thesis by (meson converse_rtranclp_into_rtranclp same_requests_trans)
  qed (intro exI [of _ s], simp)
qed

lemma deliverable:
  assumes "(link_step dispatch)\<^sup>*\<^sup>* (link_new a st) s"
  shows "\<exists>s'. (link_step dispatch)\<^sup>*\<^sup>* s s' \<and> same_requests s s'
    \<and> (\<forall>(d, h) \<in> set (submitted s). h \<notin> cancelled s \<longrightarrow> h \<in> fst ` set (answers s') \<and> d \<in> set (dispatched s'))"
proof -
  obtain t where t: "(link_step dispatch)\<^sup>*\<^sup>* s t" "same_requests s t" "live t" using reconnect by blast
  obtain s' where s': "(link_step dispatch)\<^sup>*\<^sup>* t s'" "same_requests t s'" "in_flight (l_conn s') = []"
    using live_completes [OF t(3)] by blast
  have run: "(link_step dispatch)\<^sup>*\<^sup>* s s'" and same: "same_requests s s'" using t s' by (auto intro: same_requests_trans)
  have inv: "link_inv s'" "peer_inv s'" using link_safe [OF rtranclp_trans [OF assms run]] by auto
  have fate: "\<forall>m \<in> set (submitted s'). snd m \<in> cancelled s' \<or> snd m \<in> fst ` set (answers s')"
    using inv(1) s'(3) by (simp add: link_inv_def flow_def)
  have "h \<in> fst ` set (answers s') \<and> d \<in> set (dispatched s')" if m: "(d, h) \<in> set (submitted s)" "h \<notin> cancelled s" for d h
  proof -
    have m': "(d, h) \<in> set (submitted s')" "h \<notin> cancelled s'" using m same by (simp_all add: same_requests_def)
    then have h: "h \<in> fst ` set (answers s')" using bspec [OF fate m'(1)] m'(2) by simp
    then obtain d' where "d' \<in> set (dispatched s')" "(d', h) \<in> set (submitted s')" using inv(2) unfolding peer_inv_def by blast
    moreover have "inj_on snd (set (submitted s'))" using inv(1) distinct_upt distinct_map unfolding link_inv_def flow_def by metis
    ultimately have "d \<in> set (dispatched s')" using inj_onD [of snd "set (submitted s')" "(d, h)" "(d', h)"] m'(1) by simp
    with h show ?thesis by simp
  qed
  with run same show ?thesis by blast
qed

end

section \<open>The handlers of the repository\<close>

text \<open>The two handlers that acknowledge reply before they deserialize. The one of the primaries returns an error
  on a message that does not deserialize, which ends the connection; the one of the workers logs it.\<close>

definition ack_bytes :: bytes where
  "ack_bytes = [65, 99, 107]"

definition primary_handler :: "(bytes \<Rightarrow> primary_message option) \<Rightarrow>
    (primary_message list \<times> (digest list \<times> public_key) list) message_handler" where
  "primary_handler de serialized chans =
     (case de serialized of
        Some m \<Rightarrow> (primary_dispatch m chans, [ack_bytes], True)
      | None \<Rightarrow> (chans, [ack_bytes], False))"

definition worker_handler :: "'db worker \<Rightarrow> ((digest list \<times> public_key) list \<times> bytes list) message_handler" where
  "worker_handler W serialized chans = (worker_receive W serialized chans, [ack_bytes], True)"

interpretation ph: acking_handler "primary_handler de" for de
  by unfold_locales (auto simp: primary_handler_def split: option.splits)

interpretation wh: total_handler "worker_handler W" for W
  by unfold_locales (auto simp: worker_handler_def)

text \<open>C24. A connection of the reliable sender to another primary, with any failures of TCP in between: a cancel
  handler is resolved at most once, and only after the peer has dispatched its message; every other
  message is still held, unless its caller gave it up; and the messages held are in the order in which they
  were submitted, so that they are sent again in that order.\<close>

theorem reliable_sender_safe:
  assumes "(link_step (primary_handler de))\<^sup>*\<^sup>* (link_new a chans) s"
  shows "distinct (map fst (answers s)) \<and> (\<forall>h \<in> fst ` set (answers s). \<exists>d \<in> set (dispatched s). (d, h) \<in> set (submitted s))
    \<and> (\<forall>m \<in> set (submitted s). m \<in> set (in_flight (l_conn s)) \<or> snd m \<in> cancelled s \<or> snd m \<in> fst ` set (answers s))
    \<and> subseq (in_flight (l_conn s)) (submitted s)"
  using ph.link_safe [OF assms] by (simp add: link_inv_def flow_def peer_inv_def)

text \<open>A run: the first connection is refused, the message is submitted while the timer runs, and the acknowledgement
  arrives over the second one.\<close>

definition demo_link :: "'st message_handler \<Rightarrow> 'st \<Rightarrow> 'st link" where
  "demo_link H st =
     (link_new (SocketAddr 0 0) st)
       \<lparr>l_conn := connect_ok (waiter_timer (n_submit ([7], 0) (connect_failed (connection_spawn (SocketAddr 0 0))))),
        runner_up := True, submitted := [([7], 0)]\<rparr>"

lemmas link_eval = n_defs link_new_def connection_spawn_def runner_frame_def

lemma demo_link_run:
  assumes "H [7] st = (st', [r], True)"
  shows "\<exists>s. (link_step H)\<^sup>*\<^sup>* (link_new (SocketAddr 0 0) st) s \<and> submitted s = [([7], 0)] \<and> answers s = [(0, r)] \<and> cancelled s = {}"
proof -
  let ?c0 = "connection_spawn (SocketAddr 0 0)"
  let ?s0 = "link_new (SocketAddr 0 0) st"
  let ?s1 = "?s0\<lparr>l_conn := connect_failed ?c0\<rparr>"
  let ?s2 = "?s1\<lparr>l_conn := n_submit ([7], 0) (connect_failed ?c0), submitted := [([7], 0)]\<rparr>"
  let ?s3 = "?s2\<lparr>l_conn := waiter_timer (n_submit ([7], 0) (connect_failed ?c0))\<rparr>"
  let ?s4 = "demo_link H st"
  let ?c5 = "keep_alive_receive ([7], 0) (l_conn ?s4\<lparr>n_receiver := []\<rparr>)"
  let ?s5 = "?s4\<lparr>l_conn := ?c5\<rparr>"
  let ?c6 = "?c5\<lparr>n_buffer := [], n_stage := KeepAlive [([7], 0)]\<rparr>"
  let ?s6 = "?s5\<lparr>l_conn := ?c6, tcp_out := [[7]]\<rparr>"
  let ?s7 = "?s6\<lparr>l_peer := st', dispatched := [[7]], tcp_out := [], tcp_in := [r]\<rparr>"
  let ?s8 = "?s7\<lparr>l_conn := ?c6\<lparr>n_stage := KeepAlive []\<rparr>, tcp_in := [], answers := [(0, r)]\<rparr>"
  have 1: "link_step H ?s0 ?s1" using refuse [of ?s0 H] by (simp add: link_eval)
  have 2: "link_step H ?s1 ?s2" using submit [of "([7], 0)" "[7]" ?s1 H] by (simp add: link_eval)
  have 3: "link_step H ?s2 ?s3" using timer [of ?s2 H] by (simp add: link_eval)
  have 4: "link_step H ?s3 ?s4" using connect [of ?s3 H] by (simp add: link_eval demo_link_def)
  have 5: "link_step H ?s4 ?s5" using take_next [of ?s4 "[]" "([7], 0)" "[]" H] by (simp add: link_eval demo_link_def)
  have 6: "link_step H ?s5 ?s6" using send [of ?s5 "[]" True ?c6 "[[7]]" H] by (simp add: link_eval demo_link_def)
  have 7: "link_step H ?s6 ?s7" using serve [of ?s6 "[7]" "[]" H st' "[r]" True] assms by (simp add: link_eval demo_link_def)
  have 8: "link_step H ?s7 ?s8"
    using answer [of ?s7 "[([7], 0)]" r "[]" "?c6\<lparr>n_stage := KeepAlive []\<rparr>" "[(0, r)]" H] by (simp add: link_eval demo_link_def)
  have "(link_step H)\<^sup>*\<^sup>* ?s0 ?s8"
    using 1 2 3 4 5 6 7 8 by (meson r_into_rtranclp rtranclp.rtrancl_into_rtrancl)
  then show ?thesis by (intro exI [of _ ?s8]) (simp add: demo_link_def link_new_def)
qed

lemma reliable_sender_safe_witness:
  "\<exists>s. (link_step (primary_handler (\<lambda>_. Some (PHeader header_default))))\<^sup>*\<^sup>* (link_new (SocketAddr 0 0) ([], [])) s
     \<and> fst ` set (answers s) = {0} \<and> (\<exists>d \<in> set (dispatched s). (d, 0) \<in> set (submitted s))"
proof -
  let ?H = "primary_handler (\<lambda>_. Some (PHeader header_default))"
  have "?H [7] ([], []) = (([PHeader header_default], []), [ack_bytes], True)"
    by (simp add: primary_handler_def primary_dispatch_def)
  from demo_link_run [of ?H, OF this] obtain s where "(link_step ?H)\<^sup>*\<^sup>* (link_new (SocketAddr 0 0) ([], [])) s" "answers s = [(0, ack_bytes)]"
    by blast
  with reliable_sender_safe [OF this(1)] show ?thesis by (intro exI [of _ s]) auto
qed

text \<open>C25. Whatever has happened to a connection between two workers, it can still deliver: from every state it
  reaches there is a continuation after which every message that was submitted and not cancelled has been
  dispatched by the peer and its handler is resolved.\<close>

theorem reliable_sender_delivers:
  assumes "(link_step (worker_handler W))\<^sup>*\<^sup>* (link_new a chans) s"
  shows "\<exists>s'. (link_step (worker_handler W))\<^sup>*\<^sup>* s s' \<and> submitted s' = submitted s
    \<and> (\<forall>(d, h) \<in> set (submitted s). h \<notin> cancelled s \<longrightarrow> h \<in> fst ` set (answers s') \<and> d \<in> set (dispatched s'))"
  using wh.deliverable [OF assms] unfolding same_requests_def by blast

lemma reliable_sender_delivers_witness:
  "\<exists>s s'. (link_step (worker_handler sample_worker))\<^sup>*\<^sup>* (link_new (SocketAddr 0 0) ([], [])) s \<and> ([7], 0) \<in> set (submitted s)
     \<and> (link_step (worker_handler sample_worker))\<^sup>*\<^sup>* s s' \<and> [7] \<in> set (dispatched s')"
proof -
  let ?H = "worker_handler sample_worker"
  have "?H [7] ([], []) = (worker_receive sample_worker [7] ([], []), [ack_bytes], True)" by (simp add: worker_handler_def)
  from demo_link_run [of ?H, OF this] obtain s where s: "(link_step ?H)\<^sup>*\<^sup>* (link_new (SocketAddr 0 0) ([], [])) s"
    "submitted s = [([7], 0)]" "cancelled s = {}" by blast
  from reliable_sender_delivers [OF s(1)] obtain s' where "(link_step ?H)\<^sup>*\<^sup>* s s'" "[7] \<in> set (dispatched s')"
    using s(2,3) by auto
  with s show ?thesis by (intro exI [of _ s] exI [of _ s']) simp
qed

end
