(* ===== verification/Replays.thy ===== *)
theory Replays
  imports NodePipeline ConsensusRuns
begin

text \<open>
  What happens without the hypothesis that no certificate is delivered twice. The core keeps no record of
  what it has handed to the consensus, so a certificate that arrives again is handed over again; and the
  consensus, which forgets what it has committed below the last round of an author, commits it again.
\<close>

section \<open>The core delivers again\<close>

text \<open>A certificate that comes twice within \<open>gc_depth\<close> goes to the consensus twice.\<close>

lemma core_delivers_again:
  "\<exists>s. node_run demo_node
     [CoreTurn (FromCertificateWaiter (demo_cert 2 11 1 (- 1) [])) 0,
      CoreTurn (FromCertificateWaiter (demo_cert 2 11 1 (- 1) [])) 0] (core_new Map.empty) = Inr s
    \<and> tx_consensus s = [demo_cert 2 11 1 (- 1) [], demo_cert 2 11 1 (- 1) []]"
  by (simp add: demo_eval process_header.simps(2) [of 5, unfolded Suc_numeral add_num_simps])

section \<open>The consensus commits again\<close>

text \<open>Two authorities: the first has a quorum alone and leads the even rounds, the second has one certificate.\<close>

definition duo_committee :: committee where
  "duo_committee = \<lparr>authorities =
     [(PublicKey 1, \<lparr>auth_stake = 3, auth_primary = \<lparr>primary_to_primary = SocketAddr 1 0, worker_to_primary = SocketAddr 1 1\<rparr>, auth_workers = []\<rparr>),
      (PublicKey 2, \<lparr>auth_stake = 1, auth_primary = \<lparr>primary_to_primary = SocketAddr 2 0, worker_to_primary = SocketAddr 2 1\<rparr>, auth_workers = []\<rparr>)]\<rparr>"

definition duo_cert :: "256 word \<Rightarrow> round \<Rightarrow> 256 word \<Rightarrow> 256 word list \<Rightarrow> certificate" where
  "duo_cert k r i ps = \<lparr>c_header = \<lparr>h_author = PublicKey k, h_round = r, h_payload = [],
     h_parents = map Digest ps, h_id = Digest i, h_sig = signature_default\<rparr>, c_votes = []\<rparr>"

lemma duo_simps [simp]:
  "cert_round (duo_cert k r i ps) = r" "cert_origin (duo_cert k r i ps) = PublicKey k"
  "cert_digest sample_lib (duo_cert k r i ps) = Digest i" "h_parents (c_header (duo_cert k r i ps)) = map Digest ps"
  "h_id (c_header (duo_cert k r i ps)) = Digest i"
  by (simp_all add: duo_cert_def cert_round_def cert_origin_def sample_lib_cert_digest)

lemma duo_committee_simps [simp]:
  "genesis duo_committee = [\<lparr>c_header = header_default\<lparr>h_author := PublicKey 1\<rparr>, c_votes = []\<rparr>,
     \<lparr>c_header = header_default\<lparr>h_author := PublicKey 2\<rparr>, c_votes = []\<rparr>]"
  "leader_name duo_committee 2 = Inr (PublicKey 1)" "leader_name duo_committee 4 = Inr (PublicKey 1)"
  "stake_of duo_committee (PublicKey 1) = 3" "stake_of duo_committee (PublicKey 2) = 1"
  "validity_threshold duo_committee = 2"
  by (simp_all add: duo_committee_def leader_name_def size_of_def genesis_def stake_of_def validity_threshold_def
      total_votes_def less_public_key_def less_eq_public_key_def numeral_2_eq_2 [symmetric])

definition duo_deliveries :: "certificate list" where
  "duo_deliveries = [duo_cert 1 1 1 [0], duo_cert 1 2 2 [1], duo_cert 2 2 102 [1], duo_cert 1 3 3 [2, 102], duo_cert 1 4 4 [3],
     duo_cert 1 5 5 [4], duo_cert 1 1 1 [0], duo_cert 1 6 6 [5], duo_cert 1 7 7 [6]]"

abbreviation duo_entry :: "256 word \<Rightarrow> round \<Rightarrow> 256 word \<Rightarrow> 256 word list \<Rightarrow> public_key \<times> digest \<times> certificate" where
  "duo_entry k r i ps \<equiv> (PublicKey k, Digest i, duo_cert k r i ps)"

text \<open>The state with the DAG \<open>d\<close>, in which the first authority was last committed in round \<open>r\<close>.\<close>

abbreviation duo_state :: "dag \<Rightarrow> round \<Rightarrow> round \<Rightarrow> certificate list \<Rightarrow> committed_sub_dag list \<Rightarrow> consensus" where
  "duo_state d r q prim out \<equiv> run_state d r [(PublicKey 1, r), (PublicKey 2, q)] prim out"

lemma duo_quiet:
  assumes "cert_round x \<noteq> 0" "(cert_round x - 1) mod 2 \<noteq> 0 \<or> cert_round x - 1 < 4"
  shows "Consensus.process_certificate sample_lib duo_committee 50 x (duo_state d r q prim out)
    = Inr (duo_state (insert_certificate sample_lib x d) r q prim out)"
  by (rule quiet_turn [OF assms(1) refl]) (use assms(2) in \<open>elim disjE; simp\<close>)

abbreviation duo_genesis :: "256 word \<Rightarrow> public_key \<times> digest \<times> certificate" where
  "duo_genesis k \<equiv> (PublicKey k, Digest 0, \<lparr>c_header = header_default\<lparr>h_author := PublicKey k\<rparr>, c_votes = []\<rparr>)"

abbreviation duo_upper :: dag where
  "duo_upper \<equiv> [(2, [duo_entry 1 2 2 [1], duo_entry 2 2 102 [1]]), (3, [duo_entry 1 3 3 [2, 102]]), (4, [duo_entry 1 4 4 [3]])]"

lemma duo_start: "consensus_new sample_lib duo_committee True True = duo_state
    [(0, [(PublicKey 1, Digest 0, \<lparr>c_header = header_default\<lparr>h_author := PublicKey 1\<rparr>, c_votes = []\<rparr>),
       (PublicKey 2, Digest 0, \<lparr>c_header = header_default\<lparr>h_author := PublicKey 2\<rparr>, c_votes = []\<rparr>)])] 0 0 [] []"
  by (simp add: consensus_new_def con_state_new_def run_state_def sample_lib_cert_digest Let_def header_default_def digest_default_def
      cert_origin_def cert_round_def)

lemmas duo_eval = insert_certificate_def dag_find_def visit_parent_def con_update_def retain_dag_def ord_cmp_def
  support_def u64_range_def order_dag_def

lemma bindR_done: "bindR m (foldR f []) = m"
  by (cases m) simp_all

lemma duo_small [simp]: "\<not> (2 :: round) \<le> 1" "\<not> (3 :: round) \<le> 1" "\<not> (4 :: round) \<le> 1"
  by (simp_all add: word_le_nat_alt)

lemma duo_update:
  "cert_origin x = PublicKey 1 \<Longrightarrow>
   con_update 50 x \<lparr>last_committed_round = l, last_committed = [(PublicKey 1, r), (PublicKey 2, q)], dag = d\<rparr>
     = (let r = max r (cert_round x); l = max q r in \<lparr>last_committed_round = l, last_committed = [(PublicKey 1, r), (PublicKey 2, q)],
          dag = retain_dag 50 l (PublicKey 2, q) (retain_dag 50 l (PublicKey 1, r) d)\<rparr>)"
  "cert_origin x = PublicKey 2 \<Longrightarrow>
   con_update 50 x \<lparr>last_committed_round = l, last_committed = [(PublicKey 1, r), (PublicKey 2, q)], dag = d\<rparr>
     = (let q = max q (cert_round x); l = max q r in \<lparr>last_committed_round = l, last_committed = [(PublicKey 1, r), (PublicKey 2, q)],
          dag = retain_dag 50 l (PublicKey 2, q) (retain_dag 50 l (PublicKey 1, r) d)\<rparr>)"
  by (simp_all add: con_update_def Let_def max.commute)

lemma duo_first: "run_consensus sample_lib duo_committee 50 (take 5 duo_deliveries) (consensus_new sample_lib duo_committee True True)
    = Inr (duo_state ([(0, [duo_genesis 1, duo_genesis 2]), (1, [duo_entry 1 1 1 [0]])] @ duo_upper) 0 0 [] [])"
  by (simp add: run_consensus_def duo_deliveries_def duo_start duo_quiet) (simp add: duo_eval)

lemma duo_second:
  "\<exists>b. Consensus.process_certificate sample_lib duo_committee 50 (duo_cert 1 5 5 [4])
     (duo_state ([(0, [duo_genesis 1, duo_genesis 2]), (1, [duo_entry 1 1 1 [0]])] @ duo_upper) 0 0 [] [])
   = Inr (duo_state ((0, [duo_genesis 2]) # duo_upper @ [(5, [duo_entry 1 5 5 [4]])]) 2 0 [duo_cert 1 1 1 [0], duo_cert 1 2 2 [1]] [b])"
proof -
  let ?d = "([(0, [duo_genesis 1, duo_genesis 2]), (1, [duo_entry 1 1 1 [0]])] @ duo_upper) @ [(5, [duo_entry 1 5 5 [4]])]"
  have A: "order_dag 50 (duo_cert 1 2 2 [1]) \<lparr>last_committed_round = 0, last_committed = [(PublicKey 1, 0), (PublicKey 2, 0)], dag = ?d\<rparr>
     = [duo_cert 1 1 1 [0], duo_cert 1 2 2 [1]]" by (simp add: duo_eval)
  have B: "fold (con_update 50) [duo_cert 1 1 1 [0], duo_cert 1 2 2 [1]]
     \<lparr>last_committed_round = 0, last_committed = [(PublicKey 1, 0), (PublicKey 2, 0)], dag = ?d\<rparr>
    = \<lparr>last_committed_round = 2, last_committed = [(PublicKey 1, 2), (PublicKey 2, 0)], dag = (0, [duo_genesis 2]) # duo_upper @ [(5, [duo_entry 1 5 5 [4]])]\<rparr>"
    by (simp add: duo_update Let_def max_def) (simp add: retain_dag_def)
  show ?thesis
    by (subst commit_turn [where dg = "Digest 2" and l = "duo_cert 1 2 2 [1]", OF _ _ _ _ _ _ _ _ _ A _ B];
        simp add: insert_certificate_def leader_def order_leaders_def support_def u64_range_def; simp?) (rule exI, rule refl)
qed

lemma duo_third:
  "\<exists>b'. Consensus.process_certificate sample_lib duo_committee 50 (duo_cert 1 7 7 [6])
     (duo_state ((0, [duo_genesis 2]) # duo_upper @ [(5, [duo_entry 1 5 5 [4]]), (1, [duo_entry 1 1 1 [0]]), (6, [duo_entry 1 6 6 [5]])]) 2 0 prim [b])
   = Inr (duo_state [(2, [duo_entry 2 2 102 [1]]), (4, [duo_entry 1 4 4 [3]]), (5, [duo_entry 1 5 5 [4]]), (6, [duo_entry 1 6 6 [5]]), (7, [duo_entry 1 7 7 [6]])]
      4 2 (prim @ [duo_cert 1 1 1 [0], duo_cert 2 2 102 [1], duo_cert 1 3 3 [2, 102], duo_cert 1 4 4 [3]]) [b, b'])"
proof -
  let ?d = "((0, [duo_genesis 2]) # duo_upper @ [(5, [duo_entry 1 5 5 [4]]), (1, [duo_entry 1 1 1 [0]]), (6, [duo_entry 1 6 6 [5]])]) @ [(7, [duo_entry 1 7 7 [6]])]"
  let ?e = "[(2, [duo_entry 2 2 102 [1]]), (4, [duo_entry 1 4 4 [3]]), (5, [duo_entry 1 5 5 [4]]), (6, [duo_entry 1 6 6 [5]]), (7, [duo_entry 1 7 7 [6]])]"
  let ?b = "[duo_cert 1 1 1 [0], duo_cert 2 2 102 [1], duo_cert 1 3 3 [2, 102], duo_cert 1 4 4 [3]]"
  have A: "order_dag 50 (duo_cert 1 4 4 [3]) \<lparr>last_committed_round = 2, last_committed = [(PublicKey 1, 2), (PublicKey 2, 0)], dag = ?d\<rparr> = ?b"
    by (simp add: duo_eval)
  have B: "fold (con_update 50) ?b \<lparr>last_committed_round = 2, last_committed = [(PublicKey 1, 2), (PublicKey 2, 0)], dag = ?d\<rparr>
    = \<lparr>last_committed_round = 4, last_committed = [(PublicKey 1, 4), (PublicKey 2, 2)], dag = ?e\<rparr>"
    by (simp add: duo_update Let_def max_def) (simp add: retain_dag_def)
  show ?thesis
    by (subst commit_turn [where dg = "Digest 4" and l = "duo_cert 1 4 4 [3]", OF _ _ _ _ _ _ _ _ _ A _ B];
        simp add: insert_certificate_def leader_def order_leaders_def support_def u64_range_def; simp?) (rule exI, rule refl)
qed

text \<open>C39. The certificate of round 1 is committed with the leader of round 2 and removed from the DAG. It is
  delivered again, and the leader of round 4 commits it a second time, because a certificate of the
  second authority, which was not committed before, still names it as a parent.\<close>

theorem replay_commits_twice:
  "\<exists>s. run_consensus sample_lib duo_committee 50 duo_deliveries (consensus_new sample_lib duo_committee True True) = Inr s
    \<and> to_primary s = [duo_cert 1 1 1 [0], duo_cert 1 2 2 [1],
        duo_cert 1 1 1 [0], duo_cert 2 2 102 [1], duo_cert 1 3 3 [2, 102], duo_cert 1 4 4 [3]]"
proof -
  obtain b where 2: "Consensus.process_certificate sample_lib duo_committee 50 (duo_cert 1 5 5 [4])
     (duo_state ([(0, [duo_genesis 1, duo_genesis 2]), (1, [duo_entry 1 1 1 [0]])] @ duo_upper) 0 0 [] [])
   = Inr (duo_state ((0, [duo_genesis 2]) # duo_upper @ [(5, [duo_entry 1 5 5 [4]])]) 2 0 [duo_cert 1 1 1 [0], duo_cert 1 2 2 [1]] [b])"
    using duo_second by blast
  have D: "duo_deliveries = take 5 duo_deliveries @ [duo_cert 1 5 5 [4], duo_cert 1 1 1 [0], duo_cert 1 6 6 [5], duo_cert 1 7 7 [6]]"
    by (simp add: duo_deliveries_def)
  have "run_consensus sample_lib duo_committee 50 duo_deliveries (consensus_new sample_lib duo_committee True True)
    = foldR (Consensus.process_certificate sample_lib duo_committee 50) [duo_cert 1 5 5 [4], duo_cert 1 1 1 [0], duo_cert 1 6 6 [5], duo_cert 1 7 7 [6]]
       (duo_state ([(0, [duo_genesis 1, duo_genesis 2]), (1, [duo_entry 1 1 1 [0]])] @ duo_upper) 0 0 [] [])"
    by (subst D) (use duo_first in \<open>simp only: run_consensus_def foldR_append bindR_simps\<close>)
  also have "\<dots> = Consensus.process_certificate sample_lib duo_committee 50 (duo_cert 1 7 7 [6])
     (duo_state ((0, [duo_genesis 2]) # duo_upper @ [(5, [duo_entry 1 5 5 [4]]), (1, [duo_entry 1 1 1 [0]]), (6, [duo_entry 1 6 6 [5]])]) 2 0
        [duo_cert 1 1 1 [0], duo_cert 1 2 2 [1]] [b])"
    by (simp add: 2 [simplified] duo_quiet bindR_done) (simp add: insert_certificate_def bindR_done)
  finally show ?thesis using duo_third [of "[duo_cert 1 1 1 [0], duo_cert 1 2 2 [1]]" b] by (auto simp: run_state_def)
qed

end
