(* ===== verification/Spec2Isabelle.thy ===== *)
theory Spec2Isabelle
  imports KeyFiles NodeStart BenchmarkClient NetworkReceiver Splits ReplicaOutputs NodeMain ChainRun CoreFuel MessageProperties CertificateProperties Waiters Proposer WorkerNode
    NetworkLink Replays
begin

text \<open>
  \<^bold>\<open>MRV: a Narwhal/Tusk node with an ordering layer behind the consensus.\<close>

  \<^bold>\<open>The program.\<close> A validator is one primary and some workers. Clients send transactions to a worker; it
  cuts them into batches, sends each batch to the workers of the other validators with the same id, and
  tells its primary the digest of a batch when validators that hold a quorum of stake have it. The primaries
  build a DAG: each proposes one header per round, which names batches and a quorum of certificates of
  the round before; a header that is voted for by a quorum becomes a certificate. Each primary hands its
  certificates, parents first, to the consensus (Tusk), which commits a leader every second round with the
  history below it and cuts the committed sequence into numbered batches. The MRV executor reorders
  each batch by what the committed DAG shows about who saw which certificate first, and releases it.
  Tasks talk through channels and share one store per process; processes talk through the two senders of
  the network crate.

  \<^bold>\<open>Which theory models what\<close> (paths below \<open>src/\<close>):

  \<^item> \<open>Prelude\<close>: machine integers, results with panics, the threading of state, maps as association lists,
    sums of stake. \<open>bindR\<close> and \<open>foldR\<close> run a computation that may panic.
  \<^item> \<open>Crypto\<close>: \<open>crypto/src/lib.rs\<close>. \<open>Config\<close>, \<open>KeyFiles\<close>: \<open>config/src/lib.rs\<close>, its data and its files, with what
    \<open>node/src/main.rs\<close> writes and reads. \<open>StoreModel\<close>: \<open>store/src/lib.rs\<close>; its locale \<open>kv_store\<close> is what the
    clients of a store rely on.
  \<^item> \<open>Messages\<close>, \<open>Aggregators\<close>: \<open>primary/src/messages.rs\<close>, \<open>error.rs\<close>, \<open>aggregators.rs\<close>;
    \<open>MessageProperties\<close> and \<open>CertificateProperties\<close> are about both.
  \<^item> \<open>PrimaryBase\<close>: the message types of \<open>primary/src/primary.rs\<close> and the node as the tasks see it.
    \<open>Synchronizer\<close>, \<open>PrimaryCore\<close>, \<open>PrimaryTasks\<close>, \<open>Proposer\<close>, \<open>Waiters\<close>: \<open>synchronizer.rs\<close>, \<open>core.rs\<close>,
    \<open>garbage_collector.rs\<close> with \<open>helper.rs\<close>, \<open>payload_receiver.rs\<close> and the two handlers of \<open>primary.rs\<close>,
    \<open>proposer.rs\<close>, \<open>header_waiter.rs\<close> with \<open>certificate_waiter.rs\<close>. \<open>CoreInvariants\<close>, \<open>CoreSafety\<close>,
    \<open>CoreDelivery\<close>, \<open>CoreFuel\<close>, \<open>CoreProperties\<close> are about the core; \<open>PrimaryDemo\<close> is a node for sample runs.
  \<^item> \<open>CoreChannels\<close>, \<open>PrimaryNode\<close>, \<open>PrimaryProperties\<close>: the whole primary that \<open>Primary::spawn\<close> of \<open>primary.rs\<close> makes, as
    a transition system: every task with its state, the channels between them as what was sent and how much of it was
    taken (\<open>core_grows\<close>, \<open>tasks_inv\<close>, \<open>node_inv\<close>), and what follows for the other nodes.
  \<^item> \<open>WorkerTasks\<close>, \<open>WorkerSync\<close>, \<open>WorkerNode\<close>: \<open>worker/src\<close>: its tasks, its synchronizer, and the whole
    worker of \<open>worker.rs\<close> as a transition system over the channels.
  \<^item> \<open>NetworkSender\<close>, \<open>NetworkReceiver\<close>, \<open>NetworkLink\<close>: \<open>network/src\<close>: the senders with their connection tasks; the receiver
    with its accept loop and its runners, and a connection of the simple sender; a reliable connection with the peer at its other
    end. The last three are transition systems.
  \<^item> \<open>Commits\<close>, \<open>Consensus\<close>, \<open>ConsensusSafety\<close>: \<open>consensus/src/lib.rs\<close> and what one node keeps to. \<open>Agreement\<close> and
    \<open>Replicas\<close> compare two nodes, first their leaders, then their batches. \<open>Replays\<close> and \<open>Splits\<close> show what a certificate
    does that is delivered twice or late, on runs for which \<open>ConsensusRuns\<close> gives the turns.
  \<^item> \<open>MrvOrder\<close>, \<open>MrvGraph\<close>, \<open>MrvSort\<close>, \<open>MrvExecutor\<close>: \<open>mrv_executor/src/lib.rs\<close>: pair verdicts, strongly connected
    components, the sorting of a batch, the executor around it.
  \<^item> \<open>NodePipeline\<close>, \<open>NodeMain\<close> and this theory: core, consensus and executor put together, first as functions, then as
    the whole process that \<open>run\<close> of \<open>node/src/main.rs\<close> starts, primary included. \<open>ReplicaOutputs\<close> compares two of them, and
    \<open>ChainRun\<close> is a run of one until it has output.
    \<open>NodeStart\<close> is \<open>main\<close> and \<open>run\<close> themselves: from the command and the files to the process of a primary or a worker.
  \<^item> \<open>BenchmarkClient\<close>: \<open>node/src/benchmark_client.rs\<close>, the load generator.

  \<^bold>\<open>Conventions.\<close> An integer of the code is a word of its width, \<open>usize\<close> is 64 bits; sums wrap as they do in
  the release profile, and where the code subtracts or indexes in a way that can panic the model has a panic branch.
  \<open>'a res\<close> is \<open>panic + 'a\<close>: an \<open>expect\<close>, \<open>unwrap\<close> or \<open>panic!\<close> is the value \<open>Inl\<close>; \<open>act\<close> adds an error of the code's own
  to it and threads a state. A \<open>HashMap\<close> or \<open>BTreeMap\<close> is an association list; the list of a hash map is
  its iteration order, and where the code iterates over one that it builds, the order is the argument \<open>hash_order\<close>. A channel is
  the list of what was sent. A cancel handler is the position of its message in the list of what was
  sent. What \<open>tokio::select!\<close> takes next, what the random broadcasts choose and what the clocks show is the
  choice of the event or the step.

  Code from outside is an argument: \<open>crypto_lib\<close> (ed25519-dalek, SHA-512, base64), \<open>rocks\<close> (RocksDB), \<open>json\<close> (serde_json),
  and the codecs for bincode in \<open>node\<close> and \<open>worker\<close>. Properties name what they need of it: \<open>rocks_ok\<close> (a read returns
  the last write and I/O does not fail), \<open>codec_ok\<close> (what was serialized reads back, and a header does not
  read as a certificate), \<open>signs_ok\<close> (what the node signs verifies under its key), \<open>batch_accepts\<close> (a batch verification
  accepts signatures that verify one by one), and that hash values of different things differ, stated for the
  things at hand (\<open>inj_on\<close>, \<open>apart\<close>). A set or map of the code that is a list here (the parents and the payload of a header) has
  no repetitions, which is named where a property needs it. All of them hold of the sample instances the witnesses run on.

  \<^bold>\<open>Bounds.\<close> The handlers of the core call each other; \<open>core_depth\<close> is 7 and \<open>handlers_terminate\<close> shows that
  it is always enough, so the recursion of the code ends. All other loops are structural or have a termination proof.
  \<open>sane_stake\<close> bounds the total stake by \<open>2^31\<close>, above which the \<open>u32\<close> thresholds wrap (\<open>quorum_wraps\<close>). Rounds
  plus \<open>gc_depth\<close>, the number of batches and the bytes a client sends stay below \<open>2^64\<close>.

  \<^bold>\<open>What is shown.\<close>

  \<^item> Executor: the sorting of a batch by its pair verdicts equals its specification for every iteration order of the hash maps and
    so is the same on every replica; batches leave whole and in the order of their index, at the latest
    a window after their rounds; the counters of who has seen what are exact and monotone.
  \<^item> Consensus: on causal deliveries no lookup fails, nothing is committed twice, a leader with \<open>f+1\<close> of
    support is committed with every later leader, the history of a leader comes whole and by round.
  \<^item> Two nodes: the leaders a node has committed are all the leaders that its last one reaches through certificates
    (\<open>leaders_to\<close>), so two nodes agree on them (\<open>leaders_agree\<close>). When nothing comes late the DAG of a node is the window of
    its deliveries that is still open (\<open>exact_dag\<close>) and the batches are a function of the leaders (\<open>replay\<close>), so two nodes
    agree on them (\<open>order_agrees\<close>), and two validators on their outputs (\<open>validators_agree\<close>).
  \<^item> Core: one vote per author and round while the events are timely, votes only for headers that it was handed and whose parents
    and payload it has, delivery after the parents; the handlers end. Certificates: exactly one per header, it verifies everywhere, two share voters. Proposer: increasing
    rounds on a quorum each. Waiters: sound, exact, and complete once what they wait for is stored.
  \<^item> Store: no wake-up is lost. Network: a handler resolves once and after the peer has dispatched the message,
    messages stay in order over any failures, and every state can still deliver;
    a receiver takes from each connection, whatever the others do, an initial part of what comes (\<open>receiver_dispatches\<close>). Workers: the primary learns only
    of batches that are cut from the clients' stream, stored, and acknowledged by a quorum.
  \<^item> Files: a node reads the keys that were written for it, and the committee it reads is ordered; a process that
    starts is in an initial state of its transition system, with its own key in the committee (\<open>started_primary\<close>, \<open>started_worker\<close>). Client: its
    transactions are all different.
  \<^item> Together: what the core delivers makes neither later stage panic, and the output is a rearrangement batch by
    batch of a duplicate-free part of it; this holds in the states of a whole validator process whose network
    and deliveries keep to the hypotheses that \<open>validator_output_order\<close> names. A whole
    primary makes headers on quorums of delivered certificates and votes only for such headers that the network brought.

  The hypotheses about other nodes are explicit: \<open>delivery_ok\<close> and \<open>causal\<close> (what the core of a node delivers
  and in which order), \<open>whole_history_first\<close> (all the parents before the certificate), \<open>in_time\<close> (no certificate comes after a later
  one of its author was committed, or below the \<open>gc_depth\<close> of the node), \<open>primary_world\<close> (what the network brings to a whole primary and what passes its checks; the rest is free),
  \<open>vouched\<close> (an honest node checked the parents of a certificate), \<open>events_timely\<close>
  (the waiters send nothing back that is older than the clean-up round, the rounds of the consensus do not go back, the proposer
  makes own headers). None of \<open>delivery_ok\<close>, \<open>in_time\<close> and \<open>events_timely\<close> is checked by the code, and for each a theorem
  below shows what happens without it.

  \<^bold>\<open>What modelling found.\<close> Several theorems are about misbehaviour. A certificate that arrives again after the
  clean-up is committed twice (\<open>replay_commits_twice\<close>), and the executor never releases the batch in which it
  comes the second time (\<open>repeated_certificate_blocks\<close>). A certificate that arrives at one node before and at another after
  a later certificate of its author is committed makes the two commit different batches (\<open>late_certificate_splits\<close>). A vote that completes the quorum of the own current header after the clean-up has passed its
  round makes the core panic, in every such state (\<open>late_quorum_panics\<close>), and a header that comes back from a waiter after that is
  voted for again (\<open>late_loopback_votes_twice\<close>). \<open>README.md\<close> says that the graph of a batch has causal edges beside the
  evidence-backed ones; \<open>sort_batch\<close> adds only the verdicts of \<open>compare_pair\<close>, so a certificate whose horizon was capped can
  come before its own parent (\<open>sort_batch_meets_spec_witness\<close>). Two headers can have the same digest under every hash function,
  because payload and parents are hashed without their lengths (\<open>header_digest_collision\<close>). Keys that are written over a longer
  file cannot be read (\<open>stale_tail\<close>), and an error while writing them is not reported (\<open>lost_write_error\<close>).

  \<^bold>\<open>Not modelled.\<close> Sockets and framing (tokio), the parsing of the command
  lines of \<open>node/src\<close> (clap), how the client waits for the nodes, the Python scripts: they only do I/O. The derived implementations of
  serde for the messages are codecs of the model, \<open>Debug\<close> and \<open>Display\<close> of the messages, log lines
  and the code under the feature \<open>benchmark\<close> are left out of the modelled files. Fairness of the scheduler is not
  assumed: a liveness property says that the state that is reached can still do what it has to do.
\<close>

section \<open>The stages of a node together\<close>

text \<open>C7. The two stages compose: on causal deliveries the consensus and the executor both run without
  a panic, and the executor's output is a rearrangement, batch by batch, of an initial part of the
  commit sequence of the consensus, in which no certificate occurs twice; a batch that is held
  back has a certificate less than a window below the highest committed round.\<close>

theorem node_output_order:
  assumes "sane_stake c" "causal L c gc_depth (set (genesis c)) certs"
    and "inj_on (cert_digest L) (set certs \<union> set (genesis c))" "length certs < 2 ^ 64" "hash_order_ok h"
  shows "\<exists>s st k outs. run_consensus L c gc_depth certs (consensus_new L c True True) = Inr s
    \<and> run_executor L h (to_output s) (spawn None n w) = Inr (True, st)
    \<and> released (take k (to_output s)) outs \<and> tx_output st = concat outs
    \<and> to_primary s = concat (map certificates (to_output s)) \<and> distinct (to_primary s)
    \<and> (k < length (to_output s) \<longrightarrow> (\<exists>x \<in> set (certificates (to_output s ! k)).
         fold max (map cert_round (to_primary s)) 0 < saturating_add_u64 (cert_round x) (max w 1)))"
  using stages_compose [OF assms, of n w] by blast

lemma node_output_order_witness:
  "\<exists>s st k outs. run_consensus sample_lib solo_committee 50 (map solo_cert [1, 2, 3, 4, 5]) solo_new = Inr s
    \<and> run_executor sample_lib plain_order (to_output s) (spawn None 4 2) = Inr (True, st)
    \<and> released (take k (to_output s)) outs \<and> tx_output st = concat outs"
proof -
  have "inj_on (cert_digest sample_lib) (set (map solo_cert [1, 2, 3, 4, 5]) \<union> set (genesis solo_committee))"
    using solo_delivery by (simp only: delivery_ok_def)
  from node_output_order [OF solo_sane solo_causal5 this _ orders_ok(1), of 4 2] show ?thesis
    unfolding solo_new_def by auto
qed

text \<open>C2. A whole validator process: every task of the primary, the consensus and the executor, with the channels between
  them. In a state that it reaches, what the consensus has committed is a
  duplicate-free part of the certificates that the core delivered, cut into the batches; what the executor has sent is a
  rearrangement, batch by batch, of an initial part of them; and the next certificate makes the consensus
  and the next batch the executor go on without a panic. It is assumed of the run up to that state that
  the certificates that the network brought and that pass \<open>Certificate::verify\<close> were vouched for (\<open>primary_world\<close>;
  \<open>primary_vouches\<close> gives the same to the others; what fails the checks is free), that the certificates which the core
  delivered have different authors or rounds, so that none was delivered twice (\<open>replay_commits_twice\<close> shows what
  happens otherwise), that none is of round 0, that \<open>gc_depth\<close> fits above every round, and that there are
  fewer than \<open>2^64\<close> of them; and of the libraries that the database and the codec do what they promise.\<close>

theorem validator_output_order:
  assumes "validator_reach N p h v" "rocks_ok N" "codec_ok N" "sane_stake (committee_of N)" "0 < total_stake (committee_of N)"
    and "primary_world N P (v_primary v)" "hash_order_ok h"
    and "\<forall>x \<in> set (new_certificates v). cert_round x \<noteq> 0 \<and> unat (cert_round x) + unat (gc_depth_of N) < 2 ^ 64"
    and "distinct (map slot (new_certificates v))" "length (new_certificates v) < 2 ^ 64"
  shows "distinct (to_primary (v_consensus v)) \<and> set (to_primary (v_consensus v)) \<subseteq> set (new_certificates v)
    \<and> to_primary (v_consensus v) = concat (map certificates (to_output (v_consensus v)))
    \<and> (\<exists>k outs. k \<le> v_batches v \<and> released (take k (to_output (v_consensus v))) outs \<and> tx_output (v_executor v) = concat outs)
    \<and> (v_certificates v < length (new_certificates v) \<longrightarrow> (\<exists>k. Consensus.process_certificate (lib N) (committee_of N) (gc_depth_of N)
          (new_certificates v ! v_certificates v) (v_consensus v) = Inr k))
    \<and> (v_batches v < length (to_output (v_consensus v)) \<longrightarrow> (\<exists>e. on_committed_batch (lib N) h
          (to_output (v_consensus v) ! v_batches v) (v_executor v) = Inr (True, e)))"
  by (rule validator_stages [OF assms])

text \<open>Five rounds of the committee of one, with the first two certificates committed and sent on.\<close>

lemma validator_output_order_witness:
  "\<exists>v. validator_reach chain_node parameters_default plain_order v \<and> new_certificates v = map chain_cert [1, 2, 3, 4, 5]
    \<and> set (tx_output (v_executor v)) = {chain_cert 1, chain_cert 2}
    \<and> distinct (to_primary (v_consensus v)) \<and> set (to_primary (v_consensus v)) \<subseteq> set (new_certificates v)
    \<and> (\<exists>k outs. k \<le> v_batches v \<and> released (take k (to_output (v_consensus v))) outs \<and> tx_output (v_executor v) = concat outs)"
proof -
  obtain v where v: "validator_reach chain_node parameters_default plain_order v" "new_certificates v = map chain_cert [1, 2, 3, 4, 5]"
    "primary_world chain_node chain_world (v_primary v)" "set (tx_output (v_executor v)) = {chain_cert 1, chain_cert 2}"
    using chain_validator [OF orders_ok(1)] by blast
  have "sane_stake (committee_of chain_node)" "0 < total_stake (committee_of chain_node)" using chain_sane by simp_all
  from validator_output_order [OF v(1) chain_ok this v(3) orders_ok(1) chain_delivered [OF v(2)]] v show ?thesis by blast
qed

section \<open>Two validators\<close>

text \<open>C1. Two whole validator processes output the same certificates in the same order, one of them perhaps fewer, however their
  tasks are scheduled, in whatever order their networks bring the messages, whatever the iteration orders of their hash maps, and
  however far each has come, if both runs are fair. \<open>P\<close> are the certificates of the system, no two of one author and round.
  \<open>validator_fair\<close> says of a process: it is reached; the database and the codec do what they promise; what its network brought and
  what passes \<open>Certificate::verify\<close> was vouched for by certificates of \<open>P\<close>, and what its core delivered is in \<open>P\<close>, with
  digests that tell the certificates apart from each other and from the headers (\<open>primary_world\<close>); no two of the delivered
  certificates have the same author and round, so none was delivered twice; their rounds are not 0 and leave room for \<open>gc_depth\<close>,
  and there are fewer than \<open>2^64\<close>; and none reached its consensus later than one of the same author that it had committed, or
  more than \<open>gc_depth\<close> below what it had committed (\<open>in_time\<close>; \<open>late_certificate_splits\<close> is why that is needed).\<close>

theorem validators_agree:
  assumes "validator_fair N p h P v" "validator_fair M q k P w"
    and "lib M = lib N" "committee_of M = committee_of N" "gc_depth_of M = gc_depth_of N"
    and "sane_stake (committee_of N)" "0 < total_stake (committee_of N)" "inj_on slot P"
  shows "prefix (tx_output (v_executor v)) (tx_output (v_executor w)) \<or> prefix (tx_output (v_executor w)) (tx_output (v_executor v))"
  by (rule validators_prefix [OF assms])

text \<open>The run of \<open>chain_node\<close> in two processes with opposite iteration orders: both have output, and it is the same.\<close>

lemma validators_agree_witness:
  "\<exists>v w. validator_reach chain_node parameters_default plain_order v \<and> validator_reach chain_node parameters_default reverse_order w
    \<and> tx_output (v_executor v) = tx_output (v_executor w) \<and> set (tx_output (v_executor v)) = {chain_cert 1, chain_cert 2}"
proof -
  obtain v where v: "validator_reach chain_node parameters_default plain_order v" "new_certificates v = map chain_cert [1, 2, 3, 4, 5]"
    "v_certificates v = 5" "primary_world chain_node chain_world (v_primary v)"
    and out_v: "distinct (tx_output (v_executor v))" "set (tx_output (v_executor v)) = {chain_cert 1, chain_cert 2}"
    using chain_validator [OF orders_ok(1)] by blast
  obtain w where w: "validator_reach chain_node parameters_default reverse_order w" "new_certificates w = map chain_cert [1, 2, 3, 4, 5]"
    "v_certificates w = 5" "primary_world chain_node chain_world (v_primary w)"
    and out_w: "distinct (tx_output (v_executor w))" "set (tx_output (v_executor w)) = {chain_cert 1, chain_cert 2}"
    using chain_validator [OF orders_ok(2)] by blast
  have c: "sane_stake (committee_of chain_node)" "0 < total_stake (committee_of chain_node)" using chain_sane by simp_all
  have "prefix (tx_output (v_executor v)) (tx_output (v_executor w)) \<or> prefix (tx_output (v_executor w)) (tx_output (v_executor v))"
    by (rule validators_agree [OF chain_fair [OF orders_ok(1) v] chain_fair [OF orders_ok(2) w] refl refl refl c chain_slots])
  moreover have "length (tx_output (v_executor v)) = length (tx_output (v_executor w))"
    using distinct_card [OF out_v(1)] distinct_card [OF out_w(1)] out_v(2) out_w(2) by simp
  ultimately have "tx_output (v_executor v) = tx_output (v_executor w)" by (auto simp: prefix_def)
  with v(1) w(1) out_v(2) show ?thesis by blast
qed

end
